(* ===== verification/Prelude.thy ===== *)
theory Prelude
  imports Complex_Main "HOL-Library.AList" "HOL-Library.List_Lexorder"
    "HOL-Library.Char_ord" "HOL-Library.Product_Lexorder" "HOL-Library.Multiset"
begin

text \<open>
  Shared vocabulary of the development: how Python values are represented, the parts of the
  Python language and standard library the modelled modules use, and the generic lemmas the
  component theories share.

  \<^item> An exception is the left value of a sum (\<open>py_error + 'a\<close>).
  \<^item> A dict is an association list in insertion order with distinct keys:
    \<open>AList.update\<close> keeps the position of a key that is present and appends a new one,
    \<open>map_of\<close> is \<open>d.get(k)\<close>, the list itself is \<open>d.items()\<close>.
  \<^item> A \<open>datetime.date\<close> is its proleptic Gregorian ordinal, so \<open>timedelta(days=n)\<close>
    arithmetic is integer arithmetic.
  \<^item> A \<open>str\<close> is a list of characters, ordered lexicographically by code point, which is how
    \<open>sorted\<close> orders hotkeys.
\<close>

named_theorems py_simps \<open>evaluation rules of the Python vocabulary\<close>
named_theorems dict_simps \<open>lookup and update of dicts\<close>

section \<open>Values\<close>

datatype py_error = KeyError | ValueError | TypeError | IndexError | ZeroDivisionError | AttributeError

type_synonym hotkey = string
type_synonym date = int
type_synonym ('k, 'v) dict = "('k \<times> 'v) list"

text \<open>\<open>float("inf")\<close> as the default of a \<open>dict.get\<close> in a sort key: greater than every number.\<close>

datatype 'a inf_default = Known 'a | Unknown

instantiation inf_default :: (linorder) linorder
begin

fun less_eq_inf_default :: "'a inf_default \<Rightarrow> 'a inf_default \<Rightarrow> bool" where
  "less_eq_inf_default (Known a) (Known b) \<longleftrightarrow> a \<le> b"
| "less_eq_inf_default _ Unknown \<longleftrightarrow> True"
| "less_eq_inf_default Unknown (Known _) \<longleftrightarrow> False"

definition less_inf_default :: "'a inf_default \<Rightarrow> 'a inf_default \<Rightarrow> bool" where
  "less_inf_default a b \<longleftrightarrow> a \<le> b \<and> \<not> b \<le> a"

instance
proof
  fix x y z :: "'a inf_default"
  show "x < y \<longleftrightarrow> x \<le> y \<and> \<not> y \<le> x" by (simp add: less_inf_default_def)
  show "x \<le> x" by (cases x) auto
  show "x \<le> y \<Longrightarrow> y \<le> z \<Longrightarrow> x \<le> z" by (cases x; cases y; cases z) auto
  show "x \<le> y \<Longrightarrow> y \<le> x \<Longrightarrow> x = y" by (cases x; cases y) auto
  show "x \<le> y \<or> y \<le> x" by (cases x; cases y) auto
qed

end

definition get_or_inf :: "('k, 'v) dict \<Rightarrow> 'k \<Rightarrow> 'v inf_default" where
  "get_or_inf d k = (case map_of d k of Some v \<Rightarrow> Known v | None \<Rightarrow> Unknown)"

lemma map_sum_Inr_iff [simp]: "map_sum id f s = Inr y \<longleftrightarrow> (\<exists>x. s = Inr x \<and> y = f x)"
  by (cases s) auto

lemma map_sum_Inr_any: "map_sum f g s = Inr y \<longleftrightarrow> (\<exists>x. s = Inr x \<and> y = g x)"
  by (cases s) auto

lemma map_sum_Inl_iff [simp]: "map_sum id f s = Inl e \<longleftrightarrow> s = Inl e"
  by (cases s) auto

section \<open>Strings, integers and dates\<close>

definition is_space :: "char \<Rightarrow> bool" where
  "is_space c \<longleftrightarrow> (let n = (of_char c :: nat) in (9 \<le> n \<and> n \<le> 13) \<or> (28 \<le> n \<and> n \<le> 32))"

definition strip :: "string \<Rightarrow> string" where
  "strip s = rev (dropWhile is_space (rev (dropWhile is_space s)))"

definition lower_char :: "char \<Rightarrow> char" where
  "lower_char c = (let n = (of_char c :: nat) in if 65 \<le> n \<and> n \<le> 90 then char_of (n + 32) else c)"

definition lower :: "string \<Rightarrow> string" where
  "lower s = map lower_char s"

definition startswith :: "string \<Rightarrow> string \<Rightarrow> bool" where
  "startswith s p \<longleftrightarrow> take (length p) s = p"

definition is_digit :: "char \<Rightarrow> bool" where
  "is_digit c \<longleftrightarrow> 48 \<le> (of_char c :: nat) \<and> (of_char c :: nat) \<le> 57"

definition digit_val :: "char \<Rightarrow> int" where
  "digit_val c = int (of_char c) - 48"

text \<open>\<open>int(raw)\<close>: an optional sign and decimal digits, single underscores between digits.\<close>

fun digits_from :: "string \<Rightarrow> int \<Rightarrow> bool \<Rightarrow> int option" where
  "digits_from [] acc prev = (if prev then Some acc else None)"
| "digits_from (c # cs) acc prev =
     (if is_digit c then digits_from cs (acc * 10 + digit_val c) True
      else if c = CHR ''_'' \<and> prev then digits_from cs acc False
      else None)"

definition py_int :: "string \<Rightarrow> int option" where
  "py_int raw =
     (case strip raw of
        [] \<Rightarrow> None
      | c # cs \<Rightarrow>
          if c = CHR ''-'' then map_option uminus (digits_from cs 0 False)
          else if c = CHR ''+'' then digits_from cs 0 False
          else digits_from (c # cs) 0 False)"

text \<open>\<open>date(y, m, d)\<close> as an ordinal, by the algorithm of the \<open>datetime\<close> module.\<close>

definition is_leap :: "int \<Rightarrow> bool" where
  "is_leap y \<longleftrightarrow> y mod 4 = 0 \<and> (y mod 100 \<noteq> 0 \<or> y mod 400 = 0)"

definition days_before_year :: "int \<Rightarrow> int" where
  "days_before_year y = (let p = y - 1 in p * 365 + p div 4 - p div 100 + p div 400)"

definition days_in_month :: "int \<Rightarrow> int \<Rightarrow> int" where
  "days_in_month y m =
     (if m = 2 then (if is_leap y then 29 else 28)
      else if m = 4 \<or> m = 6 \<or> m = 9 \<or> m = 11 then 30 else 31)"

definition days_before_month :: "int \<Rightarrow> int \<Rightarrow> int" where
  "days_before_month y m = sum_list (map (days_in_month y) [1..m - 1])"

definition mk_date :: "int \<Rightarrow> int \<Rightarrow> int \<Rightarrow> date" where
  "mk_date y m d = days_before_year y + days_before_month y m + d"

text \<open>\<open>date.fromisoformat\<close> on the one form every supported Python version reads: YYYY-MM-DD.\<close>

definition fromisoformat :: "string \<Rightarrow> date option" where
  "fromisoformat s =
     (if length s = 10 \<and> s ! 4 = CHR ''-'' \<and> s ! 7 = CHR ''-''
         \<and> list_all is_digit (take 4 s @ take 2 (drop 5 s) @ drop 8 s) then
        let y = the (digits_from (take 4 s) 0 False);
            m = the (digits_from (take 2 (drop 5 s)) 0 False);
            d = the (digits_from (drop 8 s) 0 False)
        in if 1 \<le> y \<and> 1 \<le> m \<and> m \<le> 12 \<and> 1 \<le> d \<and> d \<le> days_in_month y m
           then Some (mk_date y m d) else None
      else None)"

text \<open>Environment access: \<open>(environ.get(NAME) or "").strip()\<close>.\<close>

type_synonym environ = "string \<Rightarrow> string option"

definition env_raw :: "environ \<Rightarrow> string \<Rightarrow> string" where
  "env_raw environ name = strip (case environ name of None \<Rightarrow> [] | Some s \<Rightarrow> s)"

definition flag_on :: "environ \<Rightarrow> string \<Rightarrow> bool" where
  "flag_on environ name \<longleftrightarrow> lower (env_raw environ name) \<in> {''1'', ''true'', ''yes'', ''on''}"

section \<open>Dicts\<close>

abbreviation dict_ok :: "('k, 'v) dict \<Rightarrow> bool" where
  "dict_ok d \<equiv> distinct (map fst d)"

abbreviation keys :: "('k, 'v) dict \<Rightarrow> 'k list" where
  "keys d \<equiv> map fst d"

lemma keys_update: "keys (AList.update k v d) = (if k \<in> fst ` set d then keys d else keys d @ [k])"
  by (induction d) auto

lemma key_set_update [simp]: "fst ` set (AList.update k v d) = insert k (fst ` set d)"
proof -
  have "set (keys (AList.update k v d)) = insert k (set (keys d))"
    by (auto simp: keys_update)
  then show ?thesis by simp
qed

lemma dict_ok_update [intro]: "dict_ok d \<Longrightarrow> dict_ok (AList.update k v d)"
  by (simp add: keys_update)

lemma map_of_update [dict_simps]:
  "map_of (AList.update k v d) k' = (if k' = k then Some v else map_of d k')"
  by (simp add: update_conv')

lemma map_of_None_iff [dict_simps]: "map_of d k = None \<longleftrightarrow> k \<notin> fst ` set d"
  by (simp add: map_of_eq_None_iff)

lemma map_of_in_keys: "map_of d k = Some v \<Longrightarrow> k \<in> fst ` set d"
  by (metis map_of_None_iff option.distinct(1))

lemma map_of_keys_iff: "k \<in> fst ` set d \<longleftrightarrow> (\<exists>v. map_of d k = Some v)"
  by (metis map_of_None_iff not_None_eq)

lemma map_of_map_pair [dict_simps]:
  "map_of (map (\<lambda>(k, v). (k, f k v)) d) k = map_option (f k) (map_of d k)"
  by (induction d) auto

lemma map_of_map_const: "k \<in> set ks \<Longrightarrow> map_of (map (\<lambda>k. (k, f k)) ks) k = Some (f k)"
  by (induction ks) auto

lemma map_of_map_const_None: "k \<notin> set ks \<Longrightarrow> map_of (map (\<lambda>k. (k, f k)) ks) k = None"
  by (induction ks) auto

section \<open>Lists\<close>

text \<open>The operative record of an append-only log is the last one that satisfies a test.\<close>

definition last_such :: "('a \<Rightarrow> bool) \<Rightarrow> 'a list \<Rightarrow> 'a option" where
  "last_such P xs = (let ys = filter P xs in if ys = [] then None else Some (last ys))"

lemma last_such_Nil [simp]: "last_such P [] = None"
  by (simp add: last_such_def)

lemma last_such_append:
  "last_such P (xs @ ys) = (case last_such P ys of None \<Rightarrow> last_such P xs | Some y \<Rightarrow> Some y)"
  by (simp add: last_such_def Let_def last_append)

lemma last_such_snoc [simp]:
  "last_such P (xs @ [y]) = (if P y then Some y else last_such P xs)"
  by (simp add: last_such_def Let_def)

lemma last_such_single [simp]: "last_such P [y] = (if P y then Some y else None)"
  by (simp add: last_such_def)

lemma last_such_SomeD: "last_such P xs = Some y \<Longrightarrow> y \<in> set xs \<and> P y"
  using last_in_set [of "filter P xs"] by (auto simp: last_such_def Let_def split: if_splits)

lemma last_such_None_iff: "last_such P xs = None \<longleftrightarrow> (\<forall>x \<in> set xs. \<not> P x)"
  by (auto simp: last_such_def Let_def filter_empty_conv)

lemma last_such_irrelevant:
  "(\<And>y. y \<in> set ys \<Longrightarrow> \<not> P y) \<Longrightarrow> last_such P (xs @ ys) = last_such P xs"
  using last_such_None_iff [of P ys] by (auto simp: last_such_append)

lemma dict_ok_sort: "dict_ok d \<Longrightarrow> dict_ok (sort_key f d)"
proof -
  assume "dict_ok d"
  moreover have "mset (map fst (sort_key f d)) = mset (map fst d)"
    by (simp only: mset_map mset_sort)
  ultimately show ?thesis using mset_eq_imp_distinct_iff by blast
qed

lemma map_of_sort: "dict_ok d \<Longrightarrow> map_of (sort_key f d) = map_of d"
  by (rule map_of_inject_set [THEN iffD2]) (auto intro: dict_ok_sort)

lemma filter_single: "distinct xs \<Longrightarrow> x \<in> set xs \<Longrightarrow> filter (\<lambda>y. x = y) xs = [x]"
  by (induction xs) (auto simp: filter_empty_conv)

lemma foldl_invariant:
  assumes "Q s" and "\<And>s x. x \<in> set xs \<Longrightarrow> Q s \<Longrightarrow> Q (f s x)"
  shows "Q (foldl f s xs)"
  using assms by (induction xs arbitrary: s) auto

lemma foldl_trans:
  assumes "\<And>s. le s s" and "\<And>a b c. le a b \<Longrightarrow> le b c \<Longrightarrow> le a c"
    and "\<And>s x. x \<in> set xs \<Longrightarrow> le s (f s x)"
  shows "le s (foldl f s xs)"
  using assms(3)
proof (induction xs arbitrary: s)
  case Nil
  then show ?case by (simp add: assms(1))
next
  case (Cons x xs)
  have "le s (f s x)" using Cons.prems by simp
  moreover have "le (f s x) (foldl f (f s x) xs)" using Cons.prems by (intro Cons.IH) simp
  ultimately show ?case using assms(2) by simp
qed

end
