(* ===== verification/Interfaces.thy ===== *)
theory Interfaces
  imports Prelude
begin

text \<open>
  The contracts several components share, each a locale whose clients' lemmas are proved once.

  \<^item> \<open>day_machine\<close>: a component that folds one day's observations at a time into a persisted
    state and keeps an invariant; \<open>monotone_machine\<close> adds an order the state only climbs.
    Chronic failure, champion promotion, the release ledger and the capture path are such
    machines.
  \<^item> \<open>ranking\<close>: a sort key that tells every two candidates apart, so a selection by it does
    not depend on the iteration order of a dict. The weight curve, the coldkey cap and the
    champion selection rank this way.
  \<^item> \<open>append_log\<close>: an append-only log of records, as the JSONL files of the ledgers are.
  \<^item> \<open>authenticated_list\<close>: a commitment to a list with membership proofs.
\<close>

section \<open>Day-by-day state machines\<close>

fun admissible :: "('s \<Rightarrow> 'i \<Rightarrow> 's) \<Rightarrow> ('s \<Rightarrow> 'i \<Rightarrow> bool) \<Rightarrow> 's \<Rightarrow> 'i list \<Rightarrow> bool" where
  "admissible step ok s [] = True"
| "admissible step ok s (i # is) = (ok s i \<and> admissible step ok (step s i) is)"

locale day_machine =
  fixes step :: "'s \<Rightarrow> 'i \<Rightarrow> 's"
    and ok :: "'s \<Rightarrow> 'i \<Rightarrow> bool"
    and inv :: "'s \<Rightarrow> bool"
  assumes step_inv: "inv s \<Longrightarrow> ok s i \<Longrightarrow> inv (step s i)"
begin

lemma run_inv: "inv s \<Longrightarrow> admissible step ok s is \<Longrightarrow> inv (foldl step s is)"
  by (induction "is" arbitrary: s) (auto intro: step_inv)

lemma run_inv_prefix:
  "inv s \<Longrightarrow> admissible step ok s (is @ js) \<Longrightarrow> inv (foldl step s is)"
  by (induction "is" arbitrary: s) (auto intro: step_inv)

end

locale monotone_machine = day_machine +
  fixes le :: "'s \<Rightarrow> 's \<Rightarrow> bool"
  assumes le_refl: "le s s"
    and le_trans: "le s t \<Longrightarrow> le t u \<Longrightarrow> le s u"
    and step_le: "inv s \<Longrightarrow> ok s i \<Longrightarrow> le s (step s i)"
begin

lemma run_le: "inv s \<Longrightarrow> admissible step ok s is \<Longrightarrow> le s (foldl step s is)"
proof (induction "is" arbitrary: s)
  case Nil
  show ?case by (simp add: le_refl)
next
  case (Cons i "is")
  then have "le s (step s i)" and "inv (step s i)"
    by (auto intro: step_le step_inv)
  with Cons show ?case by (auto intro: le_trans)
qed

end

section \<open>Ranking by a total key\<close>

locale ranking =
  fixes key :: "'a \<Rightarrow> 'k::linorder"
  assumes key_inj: "key x = key y \<Longrightarrow> x = y"
begin

lemma inj_key: "inj key"
  by (rule injI) (rule key_inj)

lemma map_key_sort: "map key (sort_key key xs) = sort (map key xs)"
  by (rule properties_for_sort [symmetric]) (simp_all add: mset_map)

lemma sort_order_free:
  assumes "mset xs = mset ys"
  shows "sort_key key xs = sort_key key ys"
proof -
  have "mset (map key xs) = mset (map key ys)"
    using assms by (simp add: mset_map)
  then have "sort (map key xs) = sort (map key ys)"
    by (intro properties_for_sort) (simp_all)
  then have "map key (sort_key key xs) = map key (sort_key key ys)"
    by (simp only: map_key_sort)
  then show ?thesis using inj_key by (simp add: inj_map_eq_map)
qed

lemma top_beats_rest:
  assumes "x \<in> set (take k (sort_key key xs))" and "y \<in> set (drop k (sort_key key xs))"
  shows "key x \<le> key y"
proof -
  have "sorted (map key (take k (sort_key key xs) @ drop k (sort_key key xs)))"
    by simp
  then have "\<forall>a \<in> set (take k (sort_key key xs)). \<forall>b \<in> set (drop k (sort_key key xs)). key a \<le> key b"
    by (simp only: map_append sorted_append) auto
  with assms show ?thesis by blast
qed

end

section \<open>Append-only logs\<close>

locale append_log =
  fixes read :: "'w \<Rightarrow> 'r list" and append :: "'w \<Rightarrow> 'r list \<Rightarrow> 'w"
  assumes read_append: "read (append w rs) = read w @ rs"
begin

lemma read_appends: "read (foldl append w rss) = read w @ concat rss"
  by (induction rss arbitrary: w) (auto simp: read_append)

lemma history_kept: "\<exists>rest. read (foldl append w rss) = read w @ rest"
  by (auto simp: read_appends)

end

section \<open>Authenticated lists\<close>

text \<open>
  Hash functions are not injective, so a law about a commitment reads "or here is a collision": two
  different inputs with one digest, one among the inputs hashed to commit to the list, the other
  among those hashed to check the proof (or to commit to the other list).
\<close>

definition collides :: "('q \<Rightarrow> 'd) \<Rightarrow> 'q set \<Rightarrow> 'q set \<Rightarrow> bool" where
  "collides H A B \<longleftrightarrow> (\<exists>a \<in> A. \<exists>b \<in> B. a \<noteq> b \<and> H a = H b)"

lemma collidesI: "a \<in> A \<Longrightarrow> b \<in> B \<Longrightarrow> a \<noteq> b \<Longrightarrow> H a = H b \<Longrightarrow> collides H A B"
  by (auto simp: collides_def)

lemma collides_mono: "collides H A B \<Longrightarrow> A \<subseteq> A' \<Longrightarrow> B \<subseteq> B' \<Longrightarrow> collides H A' B'"
  by (auto simp: collides_def)

lemma no_collision: "inj_on H (A \<union> B) \<Longrightarrow> \<not> collides H A B"
  by (auto simp: collides_def dest: inj_onD)

locale authenticated_list =
  fixes H :: "'q \<Rightarrow> 'd"
    and commit :: "'x list \<Rightarrow> 'r option"
    and prove :: "'x list \<Rightarrow> nat \<Rightarrow> 'p"
    and verify :: "'x \<Rightarrow> 'p \<Rightarrow> 'r \<Rightarrow> bool"
    and list_inputs :: "'x list \<Rightarrow> 'q set"
    and proof_inputs :: "'x \<Rightarrow> 'p \<Rightarrow> 'q set"
  assumes complete: "commit xs = Some r \<Longrightarrow> i < length xs \<Longrightarrow> verify (xs ! i) (prove xs i) r"
    and sound: "commit xs = Some r \<Longrightarrow> verify x p r \<Longrightarrow>
      x \<in> set xs \<or> collides H (list_inputs xs) (proof_inputs x p)"
    and binding: "commit xs = Some r \<Longrightarrow> commit ys = Some r \<Longrightarrow>
      xs = ys \<or> collides H (list_inputs xs) (list_inputs ys)"
begin

lemma provable_iff_member:
  assumes "commit xs = Some r" and "\<And>p. verify x p r \<Longrightarrow> inj_on H (list_inputs xs \<union> proof_inputs x p)"
  shows "(\<exists>p. verify x p r) \<longleftrightarrow> x \<in> set xs"
  using assms complete sound no_collision by (metis in_set_conv_nth)

lemma same_commitment_same_members:
  assumes "commit xs = Some r" and "commit ys = Some r"
    and "inj_on H (list_inputs xs \<union> list_inputs ys)"
  shows "xs = ys"
  using assms binding no_collision by blast

end

end
