(* ===== verification/ReleaseLedger.thy ===== *)
theory ReleaseLedger
  imports Prelude Interfaces
begin

text \<open>
  The release ledger (\<open>hope/privacy/release_ledger.py\<close>, and \<open>build_ledger\<close> of
  \<open>hope/privacy/release_step.py\<close>): when a closed model image is released. The state maps every
  digest ever seen in the earning set to a \<open>digest_state\<close>; \<open>observe_day\<close> folds one run day.

  The code walks the digests in four passes (close, count, dethrone, release). The section "What a
  day does to a digest" gives the outcome for one digest in closed form and shows that the passes
  compute it; the invariant, the irreversibility of a release and the exactness of its reasons
  follow from that form.

  The day's inputs are read from the parsed files of the ledger directory: \<open>weights_files day\<close> is
  the parsed weights record of a run day (\<open>None\<close>: no such file), \<open>shadow_files day hotkey\<close> the
  \<open>image_digest\<close> fields of the non-blank records of a shadow file. \<open>float(w)\<close> of a weight is its
  value, or \<open>None\<close> where Python raises.
\<close>

section \<open>State\<close>

datatype release_reason = LeftEarningSet | Dethroned | MaxEmbargo

fun reason_order :: "release_reason \<Rightarrow> nat" where
  "reason_order LeftEarningSet = 0"
| "reason_order Dethroned = 1"
| "reason_order MaxEmbargo = 2"

record release_params =
  max_embargo_days :: int
  release_after_days_out :: int

definition default_release_params :: release_params where
  "default_release_params = \<lparr>max_embargo_days = 45, release_after_days_out = 5\<rparr>"

record digest_state =
  hotkeys :: "hotkey set"
  closed_since :: date
  days_out :: int
  released_on :: "date option"
  reason :: "release_reason option"

record release_state =
  digests :: "(string, digest_state) dict"
  champion :: "hotkey option"
  champion_digest :: "string option"
  last_observed :: "date option"

definition empty_release_state :: release_state where
  "empty_release_state = \<lparr>digests = [], champion = None, champion_digest = None, last_observed = None\<rparr>"

record release_row =
  row_digest :: string
  row_hotkey :: "hotkey option"
  row_hotkeys :: "hotkey list"
  row_released_on :: date
  row_reason :: release_reason
  row_closed_since :: date

text \<open>A string or None, used as a condition.\<close>

definition truthy :: "string option \<Rightarrow> bool" where
  "truthy s \<longleftrightarrow> s \<noteq> None \<and> s \<noteq> Some []"

section \<open>One observed day\<close>

definition group_by_digest :: "(hotkey, string) dict \<Rightarrow> (string, hotkey set) dict" where
  "group_by_digest earning = foldl (\<lambda>acc (hk, dg). if dg = [] then acc
     else AList.update dg (insert hk (case map_of acc dg of None \<Rightarrow> {} | Some s \<Rightarrow> s)) acc) [] earning"

definition close_digest ::
    "date \<Rightarrow> (string, digest_state) dict \<Rightarrow> string \<times> hotkey set \<Rightarrow> (string, digest_state) dict" where
  "close_digest day ds item = (case item of (dg, hks) \<Rightarrow>
     (case map_of ds dg of
        None \<Rightarrow> AList.update dg \<lparr>hotkeys = hks, closed_since = day, days_out = 0,
          released_on = None, reason = None\<rparr> ds
      | Some cur \<Rightarrow>
          if released_on cur = None then
            AList.update dg (cur\<lparr>hotkeys := hotkeys cur \<union> hks, days_out := 0\<rparr>) ds
          else ds))"

definition setdefault :: "'k \<Rightarrow> 'v \<Rightarrow> ('k, 'v) dict \<Rightarrow> ('k, 'v) dict" where
  "setdefault k v d = (if map_of d k = None then AList.update k v d else d)"

definition count_digest ::
    "release_params \<Rightarrow> date \<Rightarrow> (string, hotkey set) dict \<Rightarrow> hotkey set
      \<Rightarrow> (string, digest_state) dict \<times> (string, release_reason) dict \<Rightarrow> string \<times> digest_state
      \<Rightarrow> (string, digest_state) dict \<times> (string, release_reason) dict" where
  "count_digest params day earners withheld acc item = (case acc of (ds, due) \<Rightarrow> case item of (dg, cur) \<Rightarrow>
     if released_on cur \<noteq> None then (ds, due)
     else
       let out = (map_of earners dg = None \<and> hotkeys cur \<inter> withheld = {});
           cur' = (if out then cur\<lparr>days_out := days_out cur + 1\<rparr> else cur);
           ds' = (if out then AList.update dg cur' ds else ds);
           due' = (if out \<and> release_after_days_out params \<le> days_out cur'
                   then setdefault dg LeftEarningSet due else due)
       in (ds', if closed_since cur' + max_embargo_days params \<le> day
                then setdefault dg MaxEmbargo due' else due'))"

definition dethrone_due ::
    "release_state \<Rightarrow> hotkey option \<Rightarrow> (string, digest_state) dict
      \<Rightarrow> (string, release_reason) dict \<Rightarrow> (string, release_reason) dict" where
  "dethrone_due state seat ds due =
     (case champion_digest state of
        Some old_digest \<Rightarrow>
          if seat \<noteq> None \<and> champion state \<noteq> None \<and> seat \<noteq> champion state \<and> old_digest \<noteq> [] then
            (case map_of ds old_digest of
               Some old \<Rightarrow>
                 if released_on old = None then
                   (case map_of due old_digest of
                      None \<Rightarrow> AList.update old_digest Dethroned due
                    | Some prev \<Rightarrow>
                        if reason_order Dethroned < reason_order prev
                        then AList.update old_digest Dethroned due else due)
                 else due
             | None \<Rightarrow> due)
          else due
      | None \<Rightarrow> due)"

text \<open>\<open>digests[dg]\<close> and \<open>due[dg]\<close>: every digest due is a key of both, as \<open>due_known\<close> below shows.\<close>

definition release_digest ::
    "date \<Rightarrow> (string, release_reason) dict \<Rightarrow> (string, digest_state) dict \<times> release_row list \<Rightarrow> string
      \<Rightarrow> (string, digest_state) dict \<times> release_row list" where
  "release_digest day due acc dg = (case acc of (ds, rows) \<Rightarrow>
     (case (map_of ds dg, map_of due dg) of
        (Some cur, Some why) \<Rightarrow>
          (AList.update dg (cur\<lparr>released_on := Some day, reason := Some why\<rparr>) ds,
           rows @ [\<lparr>row_digest = dg,
             row_hotkey = (if hotkeys cur = {} then None else Some (Min (hotkeys cur))),
             row_hotkeys = sorted_list_of_set (hotkeys cur), row_released_on = day,
             row_reason = why, row_closed_since = closed_since cur\<rparr>])
      | _ \<Rightarrow> (ds, rows)))"

definition next_seat :: "release_state \<Rightarrow> (hotkey, string) dict \<Rightarrow> hotkey option \<Rightarrow> hotkey option \<times> string option" where
  "next_seat state earning seat =
     (let seat_digest = (case seat of None \<Rightarrow> None | Some c \<Rightarrow> if c = [] then None else map_of earning c)
      in if seat = None then (champion state, champion_digest state)
         else if seat = champion state
         then (seat, if truthy seat_digest then seat_digest else champion_digest state)
         else (seat, seat_digest))"

definition after_count ::
    "release_params \<Rightarrow> release_state \<Rightarrow> date \<Rightarrow> (hotkey, string) dict \<Rightarrow> hotkey set
      \<Rightarrow> (string, digest_state) dict \<times> (string, release_reason) dict" where
  "after_count params state day earning withheld =
     (let earners = group_by_digest earning;
          closed = foldl (close_digest day) (digests state) earners
      in foldl (count_digest params day earners withheld) (closed, []) closed)"

definition observe_day ::
    "release_state \<Rightarrow> date \<Rightarrow> (hotkey, string) dict \<Rightarrow> hotkey set \<Rightarrow> hotkey option \<Rightarrow> release_params
      \<Rightarrow> py_error + release_state \<times> release_row list" where
  "observe_day state day earning copy_withheld seat params =
     (if (case last_observed state of None \<Rightarrow> False | Some l \<Rightarrow> day \<le> l) then Inl ValueError
      else
        let (counted, due0) = after_count params state day earning copy_withheld;
            due = dethrone_due state seat counted due0;
            (final, rows) = foldl (release_digest day due) (counted, []) (sort (map fst due));
            (new_champion, new_digest) = next_seat state earning seat
        in Inr (\<lparr>digests = final, champion = new_champion, champion_digest = new_digest,
                 last_observed = Some day\<rparr>, rows))"

definition is_closed :: "release_state \<Rightarrow> string \<Rightarrow> bool" where
  "is_closed state dg \<longleftrightarrow> (case map_of (digests state) dg of None \<Rightarrow> False | Some cur \<Rightarrow> released_on cur = None)"

section \<open>Reading a day, and the replay\<close>

record weights_record =
  weights :: "(hotkey, rat option) dict"
  group_exclusions :: "hotkey list list"
  seat_holder :: "hotkey option"

definition contains :: "string \<Rightarrow> string \<Rightarrow> bool" where
  "contains pat s \<longleftrightarrow> list_ex (\<lambda>n. startswith (drop n s) pat) [0..<Suc (length s)]"

text \<open>\<open>ref.rpartition("@")\<close>, the parts before and after the last separator.\<close>

definition rpartition_at :: "string \<Rightarrow> string \<times> string" where
  "rpartition_at ref =
     (if CHR ''@'' \<in> set ref then
        (let suf = rev (takeWhile (\<lambda>c. c \<noteq> CHR ''@'') (rev ref))
         in (take (length ref - length suf - 1) ref, suf))
      else ([], ref))"

definition digest_lookback_days :: nat where "digest_lookback_days = 45"

fun ref_back :: "(date \<Rightarrow> hotkey \<Rightarrow> string option list option) \<Rightarrow> hotkey \<Rightarrow> date \<Rightarrow> nat \<Rightarrow> string option" where
  "ref_back shadow_files hotkey d 0 = None"
| "ref_back shadow_files hotkey d (Suc n) =
     (case shadow_files d hotkey of
        None \<Rightarrow> ref_back shadow_files hotkey (d - 1) n
      | Some records \<Rightarrow>
          (let ref = (if records = [] then [] else case last records of None \<Rightarrow> [] | Some r \<Rightarrow> r)
           in if contains ''sha256:'' ref then Some ref else None))"

definition ref_before :: "(date \<Rightarrow> hotkey \<Rightarrow> string option list option) \<Rightarrow> date \<Rightarrow> hotkey \<Rightarrow> string option" where
  "ref_before shadow_files day hotkey = ref_back shadow_files hotkey (day - 1) digest_lookback_days"

record day_input =
  in_earning :: "(hotkey, string) dict"
  in_withheld :: "hotkey set"
  in_champion :: "hotkey option"
  in_refs :: "(string, string) dict"

definition read_weight ::
    "(date \<Rightarrow> hotkey \<Rightarrow> string option list option) \<Rightarrow> date
      \<Rightarrow> (hotkey, string) dict \<times> (string, string) dict \<Rightarrow> hotkey \<times> rat option
      \<Rightarrow> (hotkey, string) dict \<times> (string, string) dict" where
  "read_weight shadow_files day acc item = (case acc of (earning, refs) \<Rightarrow> case item of (hk, w) \<Rightarrow>
     (case w of
        None \<Rightarrow> (earning, refs)
      | Some x \<Rightarrow>
          if x \<le> 0 then (earning, refs)
          else (case ref_before shadow_files day hk of
                  None \<Rightarrow> (earning, refs)
                | Some ref \<Rightarrow>
                    (case rpartition_at ref of (repo, dg) \<Rightarrow>
                      (AList.update hk dg earning,
                       if repo \<noteq> [] then AList.update dg repo refs else refs)))))"

definition day_inputs ::
    "(date \<Rightarrow> weights_record option) \<Rightarrow> (date \<Rightarrow> hotkey \<Rightarrow> string option list option)
      \<Rightarrow> date \<Rightarrow> day_input option" where
  "day_inputs weights_files shadow_files day =
     (case weights_files day of
        None \<Rightarrow> None
      | Some rec \<Rightarrow>
          (case foldl (read_weight shadow_files day) ([], []) (weights rec) of (earning, refs) \<Rightarrow>
             Some \<lparr>in_earning = earning, in_withheld = set (concat (group_exclusions rec)),
               in_champion = seat_holder rec, in_refs = refs\<rparr>))"

definition update_all :: "('k, 'v) dict \<Rightarrow> ('k, 'v) dict \<Rightarrow> ('k, 'v) dict" where
  "update_all d e = foldl (\<lambda>acc (k, v). AList.update k v acc) d e"

record replay_acc =
  acc_state :: release_state
  acc_rows :: "release_row list"
  acc_observed :: int
  acc_refs :: "(string, string) dict"

definition replay_day :: "release_params \<Rightarrow> replay_acc \<Rightarrow> date \<Rightarrow> day_input option \<Rightarrow> py_error + replay_acc" where
  "replay_day params acc d inp =
     (case inp of
        None \<Rightarrow> Inr acc
      | Some i \<Rightarrow>
          (case observe_day (acc_state acc) d (in_earning i) (in_withheld i) (in_champion i) params of
             Inl e \<Rightarrow> Inl e
           | Inr (st, rel) \<Rightarrow>
               Inr \<lparr>acc_state = st, acc_rows = acc_rows acc @ rel, acc_observed = acc_observed acc + 1,
                 acc_refs = update_all (acc_refs acc) (in_refs i)\<rparr>))"

function replay_from ::
    "release_params \<Rightarrow> (date \<Rightarrow> day_input option) \<Rightarrow> date \<Rightarrow> replay_acc \<Rightarrow> date \<Rightarrow> py_error + replay_acc" where
  "replay_from params inputs end_day acc d =
     (if d \<le> end_day then
        (case replay_day params acc d (inputs d) of
           Inl e \<Rightarrow> Inl e
         | Inr acc' \<Rightarrow> replay_from params inputs end_day acc' (d + 1))
      else Inr acc)"
  by pat_completeness auto
termination by (relation "measure (\<lambda>(params, inputs, end_day, acc, d). nat (end_day - d + 1))") auto

declare replay_from.simps [simp del]

definition empty_acc :: replay_acc where
  "empty_acc = \<lparr>acc_state = empty_release_state, acc_rows = [], acc_observed = 0, acc_refs = []\<rparr>"

definition replay ::
    "(date \<Rightarrow> weights_record option) \<Rightarrow> (date \<Rightarrow> hotkey \<Rightarrow> string option list option)
      \<Rightarrow> date \<Rightarrow> date \<Rightarrow> release_params
      \<Rightarrow> py_error + release_state \<times> (release_row \<times> string option) list \<times> int" where
  "replay weights_files shadow_files start end_day params =
     map_sum id (\<lambda>acc. (acc_state acc,
         map (\<lambda>r. (r, map_of (acc_refs acc) (row_digest r))) (acc_rows acc), acc_observed acc))
       (replay_from params (day_inputs weights_files shadow_files) end_day empty_acc start)"

text \<open>The ledger written each day: the releases, and the digests still closed by age.\<close>

record release_ledger =
  ledger_observed :: int
  ledger_releases :: "(release_row \<times> string option) list"
  ledger_closed :: "(string \<times> date \<times> hotkey list) list"

definition build_ledger ::
    "(date \<Rightarrow> weights_record option) \<Rightarrow> (date \<Rightarrow> hotkey \<Rightarrow> string option list option)
      \<Rightarrow> date \<Rightarrow> date \<Rightarrow> release_params \<Rightarrow> py_error + release_ledger" where
  "build_ledger weights_files shadow_files day start params =
     map_sum id (\<lambda>(st, releases, observed).
       \<lparr>ledger_observed = observed, ledger_releases = releases,
        ledger_closed = sort_key (\<lambda>(dg, since, hks). (since, dg))
          (map (\<lambda>(dg, s). (dg, closed_since s, sorted_list_of_set (hotkeys s)))
             (filter (\<lambda>(dg, s). released_on s = None) (digests st)))\<rparr>)
       (replay weights_files shadow_files start day params)"

section \<open>What a day does to a digest\<close>

definition earners_of :: "(hotkey, string) dict \<Rightarrow> string \<Rightarrow> hotkey set" where
  "earners_of earning dg = (if dg = [] then {} else fst ` set (filter (\<lambda>p. snd p = dg) earning))"

text \<open>The entry after closing and counting, before any release.\<close>

definition counted :: "release_state \<Rightarrow> date \<Rightarrow> (hotkey, string) dict \<Rightarrow> hotkey set \<Rightarrow> string \<Rightarrow> digest_state option" where
  "counted state day earning withheld dg =
     (let hks = earners_of earning dg
      in case map_of (digests state) dg of
           None \<Rightarrow> if hks = {} then None
             else Some \<lparr>hotkeys = hks, closed_since = day, days_out = 0, released_on = None, reason = None\<rparr>
         | Some cur \<Rightarrow>
             Some (if released_on cur \<noteq> None then cur
                   else if hks \<noteq> {} then cur\<lparr>hotkeys := hotkeys cur \<union> hks, days_out := 0\<rparr>
                   else if hotkeys cur \<inter> withheld = {} then cur\<lparr>days_out := days_out cur + 1\<rparr>
                   else cur))"

definition dethroned :: "release_state \<Rightarrow> hotkey option \<Rightarrow> string \<Rightarrow> bool" where
  "dethroned state seat dg \<longleftrightarrow> seat \<noteq> None \<and> champion state \<noteq> None \<and> seat \<noteq> champion state
     \<and> champion_digest state = Some dg \<and> dg \<noteq> []"

text \<open>Why an unreleased digest is released: the first ground that applies, in the published order.\<close>

definition release_ground ::
    "release_params \<Rightarrow> release_state \<Rightarrow> date \<Rightarrow> (hotkey, string) dict \<Rightarrow> hotkey set \<Rightarrow> hotkey option
      \<Rightarrow> string \<Rightarrow> digest_state \<Rightarrow> release_reason option" where
  "release_ground params state day earning withheld seat dg cur =
     (if released_on cur \<noteq> None then None
      else if earners_of earning dg = {} \<and> hotkeys cur \<inter> withheld = {}
            \<and> release_after_days_out params \<le> days_out cur then Some LeftEarningSet
      else if dethroned state seat dg then Some Dethroned
      else if closed_since cur + max_embargo_days params \<le> day then Some MaxEmbargo
      else None)"

definition digest_after ::
    "release_params \<Rightarrow> release_state \<Rightarrow> date \<Rightarrow> (hotkey, string) dict \<Rightarrow> hotkey set \<Rightarrow> hotkey option
      \<Rightarrow> string \<Rightarrow> digest_state option" where
  "digest_after params state day earning withheld seat dg =
     (case counted state day earning withheld dg of
        None \<Rightarrow> None
      | Some cur \<Rightarrow>
          (case release_ground params state day earning withheld seat dg cur of
             None \<Rightarrow> Some cur
           | Some why \<Rightarrow> Some (cur\<lparr>released_on := Some day, reason := Some why\<rparr>)))"

subsection \<open>The passes compute it\<close>

lemma earners_of_snoc:
  "earners_of (earning @ [(hk, d)]) dg =
     (if d = dg \<and> d \<noteq> [] then insert hk (earners_of earning dg) else earners_of earning dg)"
  by (auto simp: earners_of_def)

lemma group_by_digest_snoc:
  "group_by_digest (earning @ [(hk, d)]) =
     (if d = [] then group_by_digest earning
      else AList.update d (insert hk (case map_of (group_by_digest earning) d of None \<Rightarrow> {} | Some s \<Rightarrow> s))
             (group_by_digest earning))"
  by (simp add: group_by_digest_def)

lemma group_by_digest_ok: "dict_ok (group_by_digest earning)"
  unfolding group_by_digest_def by (rule foldl_invariant) (auto simp: keys_update split: prod.splits)

lemma group_by_digest_map_of:
  "map_of (group_by_digest earning) dg =
     (if earners_of earning dg = {} then None else Some (earners_of earning dg))"
proof (induction earning arbitrary: dg rule: rev_induct)
  case Nil
  show ?case by (simp add: group_by_digest_def earners_of_def)
next
  case (snoc p earning)
  obtain hk d where p: "p = (hk, d)" by (cases p)
  show ?case
    by (simp add: p group_by_digest_snoc earners_of_snoc map_of_update snoc.IH)
qed

definition closed_entry :: "date \<Rightarrow> hotkey set \<Rightarrow> digest_state option \<Rightarrow> digest_state" where
  "closed_entry day hks old =
     (case old of
        None \<Rightarrow> \<lparr>hotkeys = hks, closed_since = day, days_out = 0, released_on = None, reason = None\<rparr>
      | Some cur \<Rightarrow> if released_on cur = None then cur\<lparr>hotkeys := hotkeys cur \<union> hks, days_out := 0\<rparr> else cur)"

lemma close_digest_map_of:
  "map_of (close_digest day ds (dg, hks)) k =
     (if k = dg then Some (closed_entry day hks (map_of ds dg)) else map_of ds k)"
  by (auto simp: close_digest_def closed_entry_def map_of_update split: option.splits)

lemma close_digest_ok: "dict_ok ds \<Longrightarrow> dict_ok (close_digest day ds item)"
  by (auto simp: close_digest_def keys_update split: option.splits prod.splits)

lemma close_all_ok: "dict_ok ds \<Longrightarrow> dict_ok (foldl (close_digest day) ds es)"
  by (rule foldl_invariant) (auto intro: close_digest_ok)

lemma close_all_map_of:
  "dict_ok es \<Longrightarrow> map_of (foldl (close_digest day) ds es) k =
     (case map_of es k of None \<Rightarrow> map_of ds k | Some hks \<Rightarrow> Some (closed_entry day hks (map_of ds k)))"
proof (induction es arbitrary: ds)
  case (Cons e es)
  obtain dg hks where e: "e = (dg, hks)" by (cases e)
  have "map_of es dg = None" using Cons.prems by (simp add: e map_of_None_iff)
  with Cons show ?case by (auto simp: e close_digest_map_of split: option.splits)
qed simp

definition counted_out :: "(string, hotkey set) dict \<Rightarrow> hotkey set \<Rightarrow> string \<Rightarrow> digest_state \<Rightarrow> bool" where
  "counted_out earners withheld dg cur \<longleftrightarrow>
     released_on cur = None \<and> map_of earners dg = None \<and> hotkeys cur \<inter> withheld = {}"

definition count_entry :: "(string, hotkey set) dict \<Rightarrow> hotkey set \<Rightarrow> string \<Rightarrow> digest_state \<Rightarrow> digest_state" where
  "count_entry earners withheld dg cur =
     (if counted_out earners withheld dg cur then cur\<lparr>days_out := days_out cur + 1\<rparr> else cur)"

definition count_due ::
    "release_params \<Rightarrow> date \<Rightarrow> (string, hotkey set) dict \<Rightarrow> hotkey set \<Rightarrow> string \<Rightarrow> digest_state
      \<Rightarrow> release_reason option" where
  "count_due params day earners withheld dg cur =
     (if released_on cur \<noteq> None then None
      else if counted_out earners withheld dg cur \<and> release_after_days_out params \<le> days_out cur + 1
        then Some LeftEarningSet
      else if closed_since cur + max_embargo_days params \<le> day then Some MaxEmbargo else None)"

lemma setdefault_map_of:
  "map_of (setdefault k v d) k' = (if k' = k \<and> map_of d k = None then Some v else map_of d k')"
  by (simp add: setdefault_def map_of_update)

lemma setdefault_ok: "dict_ok d \<Longrightarrow> dict_ok (setdefault k v d)"
  by (auto simp: setdefault_def keys_update)

lemma count_digest_map_of:
  assumes "map_of ds dg = Some cur"
  shows "map_of (fst (count_digest params day earners withheld (ds, due) (dg, cur))) k =
      (if k = dg then Some (count_entry earners withheld dg cur) else map_of ds k)"
    and "map_of (snd (count_digest params day earners withheld (ds, due) (dg, cur))) k =
      (if k = dg \<and> map_of due dg = None then count_due params day earners withheld dg cur else map_of due k)"
proof -
  note defs = count_digest_def count_entry_def count_due_def counted_out_def
  show "map_of (fst (count_digest params day earners withheld (ds, due) (dg, cur))) k =
      (if k = dg then Some (count_entry earners withheld dg cur) else map_of ds k)"
    using assms
    by (cases "map_of earners dg = None \<and> hotkeys cur \<inter> withheld = {}"; cases "released_on cur")
      (simp_all add: defs map_of_update Let_def)
  show "map_of (snd (count_digest params day earners withheld (ds, due) (dg, cur))) k =
      (if k = dg \<and> map_of due dg = None then count_due params day earners withheld dg cur else map_of due k)"
    by (cases "map_of earners dg = None \<and> hotkeys cur \<inter> withheld = {}"; cases "released_on cur";
        cases "map_of due dg")
      (simp_all add: defs setdefault_map_of Let_def)
qed

lemma count_digest_ok:
  "dict_ok (fst acc) \<Longrightarrow> dict_ok (snd acc) \<Longrightarrow>
     dict_ok (fst (count_digest params day earners withheld acc item)) \<and>
     dict_ok (snd (count_digest params day earners withheld acc item))"
  by (cases acc; cases item; simp only: count_digest_def Let_def prod.case fst_conv snd_conv
      split: if_split) (simp add: dict_ok_update setdefault_ok)

lemma count_all_ok:
  "dict_ok (fst acc) \<Longrightarrow> dict_ok (snd acc) \<Longrightarrow>
     dict_ok (fst (foldl (count_digest params day earners withheld) acc items)) \<and>
     dict_ok (snd (foldl (count_digest params day earners withheld) acc items))"
  by (induction items arbitrary: acc) (auto simp: count_digest_ok)

lemma count_all_map_of:
  assumes "dict_ok items" and "\<And>k cur. map_of items k = Some cur \<Longrightarrow> map_of ds k = Some cur"
  shows "map_of (fst (foldl (count_digest params day earners withheld) (ds, due) items)) k =
      (case map_of items k of None \<Rightarrow> map_of ds k | Some cur \<Rightarrow> Some (count_entry earners withheld k cur)) \<and>
    map_of (snd (foldl (count_digest params day earners withheld) (ds, due) items)) k =
      (case map_of items k of None \<Rightarrow> map_of due k
       | Some cur \<Rightarrow> if map_of due k = None then count_due params day earners withheld k cur else map_of due k)"
  using assms
proof (induction items arbitrary: ds due)
  case (Cons e items)
  obtain dg cur where e: "e = (dg, cur)" by (cases e)
  have none: "map_of items dg = None" using Cons.prems(1) by (simp add: e map_of_None_iff)
  have ds: "map_of ds dg = Some cur" using Cons.prems(2) [of dg cur] by (simp add: e)
  define acc where "acc = count_digest params day earners withheld (ds, due) (dg, cur)"
  note one = count_digest_map_of [OF ds, of params day earners withheld due, folded acc_def]
  have "map_of (fst acc) k = Some c" if "map_of items k = Some c" for k c
    using Cons.prems(2) [of k c] that none by (auto simp: one e)
  then have "map_of (fst (foldl (count_digest params day earners withheld) (fst acc, snd acc) items)) k =
      (case map_of items k of None \<Rightarrow> map_of (fst acc) k | Some cur \<Rightarrow> Some (count_entry earners withheld k cur)) \<and>
    map_of (snd (foldl (count_digest params day earners withheld) (fst acc, snd acc) items)) k =
      (case map_of items k of None \<Rightarrow> map_of (snd acc) k
       | Some cur \<Rightarrow> if map_of (snd acc) k = None then count_due params day earners withheld k cur
           else map_of (snd acc) k)"
    using Cons.prems(1) by (intro Cons.IH) (auto simp: e)
  then show ?case using none
    by (cases "k = dg") (auto simp: e acc_def [symmetric] one split: option.splits)
qed simp

lemma after_count_ok:
  "dict_ok (digests state) \<Longrightarrow> dict_ok (fst (after_count params state day earning withheld)) \<and>
     dict_ok (snd (after_count params state day earning withheld))"
  unfolding after_count_def Let_def by (rule count_all_ok) (simp_all add: close_all_ok)

lemma counted_eq:
  "counted state day earning withheld dg =
     map_option (count_entry (group_by_digest earning) withheld dg)
       (map_of (foldl (close_digest day) (digests state) (group_by_digest earning)) dg)"
  by (auto simp: counted_def Let_def close_all_map_of group_by_digest_ok group_by_digest_map_of
      closed_entry_def count_entry_def counted_out_def split: option.splits)

lemma after_count_map_of:
  assumes "dict_ok (digests state)"
  shows "map_of (fst (after_count params state day earning withheld)) dg = counted state day earning withheld dg"
    and "map_of (snd (after_count params state day earning withheld)) dg =
      Option.bind (map_of (foldl (close_digest day) (digests state) (group_by_digest earning)) dg)
        (count_due params day (group_by_digest earning) withheld dg)"
proof -
  let ?c = "foldl (close_digest day) (digests state) (group_by_digest earning)"
  have "dict_ok ?c" using assms by (rule close_all_ok)
  note all = count_all_map_of [OF this, of ?c params day "group_by_digest earning" withheld "[]" dg]
  show "map_of (fst (after_count params state day earning withheld)) dg = counted state day earning withheld dg"
    using all by (auto simp: after_count_def Let_def counted_eq split: option.splits)
  show "map_of (snd (after_count params state day earning withheld)) dg =
      Option.bind (map_of ?c dg) (count_due params day (group_by_digest earning) withheld dg)"
    using all by (auto simp: after_count_def Let_def split: option.splits)
qed

lemma dethrone_due_ok: "dict_ok due \<Longrightarrow> dict_ok (dethrone_due state seat ds due)"
  by (auto simp: dethrone_due_def keys_update split: option.splits)

lemma dethrone_due_alt:
  "dethrone_due state seat ds due =
     (if dethroned state seat (the (champion_digest state))
        \<and> (\<exists>cur. map_of ds (the (champion_digest state)) = Some cur \<and> released_on cur = None)
        \<and> map_of due (the (champion_digest state)) \<in> {None, Some MaxEmbargo}
      then AList.update (the (champion_digest state)) Dethroned due else due)"
proof (cases "champion_digest state")
  case (Some od)
  have reasons: "(case r of None \<Rightarrow> x | Some p \<Rightarrow> if reason_order Dethroned < reason_order p then x else y)
      = (if r \<in> {None, Some MaxEmbargo} then x else y)" for r and x y :: 'z
    by (cases r; cases "the r") auto
  show ?thesis
    unfolding dethrone_due_def Some option.case reasons dethroned_def option.sel
    by (cases "map_of ds od") simp_all
qed (simp add: dethrone_due_def dethroned_def)

lemma dethrone_due_map_of:
  "map_of (dethrone_due state seat ds due) k =
     (if dethroned state seat k \<and> (\<exists>cur. map_of ds k = Some cur \<and> released_on cur = None)
        \<and> map_of due k \<noteq> Some LeftEarningSet then Some Dethroned else map_of due k)"
proof (cases "champion_digest state = Some k")
  case True
  have "map_of due k \<in> {None, Some LeftEarningSet, Some Dethroned, Some MaxEmbargo}"
    by (cases "map_of due k"; cases "the (map_of due k)") auto
  then show ?thesis by (auto simp: dethrone_due_alt True map_of_update)
next
  case False
  then show ?thesis by (auto simp: dethrone_due_alt map_of_update dethroned_def)
qed

text \<open>The digests due, with their reasons, are those that have a ground.\<close>

lemma due_is_ground:
  assumes "dict_ok (digests state)"
    and "after_count params state day earning withheld = (ds, due)"
  shows "map_of (dethrone_due state seat ds due) dg =
    Option.bind (counted state day earning withheld dg)
      (release_ground params state day earning withheld seat dg)"
proof -
  let ?g = "group_by_digest earning"
  note ac = after_count_map_of [OF assms(1), of params day earning withheld dg, unfolded assms(2) fst_conv snd_conv]
  show ?thesis
  proof (cases "map_of (foldl (close_digest day) (digests state) ?g) dg")
    case None
    then show ?thesis by (simp add: dethrone_due_map_of ac counted_eq)
  next
    case (Some cur)
    show ?thesis
      by (cases "released_on cur"; cases "earners_of earning dg = {}";
          cases "hotkeys cur \<inter> withheld = {}"; cases "dethroned state seat dg")
        (simp_all add: dethrone_due_map_of ac counted_eq Some count_due_def release_ground_def
          count_entry_def counted_out_def group_by_digest_map_of)
  qed
qed

definition release_entry :: "date \<Rightarrow> release_reason \<Rightarrow> digest_state \<Rightarrow> digest_state" where
  "release_entry day why cur = cur\<lparr>released_on := Some day, reason := Some why\<rparr>"

definition release_row_of :: "date \<Rightarrow> string \<Rightarrow> release_reason \<Rightarrow> digest_state \<Rightarrow> release_row" where
  "release_row_of day dg why cur = \<lparr>row_digest = dg,
     row_hotkey = (if hotkeys cur = {} then None else Some (Min (hotkeys cur))),
     row_hotkeys = sorted_list_of_set (hotkeys cur), row_released_on = day,
     row_reason = why, row_closed_since = closed_since cur\<rparr>"

lemma release_digest_simp:
  "map_of ds dg = Some cur \<Longrightarrow> map_of due dg = Some why \<Longrightarrow>
     release_digest day due (ds, rows) dg =
       (AList.update dg (release_entry day why cur) ds, rows @ [release_row_of day dg why cur])"
  by (simp add: release_digest_def release_entry_def release_row_of_def)

lemma release_all:
  assumes "distinct dgs" and "\<And>dg. dg \<in> set dgs \<Longrightarrow> map_of due dg \<noteq> None \<and> map_of ds dg \<noteq> None"
  shows "map_of (fst (foldl (release_digest day due) (ds, rows) dgs)) k =
      (if k \<in> set dgs then Some (release_entry day (the (map_of due k)) (the (map_of ds k))) else map_of ds k) \<and>
    snd (foldl (release_digest day due) (ds, rows) dgs) =
      rows @ map (\<lambda>dg. release_row_of day dg (the (map_of due dg)) (the (map_of ds dg))) dgs \<and>
    (dict_ok ds \<longrightarrow> dict_ok (fst (foldl (release_digest day due) (ds, rows) dgs)))"
  using assms
proof (induction dgs arbitrary: ds rows)
  case (Cons dg dgs)
  obtain cur why where cw: "map_of ds dg = Some cur" "map_of due dg = Some why"
    using Cons.prems(2) [of dg] by auto
  let ?ds = "AList.update dg (release_entry day why cur) ds"
  have "\<And>x. x \<in> set dgs \<Longrightarrow> map_of due x \<noteq> None \<and> map_of ?ds x \<noteq> None"
    using Cons.prems(2) by (simp add: map_of_update)
  then have IH: "map_of (fst (foldl (release_digest day due) (?ds, rows @ [release_row_of day dg why cur]) dgs)) k =
      (if k \<in> set dgs then Some (release_entry day (the (map_of due k)) (the (map_of ?ds k))) else map_of ?ds k) \<and>
    snd (foldl (release_digest day due) (?ds, rows @ [release_row_of day dg why cur]) dgs) =
      (rows @ [release_row_of day dg why cur])
        @ map (\<lambda>dg. release_row_of day dg (the (map_of due dg)) (the (map_of ?ds dg))) dgs \<and>
    (dict_ok ?ds \<longrightarrow> dict_ok (fst (foldl (release_digest day due) (?ds, rows @ [release_row_of day dg why cur]) dgs)))"
    using Cons.prems(1) by (intro Cons.IH) simp_all
  have rest: "map (\<lambda>dg. release_row_of day dg (the (map_of due dg)) (the (map_of ?ds dg))) dgs =
      map (\<lambda>dg. release_row_of day dg (the (map_of due dg)) (the (map_of ds dg))) dgs"
    using Cons.prems(1) by (intro map_cong) (auto simp: map_of_update)
  have ok: "dict_ok ds \<Longrightarrow> dict_ok ?ds" by (rule dict_ok_update)
  show ?case
    using IH ok Cons.prems(1)
    by (simp add: release_digest_simp [OF cw] rest cw map_of_update)
qed simp

definition is_released_row ::
    "release_params \<Rightarrow> release_state \<Rightarrow> date \<Rightarrow> (hotkey, string) dict \<Rightarrow> hotkey set \<Rightarrow> hotkey option
      \<Rightarrow> release_row \<Rightarrow> bool" where
  "is_released_row params state day earning withheld seat row \<longleftrightarrow>
     (\<exists>dg cur why. counted state day earning withheld dg = Some cur \<and>
        release_ground params state day earning withheld seat dg cur = Some why \<and>
        row = release_row_of day dg why cur)"

definition day_ok :: "release_state \<Rightarrow> date \<Rightarrow> bool" where
  "day_ok state day \<longleftrightarrow> (case last_observed state of None \<Rightarrow> True | Some l \<Rightarrow> l < day)"

lemma observe_day_result:
  assumes "dict_ok (digests state)" and "day_ok state day"
  obtains st rows where "observe_day state day earning withheld seat params = Inr (st, rows)"
    and "dict_ok (digests st)"
    and "\<And>dg. map_of (digests st) dg = digest_after params state day earning withheld seat dg"
    and "\<And>row. row \<in> set rows \<longleftrightarrow> is_released_row params state day earning withheld seat row"
    and "sorted (map row_digest rows)" and "distinct (map row_digest rows)"
    and "last_observed st = Some day" and "(champion st, champion_digest st) = next_seat state earning seat"
proof -
  obtain ds due0 where ac: "after_count params state day earning withheld = (ds, due0)"
    by (cases "after_count params state day earning withheld")
  define due where "due = dethrone_due state seat ds due0"
  define dgs where "dgs = sort (map fst due)"
  obtain final rows where fin: "foldl (release_digest day due) (ds, []) dgs = (final, rows)"
    by (cases "foldl (release_digest day due) (ds, []) dgs")
  obtain c cd where seat: "next_seat state earning seat = (c, cd)" by (cases "next_seat state earning seat")
  have okds: "dict_ok ds" and okdue: "dict_ok due"
    using after_count_ok [OF assms(1), of params day earning withheld] dethrone_due_ok
    by (auto simp: ac due_def)
  have ds: "map_of ds dg = counted state day earning withheld dg" for dg
    using after_count_map_of(1) [OF assms(1), of params day earning withheld dg] by (simp add: ac)
  have due: "map_of due dg = Option.bind (counted state day earning withheld dg)
      (release_ground params state day earning withheld seat dg)" for dg
    unfolding due_def using due_is_ground [OF assms(1) ac] .
  have dgs: "set dgs = dom (map_of due)" "distinct dgs" "sorted dgs"
    using okdue by (simp_all add: dgs_def dom_map_of_conv_image_fst)
  have known: "map_of due dg \<noteq> None \<and> map_of ds dg \<noteq> None" if "dg \<in> set dgs" for dg
    using that unfolding dgs(1) dom_def by (auto simp: ds due bind_eq_Some_conv)
  note all = release_all [where dgs = dgs and due = due and ds = ds and day = day and rows = "[]",
      OF dgs(2) known, unfolded fin fst_conv snd_conv append_Nil]
  let ?st = "\<lparr>digests = final, champion = c, champion_digest = cd, last_observed = Some day\<rparr>"
  have res: "observe_day state day earning withheld seat params = Inr (?st, rows)"
    using assms(2) fin seat
    by (auto simp: observe_day_def day_ok_def ac due_def dgs_def Let_def split: option.splits)
  have rows: "rows = map (\<lambda>dg. release_row_of day dg (the (map_of due dg)) (the (map_of ds dg))) dgs"
    using all by blast
  have "map row_digest rows = dgs" by (simp add: rows release_row_of_def o_def)
  then have sorted: "sorted (map row_digest rows)" "distinct (map row_digest rows)" using dgs by auto
  have in_rows: "row \<in> set rows \<longleftrightarrow> is_released_row params state day earning withheld seat row" for row
  proof
    assume "row \<in> set rows"
    then obtain dg where dg: "dg \<in> set dgs"
      and row: "row = release_row_of day dg (the (map_of due dg)) (the (map_of ds dg))"
      by (auto simp: rows)
    from dg obtain cur why where "counted state day earning withheld dg = Some cur"
      "release_ground params state day earning withheld seat dg cur = Some why"
      unfolding dgs(1) dom_def by (auto simp: due bind_eq_Some_conv)
    then show "is_released_row params state day earning withheld seat row"
      unfolding is_released_row_def using row by (auto simp: due ds)
  next
    assume "is_released_row params state day earning withheld seat row"
    then obtain dg cur why where c: "counted state day earning withheld dg = Some cur"
      "release_ground params state day earning withheld seat dg cur = Some why"
      and row: "row = release_row_of day dg why cur" by (auto simp: is_released_row_def)
    then have "dg \<in> set dgs" unfolding dgs(1) dom_def by (simp add: due)
    moreover have "row = release_row_of day dg (the (map_of due dg)) (the (map_of ds dg))"
      using c row by (simp add: due ds)
    ultimately show "row \<in> set rows" by (simp add: rows)
  qed
  have "map_of final dg = digest_after params state day earning withheld seat dg" for dg
  proof -
    have "map_of final dg = (if dg \<in> set dgs then Some (release_entry day (the (map_of due dg)) (the (map_of ds dg)))
        else map_of ds dg)" using all by blast
    then show ?thesis
      unfolding dgs(1) dom_def
      by (auto simp: due ds digest_after_def release_entry_def bind_eq_Some_conv split: option.splits)
  qed
  moreover have "dict_ok final" using all okds by blast
  ultimately show thesis using that [OF res] in_rows sorted seat by simp
qed

section \<open>The machine\<close>

type_synonym run_day = "date \<times> day_input"

definition release_step :: "release_params \<Rightarrow> release_state \<Rightarrow> run_day \<Rightarrow> release_state" where
  "release_step params st rd = (case rd of (d, i) \<Rightarrow>
     (case observe_day st d (in_earning i) (in_withheld i) (in_champion i) params of
        Inl _ \<Rightarrow> st | Inr (st', _) \<Rightarrow> st'))"

definition params_ok :: "release_params \<Rightarrow> bool" where
  "params_ok params \<longleftrightarrow> 0 < max_embargo_days params \<and> 0 < release_after_days_out params"

definition entry_ok :: "release_params \<Rightarrow> date option \<Rightarrow> digest_state \<Rightarrow> bool" where
  "entry_ok params lastday cur \<longleftrightarrow>
     finite (hotkeys cur) \<and> hotkeys cur \<noteq> {} \<and>
     (case lastday of None \<Rightarrow> False | Some l \<Rightarrow>
        closed_since cur \<le> l \<and>
        (case released_on cur of
           None \<Rightarrow> reason cur = None \<and> 0 \<le> days_out cur \<and> days_out cur < release_after_days_out params
             \<and> l < closed_since cur + max_embargo_days params
         | Some r \<Rightarrow> reason cur \<noteq> None \<and> closed_since cur \<le> r \<and> r \<le> l))"

definition release_inv :: "release_params \<Rightarrow> release_state \<Rightarrow> bool" where
  "release_inv params st \<longleftrightarrow> dict_ok (digests st) \<and>
     (\<forall>dg cur. map_of (digests st) dg = Some cur \<longrightarrow> entry_ok params (last_observed st) cur)"

text \<open>What no later day changes: a released entry, the day a digest closed, the set of digests known.\<close>

definition entry_le :: "digest_state \<Rightarrow> digest_state \<Rightarrow> bool" where
  "entry_le cur cur' \<longleftrightarrow> closed_since cur' = closed_since cur \<and> hotkeys cur \<subseteq> hotkeys cur' \<and>
     (released_on cur \<noteq> None \<longrightarrow> cur' = cur)"

definition release_le :: "release_state \<Rightarrow> release_state \<Rightarrow> bool" where
  "release_le s t \<longleftrightarrow> (\<forall>dg cur. map_of (digests s) dg = Some cur \<longrightarrow>
     (\<exists>cur'. map_of (digests t) dg = Some cur' \<and> entry_le cur cur'))"

lemma earners_of_finite: "finite (earners_of earning dg)"
  by (simp add: earners_of_def)

lemma digest_after_ok:
  assumes "params_ok params" and "release_inv params st" and "day_ok st day"
    and "digest_after params st day earning withheld seat dg = Some cur'"
  shows "entry_ok params (Some day) cur'"
proof -
  obtain cur where cur: "counted st day earning withheld dg = Some cur"
    using assms(4) by (auto simp: digest_after_def split: option.splits)
  have cur': "cur' = (case release_ground params st day earning withheld seat dg cur of
      None \<Rightarrow> cur | Some why \<Rightarrow> cur\<lparr>released_on := Some day, reason := Some why\<rparr>)"
    using assms(4) by (simp add: digest_after_def cur split: option.splits)
  show ?thesis
  proof (cases "map_of (digests st) dg")
    case None
    then show ?thesis
      using cur cur' assms(1)
      by (auto simp: counted_def Let_def release_ground_def entry_ok_def params_ok_def
          earners_of_finite split: if_splits)
  next
    case (Some old)
    then have old: "entry_ok params (last_observed st) old" using assms(2) by (auto simp: release_inv_def)
    then obtain l where l: "last_observed st = Some l" "l < day" using assms(3)
      by (auto simp: entry_ok_def day_ok_def split: option.splits)
    show ?thesis
    proof (cases "released_on old")
      case None
      then show ?thesis
        using cur cur' old l Some assms(1)
        by (auto simp: counted_def Let_def release_ground_def entry_ok_def params_ok_def
            earners_of_finite split: if_splits)
    next
      case (Some r)
      then show ?thesis
        using cur cur' old l \<open>map_of (digests st) dg = Some old\<close>
        by (auto simp: counted_def Let_def release_ground_def entry_ok_def)
    qed
  qed
qed

lemma entry_le_refl [simp]: "entry_le cur cur"
  by (simp add: entry_le_def)

lemma digest_after_keeps:
  assumes "map_of (digests st) dg = Some cur"
  shows "\<exists>cur'. digest_after params st day earning withheld seat dg = Some cur' \<and>
    entry_le cur cur'"
  using assms
  by (auto simp: entry_le_def digest_after_def counted_def Let_def release_ground_def split: option.splits)

lemma release_step_cases:
  assumes "dict_ok (digests st)"
  obtains (refused) "\<not> day_ok st d" "release_step params st (d, i) = st"
  | (observed) "day_ok st d" "dict_ok (digests (release_step params st (d, i)))"
      "last_observed (release_step params st (d, i)) = Some d"
      "\<And>dg. map_of (digests (release_step params st (d, i))) dg =
         digest_after params st d (in_earning i) (in_withheld i) (in_champion i) dg"
proof (cases "day_ok st d")
  case True
  from observe_day_result [OF assms True, of "in_earning i" "in_withheld i" "in_champion i" params]
  obtain st' rows where "observe_day st d (in_earning i) (in_withheld i) (in_champion i) params = Inr (st', rows)"
    "dict_ok (digests st')" "last_observed st' = Some d"
    "\<And>dg. map_of (digests st') dg = digest_after params st d (in_earning i) (in_withheld i) (in_champion i) dg"
    by metis
  with True observed show thesis by (simp add: release_step_def)
next
  case False
  then have "release_step params st (d, i) = st"
    by (auto simp: release_step_def observe_day_def day_ok_def split: option.splits)
  with False refused show thesis by simp
qed

lemma release_step_inv:
  assumes "params_ok params" and "release_inv params st"
  shows "release_inv params (release_step params st rd)"
proof (cases rd)
  case (Pair d i)
  have "dict_ok (digests st)" using assms(2) by (simp add: release_inv_def)
  then show ?thesis
    by (cases rule: release_step_cases [where d = d and i = i and params = params])
      (use assms digest_after_ok [OF assms] in \<open>auto simp: Pair release_inv_def\<close>)
qed

lemma release_step_le:
  assumes "dict_ok (digests st)"
  shows "release_le st (release_step params st rd)"
proof (cases rd)
  case (Pair d i)
  from assms show ?thesis
    by (cases rule: release_step_cases [where d = d and i = i and params = params])
      (use digest_after_keeps in \<open>auto simp: Pair release_le_def\<close>)
qed

lemma entry_le_trans: "entry_le a b \<Longrightarrow> entry_le b c \<Longrightarrow> entry_le a c"
  by (auto simp: entry_le_def)

lemma release_le_trans: "release_le s t \<Longrightarrow> release_le t u \<Longrightarrow> release_le s u"
  unfolding release_le_def by (meson entry_le_trans)

interpretation machine: monotone_machine "release_step params" "\<lambda>_ _. params_ok params"
    "release_inv params" release_le for params
proof unfold_locales
  show "release_inv params st \<Longrightarrow> params_ok params \<Longrightarrow> release_inv params (release_step params st rd)" for st rd
    by (rule release_step_inv)
  show "release_le s s" for s by (auto simp: release_le_def entry_le_def)
  show "release_le s t \<Longrightarrow> release_le t u \<Longrightarrow> release_le s u" for s t u by (rule release_le_trans)
  show "release_inv params s \<Longrightarrow> params_ok params \<Longrightarrow> release_le s (release_step params s rd)" for s rd
    by (rule release_step_le) (simp add: release_inv_def)
qed

lemma empty_release_inv [simp]: "release_inv params empty_release_state"
  by (simp add: release_inv_def empty_release_state_def)

lemma run_release_inv:
  assumes "params_ok params" and "release_inv params st"
  shows "release_inv params (foldl (release_step params) st days)"
    and "release_le st (foldl (release_step params) st days)"
proof -
  have ok: "admissible (release_step params) (\<lambda>_ _. params_ok params) s days" for s
    using assms(1) by (induction days arbitrary: s) auto
  show "release_inv params (foldl (release_step params) st days)"
    using machine.run_inv [OF assms(2) ok] .
  show "release_le st (foldl (release_step params) st days)"
    using machine.run_le [OF assms(2) ok] .
qed

lemma day_ok_False: "\<not> day_ok st d \<Longrightarrow> observe_day st d earning withheld seat params = Inl ValueError"
  by (auto simp: observe_day_def day_ok_def split: option.splits)

section \<open>Replays\<close>

lemma replay_stop: "end_day < d \<Longrightarrow> replay_from params inputs end_day acc d = Inr acc"
  by (simp add: replay_from.simps)

lemma replay_go:
  "d \<le> end_day \<Longrightarrow> replay_from params inputs end_day acc d =
     (case replay_day params acc d (inputs d) of
        Inl e \<Rightarrow> Inl e | Inr acc' \<Rightarrow> replay_from params inputs end_day acc' (d + 1))"
  by (subst replay_from.simps) simp

lemma replay_day_ok:
  assumes "dict_ok (digests (acc_state acc))" and "day_ok (acc_state acc) d"
  obtains acc' rest where "replay_day params acc d inp = Inr acc'" and "dict_ok (digests (acc_state acc'))"
    and "day_ok (acc_state acc') (d + 1)" and "acc_rows acc' = acc_rows acc @ rest"
proof (cases inp)
  case None
  then show thesis
    using assms that [of acc "[]"] by (auto simp: replay_day_def day_ok_def split: option.splits)
next
  case (Some i)
  from observe_day_result [OF assms, of "in_earning i" "in_withheld i" "in_champion i" params]
  obtain st rows where "observe_day (acc_state acc) d (in_earning i) (in_withheld i) (in_champion i) params = Inr (st, rows)"
    "dict_ok (digests st)" "last_observed st = Some d" by metis
  then show thesis
    using that [of "\<lparr>acc_state = st, acc_rows = acc_rows acc @ rows, acc_observed = acc_observed acc + 1,
        acc_refs = update_all (acc_refs acc) (in_refs i)\<rparr>" rows]
    by (simp add: replay_day_def Some day_ok_def)
qed

text \<open>A replay succeeds, and goes through the replay of every shorter range.\<close>

lemma replay_splits:
  assumes "dict_ok (digests (acc_state acc))" and "day_ok (acc_state acc) d" and "e \<le> e'"
  shows "\<exists>acc1 acc2 rest. replay_from params inputs e acc d = Inr acc1 \<and>
    replay_from params inputs e' acc d = Inr acc2 \<and> acc_rows acc2 = acc_rows acc1 @ rest"
  using assms
proof (induction "nat (e' - d + 1)" arbitrary: acc d)
  case 0
  then show ?case by (simp add: replay_stop)
next
  case (Suc n)
  then have d: "d \<le> e'" by linarith
  from replay_day_ok [OF Suc.prems(1,2), of params "inputs d"] obtain acc' rest where
    acc': "replay_day params acc d (inputs d) = Inr acc'" "dict_ok (digests (acc_state acc'))"
    "day_ok (acc_state acc') (d + 1)" "acc_rows acc' = acc_rows acc @ rest" by metis
  have n: "n = nat (e' - (d + 1) + 1)" using Suc.hyps(2) by linarith
  from Suc.hyps(1) [OF n acc'(2,3) Suc.prems(3)] obtain a1 a2 r where
    a: "replay_from params inputs e acc' (d + 1) = Inr a1"
    "replay_from params inputs e' acc' (d + 1) = Inr a2" "acc_rows a2 = acc_rows a1 @ r" by metis
  show ?case
  proof (cases "d \<le> e")
    case True
    then show ?thesis using a acc' d by (simp add: replay_go)
  next
    case False
    then have "a1 = acc'" using a(1) by (simp add: replay_stop)
    then show ?thesis using False a acc' d by (simp add: replay_go replay_stop)
  qed
qed

section \<open>Properties\<close>

text \<open>C8. What one run day does, exactly: on a day after the last one the step succeeds, every digest
  ends in the state \<open>digest_after\<close> gives for it alone (closed, counted, and released on the first
  ground of the published table that applies), and the rows returned are the releases of that
  day, one per digest, in digest order.\<close>

theorem rl_day_spec:
  assumes "dict_ok (digests state)" and "day_ok state day"
  shows "\<exists>st rows. observe_day state day earning withheld seat params = Inr (st, rows) \<and>
    (\<forall>dg. map_of (digests st) dg = digest_after params state day earning withheld seat dg) \<and>
    set rows = {row. is_released_row params state day earning withheld seat row} \<and>
    sorted (map row_digest rows) \<and> distinct (map row_digest rows)"
  using observe_day_result [OF assms, of earning withheld seat params]
  by (metis (no_types, lifting) Collect_cong Collect_mem_eq)

lemma rl_day_spec_witness:
  "\<exists>st rows. observe_day empty_release_state 9 [(''hk'', ''d1'')] {} (Some ''hk'') default_release_params = Inr (st, rows) \<and>
    (\<forall>dg. map_of (digests st) dg = digest_after default_release_params empty_release_state 9 [(''hk'', ''d1'')] {} (Some ''hk'') dg) \<and>
    set rows = {row. is_released_row default_release_params empty_release_state 9 [(''hk'', ''d1'')] {} (Some ''hk'') row} \<and>
    sorted (map row_digest rows) \<and> distinct (map row_digest rows)"
  by (rule rl_day_spec) (simp_all add: empty_release_state_def day_ok_def)

text \<open>C19. A release is irreversible and a closing date immutable: whatever days follow (refused ones
  included), a digest stays known, keeps its \<open>closed_since\<close>, and once released keeps its entry, so
  it never counts as closed again.\<close>

theorem rl_release_irreversible:
  assumes "params_ok params" and "st = foldl (release_step params) empty_release_state days"
    and "map_of (digests st) dg = Some cur"
  shows "\<exists>cur'. map_of (digests (foldl (release_step params) st later)) dg = Some cur' \<and>
    closed_since cur' = closed_since cur \<and>
    (released_on cur \<noteq> None \<longrightarrow> cur' = cur \<and> \<not> is_closed (foldl (release_step params) st later) dg)"
proof -
  have "release_inv params st" using run_release_inv(1) assms(1,2) by simp
  from run_release_inv(2) [OF assms(1) this, of later] assms(3) obtain cur' where
    "map_of (digests (foldl (release_step params) st later)) dg = Some cur'" "entry_le cur cur'"
    unfolding release_le_def by blast
  then show ?thesis by (auto simp: entry_le_def is_closed_def)
qed

definition sample_run :: "run_day list" where
  "sample_run = [(1, \<lparr>in_earning = [(''a'', ''d1''), (''b'', ''d2'')], in_withheld = {},
     in_champion = Some ''a'', in_refs = []\<rparr>), (2, \<lparr>in_earning = [(''a'', ''d1''), (''b'', ''d2'')],
     in_withheld = {}, in_champion = Some ''b'', in_refs = []\<rparr>)]"

definition sample_closed :: digest_state where
  "sample_closed = \<lparr>hotkeys = {''a''}, closed_since = 1, days_out = 0, released_on = Some 2,
     reason = Some Dethroned\<rparr>"

lemma rl_release_irreversible_witness:
  "\<exists>cur'. map_of (digests (foldl (release_step default_release_params)
      (foldl (release_step default_release_params) empty_release_state sample_run) sample_run)) ''d1'' = Some cur' \<and>
    closed_since cur' = closed_since sample_closed \<and>
    (released_on sample_closed \<noteq> None \<longrightarrow> cur' = sample_closed \<and>
      \<not> is_closed (foldl (release_step default_release_params)
      (foldl (release_step default_release_params) empty_release_state sample_run) sample_run) ''d1'')"
proof (rule rl_release_irreversible [OF _ refl])
  show "params_ok default_release_params" by (simp add: params_ok_def default_release_params_def)
  show "map_of (digests (foldl (release_step default_release_params) empty_release_state sample_run)) ''d1''
      = Some sample_closed"
    by code_simp
qed

text \<open>No digest is embargoed beyond the bounds: after any sequence of observed days, a digest that is
  still closed has been out of the earning set for fewer counted days than the limit, and the
  last observed day is less than the cap after it closed.\<close>

theorem rl_embargo_bounded:
  assumes "params_ok params" and "st = foldl (release_step params) empty_release_state days"
    and "is_closed st dg"
  shows "\<exists>cur l. map_of (digests st) dg = Some cur \<and> last_observed st = Some l \<and>
    closed_since cur \<le> l \<and> l < closed_since cur + max_embargo_days params \<and>
    0 \<le> days_out cur \<and> days_out cur < release_after_days_out params"
proof -
  have "release_inv params st" using run_release_inv(1) assms(1,2) by simp
  moreover obtain cur where cur: "map_of (digests st) dg = Some cur" "released_on cur = None"
    using assms(3) by (auto simp: is_closed_def split: option.splits)
  ultimately have "entry_ok params (last_observed st) cur" by (simp add: release_inv_def)
  then show ?thesis using cur by (auto simp: entry_ok_def split: option.splits)
qed

lemma rl_embargo_bounded_witness:
  "\<exists>cur l. map_of (digests (foldl (release_step default_release_params) empty_release_state sample_run)) ''d2'' = Some cur \<and>
    last_observed (foldl (release_step default_release_params) empty_release_state sample_run) = Some l \<and>
    closed_since cur \<le> l \<and> l < closed_since cur + max_embargo_days default_release_params \<and>
    0 \<le> days_out cur \<and> days_out cur < release_after_days_out default_release_params"
proof (rule rl_embargo_bounded [OF _ refl])
  show "params_ok default_release_params" by (simp add: params_ok_def default_release_params_def)
  show "is_closed (foldl (release_step default_release_params) empty_release_state sample_run) ''d2''"
    by code_simp
qed

text \<open>A dethroned model is released the day its successor is seated, even if it still earns: no
  digest the outgoing champion held the seat with is closed after a day that seats another hotkey.\<close>

theorem rl_dethroned_released:
  assumes "dict_ok (digests state)" and "day_ok state day" and "champion state = Some old"
    and "seat = Some new" and "new \<noteq> old" and "champion_digest state = Some dg" and "dg \<noteq> []"
    and "observe_day state day earning withheld seat params = Inr (st, rows)"
  shows "\<not> is_closed st dg"
proof -
  from observe_day_result [OF assms(1,2), of earning withheld seat params]
  have "map_of (digests st) dg = digest_after params state day earning withheld seat dg"
    using assms(8) by (metis Inr_inject prod.inject)
  moreover have "dethroned state seat dg" using assms(3-7) by (simp add: dethroned_def)
  ultimately show ?thesis
    by (auto simp: is_closed_def digest_after_def release_ground_def split: option.splits if_splits)
qed

lemma rl_dethroned_released_witness:
  "\<not> is_closed (release_step default_release_params (foldl (release_step default_release_params)
      empty_release_state (take 1 sample_run)) (sample_run ! 1)) ''d1''"
proof -
  let ?s = "foldl (release_step default_release_params) empty_release_state (take 1 sample_run)"
  have st: "dict_ok (digests ?s)" "day_ok ?s 2" "champion ?s = Some ''a''" "champion_digest ?s = Some ''d1''"
    by code_simp+
  let ?i = "snd (sample_run ! 1)"
  obtain st rows where ob: "observe_day ?s 2 (in_earning ?i) (in_withheld ?i) (Some ''b'') default_release_params = Inr (st, rows)"
    using observe_day_result [OF st(1,2)] by metis
  have "\<not> is_closed st ''d1''"
    by (rule rl_dethroned_released [OF st(1-3) refl _ st(4) _ ob]) simp_all
  then show ?thesis using ob by (simp add: release_step_def sample_run_def)
qed

text \<open>C20. The ledger only grows: replaying the records to any day succeeds, and the releases found up to
  an earlier day are, in the same order, the first ones found up to a later day. (The image
  reference attached to a row afterwards is not part of the row.)\<close>

theorem rl_replay_append_only:
  assumes "end1 \<le> end2"
  shows "\<exists>st1 rows1 n1 st2 rows2 n2.
    replay weights_files shadow_files start end1 params = Inr (st1, rows1, n1) \<and>
    replay weights_files shadow_files start end2 params = Inr (st2, rows2, n2) \<and>
    map fst rows1 = take (length rows1) (map fst rows2)"
proof -
  have "dict_ok (digests (acc_state empty_acc))" "day_ok (acc_state empty_acc) start"
    by (simp_all add: empty_acc_def empty_release_state_def day_ok_def)
  from replay_splits [OF this assms, of params "day_inputs weights_files shadow_files"]
  show ?thesis by (auto simp: replay_def o_def)
qed

lemma rl_replay_append_only_witness:
  "\<exists>st1 rows1 n1 st2 rows2 n2.
    replay (\<lambda>_. None) (\<lambda>_ _. None) 1 3 default_release_params = Inr (st1, rows1, n1) \<and>
    replay (\<lambda>_. None) (\<lambda>_ _. None) 1 5 default_release_params = Inr (st2, rows2, n2) \<and>
    map fst rows1 = take (length rows1) (map fst rows2)"
  by (rule rl_replay_append_only) simp

end
