(* ===== verification/Hashing.thy ===== *)
theory Hashing
  imports Prelude "HOL-Library.Word"
begin

text \<open>
  Bytes, hex, UTF-8 and digests, for the two Merkle trees. A 256-bit hash function (SHA-256, or
  BLAKE2b with a 32-byte digest) is a parameter of the model: a function \<open>H\<close> from bytes to a
  256-bit word, of which nothing is assumed. Its \<open>digest()\<close> is the word in 32 big-endian bytes,
  its \<open>hexdigest()\<close> those bytes in lower-case hex.
\<close>

section \<open>Bytes and hex\<close>

type_synonym bytes = "8 word list"

definition utf8_char :: "char \<Rightarrow> bytes" where
  "utf8_char c = (let n = (of_char c :: nat) in
     if n < 128 then [of_nat n] else [of_nat (192 + n div 64), of_nat (128 + n mod 64)])"

text \<open>\<open>str.encode()\<close>, for characters below U+0100.\<close>

definition encode :: "string \<Rightarrow> bytes" where
  "encode s = concat (map utf8_char s)"

definition hex_digits :: string where
  "hex_digits = ''0123456789abcdef''"

definition hex_byte :: "8 word \<Rightarrow> string" where
  "hex_byte b = [hex_digits ! (unat b div 16), hex_digits ! (unat b mod 16)]"

definition hexdigest :: "bytes \<Rightarrow> string" where
  "hexdigest bs = concat (map hex_byte bs)"

definition hex_val :: "char \<Rightarrow> nat option" where
  "hex_val c = (let n = (of_char c :: nat) in
     if 48 \<le> n \<and> n \<le> 57 then Some (n - 48)
     else if 97 \<le> n \<and> n \<le> 102 then Some (n - 87)
     else if 65 \<le> n \<and> n \<le> 70 then Some (n - 55)
     else None)"

definition is_hex_space :: "char \<Rightarrow> bool" where
  "is_hex_space c \<longleftrightarrow> (let n = (of_char c :: nat) in n = 32 \<or> (9 \<le> n \<and> n \<le> 13))"

text \<open>\<open>bytes.fromhex\<close>: two hex digits of either case per byte, white space between bytes; \<open>None\<close> is a
  \<open>ValueError\<close>.\<close>

fun fromhex :: "string \<Rightarrow> bytes option" where
  "fromhex [] = Some []"
| "fromhex [c] = (if is_hex_space c then Some [] else None)"
| "fromhex (c # d # cs) =
     (if is_hex_space c then fromhex (d # cs)
      else case (hex_val c, hex_val d) of
        (Some a, Some b) \<Rightarrow> map_option ((#) (of_nat (16 * a + b))) (fromhex cs)
      | _ \<Rightarrow> None)"

section \<open>Digests\<close>

definition be_bytes :: "256 word \<Rightarrow> bytes" where
  "be_bytes w = map (\<lambda>i. ucast (drop_bit (8 * (31 - i)) w)) [0..<32]"

definition hash_bytes :: "(bytes \<Rightarrow> 256 word) \<Rightarrow> bytes \<Rightarrow> bytes" where
  "hash_bytes H bs = be_bytes (H bs)"

lemma length_be_bytes [simp]: "length (be_bytes w) = 32"
  by (simp add: be_bytes_def)

lemma length_hash_bytes [simp]: "length (hash_bytes H bs) = 32"
  by (simp add: hash_bytes_def)

lemma be_bytes_inj: "be_bytes v = be_bytes w \<Longrightarrow> v = w"
proof (rule bit_word_eqI)
  fix n
  assume eq: "be_bytes v = be_bytes w" and "n < LENGTH(256)"
  then have n: "n < 256" by simp
  let ?i = "31 - n div 8"
  have nth: "be_bytes u ! ?i = ucast (drop_bit (8 * (n div 8)) u)" for u :: "256 word"
  proof -
    have "31 - ?i = n div 8" "?i < 32" using n by linarith+
    then show ?thesis by (simp add: be_bytes_def del: upt_rec_numeral)
  qed
  have "(ucast (drop_bit (8 * (n div 8)) v) :: 8 word) = ucast (drop_bit (8 * (n div 8)) w)"
    by (metis nth eq)
  then have "bit (ucast (drop_bit (8 * (n div 8)) v) :: 8 word) (n mod 8)
      = bit (ucast (drop_bit (8 * (n div 8)) w) :: 8 word) (n mod 8)" by simp
  then show "bit v n = bit w n"
    using n by (simp add: bit_ucast_iff bit_drop_bit_eq)
qed

lemma hash_bytes_inj [simp]: "hash_bytes H a = hash_bytes H b \<longleftrightarrow> H a = H b"
  by (auto simp: hash_bytes_def dest: be_bytes_inj)

section \<open>Hex and UTF-8 round trips\<close>

lemma hex_val_digit: "n < 16 \<Longrightarrow> hex_val (hex_digits ! n) = Some n \<and> \<not> is_hex_space (hex_digits ! n)"
proof -
  assume "n < 16"
  then have "n \<in> set [0..<16]" by simp
  moreover have "\<forall>n \<in> set [0..<16]. hex_val (hex_digits ! n) = Some n \<and> \<not> is_hex_space (hex_digits ! n)"
    by code_simp
  ultimately show ?thesis by blast
qed

lemma fromhex_hexdigest [simp]: "fromhex (hexdigest bs) = Some bs"
proof (induction bs)
  case (Cons b bs)
  have "unat b < 256" by (rule order.strict_trans2 [OF unsigned_less]) simp
  then have "unat b div 16 < 16" by simp
  then have "hex_val (hex_digits ! (unat b div 16)) = Some (unat b div 16)"
    "\<not> is_hex_space (hex_digits ! (unat b div 16))"
    "hex_val (hex_digits ! (unat b mod 16)) = Some (unat b mod 16)"
    using hex_val_digit by simp_all
  moreover have "of_nat (16 * (unat b div 16) + unat b mod 16) = b"
    by (simp add: mult_div_mod_eq)
  moreover have "fromhex (concat (map hex_byte bs)) = Some bs"
    using Cons.IH by (simp only: hexdigest_def)
  ultimately show ?case
    by (simp add: hexdigest_def hex_byte_def del: of_nat_add of_nat_mult)
qed (simp add: hexdigest_def)

lemma hexdigest_inj [simp]: "hexdigest a = hexdigest b \<longleftrightarrow> a = b"
  by (metis fromhex_hexdigest option.inject)

lemma hexdigest_Nil_iff [simp]: "hexdigest a = [] \<longleftrightarrow> a = []"
  by (cases a) (simp_all add: hexdigest_def hex_byte_def)

lemma of_nat_byte_inj: "m < 256 \<Longrightarrow> n < 256 \<Longrightarrow> (of_nat m :: 8 word) = of_nat n \<Longrightarrow> m = n"
proof -
  assume lt: "m < 256" "n < 256" and eq: "(of_nat m :: 8 word) = of_nat n"
  have "unat (of_nat k :: 8 word) = k" if "k < 256" for k
    using that by (simp add: unsigned_of_nat take_bit_nat_eq_self)
  then have "unat (of_nat m :: 8 word) = m" "unat (of_nat n :: 8 word) = n" using lt by blast+
  with eq show "m = n" by metis
qed

lemma utf8_char_prefix:
  assumes eq: "utf8_char c @ xs = utf8_char d @ ys"
  shows "c = d \<and> xs = ys"
proof -
  define m n where "m = (of_char c :: nat)" and "n = (of_char d :: nat)"
  have lt: "m < 256" "n < 256" by (simp_all add: m_def n_def)
  have cd: "c = d" if "m = n" using that by (simp add: m_def n_def)
  have bytes: "utf8_char c = (if m < 128 then [of_nat m] else [of_nat (192 + m div 64), of_nat (128 + m mod 64)])"
    "utf8_char d = (if n < 128 then [of_nat n] else [of_nat (192 + n div 64), of_nat (128 + n mod 64)])"
    by (simp_all add: utf8_char_def m_def n_def Let_def)
  have small: "192 + m div 64 < 256" "192 + n div 64 < 256" "128 + m mod 64 < 256" "128 + n mod 64 < 256"
    using lt by linarith+
  consider "m < 128" "n < 128" | "m < 128" "\<not> n < 128" | "\<not> m < 128" "n < 128"
    | "\<not> m < 128" "\<not> n < 128" by blast
  then show ?thesis
  proof cases
    case 1
    then have "(of_nat m :: 8 word) = of_nat n" "xs = ys" using eq unfolding bytes by auto
    then show ?thesis using of_nat_byte_inj lt cd by blast
  next
    case 2
    then have "(of_nat m :: 8 word) = of_nat (192 + n div 64)" using eq unfolding bytes by (simp del: of_nat_add)
    then have "m = 192 + n div 64" using of_nat_byte_inj lt(1) small(2) by blast
    with 2 show ?thesis by linarith
  next
    case 3
    then have "(of_nat (192 + m div 64) :: 8 word) = of_nat n" using eq unfolding bytes by (simp del: of_nat_add)
    then have "192 + m div 64 = n" using of_nat_byte_inj lt(2) small(1) by blast
    with 3 show ?thesis by linarith
  next
    case 4
    then have "(of_nat (192 + m div 64) :: 8 word) = of_nat (192 + n div 64)"
      "(of_nat (128 + m mod 64) :: 8 word) = of_nat (128 + n mod 64)" "xs = ys"
      using eq unfolding bytes by (simp_all del: of_nat_add)
    then have "192 + m div 64 = 192 + n div 64" "128 + m mod 64 = 128 + n mod 64"
      using of_nat_byte_inj small by blast+
    then have "m = n" by (metis add_left_cancel div_mult_mod_eq)
    with cd \<open>xs = ys\<close> show ?thesis by blast
  qed
qed

lemma encode_inj: "encode s = encode t \<Longrightarrow> s = t"
proof (induction s arbitrary: t)
  case Nil
  then show ?case by (cases t) (simp_all add: encode_def utf8_char_def Let_def split: if_splits)
next
  case (Cons c s)
  then obtain d t' where t: "t = d # t'"
    by (cases t) (simp_all add: encode_def utf8_char_def Let_def split: if_splits)
  have "utf8_char c @ encode s = utf8_char d @ encode t'"
    using Cons.prems by (simp add: encode_def t)
  then show ?case using utf8_char_prefix Cons.IH t by blast
qed

end
