(* ===== verification/MerkleFeed.thy ===== *)
theory MerkleFeed
  imports Prelude Interfaces Hashing
begin

text \<open>
  The rolling Merkle root over the accuracy feed (\<open>hope/publication/merkle.py\<close>). SHA-256 is the
  parameter \<open>H\<close> of \<open>Hashing\<close>; the tree, its levels, the proofs and the verifier are modelled.

  \<open>verify_proof\<close> accepts every proof the server builds (completeness), accepts nothing that is not a
  leaf unless the proof exhibits a collision of \<open>H\<close> (soundness), and a root determines the list
  of leaves, in order, up to a collision (binding). The latter two are shown over the tree that the
  levels spell out.
\<close>

section \<open>The tree\<close>

definition leaf_hash :: "(bytes \<Rightarrow> 256 word) \<Rightarrow> string \<Rightarrow> string" where
  "leaf_hash H payload = hexdigest (hash_bytes H (0 # encode payload))"

definition node_hash :: "(bytes \<Rightarrow> 256 word) \<Rightarrow> string \<Rightarrow> string \<Rightarrow> py_error + string" where
  "node_hash H left right =
     (case (fromhex left, fromhex right) of
        (Some l, Some r) \<Rightarrow> Inr (hexdigest (hash_bytes H (1 # l @ r)))
      | _ \<Rightarrow> Inl ValueError)"

text \<open>One level up: pairs are hashed, a lone last node is promoted.\<close>

fun next_level :: "(bytes \<Rightarrow> 256 word) \<Rightarrow> string list \<Rightarrow> py_error + string list" where
  "next_level H [] = Inr []"
| "next_level H [x] = Inr [x]"
| "next_level H (x # y # level) =
     (case node_hash H x y of
        Inl e \<Rightarrow> Inl e
      | Inr h \<Rightarrow> map_sum id ((#) h) (next_level H level))"

lemma next_level_length: "next_level H level = Inr nxt \<Longrightarrow> length nxt = (length level + 1) div 2"
proof (induction H level arbitrary: nxt rule: next_level.induct)
  case (3 H x y level)
  then show ?case by (auto split: sum.splits)
qed auto

function levels_from :: "(bytes \<Rightarrow> 256 word) \<Rightarrow> string list \<Rightarrow> py_error + string list list" where
  "levels_from H level =
     (if 1 < length level then
        (case next_level H level of
           Inl e \<Rightarrow> Inl e
         | Inr nxt \<Rightarrow> map_sum id ((#) level) (levels_from H nxt))
      else Inr [level])"
  by pat_completeness auto
termination
proof (relation "measure (\<lambda>(H, level). length level)", goal_cases)
  case (2 H level nxt)
  then show ?case using next_level_length [of H level nxt] by simp
qed simp

declare levels_from.simps [simp del]

definition levels :: "(bytes \<Rightarrow> 256 word) \<Rightarrow> string list \<Rightarrow> py_error + string list list" where
  "levels H leaves = (if leaves = [] then Inr [[]] else levels_from H (map (leaf_hash H) leaves))"

definition build_root :: "(bytes \<Rightarrow> 256 word) \<Rightarrow> string list \<Rightarrow> py_error + string option" where
  "build_root H leaves =
     (if leaves = [] then Inr None
      else map_sum id (\<lambda>lv. Some (last lv ! 0)) (levels H leaves))"

record proof_step =
  step_hash :: string
  step_side :: string

text \<open>The walk over \<open>levels[:-1]\<close>; the level of one node that breaks the loop is the top one.\<close>

fun proof_walk :: "string list list \<Rightarrow> nat \<Rightarrow> proof_step list" where
  "proof_walk [] idx = []"
| "proof_walk (level # rest) idx =
     (if length level = 1 then []
      else if idx = length level - 1 \<and> odd (length level) then proof_walk rest (idx div 2)
      else if odd idx then
        \<lparr>step_hash = level ! (idx - 1), step_side = ''left''\<rparr> # proof_walk rest (idx div 2)
      else \<lparr>step_hash = level ! (idx + 1), step_side = ''right''\<rparr> # proof_walk rest (idx div 2))"

definition inclusion_proof :: "(bytes \<Rightarrow> 256 word) \<Rightarrow> string list \<Rightarrow> int \<Rightarrow> py_error + proof_step list" where
  "inclusion_proof H leaves index =
     (if leaves = [] \<or> \<not> (0 \<le> index \<and> index < int (length leaves)) then Inl IndexError
      else map_sum id (\<lambda>lv. proof_walk (butlast lv) (nat index)) (levels H leaves))"

text \<open>The verifier's loop; \<open>None\<close> is an early \<open>return False\<close>.\<close>

fun verify_walk :: "(bytes \<Rightarrow> 256 word) \<Rightarrow> string \<Rightarrow> proof_step list \<Rightarrow> string option" where
  "verify_walk H cur [] = Some cur"
| "verify_walk H cur (step # steps) =
     (if step_side step = ''left'' then
        (case node_hash H (step_hash step) cur of Inl _ \<Rightarrow> None | Inr h \<Rightarrow> verify_walk H h steps)
      else if step_side step = ''right'' then
        (case node_hash H cur (step_hash step) of Inl _ \<Rightarrow> None | Inr h \<Rightarrow> verify_walk H h steps)
      else None)"

definition verify_proof :: "(bytes \<Rightarrow> 256 word) \<Rightarrow> string \<Rightarrow> proof_step list \<Rightarrow> string \<Rightarrow> bool" where
  "verify_proof H payload steps rt \<longleftrightarrow>
     rt \<noteq> [] \<and> verify_walk H (leaf_hash H payload) steps = Some rt"

section \<open>The tree the levels spell out\<close>

datatype mtree = Leaf string | Node mtree mtree

fun digest :: "(bytes \<Rightarrow> 256 word) \<Rightarrow> mtree \<Rightarrow> bytes" where
  "digest H (Leaf p) = hash_bytes H (0 # encode p)"
| "digest H (Node l r) = hash_bytes H (1 # digest H l @ digest H r)"

fun payloads :: "mtree \<Rightarrow> string list" where
  "payloads (Leaf p) = [p]"
| "payloads (Node l r) = payloads l @ payloads r"

fun tree_inputs :: "(bytes \<Rightarrow> 256 word) \<Rightarrow> mtree \<Rightarrow> bytes set" where
  "tree_inputs H (Leaf p) = {0 # encode p}"
| "tree_inputs H (Node l r) = insert (1 # digest H l @ digest H r) (tree_inputs H l \<union> tree_inputs H r)"

fun pair_trees :: "mtree list \<Rightarrow> mtree list" where
  "pair_trees [] = []"
| "pair_trees [t] = [t]"
| "pair_trees (t # u # ts) = Node t u # pair_trees ts"

lemma pair_trees_length: "length (pair_trees ts) = (length ts + 1) div 2"
  by (induction ts rule: pair_trees.induct) auto

lemma pair_trees_payloads: "concat (map payloads (pair_trees ts)) = concat (map payloads ts)"
  by (induction ts rule: pair_trees.induct) auto

function tree_of :: "mtree list \<Rightarrow> mtree" where
  "tree_of ts = (if 1 < length ts then tree_of (pair_trees ts) else hd ts)"
  by pat_completeness auto
termination by (relation "measure length") (auto simp: pair_trees_length)

declare tree_of.simps [simp del]

lemma tree_of_payloads: "ts \<noteq> [] \<Longrightarrow> payloads (tree_of ts) = concat (map payloads ts)"
proof (induction ts rule: tree_of.induct)
  case (1 ts)
  show ?case
  proof (cases "1 < length ts")
    case True
    then have "pair_trees ts \<noteq> []" by (cases ts rule: pair_trees.cases) auto
    then show ?thesis using 1 True by (subst tree_of.simps) (simp add: pair_trees_payloads)
  next
    case False
    then show ?thesis using 1 by (subst tree_of.simps) (cases ts; simp)
  qed
qed

definition hx :: "(bytes \<Rightarrow> 256 word) \<Rightarrow> mtree \<Rightarrow> string" where
  "hx H t = hexdigest (digest H t)"

lemma node_hash_hx: "node_hash H (hx H l) (hx H r) = Inr (hx H (Node l r))"
  by (simp add: node_hash_def hx_def)

lemma next_level_trees: "next_level H (map (hx H) ts) = Inr (map (hx H) (pair_trees ts))"
  by (induction ts rule: pair_trees.induct) (simp_all add: node_hash_hx)

lemma levels_trees:
  assumes "ts \<noteq> []"
  shows "\<exists>lv. levels_from H (map (hx H) ts) = Inr lv \<and> lv \<noteq> [] \<and> last lv = [hx H (tree_of ts)]"
  using assms
proof (induction ts rule: tree_of.induct)
  case (1 ts)
  show ?case
  proof (cases "1 < length ts")
    case True
    then have "pair_trees ts \<noteq> []" by (cases ts rule: pair_trees.cases) auto
    with 1 True obtain lv where "levels_from H (map (hx H) (pair_trees ts)) = Inr lv" "lv \<noteq> []"
      "last lv = [hx H (tree_of (pair_trees ts))]" by blast
    then show ?thesis using True
      by (subst levels_from.simps, subst tree_of.simps) (simp add: next_level_trees)
  next
    case False
    then have "ts = [hd ts]" using 1 by (cases ts) auto
    then show ?thesis using False by (subst levels_from.simps, subst tree_of.simps) (cases ts; simp)
  qed
qed

lemma leaf_hash_hx: "leaf_hash H = (\<lambda>p. hx H (Leaf p))"
  by (simp add: leaf_hash_def hx_def fun_eq_iff)

definition tree :: "string list \<Rightarrow> mtree" where
  "tree leaves = tree_of (map Leaf leaves)"

lemma tree_payloads: "leaves \<noteq> [] \<Longrightarrow> payloads (tree leaves) = leaves"
  by (simp add: tree_def tree_of_payloads o_def)

lemma build_root_tree: "leaves \<noteq> [] \<Longrightarrow> build_root H leaves = Inr (Some (hx H (tree leaves)))"
  using levels_trees [of "map Leaf leaves" H]
  by (auto simp: build_root_def levels_def leaf_hash_hx o_def tree_def)

section \<open>What a proof commits to\<close>

text \<open>The bytes hashed at a step of the verifier, and along a walk.\<close>

definition step_input :: "string \<Rightarrow> proof_step \<Rightarrow> bytes option" where
  "step_input cur step =
     (if step_side step = ''left'' then
        (case (fromhex (step_hash step), fromhex cur) of (Some a, Some b) \<Rightarrow> Some (1 # a @ b) | _ \<Rightarrow> None)
      else if step_side step = ''right'' then
        (case (fromhex cur, fromhex (step_hash step)) of (Some a, Some b) \<Rightarrow> Some (1 # a @ b) | _ \<Rightarrow> None)
      else None)"

fun walk_inputs :: "(bytes \<Rightarrow> 256 word) \<Rightarrow> string \<Rightarrow> proof_step list \<Rightarrow> bytes set" where
  "walk_inputs H cur [] = {}"
| "walk_inputs H cur (step # steps) =
     (case step_input cur step of
        None \<Rightarrow> {}
      | Some i \<Rightarrow> insert i (walk_inputs H (hexdigest (hash_bytes H i)) steps))"

definition proof_inputs :: "(bytes \<Rightarrow> 256 word) \<Rightarrow> string \<Rightarrow> proof_step list \<Rightarrow> bytes set" where
  "proof_inputs H payload steps = insert (0 # encode payload) (walk_inputs H (leaf_hash H payload) steps)"

lemma verify_walk_step:
  "verify_walk H cur (step # steps) =
     (case step_input cur step of
        None \<Rightarrow> None | Some i \<Rightarrow> verify_walk H (hexdigest (hash_bytes H i)) steps)"
  by (auto simp: step_input_def node_hash_def split: option.splits)

declare verify_walk.simps(2) [simp del]

lemma verify_walk_snoc:
  "verify_walk H cur (steps @ [s]) =
     (case verify_walk H cur steps of None \<Rightarrow> None
      | Some c \<Rightarrow> map_option (\<lambda>i. hexdigest (hash_bytes H i)) (step_input c s))"
  by (induction steps arbitrary: cur) (auto simp: verify_walk_step split: option.splits)

lemma walk_inputs_snoc:
  "verify_walk H cur steps = Some c \<Longrightarrow>
     walk_inputs H cur (steps @ [s]) = walk_inputs H cur steps \<union> set_option (step_input c s)"
  by (induction steps arbitrary: cur) (auto simp: verify_walk_step split: option.splits)

lemma walk_result:
  "verify_walk H (leaf_hash H p) steps = Some c \<Longrightarrow> \<exists>i. c = hexdigest (hash_bytes H i)"
  by (induction steps rule: rev_induct)
    (auto simp: leaf_hash_def verify_walk_snoc split: option.splits)

lemma digest_length [simp]: "length (digest H t) = 32"
  by (cases t) simp_all

text \<open>A step from a digest hashes the tag, a sibling of any length and the digest.\<close>

lemma step_input_cases:
  assumes "step_input (hexdigest b) s = Some i"
  obtains (left) a where "i = 1 # a @ b" | (right) a where "i = 1 # b @ a"
  using assms by (auto simp: step_input_def split: if_splits option.splits)

lemma proof_inputs_snoc:
  assumes "verify_walk H (leaf_hash H p) steps = Some c" and "step_input c s = Some i"
  shows "proof_inputs H p (steps @ [s]) = insert i (proof_inputs H p steps)"
  using walk_inputs_snoc [OF assms(1), of s] assms(2) by (auto simp: proof_inputs_def)

lemma feed_walk_sound:
  "verify_walk H (leaf_hash H p) steps = Some (hx H t) \<Longrightarrow>
     p \<in> set (payloads t) \<or> collides H (tree_inputs H t) (proof_inputs H p steps)"
proof (induction steps arbitrary: t rule: rev_induct)
  case Nil
  then have eq: "H (0 # encode p) = H (case t of Leaf q \<Rightarrow> 0 # encode q | Node l r \<Rightarrow> 1 # digest H l @ digest H r)"
    by (cases t) (simp_all add: leaf_hash_def hx_def)
  show ?case
  proof (cases "0 # encode p = (case t of Leaf q \<Rightarrow> 0 # encode q | Node l r \<Rightarrow> 1 # digest H l @ digest H r)")
    case True
    then show ?thesis by (cases t) (auto dest: encode_inj)
  next
    case False
    then have "collides H (tree_inputs H t) (proof_inputs H p [])"
      using eq by (intro collidesI [OF _ _ False [symmetric]]) (cases t; simp add: proof_inputs_def)+
    then show ?thesis ..
  qed
next
  case (snoc s steps)
  then obtain c i where c: "verify_walk H (leaf_hash H p) steps = Some c"
    and i: "step_input c s = Some i" and hi: "hexdigest (hash_bytes H i) = hx H t"
    by (auto simp: verify_walk_snoc split: option.splits)
  obtain j where j: "c = hexdigest (hash_bytes H j)" using walk_result [OF c] by blast
  note inputs = proof_inputs_snoc [OF c i]
  show ?case
  proof (cases t)
    case (Leaf q)
    have "i \<noteq> 0 # encode q" using step_input_cases [OF i [unfolded j]] by force
    then have "collides H (tree_inputs H t) (proof_inputs H p (steps @ [s]))"
      using hi by (intro collidesI [of "0 # encode q" _ i]) (simp_all add: Leaf inputs hx_def)
    then show ?thesis ..
  next
    case (Node l r)
    let ?n = "1 # digest H l @ digest H r"
    show ?thesis
    proof (cases "i = ?n")
      case True
      from i have "step_input (hexdigest (hash_bytes H j)) s = Some i" by (simp add: j)
      then have "hash_bytes H j = digest H l \<or> hash_bytes H j = digest H r"
      proof (cases rule: step_input_cases)
        case (left a)
        then have "a @ hash_bytes H j = digest H l @ digest H r" using True by simp
        then show ?thesis by (metis append_eq_append_conv digest_length length_hash_bytes)
      next
        case (right a)
        then have "hash_bytes H j @ a = digest H l @ digest H r" using True by simp
        then show ?thesis by (metis append_eq_append_conv digest_length length_hash_bytes)
      qed
      then obtain u where u: "u = l \<or> u = r" "c = hx H u" by (auto simp: j hx_def)
      have sub: "tree_inputs H u \<subseteq> tree_inputs H t" "set (payloads u) \<subseteq> set (payloads t)"
        using u(1) by (auto simp: Node)
      have "p \<in> set (payloads u) \<or> collides H (tree_inputs H u) (proof_inputs H p steps)"
        using snoc.IH c u(2) by simp
      then show ?thesis using sub collides_mono [of H "tree_inputs H u" "proof_inputs H p steps"
          "tree_inputs H t" "proof_inputs H p (steps @ [s])"] by (auto simp: inputs)
    next
      case False
      then have "collides H (tree_inputs H t) (proof_inputs H p (steps @ [s]))"
        using hi by (intro collidesI [of ?n _ i]) (simp_all add: Node inputs hx_def)
      then show ?thesis ..
    qed
  qed
qed

lemma tree_binding:
  "digest H t = digest H u \<Longrightarrow> t = u \<or> collides H (tree_inputs H t) (tree_inputs H u)"
proof (induction t arbitrary: u)
  case (Leaf p)
  show ?case
  proof (cases u)
    case (Leaf q)
    then show ?thesis using Leaf.prems
      by (cases "p = q") (auto intro!: collidesI dest: encode_inj)
  next
    case (Node l r)
    then show ?thesis using Leaf.prems by (auto intro!: collidesI)
  qed
next
  case (Node l r)
  show ?case
  proof (cases u)
    case (Leaf q)
    then show ?thesis using Node.prems by (auto intro!: collidesI)
  next
    case u: (Node l' r')
    let ?a = "1 # digest H l @ digest H r" and ?b = "1 # digest H l' @ digest H r'"
    show ?thesis
    proof (cases "?a = ?b")
      case True
      then have "digest H l = digest H l'" "digest H r = digest H r'" by simp_all
      then have "(l = l' \<or> collides H (tree_inputs H l) (tree_inputs H l')) \<and>
          (r = r' \<or> collides H (tree_inputs H r) (tree_inputs H r'))" using Node.IH by blast
      moreover have "collides H (tree_inputs H (Node l r)) (tree_inputs H u)"
        if "collides H (tree_inputs H l) (tree_inputs H l') \<or> collides H (tree_inputs H r) (tree_inputs H r')"
        using that by (elim disjE; elim collides_mono) (auto simp: u)
      ultimately show ?thesis using u by blast
    next
      case False
      then show ?thesis using Node.prems by (auto simp: u intro!: collidesI [of ?a _ ?b])
    qed
  qed
qed

section \<open>Completeness\<close>

lemma next_level_nth:
  assumes "next_level H level = Inr nxt" and "i < length level"
  shows "i = length level - 1 \<and> odd (length level) \<and> nxt ! (i div 2) = level ! i \<or>
    \<not> (i = length level - 1 \<and> odd (length level)) \<and> 2 * (i div 2) + 1 < length level \<and>
    node_hash H (level ! (2 * (i div 2))) (level ! (2 * (i div 2) + 1)) = Inr (nxt ! (i div 2))"
  using assms
proof (induction H level arbitrary: nxt i rule: next_level.induct)
  case (3 H x y level)
  then obtain h rest where h: "node_hash H x y = Inr h" and rest: "next_level H level = Inr rest"
    and nxt: "nxt = h # rest" by (auto split: sum.splits)
  show ?case
  proof (cases "i < 2")
    case True
    then show ?thesis by (auto simp: h nxt)
  next
    case False
    then obtain k where k: "i = Suc (Suc k)" by (metis add_2_eq_Suc le_Suc_ex not_less)
    from 3 h rest k have "k = length level - 1 \<and> odd (length level) \<and> rest ! (k div 2) = level ! k \<or>
      \<not> (k = length level - 1 \<and> odd (length level)) \<and> 2 * (k div 2) + 1 < length level \<and>
      node_hash H (level ! (2 * (k div 2))) (level ! (2 * (k div 2) + 1)) = Inr (rest ! (k div 2))"
      by simp
    then show ?thesis using "3.prems"(2) by (auto simp: k nxt)
  qed
qed auto

lemma levels_from_nonempty: "levels_from H level = Inr lv \<Longrightarrow> lv \<noteq> []"
  by (subst (asm) levels_from.simps) (auto split: if_splits sum.splits)

lemma feed_walk_complete:
  "levels_from H level = Inr lv \<Longrightarrow> i < length level \<Longrightarrow>
     verify_walk H (level ! i) (proof_walk (butlast lv) i) = Some (last lv ! 0)"
proof (induction H level arbitrary: lv i rule: levels_from.induct)
  case (1 H level)
  show ?case
  proof (cases "1 < length level")
    case False
    then have "i = 0" "lv = [level]" using 1(2,3) by (simp_all add: levels_from.simps)
    then show ?thesis by simp
  next
    case True
    then obtain nxt lv' where nxt: "next_level H level = Inr nxt"
      and lv': "levels_from H nxt = Inr lv'" and lv: "lv = level # lv'"
      using 1(2) by (subst (asm) levels_from.simps) (auto split: sum.splits)
    have ne: "lv' \<noteq> []" using lv' by (rule levels_from_nonempty)
    have lt: "i div 2 < length nxt" using 1(3) by (simp add: next_level_length [OF nxt] div_less_iff_less_mult)
    have IH: "verify_walk H (nxt ! (i div 2)) (proof_walk (butlast lv') (i div 2)) = Some (last lv' ! 0)"
      using 1(1) True nxt lv' lt by blast
    have two: "length level \<noteq> 1" using True by simp
    from next_level_nth [OF nxt 1(3)] show ?thesis
    proof (elim disjE conjE)
      assume "i = length level - 1" "odd (length level)" "nxt ! (i div 2) = level ! i"
      then show ?thesis using IH ne two by (simp add: lv)
    next
      assume no: "\<not> (i = length level - 1 \<and> odd (length level))"
        and nh: "node_hash H (level ! (2 * (i div 2))) (level ! (2 * (i div 2) + 1)) = Inr (nxt ! (i div 2))"
      have walk: "proof_walk (butlast lv) i =
          (if odd i then \<lparr>step_hash = level ! (i - 1), step_side = ''left''\<rparr> # proof_walk (butlast lv') (i div 2)
           else \<lparr>step_hash = level ! (i + 1), step_side = ''right''\<rparr> # proof_walk (butlast lv') (i div 2))"
        by (simp only: lv butlast.simps ne if_False proof_walk.simps two no)
      have last: "last lv = last lv'" using ne by (simp add: lv)
      show ?thesis
      proof (cases "odd i")
        case True
        then have "2 * (i div 2) = i - 1" "2 * (i div 2) + 1 = i" by presburger+
        then show ?thesis using IH nh True by (simp add: walk last verify_walk.simps)
      next
        case False
        then have "2 * (i div 2) = i" by presburger
        then show ?thesis using IH nh False by (simp add: walk last verify_walk.simps)
      qed
    qed
  qed
qed

lemma proof_verifies:
  assumes "i < length leaves"
  obtains steps rt where "inclusion_proof H leaves (int i) = Inr steps"
    and "build_root H leaves = Inr (Some rt)" and "verify_proof H (leaves ! i) steps rt"
proof -
  have ne: "leaves \<noteq> []" using assms by auto
  obtain lv where lv: "levels_from H (map (leaf_hash H) leaves) = Inr lv"
    "last lv = [hx H (tree leaves)]"
    using levels_trees [of "map Leaf leaves" H] ne by (auto simp: leaf_hash_hx o_def tree_def)
  have "verify_walk H (leaf_hash H (leaves ! i)) (proof_walk (butlast lv) i) = Some (hx H (tree leaves))"
    using feed_walk_complete [OF lv(1), of i] assms lv(2) by simp
  moreover have "hx H (tree leaves) \<noteq> []"
    using digest_length [of H "tree leaves"] unfolding hx_def hexdigest_Nil_iff by force
  ultimately have "verify_proof H (leaves ! i) (proof_walk (butlast lv) i) (hx H (tree leaves))"
    by (simp add: verify_proof_def)
  moreover have "inclusion_proof H leaves (int i) = Inr (proof_walk (butlast lv) i)"
    using ne assms lv(1) by (simp add: inclusion_proof_def levels_def)
  ultimately show thesis using that build_root_tree [OF ne, of H] by blast
qed

section \<open>The feed as an authenticated list\<close>

definition feed_root :: "(bytes \<Rightarrow> 256 word) \<Rightarrow> string list \<Rightarrow> string option" where
  "feed_root H leaves = (case build_root H leaves of Inl _ \<Rightarrow> None | Inr r \<Rightarrow> r)"

definition feed_proof :: "(bytes \<Rightarrow> 256 word) \<Rightarrow> string list \<Rightarrow> nat \<Rightarrow> proof_step list" where
  "feed_proof H leaves i = (case inclusion_proof H leaves (int i) of Inl _ \<Rightarrow> [] | Inr steps \<Rightarrow> steps)"

lemma feed_root_tree:
  "feed_root H leaves = (if leaves = [] then None else Some (hx H (tree leaves)))"
  by (simp add: feed_root_def build_root_tree) (simp add: build_root_def)

lemma feed_proof_verifies:
  assumes "i < length leaves" and "feed_root H leaves = Some rt"
  shows "verify_proof H (leaves ! i) (feed_proof H leaves i) rt"
proof -
  obtain steps r where "inclusion_proof H leaves (int i) = Inr steps"
    "build_root H leaves = Inr (Some r)" "verify_proof H (leaves ! i) steps r"
    by (rule proof_verifies [OF assms(1)])
  then show ?thesis using assms(2) by (simp add: feed_proof_def feed_root_def)
qed

interpretation feed: authenticated_list H "feed_root H" "feed_proof H" "verify_proof H"
    "\<lambda>leaves. tree_inputs H (tree leaves)" "proof_inputs H" for H
proof unfold_locales
  show "verify_proof H (xs ! i) (feed_proof H xs i) r"
    if "feed_root H xs = Some r" "i < length xs" for xs r i
    using that by (simp add: feed_proof_verifies)
next
  fix xs r x p
  assume r: "feed_root H xs = Some r" and v: "verify_proof H x p r"
  have "verify_walk H (leaf_hash H x) p = Some (hx H (tree xs))" "xs \<noteq> []"
    using r v by (auto simp: feed_root_tree verify_proof_def split: if_splits)
  from feed_walk_sound [OF this(1)] this(2)
  show "x \<in> set xs \<or> collides H (tree_inputs H (tree xs)) (proof_inputs H x p)"
    by (simp add: tree_payloads)
next
  fix xs ys r
  assume "feed_root H xs = Some r" "feed_root H ys = Some r"
  then have ne: "xs \<noteq> []" "ys \<noteq> []" and "hx H (tree xs) = hx H (tree ys)"
    by (auto simp: feed_root_tree split: if_splits)
  then have "tree xs = tree ys \<or> collides H (tree_inputs H (tree xs)) (tree_inputs H (tree ys))"
    by (intro tree_binding) (simp add: hx_def)
  then show "xs = ys \<or> collides H (tree_inputs H (tree xs)) (tree_inputs H (tree ys))"
    using ne tree_payloads by metis
qed

section \<open>Properties\<close>

text \<open>C13. Any day stays verifiable: for every leaf of a non-empty feed the server's proof exists, the root
  exists, and the miner-side check accepts the leaf with that proof against that root. A proof is
  refused, with an \<open>IndexError\<close>, exactly for an index outside the feed.\<close>

theorem mk_proof_complete:
  "(inclusion_proof H leaves index = Inl IndexError \<longleftrightarrow> \<not> (0 \<le> index \<and> index < int (length leaves))) \<and>
   (0 \<le> index \<and> index < int (length leaves) \<longrightarrow>
     (\<exists>steps rt. inclusion_proof H leaves index = Inr steps \<and> build_root H leaves = Inr (Some rt) \<and>
        verify_proof H (leaves ! nat index) steps rt))"
proof (cases "0 \<le> index \<and> index < int (length leaves)")
  case True
  then have "nat index < length leaves" and "int (nat index) = index" by auto
  with proof_verifies [of "nat index" leaves H] True show ?thesis by (metis sum.distinct(1))
next
  case False
  then have "leaves = [] \<or> \<not> (0 \<le> index \<and> index < int (length leaves))" by blast
  then have "inclusion_proof H leaves index = Inl IndexError" by (simp only: inclusion_proof_def if_True)
  with False show ?thesis by blast
qed

text \<open>A stand-in for the hash function, for examples.\<close>

definition sample_hash :: "bytes \<Rightarrow> 256 word" where
  "sample_hash bs = foldl (\<lambda>h b. h * 257 + ucast b + 1) 7 bs"

lemma mk_proof_complete_witness:
  "\<exists>steps rt. inclusion_proof sample_hash [''d1'', ''d2'', ''d3''] 2 = Inr steps \<and>
    build_root sample_hash [''d1'', ''d2'', ''d3''] = Inr (Some rt) \<and> verify_proof sample_hash ''d3'' steps rt"
  using mk_proof_complete [of sample_hash "[''d1'', ''d2'', ''d3'']" 2] by simp

text \<open>C12. A proof cannot vouch for a document that was never published: if the check accepts a payload
  against the root of a feed, the payload is one of its leaves, or the proof exhibits a collision of the
  hash function (a string the check hashes that differs from one hashed to build the root and has
  the same digest). This holds for siblings of any length and spelling.\<close>

theorem mk_proof_sound:
  assumes "build_root H leaves = Inr (Some rt)" and "verify_proof H payload steps rt"
  shows "payload \<in> set leaves \<or> collides H (tree_inputs H (tree leaves)) (proof_inputs H payload steps)"
  using assms by (intro feed.sound [of H leaves rt]) (simp_all add: feed_root_def)

lemma mk_proof_sound_witness:
  "\<exists>steps rt. verify_proof sample_hash ''d2'' steps rt \<and> (''d2'' \<in> set [''d1'', ''d2''] \<or>
     collides sample_hash (tree_inputs sample_hash (tree [''d1'', ''d2''])) (proof_inputs sample_hash ''d2'' steps))"
proof -
  obtain steps rt where pr: "build_root sample_hash [''d1'', ''d2''] = Inr (Some rt)"
    "verify_proof sample_hash ([''d1'', ''d2''] ! 1) steps rt"
    by (rule proof_verifies [of 1 "[''d1'', ''d2'']" sample_hash]) simp
  from mk_proof_sound [OF this] pr show ?thesis by auto
qed

text \<open>The root commits to the whole history in order: two feeds with the same root are the same list,
  or the two trees exhibit a collision. In particular no day can be replaced, reordered or
  duplicated (a lone node is promoted, not hashed with itself).\<close>

theorem mk_root_binds:
  assumes "build_root H leaves = Inr (Some rt)" and "build_root H leaves' = Inr (Some rt)"
  shows "leaves = leaves' \<or> collides H (tree_inputs H (tree leaves)) (tree_inputs H (tree leaves'))"
  using assms by (intro feed.binding [of H leaves rt]) (simp_all add: feed_root_def)

lemma mk_root_binds_witness:
  "[''d1'', ''d2''] = [''d1'', ''d2''] \<or>
     collides sample_hash (tree_inputs sample_hash (tree [''d1'', ''d2''])) (tree_inputs sample_hash (tree [''d1'', ''d2'']))"
proof -
  obtain steps rt where "build_root sample_hash [''d1'', ''d2''] = Inr (Some rt)"
    by (rule proof_verifies [of 1 "[''d1'', ''d2'']" sample_hash]) simp
  from mk_root_binds [OF this this] show ?thesis .
qed

end
