(* ===== verification/IndexedMerkle.thy ===== *)
theory IndexedMerkle
  imports Prelude Interfaces Hashing
begin

text \<open>
  The indexed Merkle tree of the commitment scheme (\<open>hope/commitment/imt.py\<close>): leaves sorted by key,
  each pointing to the next larger key, under a binary tree of fixed depth padded with empty
  leaves. BLAKE2b-256 is the parameter \<open>H\<close> of \<open>Hashing\<close>. Keys are compared as Python compares
  \<open>bytes\<close>: lexicographically by unsigned byte.

  Shown: inclusion proofs verify and bind a leaf to its position; absence proofs can be built for
  every absent key between the smallest key and the sentinel, verify, and are sound.
\<close>

section \<open>Leaves and hashes\<close>

definition max_key :: bytes where "max_key = replicate 32 255"
definition empty_key :: bytes where "empty_key = replicate 32 0"
definition empty_value :: bytes where "empty_value = replicate 32 0"

record imt_leaf =
  leaf_key :: bytes
  leaf_value :: bytes
  next_key :: bytes

definition leaf_ok :: "imt_leaf \<Rightarrow> bool" where
  "leaf_ok lf \<longleftrightarrow> length (leaf_key lf) = 32 \<and> length (leaf_value lf) = 32 \<and> length (next_key lf) = 32"

text \<open>\<open>IMTLeaf(key, value, next_key)\<close> with the checks of \<open>__post_init__\<close>.\<close>

definition mk_leaf :: "bytes \<Rightarrow> bytes \<Rightarrow> bytes \<Rightarrow> py_error + imt_leaf" where
  "mk_leaf k v n = (let lf = \<lparr>leaf_key = k, leaf_value = v, next_key = n\<rparr>
     in if leaf_ok lf then Inr lf else Inl ValueError)"

record inclusion_proof =
  proof_leaf :: imt_leaf
  leaf_index :: int
  siblings :: "bytes list"

record non_inclusion_proof =
  target_key :: bytes
  bracket_leaf_proof :: inclusion_proof

definition leaf_bytes :: "imt_leaf \<Rightarrow> bytes" where
  "leaf_bytes lf = leaf_key lf @ leaf_value lf @ next_key lf"

definition imt_leaf_hash :: "(bytes \<Rightarrow> 256 word) \<Rightarrow> imt_leaf \<Rightarrow> bytes" where
  "imt_leaf_hash H lf = hash_bytes H (leaf_bytes lf)"

definition imt_node_hash :: "(bytes \<Rightarrow> 256 word) \<Rightarrow> bytes \<Rightarrow> bytes \<Rightarrow> py_error + bytes" where
  "imt_node_hash H left right =
     (if length left \<noteq> 32 \<or> length right \<noteq> 32 then Inl ValueError
      else Inr (hash_bytes H (left @ right)))"

definition empty_leaf :: imt_leaf where
  "empty_leaf = \<lparr>leaf_key = empty_key, leaf_value = empty_value, next_key = empty_key\<rparr>"

definition empty_leaf_hash :: "(bytes \<Rightarrow> 256 word) \<Rightarrow> bytes" where
  "empty_leaf_hash H = imt_leaf_hash H empty_leaf"

section \<open>The tree\<close>

fun up_level :: "(bytes \<Rightarrow> 256 word) \<Rightarrow> bytes list \<Rightarrow> py_error + bytes list" where
  "up_level H [] = Inr []"
| "up_level H [x] = Inl IndexError"
| "up_level H (x # y # level) =
     (case imt_node_hash H x y of
        Inl e \<Rightarrow> Inl e
      | Inr h \<Rightarrow> map_sum id ((#) h) (up_level H level))"

fun levels_up :: "(bytes \<Rightarrow> 256 word) \<Rightarrow> nat \<Rightarrow> bytes list \<Rightarrow> py_error + bytes list list" where
  "levels_up H 0 level = Inr [level]"
| "levels_up H (Suc d) level =
     (case up_level H level of
        Inl e \<Rightarrow> Inl e
      | Inr nxt \<Rightarrow> map_sum id ((#) level) (levels_up H d nxt))"

definition padded :: "(bytes \<Rightarrow> 256 word) \<Rightarrow> nat \<Rightarrow> bytes list \<Rightarrow> bytes list" where
  "padded H depth hs = hs @ replicate (2 ^ depth - length hs) (empty_leaf_hash H)"

definition build_tree_levels :: "(bytes \<Rightarrow> 256 word) \<Rightarrow> bytes list \<Rightarrow> nat \<Rightarrow> py_error + bytes list list" where
  "build_tree_levels H leaf_hashes depth =
     (if 2 ^ depth < length leaf_hashes then Inl ValueError
      else levels_up H depth (padded H depth leaf_hashes))"

definition imt_root :: "(bytes \<Rightarrow> 256 word) \<Rightarrow> imt_leaf list \<Rightarrow> nat \<Rightarrow> py_error + bytes" where
  "imt_root H leaves depth =
     map_sum id (\<lambda>lv. lv ! depth ! 0) (build_tree_levels H (map (imt_leaf_hash H) leaves) depth)"

text \<open>The duplicate check over neighbours, and the leaves with their pointers.\<close>

fun has_adjacent_dup :: "(bytes \<times> bytes) list \<Rightarrow> bool" where
  "has_adjacent_dup (p # q # ps) \<longleftrightarrow> fst p = fst q \<or> has_adjacent_dup (q # ps)"
| "has_adjacent_dup _ \<longleftrightarrow> False"

fun link :: "(bytes \<times> bytes) list \<Rightarrow> py_error + imt_leaf list" where
  "link [] = Inr []"
| "link ((k, v) # ps) =
     (case mk_leaf k v (case ps of [] \<Rightarrow> max_key | (k', _) # _ \<Rightarrow> k') of
        Inl e \<Rightarrow> Inl e
      | Inr lf \<Rightarrow> map_sum id ((#) lf) (link ps))"

definition make_leaves_with_pointers :: "(bytes \<times> bytes) list \<Rightarrow> nat \<Rightarrow> py_error + imt_leaf list" where
  "make_leaves_with_pointers pairs depth =
     (if pairs = [] then Inr []
      else let sorted_pairs = sort_key fst pairs in
        if has_adjacent_dup sorted_pairs then Inl ValueError
        else case link sorted_pairs of
               Inl e \<Rightarrow> Inl e
             | Inr leaves \<Rightarrow> if 2 ^ depth < length leaves then Inl ValueError else Inr leaves)"

section \<open>Inclusion\<close>

fun find_index :: "('a \<Rightarrow> bool) \<Rightarrow> 'a list \<Rightarrow> nat option" where
  "find_index P [] = None"
| "find_index P (x # xs) = (if P x then Some 0 else map_option Suc (find_index P xs))"

fun collect_siblings :: "bytes list list \<Rightarrow> nat \<Rightarrow> nat \<Rightarrow> bytes list" where
  "collect_siblings lv 0 idx = []"
| "collect_siblings lv (Suc n) idx = hd lv ! (xor idx 1) # collect_siblings (tl lv) n (idx div 2)"

definition imt_proof_inclusion ::
    "(bytes \<Rightarrow> 256 word) \<Rightarrow> imt_leaf list \<Rightarrow> bytes \<Rightarrow> nat \<Rightarrow> py_error + inclusion_proof" where
  "imt_proof_inclusion H leaves target depth =
     (case find_index (\<lambda>lf. leaf_key lf = target) leaves of
        None \<Rightarrow> Inl KeyError
      | Some i \<Rightarrow>
          map_sum id (\<lambda>lv. \<lparr>proof_leaf = leaves ! i, leaf_index = int i, siblings = collect_siblings lv depth i\<rparr>)
            (build_tree_levels H (map (imt_leaf_hash H) leaves) depth))"

fun imt_walk :: "(bytes \<Rightarrow> 256 word) \<Rightarrow> bytes \<Rightarrow> int \<Rightarrow> bytes list \<Rightarrow> py_error + bytes" where
  "imt_walk H h idx [] = Inr h"
| "imt_walk H h idx (s # ss) =
     (case (if idx mod 2 = 0 then imt_node_hash H h s else imt_node_hash H s h) of
        Inl e \<Rightarrow> Inl e
      | Inr h' \<Rightarrow> imt_walk H h' (idx div 2) ss)"

definition verify_inclusion :: "(bytes \<Rightarrow> 256 word) \<Rightarrow> inclusion_proof \<Rightarrow> bytes \<Rightarrow> nat \<Rightarrow> py_error + bool" where
  "verify_inclusion H p expected_root depth =
     (if length (siblings p) \<noteq> depth then Inr False
      else if length expected_root \<noteq> 32 then Inr False
      else map_sum id (\<lambda>h. h = expected_root)
             (imt_walk H (imt_leaf_hash H (proof_leaf p)) (leaf_index p) (siblings p)))"

section \<open>Absence\<close>

definition imt_proof_non_inclusion ::
    "(bytes \<Rightarrow> 256 word) \<Rightarrow> imt_leaf list \<Rightarrow> bytes \<Rightarrow> nat \<Rightarrow> py_error + non_inclusion_proof" where
  "imt_proof_non_inclusion H leaves target depth =
     (if list_ex (\<lambda>lf. leaf_key lf = target) leaves then Inl KeyError
      else case List.find (\<lambda>lf. leaf_key lf < target \<and> target < next_key lf) leaves of
             None \<Rightarrow> Inl ValueError
           | Some bracket \<Rightarrow>
               map_sum id (\<lambda>p. \<lparr>target_key = target, bracket_leaf_proof = p\<rparr>)
                 (imt_proof_inclusion H leaves (leaf_key bracket) depth))"

definition verify_non_inclusion ::
    "(bytes \<Rightarrow> 256 word) \<Rightarrow> non_inclusion_proof \<Rightarrow> bytes \<Rightarrow> nat \<Rightarrow> py_error + bool" where
  "verify_non_inclusion H p expected_root depth =
     map_sum id (\<lambda>included. included \<and>
         leaf_key (proof_leaf (bracket_leaf_proof p)) < target_key p \<and>
         target_key p < next_key (proof_leaf (bracket_leaf_proof p)))
       (verify_inclusion H (bracket_leaf_proof p) expected_root depth)"

section \<open>The levels in closed form\<close>

definition level_ok :: "nat \<Rightarrow> bytes list \<Rightarrow> bool" where
  "level_ok d level \<longleftrightarrow> length level = 2 ^ d \<and> (\<forall>h \<in> set level. length h = 32)"

definition pair_input :: "bytes list \<Rightarrow> nat \<Rightarrow> bytes" where
  "pair_input level i = level ! (2 * i) @ level ! (2 * i + 1)"

definition ups :: "(bytes \<Rightarrow> 256 word) \<Rightarrow> bytes list \<Rightarrow> bytes list" where
  "ups H level = map (\<lambda>i. hash_bytes H (pair_input level i)) [0..<length level div 2]"

fun root_of :: "(bytes \<Rightarrow> 256 word) \<Rightarrow> nat \<Rightarrow> bytes list \<Rightarrow> bytes" where
  "root_of H 0 level = level ! 0"
| "root_of H (Suc d) level = root_of H d (ups H level)"

fun level_inputs :: "(bytes \<Rightarrow> 256 word) \<Rightarrow> nat \<Rightarrow> bytes list \<Rightarrow> bytes set" where
  "level_inputs H 0 level = {}"
| "level_inputs H (Suc d) level =
     set (map (pair_input level) [0..<length level div 2]) \<union> level_inputs H d (ups H level)"

fun walk_inputs :: "(bytes \<Rightarrow> 256 word) \<Rightarrow> bytes \<Rightarrow> int \<Rightarrow> bytes list \<Rightarrow> bytes set" where
  "walk_inputs H h idx [] = {}"
| "walk_inputs H h idx (s # ss) =
     (let i = (if idx mod 2 = 0 then h @ s else s @ h)
      in insert i (walk_inputs H (hash_bytes H i) (idx div 2) ss))"

lemma ups_Cons: "ups H (x # y # level) = hash_bytes H (x @ y) # ups H level"
proof -
  have "[0..<Suc (length level div 2)] = 0 # map Suc [0..<length level div 2]"
    by (simp only: upt_conv_Cons map_Suc_upt zero_less_Suc)
  then show ?thesis by (simp add: ups_def pair_input_def o_def)
qed

lemma up_level_ups:
  "even (length level) \<Longrightarrow> \<forall>h \<in> set level. length h = 32 \<Longrightarrow> up_level H level = Inr (ups H level)"
proof (induction H level rule: up_level.induct)
  case (1 H)
  then show ?case by (simp add: ups_def)
next
  case (3 H x y level)
  then show ?case by (simp add: imt_node_hash_def ups_Cons)
qed simp

lemma level_ok_ups: "level_ok (Suc d) level \<Longrightarrow> level_ok d (ups H level)"
  by (auto simp: level_ok_def ups_def)

lemma level_ok_nth: "level_ok d level \<Longrightarrow> i < 2 ^ d \<Longrightarrow> length (level ! i) = 32"
  by (auto simp: level_ok_def)

lemma ups_nth: "level_ok (Suc d) level \<Longrightarrow> i < 2 ^ d \<Longrightarrow> ups H level ! i = hash_bytes H (pair_input level i)"
  by (simp add: level_ok_def ups_def)

lemma levels_up_ok:
  "level_ok d level \<Longrightarrow> \<exists>lv. levels_up H d level = Inr lv \<and> length lv = Suc d \<and> lv ! d ! 0 = root_of H d level"
proof (induction d arbitrary: level)
  case (Suc d)
  then have "up_level H level = Inr (ups H level)"
    by (intro up_level_ups) (auto simp: level_ok_def)
  moreover obtain lv where "levels_up H d (ups H level) = Inr lv" "length lv = Suc d"
    "lv ! d ! 0 = root_of H d (ups H level)" using Suc level_ok_ups by blast
  ultimately show ?case by simp
qed simp

lemma padded_ok:
  "length hs \<le> 2 ^ d \<Longrightarrow> \<forall>h \<in> set hs. length h = 32 \<Longrightarrow> level_ok d (padded H d hs)"
  by (auto simp: level_ok_def padded_def empty_leaf_hash_def imt_leaf_hash_def)

lemma sibling_index: "xor i (Suc 0) = (if even i then i + 1 else i - 1)"
  by (simp add: xor_Suc_0_eq)

section \<open>Walks\<close>

lemma imt_walk_complete:
  "level_ok d level \<Longrightarrow> i < 2 ^ d \<Longrightarrow> levels_up H d level = Inr lv \<Longrightarrow>
     imt_walk H (level ! i) (int i) (collect_siblings lv d i) = Inr (root_of H d level)"
proof (induction d arbitrary: level i lv)
  case (Suc d)
  have up: "up_level H level = Inr (ups H level)"
    using Suc.prems(1) by (intro up_level_ups) (auto simp: level_ok_def)
  then obtain lv' where lv': "levels_up H d (ups H level) = Inr lv'" and lv: "lv = level # lv'"
    using Suc.prems(3) by auto
  have half: "i div 2 < 2 ^ d" using Suc.prems(2) by auto
  have IH: "imt_walk H (ups H level ! (i div 2)) (int (i div 2)) (collect_siblings lv' d (i div 2))
      = Inr (root_of H d (ups H level))"
    using Suc.IH [OF level_ok_ups [OF Suc.prems(1)] half lv'] .
  have up_i: "ups H level ! (i div 2) = hash_bytes H (pair_input level (i div 2))"
    using ups_nth [OF Suc.prems(1) half] .
  have len: "length (level ! k) = 32" if "k < 2 * 2 ^ d" for k
    using level_ok_nth [OF Suc.prems(1), of k] that by simp
  show ?case
  proof (cases "even i")
    case True
    then have i: "2 * (i div 2) = i" and "i + 1 < 2 * 2 ^ d" "int i mod 2 = 0" "int i div 2 = int (i div 2)"
      using Suc.prems(2) half by (auto simp: zdiv_int elim!: evenE)
    then show ?thesis using IH True len Suc.prems(2)
      by (simp add: lv sibling_index imt_node_hash_def up_i pair_input_def)
  next
    case False
    then have i: "2 * (i div 2) = i - 1" "Suc (2 * (i div 2)) = i" and "int i mod 2 = 1" "int i div 2 = int (i div 2)"
      by (auto simp: zdiv_int elim!: oddE)
    then show ?thesis using IH False len Suc.prems(2)
      by (simp add: lv sibling_index imt_node_hash_def up_i pair_input_def)
  qed
qed simp

lemma imt_walk_sound:
  "level_ok d level \<Longrightarrow> length ss = d \<Longrightarrow> length h = 32 \<Longrightarrow> imt_walk H h idx ss = Inr (root_of H d level) \<Longrightarrow>
     h = level ! nat (idx mod 2 ^ d) \<or> collides H (level_inputs H d level) (walk_inputs H h idx ss)"
proof (induction d arbitrary: level ss h idx)
  case (Suc d)
  then obtain s ss' where ss: "ss = s # ss'" "length ss' = d" by (cases ss) auto
  define i where "i = (if idx mod 2 = 0 then h @ s else s @ h)"
  have ls: "length s = 32" and walk: "imt_walk H (hash_bytes H i) (idx div 2) ss' = Inr (root_of H d (ups H level))"
    using Suc.prems(4) by (auto simp: ss i_def imt_node_hash_def split: if_splits)
  define k where "k = nat (idx div 2 mod 2 ^ d)"
  have k: "k < 2 ^ d" by (simp add: k_def nat_less_iff)
  have inputs: "walk_inputs H h idx ss = insert i (walk_inputs H (hash_bytes H i) (idx div 2) ss')"
    by (simp add: ss i_def Let_def)
  from Suc.IH [OF level_ok_ups [OF Suc.prems(1)] ss(2) _ walk]
  consider "hash_bytes H i = ups H level ! k"
    | "collides H (level_inputs H d (ups H level)) (walk_inputs H (hash_bytes H i) (idx div 2) ss')"
    by (auto simp: k_def)
  then show ?case
  proof cases
    case 1
    then have "H i = H (pair_input level k)" by (simp add: ups_nth [OF Suc.prems(1) k])
    show ?thesis
    proof (cases "i = pair_input level k")
      case True
      have len: "length (level ! (2 * k)) = 32" using level_ok_nth [OF Suc.prems(1), of "2 * k"] k by simp
      have split: "nat (idx mod 2 ^ Suc d) = 2 * k + nat (idx mod 2)"
      proof -
        have "idx mod 2 ^ Suc d = 2 * (idx div 2 mod 2 ^ d) + idx mod 2"
          by (simp add: zmod_zmult2_eq)
        then show ?thesis by (simp add: k_def nat_add_distrib nat_mult_distrib)
      qed
      have "h = level ! (2 * k + nat (idx mod 2))"
      proof (cases "idx mod 2 = 0")
        case True
        then have "h @ s = level ! (2 * k) @ level ! (2 * k + 1)"
          using \<open>i = pair_input level k\<close> by (simp add: i_def pair_input_def)
        then show ?thesis using True Suc.prems(3) len by simp
      next
        case False
        then have "s @ h = level ! (2 * k) @ level ! (2 * k + 1)" and "nat (idx mod 2) = 1"
          using \<open>i = pair_input level k\<close> by (auto simp: i_def pair_input_def)
        then show ?thesis using ls len by simp
      qed
      then show ?thesis unfolding split by blast
    next
      case False
      have "pair_input level k \<in> level_inputs H (Suc d) level"
        using k Suc.prems(1) by (simp add: level_ok_def)
      then have "collides H (level_inputs H (Suc d) level) (walk_inputs H h idx ss)"
        using False \<open>H i = H (pair_input level k)\<close> by (intro collidesI [of "pair_input level k" _ i]) (auto simp: inputs)
      then show ?thesis ..
    qed
  next
    case 2
    then have "collides H (level_inputs H (Suc d) level) (walk_inputs H h idx ss)"
      by (rule collides_mono) (auto simp: inputs)
    then show ?thesis ..
  qed
qed simp

section \<open>Sorted, linked leaves\<close>

fun linked :: "imt_leaf list \<Rightarrow> bool" where
  "linked [] \<longleftrightarrow> True"
| "linked [lf] \<longleftrightarrow> next_key lf = max_key"
| "linked (a # b # leaves) \<longleftrightarrow> leaf_key a < leaf_key b \<and> next_key a = leaf_key b \<and> linked (b # leaves)"

lemma linked_sorted: "linked leaves \<Longrightarrow> sorted_wrt (<) (map leaf_key leaves)"
proof (induction leaves rule: linked.induct)
  case (3 a b leaves)
  then have "sorted_wrt (<) (map leaf_key (b # leaves))" by simp
  moreover from this have "\<forall>k \<in> set (map leaf_key (b # leaves)). leaf_key a < k"
    using 3(2) by (auto intro: less_trans)
  ultimately show ?case by simp
qed simp_all

lemma gap_excludes:
  "linked leaves \<Longrightarrow> lf \<in> set leaves \<Longrightarrow> leaf_key lf < t \<Longrightarrow> t < next_key lf \<Longrightarrow> t \<notin> leaf_key ` set leaves"
proof (induction leaves rule: linked.induct)
  case (3 a b leaves)
  have sorted: "sorted_wrt (<) (map leaf_key (a # b # leaves))" using 3(2) by (rule linked_sorted)
  show ?case
  proof (cases "lf = a")
    case True
    then have "t < leaf_key b" "leaf_key a < t" using 3 by auto
    moreover have "\<forall>k \<in> leaf_key ` set (b # leaves). leaf_key b \<le> k" using sorted by auto
    ultimately show ?thesis by auto
  next
    case False
    then have lf: "lf \<in> set (b # leaves)" using 3 by simp
    then have "t \<notin> leaf_key ` set (b # leaves)" using 3 by simp
    moreover have "leaf_key a < leaf_key lf" using sorted lf by auto
    ultimately show ?thesis using 3(4) by auto
  qed
qed auto

lemma gap_exists:
  "linked leaves \<Longrightarrow> leaves \<noteq> [] \<Longrightarrow> leaf_key (hd leaves) < t \<Longrightarrow> t < max_key \<Longrightarrow> t \<notin> leaf_key ` set leaves \<Longrightarrow>
     \<exists>lf \<in> set leaves. leaf_key lf < t \<and> t < next_key lf"
proof (induction leaves rule: linked.induct)
  case (3 a b leaves)
  show ?case
  proof (cases "t < leaf_key b")
    case True
    then show ?thesis using 3 by auto
  next
    case False
    then have "leaf_key b < t" using 3(6) by auto
    then have "\<exists>lf \<in> set (b # leaves). leaf_key lf < t \<and> t < next_key lf" using 3 by auto
    then show ?thesis by auto
  qed
qed auto

lemma mk_leaf_Inr: "mk_leaf k v n = Inr lf \<longleftrightarrow> lf = \<lparr>leaf_key = k, leaf_value = v, next_key = n\<rparr> \<and> leaf_ok lf"
  by (auto simp: mk_leaf_def Let_def)

lemma link_spec:
  "link ps = Inr leaves \<Longrightarrow> map leaf_key leaves = map fst ps \<and> map leaf_value leaves = map snd ps
     \<and> (\<forall>lf \<in> set leaves. leaf_ok lf)"
proof (induction ps arbitrary: leaves rule: link.induct)
  case (2 k v ps)
  then obtain lf rest where "mk_leaf k v (case ps of [] \<Rightarrow> max_key | (k', _) # _ \<Rightarrow> k') = Inr lf"
    and rest: "link ps = Inr rest" "leaves = lf # rest"
    by (auto split: sum.splits)
  then have "leaf_key lf = k" "leaf_value lf = v" "leaf_ok lf"
    using mk_leaf_Inr by auto
  with 2(1) rest \<open>mk_leaf _ _ _ = Inr lf\<close> show ?case by auto
qed simp

lemma link_linked:
  "link ps = Inr leaves \<Longrightarrow> sorted (map fst ps) \<Longrightarrow> \<not> has_adjacent_dup ps \<Longrightarrow> linked leaves"
proof (induction ps arbitrary: leaves rule: has_adjacent_dup.induct)
  case (1 p q ps)
  obtain k v where p: "p = (k, v)" by (cases p)
  obtain k' v' where q: "q = (k', v')" by (cases q)
  obtain lf rest where lf: "mk_leaf k v k' = Inr lf" and rest: "link (q # ps) = Inr rest"
    and leaves: "leaves = lf # rest"
    using 1(2) by (auto simp: p q split: sum.splits)
  have "linked rest" using 1 rest by simp
  moreover obtain b rest' where b: "rest = b # rest'" "leaf_key b = k'"
    using link_spec [OF rest] by (cases rest) (auto simp: q)
  moreover have "leaf_key lf = k" "next_key lf = k'"
    using lf by (auto simp: mk_leaf_def Let_def split: if_splits)
  moreover have "k < k'" using 1(3,4) by (auto simp: p q)
  ultimately show ?case by (simp add: leaves)
qed (auto simp: mk_leaf_def Let_def split: if_splits)

lemma link_total: "\<forall>(k, v) \<in> set ps. length k = 32 \<and> length v = 32 \<Longrightarrow> \<exists>leaves. link ps = Inr leaves"
proof (induction ps)
  case (Cons p ps)
  obtain k v where p: "p = (k, v)" by (cases p)
  from Cons obtain leaves where "link ps = Inr leaves" by auto
  moreover have "length (case ps of [] \<Rightarrow> max_key | (k', _) # _ \<Rightarrow> k') = 32"
    using Cons.prems by (cases ps) (auto simp: max_key_def)
  ultimately show ?case using Cons.prems by (simp add: p mk_leaf_def leaf_ok_def)
qed simp

lemma has_adjacent_dup_sorted: "sorted (map fst ps) \<Longrightarrow> has_adjacent_dup ps \<longleftrightarrow> \<not> distinct (map fst ps)"
proof (induction ps rule: has_adjacent_dup.induct)
  case (1 p q ps)
  then show ?case by (auto simp: image_iff)
qed simp_all

text \<open>The leaves built from pairs: the pairs in key order, linked, of the required sizes; a
  repeated key, a wrong size or too many pairs raise.\<close>

lemma make_leaves_spec:
  assumes "make_leaves_with_pointers pairs depth = Inr leaves"
  shows "linked leaves" and "\<forall>lf \<in> set leaves. leaf_ok lf" and "length leaves \<le> 2 ^ depth"
    and "map (\<lambda>lf. (leaf_key lf, leaf_value lf)) leaves = sort_key fst pairs" and "distinct (map fst pairs)"
proof -
  have all: "linked leaves \<and> (\<forall>lf \<in> set leaves. leaf_ok lf) \<and> length leaves \<le> 2 ^ depth \<and>
      map (\<lambda>lf. (leaf_key lf, leaf_value lf)) leaves = sort_key fst pairs \<and> distinct (map fst pairs)"
  proof (cases "pairs = []")
    case False
    let ?s = "sort_key fst pairs"
    from assms False have dup: "\<not> has_adjacent_dup ?s" and l: "link ?s = Inr leaves" "length leaves \<le> 2 ^ depth"
      by (auto simp: make_leaves_with_pointers_def Let_def split: if_splits sum.splits)
    have sorted: "sorted (map fst ?s)" by simp
    have "distinct (map fst ?s)" using dup has_adjacent_dup_sorted [OF sorted] by blast
    moreover have "mset (map fst ?s) = mset (map fst pairs)" by (simp only: mset_map mset_sort)
    ultimately have "distinct (map fst pairs)" using mset_eq_imp_distinct_iff by blast
    moreover have "map (\<lambda>lf. (leaf_key lf, leaf_value lf)) leaves = zip (map leaf_key leaves) (map leaf_value leaves)"
      by (simp add: zip_map_map zip_same_conv_map)
    then have "map (\<lambda>lf. (leaf_key lf, leaf_value lf)) leaves = ?s"
      using link_spec [OF l(1)] by (simp add: zip_map_fst_snd)
    ultimately show ?thesis using link_linked [OF l(1) sorted dup] link_spec [OF l(1)] l(2) by blast
  qed (use assms in \<open>simp add: make_leaves_with_pointers_def\<close>)
  then show "linked leaves" "\<forall>lf \<in> set leaves. leaf_ok lf" "length leaves \<le> 2 ^ depth"
    "map (\<lambda>lf. (leaf_key lf, leaf_value lf)) leaves = sort_key fst pairs" "distinct (map fst pairs)"
    by blast+
qed

section \<open>Roots and proofs\<close>

definition tree_inputs :: "(bytes \<Rightarrow> 256 word) \<Rightarrow> imt_leaf list \<Rightarrow> nat \<Rightarrow> bytes set" where
  "tree_inputs H leaves depth = insert (leaf_bytes empty_leaf) (leaf_bytes ` set leaves) \<union>
     level_inputs H depth (padded H depth (map (imt_leaf_hash H) leaves))"

definition proof_inputs :: "(bytes \<Rightarrow> 256 word) \<Rightarrow> inclusion_proof \<Rightarrow> bytes set" where
  "proof_inputs H p = insert (leaf_bytes (proof_leaf p))
     (walk_inputs H (imt_leaf_hash H (proof_leaf p)) (leaf_index p) (siblings p))"

text \<open>The leaf at a slot of the padded tree.\<close>

definition slot :: "imt_leaf list \<Rightarrow> nat \<Rightarrow> imt_leaf" where
  "slot leaves i = (if i < length leaves then leaves ! i else empty_leaf)"

lemma length_imt_leaf_hash [simp]: "length (imt_leaf_hash H lf) = 32"
  by (simp add: imt_leaf_hash_def)

lemma leaf_bytes_inj: "leaf_ok a \<Longrightarrow> leaf_ok b \<Longrightarrow> leaf_bytes a = leaf_bytes b \<Longrightarrow> a = b"
  by (cases a; cases b) (auto simp: leaf_ok_def leaf_bytes_def)

lemma empty_leaf_ok [simp]: "leaf_ok empty_leaf"
  by (simp add: leaf_ok_def empty_leaf_def empty_key_def empty_value_def)

lemma padded_slot:
  "length leaves \<le> 2 ^ d \<Longrightarrow> i < 2 ^ d \<Longrightarrow>
     padded H d (map (imt_leaf_hash H) leaves) ! i = imt_leaf_hash H (slot leaves i)"
  by (auto simp: padded_def slot_def nth_append empty_leaf_hash_def)

lemma root_levels:
  assumes "length leaves \<le> 2 ^ d"
  obtains lv where "levels_up H d (padded H d (map (imt_leaf_hash H) leaves)) = Inr lv"
    and "build_tree_levels H (map (imt_leaf_hash H) leaves) d = Inr lv"
    and "imt_root H leaves d = Inr (root_of H d (padded H d (map (imt_leaf_hash H) leaves)))"
proof -
  have "level_ok d (padded H d (map (imt_leaf_hash H) leaves))"
    using assms by (intro padded_ok) auto
  from levels_up_ok [OF this, of H] obtain lv where
    "levels_up H d (padded H d (map (imt_leaf_hash H) leaves)) = Inr lv"
    "lv ! d ! 0 = root_of H d (padded H d (map (imt_leaf_hash H) leaves))" by blast
  then show thesis using that assms by (simp add: build_tree_levels_def imt_root_def)
qed

lemma imt_root_bound: "imt_root H leaves d = Inr r \<Longrightarrow> length leaves \<le> 2 ^ d"
  by (auto simp: imt_root_def build_tree_levels_def split: if_splits)

lemma find_index_Some: "find_index P xs = Some i \<Longrightarrow> i < length xs \<and> P (xs ! i)"
  by (induction xs arbitrary: i) (auto split: if_splits)

lemma find_index_None: "find_index P xs = None \<longleftrightarrow> (\<forall>x \<in> set xs. \<not> P x)"
  by (induction xs) auto

lemma root_of_length: "level_ok d level \<Longrightarrow> length (root_of H d level) = 32"
proof (induction d arbitrary: level)
  case 0
  then show ?case by (auto simp: level_ok_def)
next
  case (Suc d)
  then show ?case using level_ok_ups by simp
qed

lemma collect_siblings_length [simp]: "length (collect_siblings lv d i) = d"
  by (induction d arbitrary: lv i) auto

lemma inclusion_verifies:
  assumes "length leaves \<le> 2 ^ d" and "k \<in> leaf_key ` set leaves"
  obtains p r where "imt_proof_inclusion H leaves k d = Inr p" and "imt_root H leaves d = Inr r"
    and "verify_inclusion H p r d = Inr True" and "proof_leaf p \<in> set leaves" and "leaf_key (proof_leaf p) = k"
proof -
  from root_levels [OF assms(1), of H] obtain lv where
    lv: "levels_up H d (padded H d (map (imt_leaf_hash H) leaves)) = Inr lv"
    and build: "build_tree_levels H (map (imt_leaf_hash H) leaves) d = Inr lv"
    and rt: "imt_root H leaves d = Inr (root_of H d (padded H d (map (imt_leaf_hash H) leaves)))" by blast
  obtain i where i: "find_index (\<lambda>lf. leaf_key lf = k) leaves = Some i"
    using assms(2) find_index_None [of "\<lambda>lf. leaf_key lf = k" leaves] by fastforce
  note at_i = find_index_Some [OF i]
  have ok: "level_ok d (padded H d (map (imt_leaf_hash H) leaves))"
    using assms(1) by (intro padded_ok) auto
  have "i < 2 ^ d" using at_i assms(1) by simp
  then have "imt_walk H (imt_leaf_hash H (leaves ! i)) (int i) (collect_siblings lv d i)
      = Inr (root_of H d (padded H d (map (imt_leaf_hash H) leaves)))"
    using imt_walk_complete [OF ok _ lv, of i] at_i by (simp add: padded_slot assms(1) slot_def)
  then have "verify_inclusion H \<lparr>proof_leaf = leaves ! i, leaf_index = int i, siblings = collect_siblings lv d i\<rparr>
      (root_of H d (padded H d (map (imt_leaf_hash H) leaves))) d = Inr True"
    using root_of_length [OF ok] by (simp add: verify_inclusion_def)
  then show thesis
    using that [OF _ rt, of "\<lparr>proof_leaf = leaves ! i, leaf_index = int i, siblings = collect_siblings lv d i\<rparr>"] at_i
    by (simp add: imt_proof_inclusion_def i build)
qed

lemma inclusion_sound:
  assumes "imt_root H leaves d = Inr r" and "\<forall>lf \<in> set leaves. leaf_ok lf" and "leaf_ok (proof_leaf p)"
    and "verify_inclusion H p r d = Inr True"
  shows "proof_leaf p = slot leaves (nat (leaf_index p mod 2 ^ d)) \<or>
    collides H (tree_inputs H leaves d) (proof_inputs H p)"
proof -
  note bound = imt_root_bound [OF assms(1)]
  let ?level = "padded H d (map (imt_leaf_hash H) leaves)"
  let ?i = "nat (leaf_index p mod 2 ^ d)"
  have ok: "level_ok d ?level" using bound by (intro padded_ok) auto
  have r: "r = root_of H d ?level" using root_levels [OF bound, of H] assms(1) by auto
  have i: "?i < 2 ^ d" by (simp add: nat_less_iff)
  have "length (siblings p) = d" "imt_walk H (imt_leaf_hash H (proof_leaf p)) (leaf_index p) (siblings p) = Inr (root_of H d ?level)"
    using assms(4) by (auto simp: verify_inclusion_def r split: if_splits)
  from imt_walk_sound [OF ok this(1) _ this(2)]
  consider "imt_leaf_hash H (proof_leaf p) = imt_leaf_hash H (slot leaves ?i)"
    | "collides H (level_inputs H d ?level) (walk_inputs H (imt_leaf_hash H (proof_leaf p)) (leaf_index p) (siblings p))"
    by (auto simp: padded_slot [OF bound i])
  then show ?thesis
  proof cases
    case 1
    have slot_ok: "leaf_ok (slot leaves ?i)" using assms(2) by (simp add: slot_def)
    show ?thesis
    proof (cases "leaf_bytes (proof_leaf p) = leaf_bytes (slot leaves ?i)")
      case True
      then show ?thesis using leaf_bytes_inj [OF assms(3) slot_ok] by blast
    next
      case False
      then have "collides H (tree_inputs H leaves d) (proof_inputs H p)"
        using 1 by (intro collidesI [of "leaf_bytes (slot leaves ?i)" _ "leaf_bytes (proof_leaf p)"])
          (auto simp: tree_inputs_def proof_inputs_def slot_def imt_leaf_hash_def)
      then show ?thesis ..
    qed
  next
    case 2
    then have "collides H (tree_inputs H leaves d) (proof_inputs H p)"
      by (rule collides_mono) (auto simp: tree_inputs_def proof_inputs_def)
    then show ?thesis ..
  qed
qed

lemma imt_walk_index: "imt_walk H h (idx + k * 2 ^ length ss) ss = imt_walk H h idx ss"
proof (induction ss arbitrary: h idx)
  case (Cons s ss)
  have "idx + k * 2 ^ length (s # ss) = idx + 2 * (k * 2 ^ length ss)" by simp
  then have "(idx + k * 2 ^ length (s # ss)) mod 2 = idx mod 2"
    "(idx + k * 2 ^ length (s # ss)) div 2 = idx div 2 + k * 2 ^ length ss"
    by presburger+
  then show ?case using Cons by (simp split: sum.splits)
qed simp

section \<open>Properties\<close>

text \<open>Inclusion: for leaves built from pairs, every key has a proof, it carries the leaf of that key
  (with the value of the pair) and the verifier accepts it against the root.\<close>

theorem im_inclusion_complete:
  assumes "make_leaves_with_pointers pairs depth = Inr leaves" and "(k, v) \<in> set pairs"
  shows "\<exists>p r. imt_proof_inclusion H leaves k depth = Inr p \<and> imt_root H leaves depth = Inr r \<and>
    verify_inclusion H p r depth = Inr True \<and> leaf_key (proof_leaf p) = k \<and> leaf_value (proof_leaf p) = v"
proof -
  note spec = make_leaves_spec [OF assms(1)]
  have pairs: "(\<lambda>lf. (leaf_key lf, leaf_value lf)) ` set leaves = set pairs"
    using arg_cong [OF spec(4), of set] by simp
  then have "k \<in> leaf_key ` set leaves" using assms(2) by force
  from inclusion_verifies [OF spec(3) this, of H] obtain p r where
    p: "imt_proof_inclusion H leaves k depth = Inr p" "imt_root H leaves depth = Inr r"
    "verify_inclusion H p r depth = Inr True" "proof_leaf p \<in> set leaves" "leaf_key (proof_leaf p) = k" by metis
  then have "(k, leaf_value (proof_leaf p)) \<in> set pairs" using pairs by force
  then have "leaf_value (proof_leaf p) = v" using spec(5) assms(2) by (metis eq_key_imp_eq_value)
  then show ?thesis using p by blast
qed

definition sample_hash :: "bytes \<Rightarrow> 256 word" where
  "sample_hash bs = foldl (\<lambda>h b. h * 257 + ucast b + 1) 7 bs"

definition sample_key :: "8 word \<Rightarrow> bytes" where
  "sample_key b = b # replicate 31 0"

definition sample_pairs :: "(bytes \<times> bytes) list" where
  "sample_pairs = [(sample_key 9, sample_key 1), (sample_key 3, sample_key 2)]"

definition sample_leaves :: "imt_leaf list" where
  "sample_leaves = [\<lparr>leaf_key = sample_key 3, leaf_value = sample_key 2, next_key = sample_key 9\<rparr>,
     \<lparr>leaf_key = sample_key 9, leaf_value = sample_key 1, next_key = max_key\<rparr>]"

lemma sample_leaves: "make_leaves_with_pointers sample_pairs 2 = Inr sample_leaves"
  by code_simp

lemma im_inclusion_complete_witness:
  "\<exists>p r. imt_proof_inclusion sample_hash sample_leaves (sample_key 9) 2 = Inr p \<and>
    imt_root sample_hash sample_leaves 2 = Inr r \<and> verify_inclusion sample_hash p r 2 = Inr True \<and>
    leaf_key (proof_leaf p) = sample_key 9 \<and> leaf_value (proof_leaf p) = sample_key 1"
  by (rule im_inclusion_complete [OF sample_leaves]) (simp add: sample_pairs_def)

text \<open>C14. Inclusion is sound and positional: a proof the verifier accepts shows the leaf in the slot its
  index names modulo the number of slots (the empty leaf, in a slot beyond the leaves), or exhibits
  a collision. It says nothing of the index beyond that: adding any multiple of \<open>2 ^ depth\<close> to the
  index of a proof does not change the verdict.\<close>

theorem im_inclusion_sound:
  assumes "imt_root H leaves depth = Inr r" and "\<forall>lf \<in> set leaves. leaf_ok lf" and "leaf_ok (proof_leaf p)"
    and "verify_inclusion H p r depth = Inr True"
  shows "(proof_leaf p = slot leaves (nat (leaf_index p mod 2 ^ depth)) \<or>
      collides H (tree_inputs H leaves depth) (proof_inputs H p)) \<and>
    verify_inclusion H (p\<lparr>leaf_index := leaf_index p + n * 2 ^ depth\<rparr>) r depth = Inr True"
proof -
  have "length (siblings p) = depth" using assms(4) by (auto simp: verify_inclusion_def split: if_splits)
  then have "imt_walk H h (leaf_index p + n * 2 ^ depth) (siblings p) = imt_walk H h (leaf_index p) (siblings p)" for h
    using imt_walk_index [of H h "leaf_index p" n "siblings p"] by simp
  then have "verify_inclusion H (p\<lparr>leaf_index := leaf_index p + n * 2 ^ depth\<rparr>) r depth = verify_inclusion H p r depth"
    by (simp add: verify_inclusion_def)
  then show ?thesis using inclusion_sound [OF assms] assms(4) by simp
qed

lemma sample_inclusion:
  obtains p r where "imt_root sample_hash sample_leaves 2 = Inr r" "leaf_ok (proof_leaf p)"
    "verify_inclusion sample_hash p r 2 = Inr True"
proof -
  have "sample_key 9 \<in> leaf_key ` set sample_leaves" "length sample_leaves \<le> 2 ^ 2"
    "\<forall>lf \<in> set sample_leaves. leaf_ok lf"
    using make_leaves_spec [OF sample_leaves] by (simp_all add: sample_leaves_def)
  then show thesis using inclusion_verifies [of sample_leaves 2 "sample_key 9" sample_hash] that by metis
qed

lemma im_inclusion_sound_witness:
  "\<exists>p r. (proof_leaf p = slot sample_leaves (nat (leaf_index p mod 2 ^ 2)) \<or>
      collides sample_hash (tree_inputs sample_hash sample_leaves 2) (proof_inputs sample_hash p)) \<and>
    verify_inclusion sample_hash (p\<lparr>leaf_index := leaf_index p + 1 * 2 ^ 2\<rparr>) r 2 = Inr True"
proof -
  obtain p r where "imt_root sample_hash sample_leaves 2 = Inr r" "leaf_ok (proof_leaf p)"
    "verify_inclusion sample_hash p r 2 = Inr True" by (rule sample_inclusion)
  from im_inclusion_sound [OF this(1) make_leaves_spec(2) [OF sample_leaves] this(2,3)]
  show ?thesis by blast
qed

text \<open>Absence: for a non-empty set of pairs, an absence proof exists exactly for the keys that are
  absent, above the smallest key and below the all-ones sentinel, and every proof built is accepted
  against the root.\<close>

theorem im_absence_complete:
  assumes "make_leaves_with_pointers pairs depth = Inr leaves" and "pairs \<noteq> []"
  shows "(t \<notin> fst ` set pairs \<and> Min (fst ` set pairs) < t \<and> t < max_key \<longrightarrow>
      (\<exists>p r. imt_proof_non_inclusion H leaves t depth = Inr p \<and> imt_root H leaves depth = Inr r \<and>
         verify_non_inclusion H p r depth = Inr True)) \<and>
    (t \<in> fst ` set pairs \<longrightarrow> imt_proof_non_inclusion H leaves t depth = Inl KeyError) \<and>
    (t < Min (fst ` set pairs) \<longrightarrow> imt_proof_non_inclusion H leaves t depth = Inl ValueError)"
proof -
  note spec = make_leaves_spec [OF assms(1)]
  have keys: "leaf_key ` set leaves = fst ` set pairs"
    using arg_cong [OF spec(4), of "\<lambda>xs. fst ` set xs"] by (simp add: image_image)
  then have ne: "leaves \<noteq> []" using assms(2) by auto
  have sorted: "sorted_wrt (<) (map leaf_key leaves)" using spec(1) by (rule linked_sorted)
  then have hd_le: "leaf_key (hd leaves) \<le> k" if "k \<in> leaf_key ` set leaves" for k
    using that by (cases leaves) auto
  then have min: "Min (fst ` set pairs) = leaf_key (hd leaves)"
    using ne by (intro Min_eqI) (auto simp flip: keys)
  have some: "\<exists>p r. imt_proof_non_inclusion H leaves t depth = Inr p \<and> imt_root H leaves depth = Inr r \<and>
      verify_non_inclusion H p r depth = Inr True"
    if "t \<notin> fst ` set pairs" "Min (fst ` set pairs) < t" "t < max_key"
  proof -
    have "\<exists>lf \<in> set leaves. leaf_key lf < t \<and> t < next_key lf"
      using gap_exists [OF spec(1) ne, of t] that keys min by simp
    then obtain b where b: "List.find (\<lambda>lf. leaf_key lf < t \<and> t < next_key lf) leaves = Some b"
      by (metis (mono_tags, lifting) find_None_iff option.exhaust)
    then have bin: "b \<in> set leaves" "leaf_key b < t" "t < next_key b"
      by (auto simp: find_Some_iff)
    from inclusion_verifies [OF spec(3), of "leaf_key b" H] bin(1) obtain p r where
      p: "imt_proof_inclusion H leaves (leaf_key b) depth = Inr p" "imt_root H leaves depth = Inr r"
      "verify_inclusion H p r depth = Inr True" "proof_leaf p \<in> set leaves" "leaf_key (proof_leaf p) = leaf_key b"
      by (metis image_eqI)
    have "inj_on leaf_key (set leaves)"
      using sorted by (simp add: strict_sorted_iff distinct_map)
    then have "proof_leaf p = b" using p(4,5) bin(1) by (auto dest: inj_onD)
    then show ?thesis using p bin that(1) b keys
      by (auto simp: imt_proof_non_inclusion_def verify_non_inclusion_def list_ex_iff)
  qed
  have none: "List.find (\<lambda>lf. leaf_key lf < t \<and> t < next_key lf) leaves = None"
    if "t < Min (fst ` set pairs)"
    unfolding find_None_iff using hd_le that min by (metis imageI less_asym' order.strict_trans2)
  have "t \<notin> leaf_key ` set leaves" if "t < Min (fst ` set pairs)"
    using hd_le that min by fastforce
  moreover have "list_ex (\<lambda>lf. leaf_key lf = t) leaves \<longleftrightarrow> t \<in> fst ` set pairs"
    by (auto simp: list_ex_iff simp flip: keys)
  ultimately show ?thesis
    using some none keys by (simp add: imt_proof_non_inclusion_def)
qed

lemma im_absence_complete_witness:
  "\<exists>p r. imt_proof_non_inclusion sample_hash sample_leaves (sample_key 5) 2 = Inr p \<and>
     imt_root sample_hash sample_leaves 2 = Inr r \<and> verify_non_inclusion sample_hash p r 2 = Inr True"
proof -
  have "sample_key 5 \<notin> fst ` set sample_pairs" "Min (fst ` set sample_pairs) < sample_key 5" "sample_key 5 < max_key"
    by code_simp+
  then show ?thesis
    using im_absence_complete [OF sample_leaves, of "sample_key 5" sample_hash] by (simp add: sample_pairs_def)
qed

text \<open>C15. Absence is sound: if the verifier accepts an absence proof for a key against the root of leaves
  built from pairs, no pair has that key, or the proof exhibits a collision.\<close>

theorem im_absence_sound:
  assumes "make_leaves_with_pointers pairs depth = Inr leaves" and "imt_root H leaves depth = Inr r"
    and "leaf_ok (proof_leaf (bracket_leaf_proof p))" and "verify_non_inclusion H p r depth = Inr True"
  shows "target_key p \<notin> fst ` set pairs \<or>
    collides H (tree_inputs H leaves depth) (proof_inputs H (bracket_leaf_proof p))"
proof -
  note spec = make_leaves_spec [OF assms(1)]
  let ?b = "proof_leaf (bracket_leaf_proof p)"
  have keys: "leaf_key ` set leaves = fst ` set pairs"
    using arg_cong [OF spec(4), of "\<lambda>xs. fst ` set xs"] by (simp add: image_image)
  have v: "verify_inclusion H (bracket_leaf_proof p) r depth = Inr True"
    and gap: "leaf_key ?b < target_key p" "target_key p < next_key ?b"
    using assms(4) by (auto simp: verify_non_inclusion_def)
  from inclusion_sound [OF assms(2) spec(2) assms(3) v] show ?thesis
  proof
    assume "?b = slot leaves (nat (leaf_index (bracket_leaf_proof p) mod 2 ^ depth))"
    moreover have "?b \<noteq> empty_leaf" using gap by (auto simp: empty_leaf_def)
    ultimately have "?b \<in> set leaves" by (auto simp: slot_def split: if_splits)
    then show ?thesis using gap_excludes [OF spec(1) _ gap] keys by simp
  qed simp
qed

lemma im_absence_sound_witness:
  "\<exists>(p :: non_inclusion_proof) r. verify_non_inclusion sample_hash p r 2 = Inr True \<and>
    (sample_key 5 \<notin> fst ` set sample_pairs \<or>
      collides sample_hash (tree_inputs sample_hash sample_leaves 2) (proof_inputs sample_hash (bracket_leaf_proof p)))"
proof -
  have k: "sample_key 3 \<in> leaf_key ` set sample_leaves" by (simp add: sample_leaves_def)
  obtain q r where q: "imt_root sample_hash sample_leaves 2 = Inr r" "verify_inclusion sample_hash q r 2 = Inr True"
    "proof_leaf q \<in> set sample_leaves" "leaf_key (proof_leaf q) = sample_key 3"
    by (rule inclusion_verifies [OF make_leaves_spec(3) [OF sample_leaves] k, of sample_hash]) blast
  have gap: "sample_key 3 < sample_key 5" "sample_key 5 < sample_key 9" by code_simp+
  have "next_key (proof_leaf q) = sample_key 9" "leaf_ok (proof_leaf q)"
    using q(3,4) make_leaves_spec(2) [OF sample_leaves] by (auto simp: sample_leaves_def sample_key_def)
  then have ok: "verify_non_inclusion sample_hash \<lparr>target_key = sample_key 5, bracket_leaf_proof = q\<rparr> r 2 = Inr True"
    using q gap by (simp add: verify_non_inclusion_def)
  from im_absence_sound [OF sample_leaves q(1) _ ok] \<open>leaf_ok (proof_leaf q)\<close> ok
  show ?thesis
    by - (rule exI [of _ "\<lparr>target_key = sample_key 5, bracket_leaf_proof = q\<rparr>"], rule exI [of _ r], simp)
qed

end
