(* ===== verification/PyFloat.thy ===== *)
theory PyFloat
  imports Prelude
begin

text \<open>
  Python floats. A finite float is the rational it denotes; an operation is the exact operation
  followed by rounding to the nearest IEEE-754 binary64 value, ties to even, with gradual
  underflow (the least exponent is that of the subnormals). Not modelled: overflow to infinity
  (a result beyond the largest double stays finite here), NaN, and the sign of zero, which no
  comparison observes.

  The lemmas other theories use are those of the locale \<open>rounding\<close>: rounding is monotone and
  fixes the floats, so every bound between floats that holds of the exact result holds of the
  rounded one.
\<close>

section \<open>Rounding to the nearest double\<close>

text \<open>Round half to even, as an integer.\<close>

definition rhe :: "rat \<Rightarrow> int" where
  "rhe x = (let f = \<lfloor>x\<rfloor>; r = x - of_int f in
     if r < 1/2 then f else if 1/2 < r then f + 1 else if even f then f else f + 1)"

fun ilog2 :: "int \<Rightarrow> nat" where
  "ilog2 n = (if n \<le> 1 then 0 else Suc (ilog2 (n div 2)))"

declare ilog2.simps [simp del]

definition pow2 :: "int \<Rightarrow> rat" where
  "pow2 k = (if 0 \<le> k then 2 ^ nat k else 1 / 2 ^ nat (- k))"

text \<open>The exponent of the binade of a positive rational: \<open>pow2 e \<le> q < pow2 (e + 1)\<close>.\<close>

definition binade :: "rat \<Rightarrow> int" where
  "binade q = (case quotient_of q of (n, d) \<Rightarrow>
     let k = int (ilog2 n) - int (ilog2 d) in if q < pow2 k then k - 1 else k)"

text \<open>The exponent of the last place of the doubles near \<open>x\<close>.\<close>

definition ulp_exp :: "rat \<Rightarrow> int" where
  "ulp_exp x = max (binade \<bar>x\<bar>) (-1022) - 52"

definition fl :: "rat \<Rightarrow> rat" where
  "fl x = (if x = 0 then 0 else of_int (rhe (x / pow2 (ulp_exp x))) * pow2 (ulp_exp x))"

type_synonym float = rat

definition fadd :: "float \<Rightarrow> float \<Rightarrow> float" where "fadd x y = fl (x + y)"
definition fsub :: "float \<Rightarrow> float \<Rightarrow> float" where "fsub x y = fl (x - y)"
definition fmul :: "float \<Rightarrow> float \<Rightarrow> float" where "fmul x y = fl (x * y)"

text \<open>Division raises on a zero divisor.\<close>

definition fdiv :: "float \<Rightarrow> float \<Rightarrow> float" where "fdiv x y = fl (x / y)"

definition fdiv_checked :: "float \<Rightarrow> float \<Rightarrow> py_error + float" where
  "fdiv_checked x y = (if y = 0 then Inl ZeroDivisionError else Inr (fdiv x y))"

text \<open>
  \<open>sum\<close> of floats as CPython 3.12 computes it, the version the deployed images run: the first item,
  then a running total with Neumaier's compensation, added at the end. (3.10 and 3.11, which the
  package also supports, omit the compensation.)
\<close>

fun compensated_sum :: "float \<Rightarrow> float \<Rightarrow> float list \<Rightarrow> float" where
  "compensated_sum hi c [] = (if c \<noteq> 0 then fadd hi c else hi)"
| "compensated_sum hi c (x # xs) =
     (let t = fadd hi x;
          lost = (if \<bar>x\<bar> \<le> \<bar>hi\<bar> then fadd (fsub hi t) x else fadd (fsub x t) hi)
      in compensated_sum t (fadd c lost) xs)"

definition fsum :: "float list \<Rightarrow> float" where
  "fsum xs = (case xs of [] \<Rightarrow> 0 | x # rest \<Rightarrow> compensated_sum x 0 rest)"

text \<open>\<open>round(x, n)\<close>: the exact value rounded half to even at \<open>n\<close> decimals, then to a double.\<close>

definition fround :: "nat \<Rightarrow> float \<Rightarrow> float" where
  "fround n x = fl (of_int (rhe (x * 10 ^ n)) / 10 ^ n)"

text \<open>
  \<open>float(s)\<close>: an optional sign, decimal digits with an optional point and exponent, single
  underscores between digits. \<open>None\<close> is a \<open>ValueError\<close>. The literals of infinity and NaN are not
  modelled (\<open>None\<close> here); the readers that check a range reject them in the code as well.
\<close>

definition digit_part :: "string \<Rightarrow> (int \<times> nat) option" where
  "digit_part s = (if s = [] then Some (0, 0)
     else map_option (\<lambda>v. (v, length (filter is_digit s))) (digits_from s 0 False))"

definition split_on :: "(char \<Rightarrow> bool) \<Rightarrow> string \<Rightarrow> string \<times> string option" where
  "split_on P s = (takeWhile (\<lambda>c. \<not> P c) s,
     case dropWhile (\<lambda>c. \<not> P c) s of [] \<Rightarrow> None | _ # rest \<Rightarrow> Some rest)"

definition signed :: "string \<Rightarrow> bool \<times> string" where
  "signed s = (case s of
     c # cs \<Rightarrow> if c = CHR ''-'' then (True, cs) else if c = CHR ''+'' then (False, cs) else (False, s)
   | [] \<Rightarrow> (False, s))"

definition exponent_part :: "string option \<Rightarrow> int option" where
  "exponent_part ex = (case ex of
     None \<Rightarrow> Some 0
   | Some e \<Rightarrow> (case signed e of (neg, ds) \<Rightarrow>
       map_option (\<lambda>v. if neg then - v else v) (digits_from ds 0 False)))"

definition py_float :: "string \<Rightarrow> float option" where
  "py_float raw =
     (case signed (strip raw) of (neg, s) \<Rightarrow>
      case split_on (\<lambda>c. c = CHR ''e'' \<or> c = CHR ''E'') s of (mant, ex) \<Rightarrow>
      case split_on (\<lambda>c. c = CHR ''.'') mant of (ip, fp) \<Rightarrow>
        let fs = (case fp of None \<Rightarrow> [] | Some x \<Rightarrow> x)
        in if ip = [] \<and> fs = [] then None
           else case (digit_part ip, digit_part fs, exponent_part ex) of
             (Some (a, _), Some (b, n), Some e) \<Rightarrow>
               let v = fl (of_int (a * 10 ^ n + b) * (10 powi (e - int n)))
               in Some (if neg then - v else v)
           | _ \<Rightarrow> None)"

text \<open>
  \<open>x ** y\<close> on floats is the C library's \<open>pow\<close>, whose last digit differs between platforms: it is a
  parameter of the definitions that use it. The facts relied on: a base in [0, 1] with a
  non-negative exponent gives a double in [0, 1], and exponent 0 gives 1.
\<close>

definition pow_ok :: "(float \<Rightarrow> float \<Rightarrow> float) \<Rightarrow> bool" where
  "pow_ok powf \<longleftrightarrow> (\<forall>x y. 0 \<le> x \<and> x \<le> 1 \<and> 0 \<le> y \<longrightarrow>
     0 \<le> powf x y \<and> powf x y \<le> 1 \<and> fl (powf x y) = powf x y) \<and> (\<forall>x. powf x 0 = 1)"

section \<open>Facts about rounding to an integer\<close>

lemma rhe_of_int [simp]: "rhe (of_int k) = k"
  by (simp add: rhe_def)

lemma rhe_bounds: "of_int (rhe x) \<le> x + 1/2" "x - 1/2 \<le> of_int (rhe x)"
proof -
  define f where "f = \<lfloor>x\<rfloor>"
  have "of_int f \<le> x" "x < of_int f + 1" unfolding f_def by linarith+
  then show "of_int (rhe x) \<le> x + 1/2" "x - 1/2 \<le> of_int (rhe x)"
    unfolding rhe_def f_def [symmetric] Let_def by (auto split: if_splits)
qed

lemma rhe_mono: "x \<le> y \<Longrightarrow> rhe x \<le> rhe y"
proof -
  assume le: "x \<le> y"
  show ?thesis
  proof (cases "\<lfloor>x\<rfloor> = \<lfloor>y\<rfloor>")
    case True
    then show ?thesis using le by (auto simp: rhe_def Let_def)
  next
    case False
    then have "\<lfloor>x\<rfloor> + 1 \<le> \<lfloor>y\<rfloor>" using floor_mono [OF le] by linarith
    moreover have "rhe x \<le> \<lfloor>x\<rfloor> + 1" "\<lfloor>y\<rfloor> \<le> rhe y" by (auto simp: rhe_def Let_def)
    ultimately show ?thesis by linarith
  qed
qed

lemma rhe_minus: "rhe (- x) = - rhe x"
proof (cases "x = of_int \<lfloor>x\<rfloor>")
  case True
  then show ?thesis by (metis of_int_minus rhe_of_int)
next
  case False
  then have "of_int \<lfloor>x\<rfloor> < x" "x < of_int \<lfloor>x\<rfloor> + 1" by linarith+
  then have "\<lfloor>- x\<rfloor> = - \<lfloor>x\<rfloor> - 1"
    by (intro floor_unique) (simp only: of_int_diff of_int_minus of_int_1, linarith)+
  then show ?thesis by (auto simp: rhe_def Let_def)
qed

lemma rhe_le: "x \<le> of_int k \<Longrightarrow> rhe x \<le> k" and rhe_ge: "of_int k \<le> x \<Longrightarrow> k \<le> rhe x"
  using rhe_mono [of x "of_int k"] rhe_mono [of "of_int k" x] by simp_all

section \<open>Powers of two and binades\<close>

lemma pow2_pos [simp]: "0 < pow2 k" "0 \<le> pow2 k" "pow2 k \<noteq> 0"
  by (simp_all add: pow2_def)

lemma pow2_powi: "pow2 k = 2 powi k"
  by (simp add: pow2_def power_int_def field_simps)

lemma pow2_add: "pow2 (a + b) = pow2 a * pow2 b"
  by (simp add: pow2_powi power_int_add)

lemma pow2_Suc: "pow2 (k + 1) = 2 * pow2 k"
  by (simp add: pow2_add) (simp add: pow2_def)

lemma pow2_mono: "a \<le> b \<Longrightarrow> pow2 a \<le> pow2 b"
  by (simp add: pow2_powi power_int_increasing)

lemma pow2_less_iff [simp]: "pow2 a < pow2 b \<longleftrightarrow> a < b"
proof
  show "pow2 a < pow2 b \<Longrightarrow> a < b" by (metis pow2_mono not_le)
  show "a < b \<Longrightarrow> pow2 a < pow2 b" by (simp add: pow2_powi power_int_strict_increasing)
qed

lemma pow2_nat: "pow2 (int n) = 2 ^ n"
  by (simp add: pow2_def)

lemma ilog2_bounds: "1 \<le> n \<Longrightarrow> 2 ^ ilog2 n \<le> n \<and> n < 2 ^ Suc (ilog2 n)"
proof (induction n rule: ilog2.induct)
  case (1 n)
  show ?case
  proof (cases "n \<le> 1")
    case True
    with 1 show ?thesis by (simp add: ilog2.simps)
  next
    case False
    then have "2 ^ ilog2 (n div 2) \<le> n div 2 \<and> n div 2 < 2 ^ Suc (ilog2 (n div 2))"
      using 1 by simp
    with False show ?thesis by (subst ilog2.simps, subst (2) ilog2.simps) auto
  qed
qed

lemma binade_bounds:
  assumes "0 < q"
  shows "pow2 (binade q) \<le> q \<and> q < pow2 (binade q + 1)"
proof -
  obtain n d where nd: "quotient_of q = (n, d)" by fastforce
  then have d: "0 < d" and q: "q = of_int n / of_int d"
    using quotient_of_denom_pos quotient_of_div by auto
  with assms have n: "0 < n" by (simp add: zero_less_divide_iff)
  let ?a = "ilog2 n" and ?b = "ilog2 d"
  let ?k = "int ?a - int ?b"
  have ln: "2 ^ ?a \<le> n" "n < 2 ^ Suc ?a" and ld: "2 ^ ?b \<le> d" "d < 2 ^ Suc ?b"
    using ilog2_bounds [of n] ilog2_bounds [of d] n d by auto
  then have rn: "(2::rat) ^ ?a \<le> of_int n" "of_int n < (2::rat) ^ Suc ?a"
    and rd: "(2::rat) ^ ?b \<le> of_int d" "of_int d < (2::rat) ^ Suc ?b"
    by (metis of_int_le_iff of_int_less_iff of_int_numeral of_int_power)+
  have pk: "pow2 ?k = 2 ^ ?a / 2 ^ ?b"
    using pow2_add [of ?k "int ?b"] by (simp add: pow2_nat field_simps)
  have upper: "q < pow2 (?k + 1)"
  proof -
    have "q < 2 ^ Suc ?a / of_int d" using rn d by (simp add: q divide_strict_right_mono)
    also have "\<dots> \<le> 2 ^ Suc ?a / 2 ^ ?b" using rd d by (intro divide_left_mono) auto
    finally show ?thesis by (simp add: pow2_Suc pk)
  qed
  have lower: "pow2 (?k - 1) \<le> q"
  proof -
    have "2 ^ ?a / 2 ^ Suc ?b \<le> (2::rat) ^ ?a / of_int d" using rd d by (intro divide_left_mono) auto
    also have "\<dots> \<le> q" using rn d by (simp add: q divide_right_mono)
    finally show ?thesis using pow2_Suc [of "?k - 1"] by (simp add: pk)
  qed
  show ?thesis
    using upper lower by (auto simp: binade_def nd Let_def)
qed

lemma binade_unique:
  assumes "pow2 e \<le> q" and "q < pow2 (e + 1)"
  shows "binade q = e"
proof -
  have "0 < q" using assms(1) pow2_pos(1) [of e] by linarith
  then have b: "pow2 (binade q) \<le> q" "q < pow2 (binade q + 1)"
    using binade_bounds by auto
  have "pow2 e < pow2 (binade q + 1)" "pow2 (binade q) < pow2 (e + 1)"
    using assms b by linarith+
  then show ?thesis by (simp add: pow2_less_iff)
qed

lemma binade_mono:
  assumes "0 < x" and "x \<le> y"
  shows "binade x \<le> binade y"
proof -
  have "pow2 (binade x) < pow2 (binade y + 1)"
    using binade_bounds [of x] binade_bounds [of y] assms by linarith
  then show ?thesis by simp
qed

section \<open>Rounding to a double\<close>

lemma fl_0 [simp]: "fl 0 = 0"
  by (simp add: fl_def)

lemma ulp_exp_minus [simp]: "ulp_exp (- x) = ulp_exp x"
  by (simp add: ulp_exp_def)

lemma fl_minus: "fl (- x) = - fl x"
  by (simp add: fl_def rhe_minus)

lemma fl_scaled: "x \<noteq> 0 \<Longrightarrow> fl x = of_int (rhe (x / pow2 (ulp_exp x))) * pow2 (ulp_exp x)"
  by (simp add: fl_def)

lemma ulp_exp_mono: "0 < x \<Longrightarrow> x \<le> y \<Longrightarrow> ulp_exp x \<le> ulp_exp y"
  using binade_mono [of x y] by (simp add: ulp_exp_def)

lemma below_top_of_binade:
  assumes "0 < x"
  shows "x < pow2 (ulp_exp x + 53)"
proof -
  have "x < pow2 (binade x + 1)" using binade_bounds assms by simp
  also have "\<dots> \<le> pow2 (ulp_exp x + 53)"
    by (rule pow2_mono) (use assms in \<open>simp add: ulp_exp_def\<close>)
  finally show ?thesis .
qed

lemma scaled_power: "pow2 (e + int n) / pow2 e = of_int (2 ^ n)"
  by (simp add: pow2_add pow2_nat)

lemma fl_le_top:
  assumes "0 < x"
  shows "fl x \<le> pow2 (ulp_exp x + 53)"
proof -
  have "x / pow2 (ulp_exp x) \<le> of_int (2 ^ 53)"
    using below_top_of_binade [OF assms] scaled_power [of "ulp_exp x" 53]
    by (metis less_imp_le divide_right_mono of_nat_numeral pow2_pos(2))
  then have "rhe (x / pow2 (ulp_exp x)) \<le> 2 ^ 53" by (rule rhe_le)
  then have "of_int (rhe (x / pow2 (ulp_exp x))) \<le> (2 ^ 53 :: rat)"
    by (metis of_int_le_iff of_int_numeral of_int_power)
  then show ?thesis
    using assms by (simp add: fl_scaled pow2_add mult_right_mono pow2_def [of 53] mult.commute [of "pow2 (ulp_exp x)"])
qed

lemma fl_ge_bottom:
  assumes "0 < y" and "- 1074 < ulp_exp y"
  shows "pow2 (ulp_exp y + 52) \<le> fl y"
proof -
  have "ulp_exp y + 52 = binade y" using assms by (auto simp: ulp_exp_def)
  then have "pow2 (ulp_exp y + 52) \<le> y" using binade_bounds assms by simp
  then have "of_int (2 ^ 52) \<le> y / pow2 (ulp_exp y)"
    using scaled_power [of "ulp_exp y" 52] by (metis divide_right_mono of_nat_numeral pow2_pos(2))
  then have "2 ^ 52 \<le> rhe (y / pow2 (ulp_exp y))" by (rule rhe_ge)
  then have "(2 ^ 52 :: rat) \<le> of_int (rhe (y / pow2 (ulp_exp y)))"
    by (metis of_int_le_iff of_int_numeral of_int_power)
  then show ?thesis
    using assms by (simp add: fl_scaled pow2_add mult_right_mono pow2_def [of 52] mult.commute [of "pow2 (ulp_exp y)"])
qed

lemma fl_nonneg: "0 \<le> x \<Longrightarrow> 0 \<le> fl x"
  using rhe_ge [of 0 "x / pow2 (ulp_exp x)"] by (simp add: fl_def)

lemma ulp_exp_min: "- 1074 \<le> ulp_exp x"
  by (simp add: ulp_exp_def)

lemma fl_mono_pos:
  assumes "0 < x" and "x \<le> y"
  shows "fl x \<le> fl y"
proof (cases "ulp_exp x = ulp_exp y")
  case True
  have "rhe (x / pow2 (ulp_exp x)) \<le> rhe (y / pow2 (ulp_exp x))"
    using assms by (intro rhe_mono divide_right_mono) auto
  then show ?thesis using assms True by (simp add: fl_scaled)
next
  case False
  then have lt: "ulp_exp x < ulp_exp y" using ulp_exp_mono [OF assms] by simp
  have "fl x \<le> pow2 (ulp_exp x + 53)" using assms by (intro fl_le_top)
  also have "\<dots> \<le> pow2 (ulp_exp y + 52)" using lt by (intro pow2_mono) simp
  also have "\<dots> \<le> fl y"
    using lt ulp_exp_min [of x] assms by (intro fl_ge_bottom) auto
  finally show ?thesis .
qed

lemma fl_mono: "x \<le> y \<Longrightarrow> fl x \<le> fl y"
proof -
  assume le: "x \<le> y"
  consider "0 < x" | "x \<le> 0" "0 \<le> y" | "y < 0" by linarith
  then show ?thesis
  proof cases
    case 1
    then show ?thesis using le by (rule fl_mono_pos)
  next
    case 2
    then show ?thesis using fl_nonneg [of y] fl_nonneg [of "- x"] by (simp add: fl_minus)
  next
    case 3
    then show ?thesis using fl_mono_pos [of "- y" "- x"] le by (simp add: fl_minus)
  qed
qed

section \<open>The doubles\<close>

definition is_float :: "rat \<Rightarrow> bool" where
  "is_float x \<longleftrightarrow> fl x = x"

text \<open>A number with a 53-bit significand and an exponent in range is a double.\<close>

lemma is_float_dyadic:
  assumes "\<bar>m\<bar> < 2 ^ 53" and "- 1074 \<le> e"
  shows "is_float (of_int m * pow2 e)"
proof (cases "m = 0")
  case False
  let ?x = "of_int m * pow2 e"
  have nz: "?x \<noteq> 0" "0 < \<bar>?x\<bar>" using False by (simp_all add: abs_mult)
  have "of_int \<bar>m\<bar> < (of_int (2 ^ 53) :: rat)" using assms(1) by (simp only: of_int_less_iff)
  then have "of_int \<bar>m\<bar> * pow2 e < of_int (2 ^ 53) * pow2 e" by (simp only: mult_less_cancel_right_pos pow2_pos)
  then have "\<bar>?x\<bar> < pow2 (e + 53)"
    by (simp add: abs_mult pow2_add pow2_def [of 53] mult.commute)
  then have "pow2 (binade \<bar>?x\<bar>) < pow2 (e + 53)"
    using binade_bounds [OF nz(2)] by linarith
  then have le: "ulp_exp ?x \<le> e" using assms(2) by (simp add: ulp_exp_def)
  define u where "u = ulp_exp ?x"
  have split: "pow2 e = pow2 u * 2 ^ nat (e - u)"
    using pow2_add [of u "e - u"] le by (simp add: u_def pow2_def [of "e - u" for u])
  have q: "?x / pow2 u = of_int (m * 2 ^ nat (e - u))"
    by (simp add: split)
  have "fl ?x = of_int (rhe (?x / pow2 u)) * pow2 u"
    using fl_scaled [OF nz(1)] by (simp only: u_def)
  also have "\<dots> = of_int (m * 2 ^ nat (e - u)) * pow2 u"
    by (simp only: q rhe_of_int)
  also have "\<dots> = ?x"
    by (simp add: split)
  finally show ?thesis by (simp add: is_float_def)
qed (simp add: is_float_def)

lemma is_float_int: "\<bar>m\<bar> < 2 ^ 53 \<Longrightarrow> is_float (of_int m)"
  using is_float_dyadic [of m 0] by (simp add: pow2_def)

lemma is_float_div: "\<bar>m\<bar> < 2 ^ 53 \<Longrightarrow> k \<le> 1074 \<Longrightarrow> is_float (of_int m / 2 ^ k)"
  using is_float_dyadic [of m "- int k"] by (cases "k = 0") (simp_all add: pow2_def)

lemma is_float_0 [simp]: "is_float 0" and is_float_1 [simp]: "is_float 1"
  using is_float_int [of 0] is_float_int [of 1] by simp_all

lemma rounded_significand:
  assumes "x \<noteq> 0"
  shows "\<bar>rhe (x / pow2 (ulp_exp x))\<bar> \<le> 2 ^ 53"
proof -
  have pos: "0 \<le> rhe (y / pow2 (ulp_exp y)) \<and> rhe (y / pow2 (ulp_exp y)) \<le> 2 ^ 53"
    if "0 < y" for y
  proof
    show "0 \<le> rhe (y / pow2 (ulp_exp y))" using that by (intro rhe_ge) simp
    have "y / pow2 (ulp_exp y) \<le> pow2 (ulp_exp y + int 53) / pow2 (ulp_exp y)"
      using below_top_of_binade [OF that] by (intro divide_right_mono) simp_all
    then show "rhe (y / pow2 (ulp_exp y)) \<le> 2 ^ 53"
      by (intro rhe_le) (simp only: scaled_power)
  qed
  show ?thesis
  proof (cases "0 < x")
    case True
    then show ?thesis using pos by simp
  next
    case False
    then have "0 \<le> rhe (- x / pow2 (ulp_exp (- x))) \<and> rhe (- x / pow2 (ulp_exp (- x))) \<le> 2 ^ 53"
      using assms by (intro pos) simp
    then show ?thesis by (simp add: rhe_minus)
  qed
qed

lemma is_float_fl: "is_float (fl x)"
proof (cases "x = 0")
  case False
  let ?m = "rhe (x / pow2 (ulp_exp x))" and ?e = "ulp_exp x"
  have fl: "fl x = of_int ?m * pow2 ?e" using False by (simp add: fl_scaled)
  show ?thesis
  proof (cases "\<bar>?m\<bar> = 2 ^ 53")
    case True
    then have "fl x = of_int (sgn ?m) * pow2 (?e + 53)"
      by (simp add: fl pow2_add pow2_def [of 53] sgn_if abs_if split: if_splits)
    moreover have "is_float (of_int (sgn ?m) * pow2 (?e + 53))"
      using ulp_exp_min [of x] by (intro is_float_dyadic) (auto simp: sgn_if)
    ultimately show ?thesis by simp
  next
    case False
    then have "\<bar>?m\<bar> < 2 ^ 53" using rounded_significand [OF \<open>x \<noteq> 0\<close>] by simp
    then show ?thesis using ulp_exp_min [of x] by (simp only: fl is_float_dyadic)
  qed
qed simp

lemma fl_fl [simp]: "fl (fl x) = fl x"
  using is_float_fl by (simp add: is_float_def)

section \<open>The contract of rounding\<close>

text \<open>What the component proofs use of rounding, and nothing else.\<close>

locale rounding =
  fixes rnd :: "rat \<Rightarrow> rat"
  assumes rnd_mono: "x \<le> y \<Longrightarrow> rnd x \<le> rnd y"
    and rnd_idem: "rnd (rnd x) = rnd x"
    and rnd_neg: "rnd (- x) = - rnd x"
    and rnd_one: "rnd 1 = 1"
begin

lemma rnd_zero: "rnd 0 = 0"
  using rnd_neg [of 0] by simp

lemma rnd_le_fixed: "rnd b = b \<Longrightarrow> x \<le> b \<Longrightarrow> rnd x \<le> b"
  using rnd_mono [of x b] by simp

lemma rnd_ge_fixed: "rnd a = a \<Longrightarrow> a \<le> x \<Longrightarrow> a \<le> rnd x"
  using rnd_mono [of a x] by simp

lemma rnd_nonneg: "0 \<le> x \<Longrightarrow> 0 \<le> rnd x"
  using rnd_ge_fixed [of 0] rnd_zero by simp

lemma rnd_le_one: "x \<le> 1 \<Longrightarrow> rnd x \<le> 1"
  using rnd_le_fixed [of 1] rnd_one by simp

lemma scale_le: "rnd x = x \<Longrightarrow> 0 \<le> x \<Longrightarrow> t \<le> 1 \<Longrightarrow> rnd (x * t) \<le> x"
  by (rule rnd_le_fixed) (simp_all add: mult_left_le)

lemma ratio_unit: "0 \<le> x \<Longrightarrow> x \<le> y \<Longrightarrow> 0 \<le> rnd (x / y) \<and> rnd (x / y) \<le> 1"
  by (cases "y = 0") (auto intro: rnd_nonneg rnd_le_one simp: rnd_zero divide_le_eq_1)

lemma ratio_mono: "0 < y \<Longrightarrow> x \<le> x' \<Longrightarrow> rnd (x / y) \<le> rnd (x' / y)"
  by (rule rnd_mono) (simp add: divide_right_mono)

end

interpretation fl: rounding fl
  by unfold_locales (auto intro: fl_mono simp: fl_minus is_float_1 [unfolded is_float_def])

section \<open>Rounding errors\<close>

text \<open>The unit roundoff and the least half-ulp.\<close>

definition u53 :: rat where "u53 = 1 / 2 ^ 53"

lemma u53_pos [simp]: "0 < u53" "0 \<le> u53"
  by (simp_all add: u53_def)

lemma fl_error_ulp: "\<bar>fl x - x\<bar> \<le> pow2 (ulp_exp x) / 2"
proof (cases "x = 0")
  case False
  let ?p = "pow2 (ulp_exp x)"
  have "\<bar>of_int (rhe (x / ?p)) - x / ?p\<bar> \<le> 1 / 2"
    using rhe_bounds [of "x / ?p"] unfolding abs_le_iff by linarith
  then have "\<bar>of_int (rhe (x / ?p)) - x / ?p\<bar> * ?p \<le> 1 / 2 * ?p"
    by (intro mult_right_mono) simp_all
  moreover have "\<bar>of_int (rhe (x / ?p)) - x / ?p\<bar> * ?p = \<bar>fl x - x\<bar>"
  proof -
    have "\<bar>of_int (rhe (x / ?p)) - x / ?p\<bar> * ?p = \<bar>(of_int (rhe (x / ?p)) - x / ?p) * ?p\<bar>"
      by (simp only: abs_mult abs_of_pos [OF pow2_pos(1)])
    also have "(of_int (rhe (x / ?p)) - x / ?p) * ?p = fl x - x"
      using False by (simp add: fl_scaled left_diff_distrib)
    finally show ?thesis .
  qed
  ultimately show ?thesis by simp
qed simp

lemma ulp_normal:
  assumes "pow2 (- 1022) \<le> \<bar>x\<bar>"
  shows "pow2 (ulp_exp x) / 2 \<le> u53 * \<bar>x\<bar>"
proof -
  have pos: "0 < \<bar>x\<bar>" using assms pow2_pos(1) [of "- 1022"] by linarith
  then have b: "pow2 (binade \<bar>x\<bar>) \<le> \<bar>x\<bar>" "\<bar>x\<bar> < pow2 (binade \<bar>x\<bar> + 1)"
    using binade_bounds by auto
  then have "pow2 (- 1022) < pow2 (binade \<bar>x\<bar> + 1)" using assms by linarith
  then have "ulp_exp x = binade \<bar>x\<bar> + - 52" by (simp add: ulp_exp_def)
  then have "pow2 (ulp_exp x) = pow2 (binade \<bar>x\<bar>) / 2 ^ 52"
    by (simp only: pow2_add) (simp add: pow2_def)
  then show ?thesis using b(1) by (simp add: u53_def)
qed

lemma ulp_tiny:
  assumes "\<bar>x\<bar> < pow2 (- 1022)" and "x \<noteq> 0"
  shows "ulp_exp x = - 1074"
proof -
  have "pow2 (binade \<bar>x\<bar>) < pow2 (- 1022)" using binade_bounds [of "\<bar>x\<bar>"] assms
    by (meson le_less_trans zero_less_abs_iff)
  then show ?thesis by (simp add: ulp_exp_def)
qed

lemma fl_error: "\<bar>fl x - x\<bar> \<le> u53 * \<bar>x\<bar> + pow2 (- 1075)"
proof (cases "pow2 (- 1022) \<le> \<bar>x\<bar>")
  case True
  then show ?thesis using fl_error_ulp [of x] ulp_normal [of x] pow2_pos(2) [of "- 1075"] by linarith
next
  case False
  show ?thesis
  proof (cases "x = 0")
    case nz: False
    then have "ulp_exp x = - 1075 + 1" using ulp_tiny False by simp
    then have "pow2 (ulp_exp x) / 2 = pow2 (- 1075)" by (simp only: pow2_Suc)
    moreover have "0 \<le> u53 * \<bar>x\<bar>" by simp
    ultimately show ?thesis using fl_error_ulp [of x] by linarith
  qed simp
qed

lemma float_multiple: "is_float x \<Longrightarrow> \<exists>m. x = of_int m * pow2 (- 1074)"
proof (cases "x = 0")
  case False
  assume "is_float x"
  then have "x = of_int (rhe (x / pow2 (ulp_exp x))) * pow2 (ulp_exp x)"
    using False by (simp add: is_float_def fl_scaled)
  moreover have "pow2 (ulp_exp x) = of_int (2 ^ nat (ulp_exp x + 1074)) * pow2 (- 1074)"
    using pow2_add [of "ulp_exp x + 1074" "- 1074"] ulp_exp_min [of x] by (simp add: pow2_def [of "ulp_exp x + 1074"])
  ultimately have "x = of_int (rhe (x / pow2 (ulp_exp x)) * 2 ^ nat (ulp_exp x + 1074)) * pow2 (- 1074)"
    by (simp only: of_int_mult mult.assoc)
  then show ?thesis ..
qed (auto intro: exI [of _ 0])

text \<open>A sum of two doubles has no underflow error.\<close>

lemma add_error:
  assumes "is_float x" and "is_float y"
  shows "\<bar>fl (x + y) - (x + y)\<bar> \<le> u53 * \<bar>x + y\<bar>"
proof (cases "pow2 (- 1022) \<le> \<bar>x + y\<bar>")
  case True
  then show ?thesis using fl_error_ulp [of "x + y"] ulp_normal [of "x + y"] by linarith
next
  case False
  obtain a b where "x = of_int a * pow2 (- 1074)" "y = of_int b * pow2 (- 1074)"
    using assms float_multiple by blast
  then have m: "x + y = of_int (a + b) * pow2 (- 1074)" by (simp add: distrib_right)
  have "pow2 (- 1022) = of_int (2 ^ 52) * pow2 (- 1074)"
    using pow2_add [of 52 "- 1074"] by (simp add: pow2_def [of 52])
  then have "\<bar>of_int (a + b)\<bar> * pow2 (- 1074) < of_int (2 ^ 52) * pow2 (- 1074)"
    using False by (simp add: m abs_mult)
  then have "\<bar>of_int (a + b) :: rat\<bar> < of_int (2 ^ 52)" by (simp only: mult_less_cancel_right_pos pow2_pos)
  then have "\<bar>a + b\<bar> < 2 ^ 52" by (simp only: of_int_abs [symmetric] of_int_less_iff)
  then have "is_float (x + y)" unfolding m by (intro is_float_dyadic) simp_all
  then show ?thesis by (simp add: is_float_def)
qed

lemma is_float_fadd [simp]: "is_float (fadd x y)" and is_float_fsub [simp]: "is_float (fsub x y)"
  and is_float_fmul [simp]: "is_float (fmul x y)" and is_float_fdiv [simp]: "is_float (fdiv x y)"
  by (simp_all add: fadd_def fsub_def fmul_def fdiv_def is_float_fl)

lemma is_float_minus [simp]: "is_float (- x) \<longleftrightarrow> is_float x"
  by (auto simp: is_float_def fl_minus)

lemma fadd_error: "is_float x \<Longrightarrow> is_float y \<Longrightarrow> \<bar>fadd x y - (x + y)\<bar> \<le> u53 * \<bar>x + y\<bar>"
  by (simp add: fadd_def add_error)

lemma fsub_error: "is_float x \<Longrightarrow> is_float y \<Longrightarrow> \<bar>fsub x y - (x - y)\<bar> \<le> u53 * \<bar>x - y\<bar>"
  using add_error [of x "- y"] by (simp add: fsub_def)

section \<open>The error of a sum\<close>

lemma u53_small: "u53 \<le> 1 / 1024"
  by (simp add: u53_def)

lemma u_le: "0 \<le> (b::rat) \<Longrightarrow> b \<le> 1 \<Longrightarrow> u53 * b \<le> u53"
  using mult_left_mono [of b 1 u53] by simp

lemma u_scale: "a \<le> k * b \<Longrightarrow> u53 * a \<le> k * (u53 * b)"
  using mult_left_mono [of a "k * b" u53] by (simp only: mult.left_commute [of u53] u53_pos)

lemma fadd_ge: "is_float x \<Longrightarrow> 0 \<le> y \<Longrightarrow> x \<le> fadd x y"
  using fl_mono [of x "x + y"] by (simp add: fadd_def is_float_def)

lemma fadd_commute: "fadd x y = fadd y x"
  by (simp add: fadd_def add.commute)

text \<open>What a step of the compensated sum puts aside is tiny against the running total.\<close>

lemma lost_bound:
  assumes a: "is_float a" "0 \<le> a" and b: "is_float b" "0 \<le> b" and t: "t = fadd a b"
  shows "\<bar>fadd (fsub a t) b\<bar> \<le> 4 * u53 * t"
proof -
  have ge: "a \<le> t" "b \<le> t" using fadd_ge [of a b] fadd_ge [of b a] a b by (simp_all add: t fadd_commute)
  then have t0: "0 \<le> t" using a by linarith
  have "u53 * \<bar>a + b\<bar> \<le> 2 * (u53 * t)" using ge a b by (intro u_scale) simp
  then have 1: "\<bar>t - (a + b)\<bar> \<le> 2 * (u53 * t)" using fadd_error [OF a(1) b(1), folded t] by linarith
  have "u53 * \<bar>a - t\<bar> \<le> 1 * (u53 * t)" using ge a t0 by (intro u_scale) simp
  moreover have "is_float t" by (simp add: t)
  ultimately have 2: "\<bar>fsub a t - (a - t)\<bar> \<le> u53 * t"
    using fsub_error [OF a(1), of t] by linarith
  have 3: "\<bar>fsub a t + b\<bar> \<le> 3 * (u53 * t)" using 1 2 by linarith
  then have "u53 * \<bar>fsub a t + b\<bar> \<le> 3 * (u53 * (u53 * t))" by (rule u_scale)
  moreover have "u53 * (u53 * t) \<le> (1 / 1024) * (u53 * t)"
    using u53_small t0 by (intro mult_right_mono) simp_all
  moreover have "\<bar>fadd (fsub a t) b - (fsub a t + b)\<bar> \<le> u53 * \<bar>fsub a t + b\<bar>"
    using b(1) by (intro fadd_error) simp_all
  moreover have "\<bar>fadd (fsub a t) b\<bar> \<le> \<bar>fadd (fsub a t) b - (fsub a t + b)\<bar> + \<bar>fsub a t + b\<bar>"
    by (rule order_trans [OF _ abs_triangle_ineq]) simp
  moreover have "0 \<le> u53 * t" using t0 by simp
  ultimately have "\<bar>fadd (fsub a t) b\<bar> \<le> 4 * (u53 * t)" using 3 by linarith
  then show ?thesis by simp
qed

lemma compensated_sum_error:
  assumes "\<forall>x \<in> set xs. is_float x \<and> 0 \<le> x" and "is_float hi" "0 \<le> hi" and "is_float c"
    and "\<bar>c\<bar> \<le> B * hi" and "0 \<le> B" and "B + 5 * u53 * of_nat (length xs) \<le> 1 / 2"
  shows "\<bar>compensated_sum hi c xs - foldl fadd hi xs\<bar>
    \<le> (B + 5 * u53 * of_nat (length xs) + 2 * u53) * foldl fadd hi xs"
  using assms
proof (induction xs arbitrary: hi c B)
  case Nil
  have "u53 * \<bar>hi + c\<bar> \<le> 2 * (u53 * hi)"
  proof (rule u_scale)
    have "B * hi \<le> hi" using mult_right_mono [of B 1 hi] Nil by simp
    then show "\<bar>hi + c\<bar> \<le> 2 * hi" using Nil.prems by linarith
  qed
  then have "\<bar>fadd hi c - hi\<bar> \<le> B * hi + 2 * (u53 * hi)"
    using fadd_error [OF Nil.prems(2,4)] Nil.prems(5) by linarith
  moreover have "0 \<le> B * hi + 2 * (u53 * hi)" using Nil.prems by simp
  ultimately show ?case by (simp add: distrib_right)
next
  case (Cons x xs)
  define t where "t = fadd hi x"
  define lost where "lost = (if \<bar>x\<bar> \<le> \<bar>hi\<bar> then fadd (fsub hi t) x else fadd (fsub x t) hi)"
  have x: "is_float x" "0 \<le> x" using Cons.prems(1) by simp_all
  have t0: "hi \<le> t" "0 \<le> t" using fadd_ge [of hi x] Cons.prems x by (simp_all add: t_def)
  have lost: "\<bar>lost\<bar> \<le> 4 * u53 * t"
    using lost_bound [of hi x t] lost_bound [of x hi t] Cons.prems x by (simp add: lost_def t_def fadd_commute)
  have "B * hi \<le> B * t" using t0 Cons.prems by (intro mult_left_mono) simp_all
  then have cl: "\<bar>c + lost\<bar> \<le> (B + 4 * u53) * t" using lost Cons.prems(5) by (simp add: distrib_right)
  have "u53 * \<bar>c + lost\<bar> \<le> u53 * t"
  proof (rule mult_left_mono)
    have "0 \<le> u53 * of_nat (length xs)" by simp
    moreover have "5 * u53 * of_nat (length (x # xs)) = 5 * u53 + 5 * (u53 * of_nat (length xs))"
      by (simp add: distrib_left)
    ultimately have "B + 4 * u53 \<le> 1" using Cons.prems(7) u53_pos(2) by linarith
    then have "(B + 4 * u53) * t \<le> 1 * t" using t0 by (intro mult_right_mono)
    then show "\<bar>c + lost\<bar> \<le> t" using cl by simp
  qed simp
  moreover have "\<bar>fadd c lost - (c + lost)\<bar> \<le> u53 * \<bar>c + lost\<bar>"
    using Cons.prems(4) by (intro fadd_error) (simp_all add: lost_def)
  moreover have "\<bar>fadd c lost\<bar> \<le> \<bar>fadd c lost - (c + lost)\<bar> + \<bar>c + lost\<bar>"
    by (rule order_trans [OF _ abs_triangle_ineq]) simp
  moreover have "(B + 5 * u53) * t = (B + 4 * u53) * t + u53 * t" by (simp add: algebra_simps)
  ultimately have "\<bar>fadd c lost\<bar> \<le> (B + 5 * u53) * t" using cl by linarith
  then have "\<bar>compensated_sum t (fadd c lost) xs - foldl fadd t xs\<bar>
      \<le> ((B + 5 * u53) + 5 * u53 * of_nat (length xs) + 2 * u53) * foldl fadd t xs"
    using Cons.prems t0 by (intro Cons.IH) (simp_all add: t_def distrib_left)
  then show ?case by (simp add: Let_def flip: t_def lost_def) (simp add: algebra_simps)
qed

lemma fold_error:
  assumes "\<forall>x \<in> set xs. is_float x \<and> 0 \<le> x" and "is_float hi" "0 \<le> hi"
    and "\<bar>hi - s\<bar> \<le> e * s" and "0 \<le> s" "0 \<le> e" and "e + 2 * u53 * of_nat (length xs) \<le> 1"
  shows "\<bar>foldl fadd hi xs - (s + sum_list xs)\<bar> \<le> (e + 2 * u53 * of_nat (length xs)) * (s + sum_list xs)"
  using assms
proof (induction xs arbitrary: hi s e)
  case (Cons x xs)
  have x: "is_float x" "0 \<le> x" using Cons.prems(1) by simp_all
  have e1: "e \<le> 1"
  proof -
    have "0 \<le> 2 * u53 * of_nat (length (x # xs))" by simp
    then show ?thesis using Cons.prems(7) by linarith
  qed
  have "e * s \<le> s" using mult_right_mono [of e 1 s] Cons.prems e1 by simp
  then have "hi \<le> 2 * s" using abs_le_D1 [OF Cons.prems(4)] by linarith
  then have "\<bar>hi + x\<bar> \<le> 2 * (s + x)" using Cons.prems(3) x by simp
  then have "u53 * \<bar>hi + x\<bar> \<le> 2 * (u53 * (s + x))" by (rule u_scale)
  moreover have "e * s \<le> e * (s + x)" using x Cons.prems by (intro mult_left_mono) simp_all
  moreover have "\<bar>fadd hi x - (s + x)\<bar> \<le> \<bar>fadd hi x - (hi + x)\<bar> + \<bar>hi - s\<bar>"
    by (rule order_trans [OF _ abs_triangle_ineq]) simp
  ultimately have "\<bar>fadd hi x - (s + x)\<bar> \<le> e * (s + x) + 2 * (u53 * (s + x))"
    using fadd_error [OF Cons.prems(2) x(1)] Cons.prems(4) by linarith
  then have "\<bar>fadd hi x - (s + x)\<bar> \<le> (e + 2 * u53) * (s + x)"
    by (simp only: distrib_right mult.assoc)
  then have "\<bar>foldl fadd (fadd hi x) xs - ((s + x) + sum_list xs)\<bar>
      \<le> ((e + 2 * u53) + 2 * u53 * of_nat (length xs)) * ((s + x) + sum_list xs)"
    using Cons.prems x fadd_ge [of hi x] by (intro Cons.IH) (auto simp: algebra_simps)
  then show ?case by (simp add: algebra_simps)
qed simp

text \<open>The sum of at most \<open>2 ^ 40\<close> non-negative doubles is within a tiny relative error of the exact one.\<close>

lemma fsum_error:
  assumes "\<forall>x \<in> set xs. is_float x \<and> 0 \<le> x" and "length xs \<le> 2 ^ 40"
  shows "\<bar>fsum xs - sum_list xs\<bar> \<le> 12 * u53 * of_nat (length xs) * sum_list xs"
proof (cases xs)
  case (Cons x rest)
  let ?n = "of_nat (length rest) :: rat"
  let ?f = "foldl fadd x rest" and ?S = "x + sum_list rest"
  have "length rest \<le> 2 ^ 40" using assms(2) by (simp add: Cons)
  then have n: "?n \<le> 2 ^ 40" by (metis of_nat_le_iff of_nat_numeral of_nat_power)
  then have small: "u53 * ?n \<le> 1 / 1024" by (simp add: u53_def)
  have x: "is_float x" "0 \<le> x" and rest: "\<forall>y \<in> set rest. is_float y \<and> 0 \<le> y" using assms(1) by (simp_all add: Cons)
  have S: "0 \<le> ?S" using x rest by (intro add_nonneg_nonneg sum_list_nonneg) auto
  have un: "0 \<le> u53 * ?n" by simp
  have 1: "\<bar>fsum xs - ?f\<bar> \<le> (5 * (u53 * ?n) + 2 * u53) * ?f"
    using compensated_sum_error [OF rest x, of 0 0] small by (simp add: fsum_def Cons mult.assoc)
  have 2: "\<bar>?f - ?S\<bar> \<le> 2 * (u53 * ?n) * ?S"
    using fold_error [OF rest x, of x 0] x small by (simp add: mult.assoc)
  have "2 * (u53 * ?n) * ?S \<le> 1 * ?S" using small S by (intro mult_right_mono) simp_all
  then have "?f \<le> 2 * ?S" using abs_le_D1 [OF 2] by simp
  then have "(5 * (u53 * ?n) + 2 * u53) * ?f \<le> (5 * (u53 * ?n) + 2 * u53) * (2 * ?S)"
    using un by (intro mult_left_mono) simp_all
  then have "\<bar>fsum xs - ?S\<bar> \<le> (12 * (u53 * ?n) + 4 * u53) * ?S" using 1 2 by (simp add: algebra_simps)
  also have "\<dots> \<le> (12 * u53 * of_nat (length xs)) * ?S"
    using S by (intro mult_right_mono) (simp_all add: Cons algebra_simps)
  finally show ?thesis by (simp add: Cons)
qed (simp add: fsum_def)

lemma is_float_fsum: "\<forall>x \<in> set xs. is_float x \<Longrightarrow> is_float (fsum xs)"
proof (cases xs)
  case (Cons x rest)
  have "is_float hi \<Longrightarrow> is_float (compensated_sum hi c ys)" for hi c ys
    by (induction ys arbitrary: hi c) (simp_all add: Let_def)
  then show "\<forall>x \<in> set xs. is_float x \<Longrightarrow> ?thesis" by (simp add: fsum_def Cons)
qed (simp add: fsum_def)

lemma fsum_positive:
  assumes "\<forall>x \<in> set xs. is_float x \<and> 0 \<le> x" and "length xs \<le> 2 ^ 40" and "0 < sum_list xs"
  shows "0 < fsum xs"
proof -
  have "12 * u53 * of_nat (length xs) \<le> (1 / 2 :: rat)"
  proof -
    have "(of_nat (length xs) :: rat) \<le> 2 ^ 40" using assms(2) by (metis of_nat_le_iff of_nat_numeral of_nat_power)
    then show ?thesis by (simp add: u53_def)
  qed
  then have "12 * u53 * of_nat (length xs) * sum_list xs \<le> 1 / 2 * sum_list xs"
    using assms(3) by (intro mult_right_mono) simp_all
  then show ?thesis using fsum_error [OF assms(1,2)] assms(3) by linarith
qed

section \<open>An instance of the power function\<close>

text \<open>A function that meets \<open>pow_ok\<close>, for concrete instances of the theorems that assume it.\<close>

definition flat_pow :: "float \<Rightarrow> float \<Rightarrow> float" where
  "flat_pow x y = (if y = 0 then 1 else fl (max 0 (min 1 x)))"

lemma flat_pow_ok: "pow_ok flat_pow"
  by (auto simp: pow_ok_def flat_pow_def fl.rnd_one fl.rnd_idem intro: fl.rnd_nonneg fl.rnd_le_one)

end
