(* ===== verification/EpisodeAverage.thy ===== *)
theory EpisodeAverage
  imports Prelude PyFloat
begin

text \<open>
  The standing (\<open>hope/scoring/episode_average.py\<close>): the age-weighted mean of a miner's scored
  entries inside the window, shrunk toward a prior, and the parameters in force on a day. A day
  argument that is None in the code is today's date; here it is the date itself. The C library's
  \<open>pow\<close> is the parameter \<open>powf\<close> (see \<open>PyFloat\<close>).

  Shown: the average never leaves the range of the scores, rounding included, entries outside the
  window have no influence, and the rule amendments cannot move a standing before their date.
\<close>

section \<open>Parameters in force\<close>

definition default_half_life_days :: float where "default_half_life_days = 12"
definition default_window_days :: int where "default_window_days = 35"

text \<open>\<open>int((environ.get(NAME) or "").strip())\<close> with a range test and a default.\<close>

definition int_env_or :: "environ \<Rightarrow> string \<Rightarrow> (int \<Rightarrow> bool) \<Rightarrow> int \<Rightarrow> int" where
  "int_env_or environ name ok d = (case py_int (env_raw environ name) of None \<Rightarrow> d | Some v \<Rightarrow> if ok v then v else d)"

definition float_env_or :: "environ \<Rightarrow> string \<Rightarrow> (float \<Rightarrow> bool) \<Rightarrow> float \<Rightarrow> float" where
  "float_env_or environ name ok d = (case py_float (env_raw environ name) of None \<Rightarrow> d | Some v \<Rightarrow> if ok v then v else d)"

definition window_from_env :: "environ \<Rightarrow> int" where
  "window_from_env environ = int_env_or environ ''SN21_STANDING_WINDOW_DAYS'' (\<lambda>v. 0 < v) default_window_days"

definition half_life_from_env :: "environ \<Rightarrow> float" where
  "half_life_from_env environ = float_env_or environ ''SN21_STANDING_HALF_LIFE_DAYS'' (\<lambda>v. 0 < v) default_half_life_days"

definition prior_mass_from_env :: "environ \<Rightarrow> float" where
  "prior_mass_from_env environ = float_env_or environ ''SN21_STANDING_PRIOR_MASS'' (\<lambda>v. 0 < v) 0"

definition amendment_in_force :: "environ \<Rightarrow> date \<Rightarrow> bool" where
  "amendment_in_force environ day \<longleftrightarrow>
     lower (env_raw environ ''SN21_STANDING_MODE'') = ''episode_relative'' \<and>
     (let raw = env_raw environ ''SN21_STANDING_EFFECTIVE_FROM''
      in raw = [] \<or> (case fromisoformat raw of None \<Rightarrow> True | Some start \<Rightarrow> start \<le> day))"

definition half_life_in_force :: "environ \<Rightarrow> date \<Rightarrow> float" where
  "half_life_in_force environ day =
     (if amendment_in_force environ day then half_life_from_env environ else default_half_life_days)"

definition settle_lag_days :: "environ \<Rightarrow> int" where
  "settle_lag_days environ = 1 + int_env_or environ ''SN21_OUTCOME_SETTLING_WINDOW_DAYS'' (\<lambda>v. 0 \<le> v) 2"

text \<open>An effective date that is blank or not a date counts as not set.\<close>

definition date_env :: "environ \<Rightarrow> string \<Rightarrow> date option" where
  "date_env environ name = (let raw = env_raw environ name in if raw = [] then None else fromisoformat raw)"

definition model_epoch_effective_from :: "environ \<Rightarrow> date option" where
  "model_epoch_effective_from environ = date_env environ ''SN21_STANDING_MODEL_EPOCH_EFFECTIVE_FROM''"

definition model_epoch_in_force :: "environ \<Rightarrow> date \<Rightarrow> bool" where
  "model_epoch_in_force environ day \<longleftrightarrow>
     amendment_in_force environ day \<and> flag_on environ ''SN21_STANDING_MODEL_EPOCH'' \<and>
     (case model_epoch_effective_from environ of None \<Rightarrow> True | Some start \<Rightarrow> start \<le> day)"

definition age_basis_effective_from :: "environ \<Rightarrow> date option" where
  "age_basis_effective_from environ = date_env environ ''SN21_STANDING_AGE_BASIS_EFFECTIVE_FROM''"

definition prediction_basis_in_force :: "environ \<Rightarrow> date \<Rightarrow> bool" where
  "prediction_basis_in_force environ day \<longleftrightarrow>
     amendment_in_force environ day \<and> lower (env_raw environ ''SN21_STANDING_AGE_BASIS'') = ''prediction_day'' \<and>
     (case age_basis_effective_from environ of None \<Rightarrow> True | Some start \<Rightarrow> start \<le> day)"

definition float_env :: "environ \<Rightarrow> string \<Rightarrow> float \<Rightarrow> float \<Rightarrow> float" where
  "float_env environ name d minimum = float_env_or environ name (\<lambda>v. minimum \<le> v) d"

definition previous_model_weight :: "environ \<Rightarrow> float" where
  "previous_model_weight environ =
     (let v = float_env environ ''SN21_PREVIOUS_MODEL_WEIGHT'' (1 / 4) 0
      in if 0 \<le> v \<and> v \<le> 1 then v else 1 / 4)"

definition previous_model_threshold :: "environ \<Rightarrow> float" where
  "previous_model_threshold environ = float_env environ ''SN21_PREVIOUS_MODEL_THRESHOLD'' 250 0"

definition ramp_counts_real_entries_only :: "environ \<Rightarrow> date \<Rightarrow> bool" where
  "ramp_counts_real_entries_only environ day \<longleftrightarrow>
     (let raw = env_raw environ ''SN21_RAMP_REAL_ENTRIES_FROM''
      in raw \<noteq> [] \<and> (case fromisoformat raw of None \<Rightarrow> False | Some start \<Rightarrow> start \<le> day))"

definition window_in_force :: "environ \<Rightarrow> date \<Rightarrow> int" where
  "window_in_force environ day =
     (if prediction_basis_in_force environ day
      then int_env_or environ ''SN21_STANDING_WINDOW_DAYS_V2'' (\<lambda>v. 0 < v) 42
      else if amendment_in_force environ day then window_from_env environ else default_window_days)"

definition prior_mass_in_force :: "environ \<Rightarrow> date \<Rightarrow> float" where
  "prior_mass_in_force environ day =
     (if prediction_basis_in_force environ day then float_env environ ''SN21_STANDING_PRIOR_MASS_V2'' 100 0
      else if amendment_in_force environ day then prior_mass_from_env environ else 0)"

text \<open>The cold-start floors, read from the environment of the process at import.\<close>

definition floor_from_env :: "environ \<Rightarrow> string \<Rightarrow> int \<Rightarrow> int" where
  "floor_from_env environ name d = int_env_or environ name (\<lambda>v. 0 < v) d"

definition placement_floor_predictions :: "environ \<Rightarrow> int" where
  "placement_floor_predictions environ = floor_from_env environ ''SN21_PLACEMENT_FLOOR_PREDICTIONS'' 250"

definition full_standing_predictions :: "environ \<Rightarrow> int" where
  "full_standing_predictions environ = floor_from_env environ ''SN21_FULL_STANDING_PREDICTIONS'' 1000"

section \<open>The average\<close>

record scored_episode =
  score :: float
  scored_on :: date
  weight :: float
  predicted_on :: "date option"
  discount :: "float option"
  aged_from :: "date option"
  penalty :: bool

definition plain_episode :: "float \<Rightarrow> date \<Rightarrow> scored_episode" where
  "plain_episode s d = \<lparr>score = s, scored_on = d, weight = 1, predicted_on = None, discount = Some 1,
     aged_from = None, penalty = False\<rparr>"

definition age_day :: "scored_episode \<Rightarrow> date" where
  "age_day ep = (case aged_from ep of None \<Rightarrow> scored_on ep | Some d \<Rightarrow> d)"

definition episode_weight :: "(float \<Rightarrow> float \<Rightarrow> float) \<Rightarrow> int \<Rightarrow> float \<Rightarrow> py_error + float" where
  "episode_weight powf age_days half_life_days =
     (if age_days < 0 then Inl ValueError
      else map_sum id (\<lambda>x. powf (1 / 2) x) (fdiv_checked (of_int age_days) half_life_days))"

text \<open>The three running totals of the loop: \<open>num\<close>, \<open>den\<close> and \<open>mass\<close>.\<close>

fun average_loop ::
    "(float \<Rightarrow> float \<Rightarrow> float) \<Rightarrow> date \<Rightarrow> float \<Rightarrow> int \<Rightarrow> float \<times> float \<times> float \<Rightarrow> scored_episode list
      \<Rightarrow> py_error + float \<times> float \<times> float" where
  "average_loop powf as_of hl window acc [] = Inr acc"
| "average_loop powf as_of hl window (num, den, mass) (ep # eps) =
     (let age = as_of - age_day ep
      in if age < 0 \<or> window < age then average_loop powf as_of hl window (num, den, mass) eps
         else case episode_weight powf age hl of
           Inl e \<Rightarrow> Inl e
         | Inr ew \<Rightarrow>
             (let w = fmul ew (weight ep);
                  d = (case discount ep of None \<Rightarrow> 1 | Some x \<Rightarrow> x)
              in average_loop powf as_of hl window
                   (fadd num (fmul (fmul w d) (score ep)), fadd den (fmul w d), fadd mass w) eps))"

definition default_to :: "'a option \<Rightarrow> 'a \<Rightarrow> 'a" where
  "default_to x d = (case x of None \<Rightarrow> d | Some v \<Rightarrow> v)"

definition episode_weighted_average ::
    "(float \<Rightarrow> float \<Rightarrow> float) \<Rightarrow> environ \<Rightarrow> scored_episode list \<Rightarrow> date \<Rightarrow> float option \<Rightarrow> int option \<Rightarrow> float option
      \<Rightarrow> float \<Rightarrow> py_error + float option" where
  "episode_weighted_average powf environ episodes as_of half_life_days window_days prior_mass prior_value =
     (let hl = default_to half_life_days (half_life_in_force environ as_of);
          prior = default_to prior_mass (prior_mass_in_force environ as_of);
          window = default_to window_days (window_in_force environ as_of)
      in case average_loop powf as_of hl window (0, 0, 0) episodes of
           Inl e \<Rightarrow> Inl e
         | Inr (num, den, mass) \<Rightarrow>
             if den \<le> 0 \<or> mass \<le> 0 then Inr None
             else
               let mean = fdiv num den
               in map_sum id Some
                    (fdiv_checked (fadd (fmul mean mass) (fmul prior prior_value)) (fadd mass prior)))"

definition in_window :: "date \<Rightarrow> int \<Rightarrow> scored_episode \<Rightarrow> bool" where
  "in_window as_of window ep \<longleftrightarrow> 0 \<le> as_of - age_day ep \<and> as_of - age_day ep \<le> window"

definition scored_prediction_count :: "environ \<Rightarrow> scored_episode list \<Rightarrow> date \<Rightarrow> int option \<Rightarrow> float" where
  "scored_prediction_count environ episodes as_of window_days =
     fsum (map weight (filter (in_window as_of (default_to window_days (window_in_force environ as_of))) episodes))"

record standing_view =
  average :: "float option"
  scored_predictions :: float
  placement_eligible :: bool
  full_standing :: bool

text \<open>\<open>environ\<close> is the process environment, both at import (the floors) and at the call.\<close>

definition standing ::
    "(float \<Rightarrow> float \<Rightarrow> float) \<Rightarrow> environ \<Rightarrow> scored_episode list \<Rightarrow> date \<Rightarrow> float option \<Rightarrow> int option \<Rightarrow> float option
      \<Rightarrow> float \<Rightarrow> py_error + standing_view" where
  "standing powf environ episodes as_of half_life_days window_days prior_mass prior_value =
     (let window = Some (default_to window_days (window_in_force environ as_of));
          n = scored_prediction_count environ episodes as_of window
      in map_sum id
           (\<lambda>avg. \<lparr>average = avg, scored_predictions = n,
              placement_eligible = (of_int (placement_floor_predictions environ) \<le> n),
              full_standing = (of_int (full_standing_predictions environ) \<le> n)\<rparr>)
           (episode_weighted_average powf environ episodes as_of half_life_days window prior_mass prior_value))"

section \<open>Facts\<close>

lemma py_float_is_float: "py_float s = Some v \<Longrightarrow> is_float v"
  by (auto simp: py_float_def is_float_fl Let_def split: prod.splits option.splits if_splits)

lemma float_env_or_ok:
  assumes "is_float d" and "Q d" and "\<And>v. ok v \<Longrightarrow> Q v"
  shows "is_float (float_env_or environ name ok d) \<and> Q (float_env_or environ name ok d)"
  using assms py_float_is_float by (auto simp: float_env_or_def split: option.splits)

lemma prior_mass_in_force_ok:
  "is_float (prior_mass_in_force environ day) \<and> 0 \<le> prior_mass_in_force environ day"
proof -
  have "is_float 100" using is_float_int [of 100] by simp
  then have "is_float (float_env environ n 100 0) \<and> 0 \<le> float_env environ n 100 0" for n
    unfolding float_env_def by (intro float_env_or_ok) simp_all
  moreover have "is_float (prior_mass_from_env environ) \<and> 0 \<le> prior_mass_from_env environ"
    unfolding prior_mass_from_env_def by (intro float_env_or_ok) simp_all
  ultimately show ?thesis by (simp add: prior_mass_in_force_def)
qed

lemma half_life_in_force_pos: "0 < half_life_in_force environ day"
proof -
  have "is_float 12" using is_float_int [of 12] by simp
  then have "0 < half_life_from_env environ"
    unfolding half_life_from_env_def default_half_life_days_def
    using float_env_or_ok [of 12 "\<lambda>v. 0 < v" "\<lambda>v. 0 < v"] by simp
  then show ?thesis by (simp add: half_life_in_force_def default_half_life_days_def)
qed

definition entry_ok :: "scored_episode \<Rightarrow> bool" where
  "entry_ok ep \<longleftrightarrow> is_float (score ep) \<and> \<bar>score ep\<bar> \<le> 1 \<and> is_float (weight ep) \<and> 0 \<le> weight ep \<and>
     (case discount ep of None \<Rightarrow> True | Some d \<Rightarrow> is_float d \<and> 0 \<le> d)"

text \<open>Bounds of the rounded operations the loop uses.\<close>

lemma fmul_bounded: "is_float w \<Longrightarrow> 0 \<le> w \<Longrightarrow> \<bar>s\<bar> \<le> 1 \<Longrightarrow> \<bar>fmul w s\<bar> \<le> w"
proof -
  assume w: "is_float w" "0 \<le> w" and s: "\<bar>s\<bar> \<le> 1"
  have "- w \<le> w * s \<and> w * s \<le> w"
    using mult_left_mono [of s 1 w] mult_left_mono [of "- 1" s w] w s by (simp add: abs_le_iff)
  moreover have "fl (- w) = - w" "fl w = w" using w by (simp_all add: is_float_def fl_minus)
  ultimately show ?thesis
    unfolding fmul_def abs_le_iff using fl_mono [of "w * s" w] fl_mono [of "- w" "w * s"] by linarith
qed

lemma fadd_bounded: "\<bar>x\<bar> \<le> a \<Longrightarrow> \<bar>y\<bar> \<le> b \<Longrightarrow> \<bar>fadd x y\<bar> \<le> fadd a b"
proof -
  assume "\<bar>x\<bar> \<le> a" "\<bar>y\<bar> \<le> b"
  then have "x + y \<le> a + b" "- (a + b) \<le> x + y" by (simp_all add: abs_le_iff)
  then have "fl (x + y) \<le> fl (a + b)" "fl (- (a + b)) \<le> fl (x + y)" using fl_mono by blast+
  then show ?thesis unfolding fadd_def abs_le_iff fl_minus by linarith
qed

lemma fadd_nonneg: "0 \<le> x \<Longrightarrow> 0 \<le> y \<Longrightarrow> 0 \<le> fadd x y"
  unfolding fadd_def by (intro fl.rnd_nonneg) simp

lemma fmul_nonneg: "0 \<le> x \<Longrightarrow> 0 \<le> y \<Longrightarrow> 0 \<le> fmul x y"
  unfolding fmul_def by (intro fl.rnd_nonneg) simp

lemma fdiv_bounded: "\<bar>x\<bar> \<le> y \<Longrightarrow> 0 < y \<Longrightarrow> \<bar>fdiv x y\<bar> \<le> 1"
proof -
  assume xy: "\<bar>x\<bar> \<le> y" "0 < y"
  then have "x / y \<le> 1" "- 1 \<le> x / y" by (simp_all add: abs_le_iff divide_le_eq_1 le_divide_eq)
  then have "fl (x / y) \<le> fl 1" "fl (- 1) \<le> fl (x / y)" using fl_mono by blast+
  then show ?thesis unfolding fdiv_def abs_le_iff fl_minus fl.rnd_one by linarith
qed

lemma episode_weight_ok:
  assumes "pow_ok powf" and "0 < hl" and "0 \<le> age"
  obtains w where "episode_weight powf age hl = Inr w" and "0 \<le> w" and "w \<le> 1" and "is_float w"
proof -
  have "0 \<le> fdiv (of_int age) hl" unfolding fdiv_def using assms by (intro fl.rnd_nonneg) simp
  then have "0 \<le> powf (1 / 2) (fdiv (of_int age) hl) \<and> powf (1 / 2) (fdiv (of_int age) hl) \<le> 1 \<and>
      is_float (powf (1 / 2) (fdiv (of_int age) hl))"
    using assms(1) by (simp add: pow_ok_def is_float_def)
  then show thesis using that assms by (simp add: episode_weight_def fdiv_checked_def)
qed

definition loop_ok :: "bool \<Rightarrow> float \<times> float \<times> float \<Rightarrow> bool" where
  "loop_ok nonneg acc = (case acc of (num, den, mass) \<Rightarrow>
     \<bar>num\<bar> \<le> den \<and> 0 \<le> den \<and> is_float mass \<and> 0 \<le> mass \<and> (nonneg \<longrightarrow> 0 \<le> num))"

lemma average_loop_ok:
  assumes "pow_ok powf" and "0 < hl"
  shows "\<forall>ep \<in> set eps. entry_ok ep \<and> (nonneg \<longrightarrow> 0 \<le> score ep) \<Longrightarrow> loop_ok nonneg acc \<Longrightarrow>
    \<exists>acc'. average_loop powf as_of hl window acc eps = Inr acc' \<and> loop_ok nonneg acc'"
proof (induction eps arbitrary: acc)
  case (Cons ep eps)
  obtain num den mass where acc: "acc = (num, den, mass)" by (cases acc) auto
  let ?age = "as_of - age_day ep"
  show ?case
  proof (cases "?age < 0 \<or> window < ?age")
    case True
    then show ?thesis using Cons by (simp add: acc)
  next
    case False
    then obtain ew where ew: "episode_weight powf ?age hl = Inr ew" "0 \<le> ew"
      using episode_weight_ok [OF assms, of ?age] by (metis not_less)
    let ?w = "fmul ew (weight ep)" and ?d = "case discount ep of None \<Rightarrow> 1 | Some x \<Rightarrow> x"
    have ep: "entry_ok ep" "nonneg \<longrightarrow> 0 \<le> score ep" using Cons.prems(1) by simp_all
    have d: "0 \<le> ?d" using ep by (auto simp: entry_ok_def split: option.splits)
    have w: "0 \<le> ?w" using ep ew by (intro fmul_nonneg) (simp_all add: entry_ok_def)
    have wd: "0 \<le> fmul ?w ?d" using w d by (rule fmul_nonneg)
    have "\<bar>fmul (fmul ?w ?d) (score ep)\<bar> \<le> fmul ?w ?d"
      using ep wd by (intro fmul_bounded) (simp_all add: entry_ok_def)
    then have "loop_ok nonneg (fadd num (fmul (fmul ?w ?d) (score ep)), fadd den (fmul ?w ?d), fadd mass ?w)"
      using Cons.prems(2) ep wd w
      by (auto simp: loop_ok_def acc intro: fadd_bounded fadd_nonneg fmul_nonneg)
    then show ?thesis using Cons.IH Cons.prems(1) False ew by (simp add: acc Let_def)
  qed
qed simp

lemma average_loop_window:
  "average_loop powf as_of hl window acc eps =
     average_loop powf as_of hl window acc (filter (in_window as_of window) eps)"
proof (induction eps arbitrary: acc)
  case (Cons ep eps)
  obtain num den mass where acc: "acc = (num, den, mass)" by (cases acc) auto
  show ?case using Cons by (auto simp: acc in_window_def Let_def not_le split: sum.splits)
qed simp

section \<open>Properties\<close>

text \<open>C21. A standing stays in the range of the scores, rounding included: if every score is in [-1, 1]
  (weights and discounts non-negative, prior value in [-1, 1]), the average is absent or in
  [-1, 1], and it is not negative when no score is. It never raises under the parameters in force.\<close>

theorem ea_average_in_range:
  assumes "pow_ok powf" and "\<forall>ep \<in> set episodes. entry_ok ep" and "\<bar>prior_value\<bar> \<le> 1"
  shows "\<exists>r. episode_weighted_average powf environ episodes as_of None None None prior_value = Inr r \<and>
    (\<forall>a. r = Some a \<longrightarrow> - 1 \<le> a \<and> a \<le> 1 \<and>
       ((\<forall>ep \<in> set episodes. 0 \<le> score ep) \<and> 0 \<le> prior_value \<longrightarrow> 0 \<le> a))"
proof -
  let ?hl = "half_life_in_force environ as_of" and ?prior = "prior_mass_in_force environ as_of"
  let ?nn = "(\<forall>ep \<in> set episodes. 0 \<le> score ep) \<and> 0 \<le> prior_value"
  have "loop_ok ?nn (0, 0, 0)" by (simp add: loop_ok_def)
  then obtain num den mass where
    loop: "average_loop powf as_of ?hl (window_in_force environ as_of) (0, 0, 0) episodes = Inr (num, den, mass)"
    and ok: "loop_ok ?nn (num, den, mass)"
    using average_loop_ok [OF assms(1) half_life_in_force_pos [of environ as_of], of episodes ?nn] assms(2) by fastforce
  show ?thesis
  proof (cases "den \<le> 0 \<or> mass \<le> 0")
    case True
    then show ?thesis using loop by (simp add: episode_weighted_average_def default_to_def)
  next
    case False
    have prior: "is_float ?prior" "0 \<le> ?prior" using prior_mass_in_force_ok [of environ as_of] by simp_all
    let ?mean = "fdiv num den"
    let ?N = "fadd (fmul ?mean mass) (fmul ?prior prior_value)" and ?D = "fadd mass ?prior"
    have "\<bar>?mean\<bar> \<le> 1" using ok False by (intro fdiv_bounded) (simp_all add: loop_ok_def)
    then have "\<bar>fmul mass ?mean\<bar> \<le> mass" using ok by (intro fmul_bounded) (simp_all add: loop_ok_def)
    then have m: "\<bar>fmul ?mean mass\<bar> \<le> mass" by (simp add: fmul_def mult.commute)
    have "\<bar>fmul ?prior prior_value\<bar> \<le> ?prior" using prior assms(3) by (intro fmul_bounded)
    with m have N: "\<bar>?N\<bar> \<le> ?D" by (rule fadd_bounded)
    have D: "0 < ?D" using fadd_ge [of mass ?prior] ok prior False by (simp add: loop_ok_def)
    have "\<bar>fdiv ?N ?D\<bar> \<le> 1" using N D by (rule fdiv_bounded)
    moreover have "0 \<le> fdiv ?N ?D" if ?nn
    proof -
      have "0 \<le> ?mean" unfolding fdiv_def using ok that False
        by (intro fl.rnd_nonneg) (simp add: loop_ok_def)
      then have "0 \<le> ?N" using that ok prior
        by (intro fadd_nonneg fmul_nonneg) (simp_all add: loop_ok_def)
      then show ?thesis unfolding fdiv_def using D by (intro fl.rnd_nonneg) simp
    qed
    ultimately show ?thesis using loop False D
      by (simp add: episode_weighted_average_def default_to_def fdiv_checked_def abs_le_iff Let_def)
  qed
qed

lemma ea_average_in_range_witness:
  "\<exists>r. episode_weighted_average flat_pow (\<lambda>_. None) [plain_episode 1 10] 10 None None None 0 = Inr r \<and>
    (\<forall>a. r = Some a \<longrightarrow> - 1 \<le> a \<and> a \<le> 1)"
  using ea_average_in_range [OF flat_pow_ok, of "[plain_episode 1 10]" 0 "\<lambda>_. None" 10]
  by (auto simp: entry_ok_def plain_episode_def)

text \<open>No amendment moves a standing early: before the date the relative standing takes effect, the
  average is the one of an environment in which nothing is configured.\<close>

theorem ea_amendment_dated:
  assumes "fromisoformat (env_raw environ ''SN21_STANDING_EFFECTIVE_FROM'') = Some start" and "as_of < start"
  shows "episode_weighted_average powf environ episodes as_of None None None prior_value =
    episode_weighted_average powf (\<lambda>_. None) episodes as_of None None None prior_value"
proof -
  have blank: "env_raw (\<lambda>_. None) name = []" for name by (simp add: env_raw_def strip_def)
  have "env_raw environ ''SN21_STANDING_EFFECTIVE_FROM'' \<noteq> []"
    using assms(1) by (auto simp: fromisoformat_def)
  then have off: "\<not> amendment_in_force environ as_of"
    using assms by (simp add: amendment_in_force_def Let_def)
  have "\<not> amendment_in_force (\<lambda>_. None) as_of"
    by (simp add: amendment_in_force_def blank lower_def)
  with off have "half_life_in_force environ as_of = half_life_in_force (\<lambda>_. None) as_of"
    "window_in_force environ as_of = window_in_force (\<lambda>_. None) as_of"
    "prior_mass_in_force environ as_of = prior_mass_in_force (\<lambda>_. None) as_of"
    by (simp_all add: half_life_in_force_def window_in_force_def prior_mass_in_force_def prediction_basis_in_force_def)
  then show ?thesis by (simp add: episode_weighted_average_def)
qed

definition announced :: environ where
  "announced name = (if name = ''SN21_STANDING_MODE'' then Some ''episode_relative''
     else if name = ''SN21_STANDING_EFFECTIVE_FROM'' then Some ''2026-09-04''
     else if name = ''SN21_STANDING_HALF_LIFE_DAYS'' then Some ''7'' else None)"

lemma ea_amendment_dated_witness:
  "episode_weighted_average flat_pow announced [plain_episode (1/2) 10] (mk_date 2026 9 3) None None None 0 =
    episode_weighted_average flat_pow (\<lambda>_. None) [plain_episode (1/2) 10] (mk_date 2026 9 3) None None None 0"
proof -
  have "fromisoformat (env_raw announced ''SN21_STANDING_EFFECTIVE_FROM'') = Some (mk_date 2026 9 4)"
    "mk_date 2026 9 3 < mk_date 2026 9 4" by code_simp+
  then show ?thesis by (rule ea_amendment_dated)
qed

end
