(* ===== verification/PyJson.thy ===== *)
theory PyJson
  imports PyFloat
begin

text \<open>
  Documents and days as text. A JSON document is a value of the datatype \<open>json\<close>: writing it with
  \<open>json.dumps\<close> and reading it back is the identity, so a file holds the value itself (numbers as the
  rationals they denote; the text of a number and the difference between \<open>1\<close> and \<open>1.0\<close> are not
  modelled). A day is written with \<open>str(day)\<close>; reading it back with \<open>date.fromisoformat\<close> gives the
  day (lemma \<open>fromisoformat_isoformat\<close>).
\<close>

section \<open>JSON values\<close>

datatype json = JNull | JBool bool | JNum rat | JStr string | JList "json list" | JDict "(string \<times> json) list"

text \<open>The truth value of a loaded document, \<open>bool(x)\<close>.\<close>

definition truthy :: "json \<Rightarrow> bool" where
  "truthy j = (case j of JNull \<Rightarrow> False | JBool b \<Rightarrow> b | JNum x \<Rightarrow> x \<noteq> 0 | JStr s \<Rightarrow> s \<noteq> []
     | JList xs \<Rightarrow> xs \<noteq> [] | JDict d \<Rightarrow> d \<noteq> [])"

text \<open>\<open>rec.get(key)\<close> of a document that is an object; \<open>JNull\<close> is Python's \<open>None\<close>.\<close>

definition json_fields :: "json \<Rightarrow> (string, json) dict" where
  "json_fields j = (case j of JDict d \<Rightarrow> d | _ \<Rightarrow> [])"

definition jget :: "json \<Rightarrow> string \<Rightarrow> json" where
  "jget j k = (case map_of (json_fields j) k of None \<Rightarrow> JNull | Some v \<Rightarrow> v)"

lemma jget_JDict: "jget (JDict d) k = (case map_of d k of None \<Rightarrow> JNull | Some v \<Rightarrow> v)"
  by (simp add: jget_def json_fields_def)

definition jnat :: "nat \<Rightarrow> json" where "jnat n = JNum (of_nat n)"
definition jint :: "int \<Rightarrow> json" where "jint n = JNum (of_int n)"
definition jopt :: "('a \<Rightarrow> json) \<Rightarrow> 'a option \<Rightarrow> json" where
  "jopt f x = (case x of None \<Rightarrow> JNull | Some y \<Rightarrow> f y)"

definition jstrs :: "string list \<Rightarrow> json" where "jstrs xs = JList (map JStr xs)"

text \<open>Readers of loaded values: \<open>float(x)\<close>, \<open>int(x)\<close>, a string or nothing.\<close>

definition num_of :: "json \<Rightarrow> py_error + float" where
  "num_of j = (case j of JNum x \<Rightarrow> Inr x | JBool b \<Rightarrow> Inr (if b then 1 else 0)
     | JStr s \<Rightarrow> (case py_float s of None \<Rightarrow> Inl ValueError | Some x \<Rightarrow> Inr x) | _ \<Rightarrow> Inl TypeError)"

definition int_of :: "json \<Rightarrow> py_error + int" where
  "int_of j = (case j of JNum x \<Rightarrow> Inr (if 0 \<le> x then \<lfloor>x\<rfloor> else \<lceil>x\<rceil>) | JBool b \<Rightarrow> Inr (if b then 1 else 0)
     | JStr s \<Rightarrow> (case py_int s of None \<Rightarrow> Inl ValueError | Some n \<Rightarrow> Inr n) | _ \<Rightarrow> Inl TypeError)"

definition opt_string :: "json \<Rightarrow> string option" where
  "opt_string j = (case j of JStr s \<Rightarrow> Some s | _ \<Rightarrow> None)"

text \<open>\<open>int(x or 0)\<close>.\<close>

definition int_or_zero :: "json \<Rightarrow> py_error + int" where
  "int_or_zero j = (if truthy j then int_of j else Inr 0)"

section \<open>Calls that raise\<close>

text \<open>A call whose result the rest of the function reads; the rest is skipped when it raises.\<close>

definition and_then :: "'exn + 'r \<Rightarrow> ('r \<Rightarrow> 'exn + 's) \<Rightarrow> 'exn + 's" where
  "and_then call rest = case_sum Inl rest call"

lemma and_then_Inr: "and_then call rest = Inr s \<longleftrightarrow> (\<exists>r. call = Inr r \<and> rest r = Inr s)"
  by (cases call) (auto simp: and_then_def)

lemma and_then_simps [simp]: "and_then (Inr r) rest = rest r" "and_then (Inl e) rest = Inl e"
  by (simp_all add: and_then_def)

fun fold_sum :: "('s \<Rightarrow> 'a \<Rightarrow> 'e + 's) \<Rightarrow> 's \<Rightarrow> 'a list \<Rightarrow> 'e + 's" where
  "fold_sum f s [] = Inr s"
| "fold_sum f s (x # xs) = (case f s x of Inl e \<Rightarrow> Inl e | Inr s' \<Rightarrow> fold_sum f s' xs)"

lemma fold_sum_append: "fold_sum f s (xs @ ys) = (case fold_sum f s xs of Inl e \<Rightarrow> Inl e | Inr s' \<Rightarrow> fold_sum f s' ys)"
  by (induction xs arbitrary: s) (auto split: sum.splits)

section \<open>The calendar day of an ordinal\<close>

definition year_of :: "int \<Rightarrow> int" where
  "year_of n =
     (let r0 = n - 1; a = r0 div 146097; r1 = r0 mod 146097;
          b = min 3 (r1 div 36524); r2 = r1 - b * 36524;
          c = r2 div 1461; r3 = r2 mod 1461; e = min 3 (r3 div 365)
      in 400 * a + 100 * b + 4 * c + e + 1)"

definition month_of :: "int \<Rightarrow> int \<Rightarrow> int" where
  "month_of y r = the (find (\<lambda>m. r < days_before_month y (m + 1)) [1..12])"

definition digit_char :: "int \<Rightarrow> char" where
  "digit_char k = char_of (48 + nat k)"

definition two_digits :: "int \<Rightarrow> string" where
  "two_digits n = [digit_char (n div 10), digit_char (n mod 10)]"

definition four_digits :: "int \<Rightarrow> string" where
  "four_digits n = [digit_char (n div 1000), digit_char (n div 100 mod 10), digit_char (n div 10 mod 10), digit_char (n mod 10)]"

text \<open>\<open>str(day)\<close>, \<open>day.isoformat()\<close>.\<close>

definition isoformat :: "date \<Rightarrow> string" where
  "isoformat n =
     (let y = year_of n; r = n - 1 - days_before_year y; m = month_of y r; d = r - days_before_month y m + 1
      in four_digits y @ ''-'' @ two_digits m @ ''-'' @ two_digits d)"

text \<open>The days a \<open>date\<close> can hold, 1 January of year 1 to 31 December 9999.\<close>

definition valid_day :: "date \<Rightarrow> bool" where
  "valid_day n \<longleftrightarrow> 1 \<le> n \<and> n \<le> 3652059"

section \<open>Writing a day and reading it back\<close>

lemma quarter:
  fixes r k :: int
  assumes "0 \<le> r" "r \<le> 4 * k" "0 < k"
  defines "b \<equiv> min 3 (r div k)"
  shows "0 \<le> b" "b \<le> 3" "0 \<le> r - b * k" "r - b * k \<le> k" "r - b * k = k \<longrightarrow> b = 3 \<and> r = 4 * k"
proof -
  define q m where "q = r div k" and "m = r mod k"
  have r: "r = k * q + m" "0 \<le> m" "m < k" "0 \<le> q" using assms(1,3) by (simp_all add: q_def m_def pos_imp_zdiv_nonneg_iff)
  have "q \<le> 3 \<or> q = 4 \<and> m = 0"
  proof (cases "q \<le> 3")
    case False
    then have "k * 4 \<le> k * q" using assms(3) by (intro mult_left_mono) simp_all
    then have "k * q = k * 4" "m = 0" using r(1,2) assms(2) by linarith+
    then show ?thesis using assms(3) by simp
  qed simp
  then consider "b = q" "q \<le> 3" | "b = 3" "q = 4" "m = 0" unfolding b_def q_def [symmetric] by fastforce
  then have "0 \<le> b \<and> b \<le> 3 \<and> 0 \<le> r - b * k \<and> r - b * k \<le> k \<and> (r - b * k = k \<longrightarrow> b = 3 \<and> r = 4 * k)"
  proof cases
    case 1
    then show ?thesis using r by (simp add: algebra_simps)
  next
    case 2
    then show ?thesis using r assms(3) by simp
  qed
  then show "0 \<le> b" "b \<le> 3" "0 \<le> r - b * k" "r - b * k \<le> k" "r - b * k = k \<longrightarrow> b = 3 \<and> r = 4 * k" by blast+
qed

lemma mod_full: "(1::int) \<le> v \<Longrightarrow> v \<le> m \<Longrightarrow> v mod m = 0 \<longleftrightarrow> v = m"
  by (cases "v = m") simp_all

lemma days_before_year_parts:
  fixes a b c e :: int
  assumes "0 \<le> b" "b \<le> 3" "0 \<le> c" "c \<le> 24" "0 \<le> e" "e \<le> 3"
  shows "days_before_year (400 * a + 100 * b + 4 * c + e + 1) = 146097 * a + 36524 * b + 1461 * c + 365 * e"
proof -
  let ?p = "400 * a + 100 * b + 4 * c + e"
  have "?p div 400 = a" using assms by (intro int_div_pos_eq [where r = "100 * b + 4 * c + e"]) simp_all
  moreover have "?p div 100 = 4 * a + b" using assms by (intro int_div_pos_eq [where r = "4 * c + e"]) simp_all
  moreover have "?p div 4 = 100 * a + 25 * b + c" using assms by (intro int_div_pos_eq [where r = e]) simp_all
  ultimately show ?thesis by (simp add: days_before_year_def)
qed

lemma is_leap_parts:
  fixes a b c e :: int
  assumes "0 \<le> b" "b \<le> 3" "0 \<le> c" "c \<le> 24" "0 \<le> e" "e \<le> 3"
  shows "is_leap (400 * a + 100 * b + 4 * c + e + 1) \<longleftrightarrow> e = 3 \<and> (c = 24 \<longrightarrow> b = 3)"
proof -
  let ?y = "400 * a + 100 * b + 4 * c + e + 1"
  have "?y mod 4 = (e + 1) mod 4" using mod_mult_self4 [of 4 "100 * a + 25 * b + c" "e + 1"] by (simp add: algebra_simps)
  moreover have "(e + 1) mod 4 = 0 \<longleftrightarrow> e + 1 = 4" using assms(5,6) by (intro mod_full) simp_all
  ultimately have 4: "?y mod 4 = 0 \<longleftrightarrow> e = 3" using assms(5,6) by auto
  have "?y mod 100 = (4 * c + e + 1) mod 100" using mod_mult_self4 [of 100 "4 * a + b" "4 * c + e + 1"]
    by (simp add: algebra_simps)
  moreover have "(4 * c + e + 1) mod 100 = 0 \<longleftrightarrow> 4 * c + e + 1 = 100" using assms(3-6) by (intro mod_full) simp_all
  moreover have "4 * c + e + 1 = 100 \<longleftrightarrow> c = 24 \<and> e = 3" using assms(3-6) by arith
  ultimately have 100: "?y mod 100 = 0 \<longleftrightarrow> c = 24 \<and> e = 3" by (simp only:)
  have "?y mod 400 = (100 * b + 4 * c + e + 1) mod 400" using mod_mult_self4 [of 400 a "100 * b + 4 * c + e + 1"]
    by (simp add: algebra_simps)
  moreover have "(100 * b + 4 * c + e + 1) mod 400 = 0 \<longleftrightarrow> 100 * b + 4 * c + e + 1 = 400"
    using assms by (intro mod_full) simp_all
  moreover have "100 * b + 4 * c + e + 1 = 400 \<longleftrightarrow> b = 3 \<and> c = 24 \<and> e = 3" using assms by arith
  ultimately have 400: "?y mod 400 = 0 \<longleftrightarrow> b = 3 \<and> c = 24 \<and> e = 3" by (simp only:)
  show ?thesis unfolding is_leap_def 4 100 400 by blast
qed

text \<open>The digits of an ordinal in the cycles of 400, 100, 4 and 1 years.\<close>

lemma year_of_parts:
  assumes "1 \<le> n"
  obtains a b c e r where "n - 1 = 146097 * a + 36524 * b + 1461 * c + 365 * e + r" "0 \<le> a" "0 \<le> b" "b \<le> 3"
    "0 \<le> c" "c \<le> 24" "0 \<le> e" "e \<le> 3" "0 \<le> r" "r \<le> 365" "r = 365 \<longrightarrow> e = 3 \<and> (c = 24 \<longrightarrow> b = 3)"
    "year_of n = 400 * a + 100 * b + 4 * c + e + 1"
proof -
  define r0 a r1 b r2 c r3 e where d: "r0 = n - 1" "a = r0 div 146097" "r1 = r0 mod 146097"
    "b = min 3 (r1 div 36524)" "r2 = r1 - b * 36524" "c = r2 div 1461" "r3 = r2 mod 1461" "e = min 3 (r3 div 365)"
  have y: "year_of n = 400 * a + 100 * b + 4 * c + e + 1" unfolding year_of_def Let_def d by simp
  have r0: "r0 = 146097 * a + r1" "0 \<le> r1" "r1 < 146097" unfolding d(2,3)
    by (rule mult_div_mod_eq [symmetric], rule pos_mod_sign, simp, rule pos_mod_bound, simp)
  have a: "0 \<le> a" using assms unfolding d(2) by (simp add: d(1) pos_imp_zdiv_nonneg_iff)
  have "0 \<le> b" "b \<le> 3" "0 \<le> r2" "r2 \<le> 36524" "r2 = 36524 \<longrightarrow> b = 3 \<and> r1 = 4 * 36524"
    unfolding d(5,4) by (rule quarter; use r0(2,3) in simp)+
  note b = this
  have c: "r2 = 1461 * c + r3" "0 \<le> r3" "r3 < 1461" unfolding d(6,7)
    by (rule mult_div_mod_eq [symmetric], rule pos_mod_sign, simp, rule pos_mod_bound, simp)
  have c0: "0 \<le> c" using b(3) unfolding d(6) by (simp add: pos_imp_zdiv_nonneg_iff)
  have c24: "c \<le> 24" using c c0 b(4) by linarith
  have "0 \<le> e" "e \<le> 3" "0 \<le> r3 - e * 365" "r3 - e * 365 \<le> 365" "r3 - e * 365 = 365 \<longrightarrow> e = 3 \<and> r3 = 4 * 365"
    unfolding d(8) by (rule quarter; use c(2,3) in simp)+
  note e = this
  have "r3 - e * 365 = 365 \<longrightarrow> e = 3 \<and> (c = 24 \<longrightarrow> b = 3)" using e(5) c(1) b(4,5) by auto
  moreover have "n - 1 = 146097 * a + 36524 * b + 1461 * c + 365 * e + (r3 - e * 365)"
    using r0(1) c(1) d(1,5) by simp
  ultimately show ?thesis using a b(1,2) c0 c24 e(1-4) y by (intro that)
qed

lemma year_of_bounds:
  assumes "1 \<le> n"
  shows "days_before_year (year_of n) < n \<and> n - 1 - days_before_year (year_of n) < (if is_leap (year_of n) then 366 else 365)"
proof -
  obtain a b c e r where p: "n - 1 = 146097 * a + 36524 * b + 1461 * c + 365 * e + r" "0 \<le> a" "0 \<le> b" "b \<le> 3"
    "0 \<le> c" "c \<le> 24" "0 \<le> e" "e \<le> 3" "0 \<le> r" "r \<le> 365" "r = 365 \<longrightarrow> e = 3 \<and> (c = 24 \<longrightarrow> b = 3)"
    "year_of n = 400 * a + 100 * b + 4 * c + e + 1" using year_of_parts [OF assms] .
  have "n - 1 - days_before_year (year_of n) = r"
    unfolding p(12) days_before_year_parts [OF p(3-8)] using p(1) by simp
  moreover have "is_leap (year_of n) \<longleftrightarrow> e = 3 \<and> (c = 24 \<longrightarrow> b = 3)"
    unfolding p(12) by (rule is_leap_parts [OF p(3-8)])
  ultimately show ?thesis using p(9-11) by auto
qed

lemma year_of_range:
  assumes "valid_day n"
  shows "1 \<le> year_of n" "year_of n \<le> 9999"
proof -
  have "1 \<le> n" using assms by (simp add: valid_day_def)
  obtain a b c e r where p: "n - 1 = 146097 * a + 36524 * b + 1461 * c + 365 * e + r" "0 \<le> a" "0 \<le> b" "b \<le> 3"
    "0 \<le> c" "c \<le> 24" "0 \<le> e" "e \<le> 3" "0 \<le> r" "r \<le> 365" "r = 365 \<longrightarrow> e = 3 \<and> (c = 24 \<longrightarrow> b = 3)"
    "year_of n = 400 * a + 100 * b + 4 * c + e + 1" using year_of_parts [OF \<open>1 \<le> n\<close>] .
  show "1 \<le> year_of n" using p by linarith
  show "year_of n \<le> 9999"
  proof (rule ccontr)
    assume y: "\<not> year_of n \<le> 9999"
    have "n - 1 \<le> 3652058" using assms by (simp add: valid_day_def)
    then show False using p y by linarith
  qed
qed


text \<open>The month: the table of a common and of a leap year.\<close>

lemma days_before_month_next: "1 \<le> m \<Longrightarrow> days_before_month y (m + 1) = days_before_month y m + days_in_month y m"
  by (simp add: days_before_month_def upto_rec2)

lemma year_length: "days_before_month y 13 = (if is_leap y then 366 else 365)"
proof -
  have "[1..12] = [1, 2, 3, 4, 5, 6, 7, 8, 9, 10, 11, 12::int]" by (simp add: upto.simps)
  then show ?thesis by (simp add: days_before_month_def days_in_month_def)
qed

lemma month_of_bounds:
  assumes "0 \<le> r" "r < (if is_leap y then 366 else 365)"
  shows "1 \<le> month_of y r" "month_of y r \<le> 12" "days_before_month y (month_of y r) \<le> r"
    "r - days_before_month y (month_of y r) < days_in_month y (month_of y r)"
proof -
  let ?P = "\<lambda>m. r < days_before_month y (m + 1)"
  have "?P 12" using assms(2) year_length [of y] by simp
  moreover have "12 \<in> set [1..12::int]" by simp
  ultimately have "find ?P [1..12] \<noteq> None" unfolding find_None_iff by blast
  then obtain m where m: "find ?P [1..12] = Some m" by blast
  then obtain i where i: "i < length [1..12::int]" "?P ([1..12] ! i)" "m = [1..12] ! i" "\<forall>j < i. \<not> ?P ([1..12] ! j)"
    unfolding find_Some_iff by blast
  have mi: "m = 1 + int i" "i < 12" using i(1,3) by (simp_all add: nth_upto)
  have low: "days_before_month y m \<le> r"
  proof (cases i)
    case 0
    then show ?thesis using mi assms(1) by (simp add: days_before_month_def)
  next
    case (Suc j)
    then have "\<not> ?P ([1..12] ! j)" using i(4) by blast
    then show ?thesis using Suc mi by (simp add: nth_upto)
  qed
  have "month_of y r = m" using m by (simp add: month_of_def)
  moreover have "r - days_before_month y m < days_in_month y m"
    using i(2,3) days_before_month_next [of m y] mi(1) by simp
  ultimately show "1 \<le> month_of y r" "month_of y r \<le> 12" "days_before_month y (month_of y r) \<le> r"
    "r - days_before_month y (month_of y r) < days_in_month y (month_of y r)" using mi low by simp_all
qed

lemma digit_char_ok: "0 \<le> k \<Longrightarrow> k \<le> 9 \<Longrightarrow> is_digit (digit_char k) \<and> digit_val (digit_char k) = k"
  by (simp add: is_digit_def digit_val_def digit_char_def)

lemma read_digits:
  assumes "0 \<le> a" "a \<le> 9" "0 \<le> b" "b \<le> 9"
  shows "list_all is_digit [digit_char a, digit_char b]" "digits_from [digit_char a, digit_char b] 0 False = Some (a * 10 + b)"
    and "0 \<le> c \<Longrightarrow> c \<le> 9 \<Longrightarrow> 0 \<le> d \<Longrightarrow> d \<le> 9 \<Longrightarrow>
      list_all is_digit [digit_char a, digit_char b, digit_char c, digit_char d]"
    and "0 \<le> c \<Longrightarrow> c \<le> 9 \<Longrightarrow> 0 \<le> d \<Longrightarrow> d \<le> 9 \<Longrightarrow>
      digits_from [digit_char a, digit_char b, digit_char c, digit_char d] 0 False = Some (((a * 10 + b) * 10 + c) * 10 + d)"
  using digit_char_ok [of a] digit_char_ok [of b] digit_char_ok [of c] digit_char_ok [of d] assms by simp_all

lemma digit_range: "(0::int) \<le> n mod 10" "n mod 10 \<le> 9" "0 \<le> n \<Longrightarrow> 0 \<le> n div k" if "0 < k" for n k :: int
  using pos_mod_bound [of 10 n] that by (simp_all add: pos_imp_zdiv_nonneg_iff)

lemma read_two:
  assumes "0 \<le> n" "n \<le> 99"
  shows "list_all is_digit (two_digits n)" "digits_from (two_digits n) 0 False = Some n"
proof -
  have "0 \<le> n div 10" "n div 10 \<le> 9" using assms by simp_all
  note r = read_digits(1,2) [OF this digit_range(1,2) [of 1 n]]
  show "list_all is_digit (two_digits n)" "digits_from (two_digits n) 0 False = Some n"
    unfolding two_digits_def using r by (simp_all only: div_mult_mod_eq zero_less_one simp_thms)
qed

lemma read_four:
  assumes "0 \<le> n" "n \<le> 9999"
  shows "list_all is_digit (four_digits n)" "digits_from (four_digits n) 0 False = Some n"
proof -
  have "0 \<le> n div 1000" "n div 1000 \<le> 9" using assms by simp_all
  note r = read_digits(3,4) [OF this digit_range(1,2) [of 1 "n div 100"] digit_range(1,2) [of 1 "n div 10"] digit_range(1,2) [of 1 n],
    OF zero_less_one zero_less_one zero_less_one zero_less_one zero_less_one zero_less_one]
  have "n div 10 div 10 = n div (10 * 10)" "n div 100 div 10 = n div (100 * 10)" by (rule zdiv_zmult2_eq [symmetric], simp)+
  then have t: "n div 10 div 10 = n div 100" "n div 100 div 10 = n div 1000" by simp_all
  have "n div 10 * 10 + n mod 10 = n" "n div 10 div 10 * 10 + n div 10 mod 10 = n div 10"
    "n div 100 div 10 * 10 + n div 100 mod 10 = n div 100" by (rule div_mult_mod_eq)+
  note e = this [unfolded t]
  show "list_all is_digit (four_digits n)" "digits_from (four_digits n) 0 False = Some n"
    unfolding four_digits_def using r by (simp_all only: e)
qed

theorem fromisoformat_isoformat:
  assumes "valid_day n"
  shows "fromisoformat (isoformat n) = Some n"
proof -
  define y r m d where p: "y = year_of n" "r = n - 1 - days_before_year y" "m = month_of y r" "d = r - days_before_month y m + 1"
  have "0 \<le> r" "r < (if is_leap y then 366 else 365)"
    using year_of_bounds [of n] assms unfolding p(1,2) by (simp_all add: valid_day_def)
  note m = month_of_bounds [OF this, folded p(3)]
  have dim: "days_in_month y m \<le> 31" by (simp add: days_in_month_def)
  have d: "1 \<le> d" "d \<le> days_in_month y m" using m(3,4) by (simp_all add: p(4))
  have y: "0 \<le> y" "y \<le> 9999" "1 \<le> y" using year_of_range [OF assms] by (simp_all add: p(1))
  have iso: "isoformat n = four_digits y @ ''-'' @ two_digits m @ ''-'' @ two_digits d"
    by (simp add: isoformat_def Let_def p)
  have parts: "length (isoformat n) = 10" "isoformat n ! 4 = CHR ''-''" "isoformat n ! 7 = CHR ''-''"
    "take 4 (isoformat n) = four_digits y" "take 2 (drop 5 (isoformat n)) = two_digits m" "drop 8 (isoformat n) = two_digits d"
    unfolding iso by (simp_all add: four_digits_def two_digits_def)
  have "0 \<le> m" "m \<le> 99" "0 \<le> d" "d \<le> 99" using m(1,2) d dim by linarith+
  note rd = read_four [OF y(1,2)] read_two [OF this(1,2)] read_two [OF this(3,4)]
  have "mk_date y m d = n" by (simp add: mk_date_def p(4)) (simp add: p(2))
  then show ?thesis unfolding fromisoformat_def parts using rd y(3) m(1,2) d by simp
qed

lemma isoformat_nonempty: "isoformat n \<noteq> []"
  by (simp add: isoformat_def Let_def four_digits_def)

lemma isoformat_inj: "valid_day m \<Longrightarrow> valid_day n \<Longrightarrow> isoformat m = isoformat n \<longleftrightarrow> m = n"
  using fromisoformat_isoformat by (metis option.inject)



section \<open>The order of days is the order of their names\<close>

lemma lex_append:
  fixes a b c d :: string
  assumes "length a = length b"
  shows "a @ c \<le> b @ d \<longleftrightarrow> a < b \<or> a = b \<and> c \<le> d"
  using assms by (induction a b rule: list_induct2) auto

lemma lex_append_less:
  fixes a b c d :: string
  assumes "length a = length b"
  shows "a @ c < b @ d \<longleftrightarrow> a < b \<or> a = b \<and> c < d"
  using assms by (induction a b rule: list_induct2) auto

lemma digit_char_less: "0 \<le> i \<Longrightarrow> i \<le> 9 \<Longrightarrow> 0 \<le> j \<Longrightarrow> j \<le> 9 \<Longrightarrow> digit_char i < digit_char j \<longleftrightarrow> i < j"
  by (auto simp add: digit_char_def less_char_def of_char_of nat_less_iff)

lemma digit_char_eq: "0 \<le> i \<Longrightarrow> i \<le> 9 \<Longrightarrow> 0 \<le> j \<Longrightarrow> j \<le> 9 \<Longrightarrow> digit_char i = digit_char j \<longleftrightarrow> i = j"
  by (metis digit_char_less less_irrefl linorder_neqE)

lemma digits_order:
  fixes p q a b :: int
  assumes "0 \<le> a" "a \<le> 9" "0 \<le> b" "b \<le> 9"
  shows "10 * p + a < 10 * q + b \<longleftrightarrow> p < q \<or> p = q \<and> a < b"
  using assms by linarith

lemma digits_order_hundred:
  fixes p q a b :: int
  assumes "0 \<le> a" "a \<le> 99" "0 \<le> b" "b \<le> 99"
  shows "100 * p + a < 100 * q + b \<longleftrightarrow> p < q \<or> p = q \<and> a < b"
  using assms by linarith

lemma two_digits_less:
  assumes "0 \<le> m" "m \<le> 99" "0 \<le> n" "n \<le> 99"
  shows "two_digits m < two_digits n \<longleftrightarrow> m < n"
proof -
  have r: "0 \<le> k div 10" "k div 10 \<le> 9" "0 \<le> k mod 10" "k mod 10 \<le> 9" if "0 \<le> k" "k \<le> 99" for k :: int
    using that digit_range(1,2) [of 1 k] by simp_all
  have e: "10 * (k div 10) + k mod 10 = k" for k :: int by simp
  have "two_digits m < two_digits n \<longleftrightarrow> m div 10 < n div 10 \<or> m div 10 = n div 10 \<and> m mod 10 < n mod 10"
    unfolding two_digits_def by (simp only: Cons_less_Cons digit_char_less [OF r(1,2) [OF assms(1,2)] r(1,2) [OF assms(3,4)]]
      digit_char_eq [OF r(1,2) [OF assms(1,2)] r(1,2) [OF assms(3,4)]] digit_char_less [OF r(3,4) [OF assms(1,2)] r(3,4) [OF assms(3,4)]]
      less_irrefl simp_thms)
  also have "\<dots> \<longleftrightarrow> m < n" using digits_order [OF r(3,4) [OF assms(1,2)] r(3,4) [OF assms(3,4)], of "m div 10" "n div 10"] by (simp only: e)
  finally show ?thesis .
qed

lemma four_digits_less:
  assumes "0 \<le> m" "m \<le> 9999" "0 \<le> n" "n \<le> 9999"
  shows "four_digits m < four_digits n \<longleftrightarrow> m < n"
proof -
  have split: "four_digits k = two_digits (k div 100) @ two_digits (k mod 100)" "0 \<le> k div 100" "k div 100 \<le> 99"
    "0 \<le> k mod 100" "k mod 100 \<le> 99" "100 * (k div 100) + k mod 100 = k" if k: "0 \<le> k" "k \<le> 9999" for k :: int
  proof -
    define t r u s where d: "t = k div 10" "r = k mod 10" "u = t div 10" "s = t mod 10"
    have r: "0 \<le> r" "r < 10" "0 \<le> s" "s < 10" by (simp_all add: d)
    have "k = 10 * t + r" "t = 10 * u + s" unfolding d by simp_all
    then have k100: "k = 100 * u + (10 * s + r)" by simp
    then have u: "k div 100 = u" "k mod 100 = 10 * s + r" using r int_div_pos_eq [OF k100] int_mod_pos_eq [OF k100] by linarith+
    have q: "(10 * s + r) div 10 = s" "(10 * s + r) mod 10 = r"
      using r int_div_pos_eq [of "10 * s + r" 10 s r] int_mod_pos_eq [of "10 * s + r" 10 s r] by linarith+
    have "k div 100 div 10 = k div (100 * 10)" by (rule zdiv_zmult2_eq [symmetric]) simp
    moreover have "k mod 100 div 10 = k div 10 mod 10" "k mod 100 mod 10 = k mod 10"
      unfolding u(2) q unfolding d(2,4,1) by (rule refl)+
    ultimately have "k mod 100 div 10 = k div 10 mod 10" "k mod 100 mod 10 = k mod 10" "k div 100 div 10 = k div 1000"
      by simp_all
    then show "four_digits k = two_digits (k div 100) @ two_digits (k mod 100)" unfolding four_digits_def two_digits_def by (simp only: append.simps)
    show "0 \<le> k div 100" "k div 100 \<le> 99" "0 \<le> k mod 100" "k mod 100 \<le> 99" "100 * (k div 100) + k mod 100 = k"
      using k pos_mod_bound [of 100 k] by simp_all
  qed
  note m = split [OF assms(1,2)] and n = split [OF assms(3,4)]
  have eq: "two_digits a = two_digits b \<longleftrightarrow> a = b" if "0 \<le> a" "a \<le> 99" "0 \<le> b" "b \<le> 99" for a b
    using two_digits_less [of a b] two_digits_less [of b a] that by (metis less_irrefl linorder_neqE)
  have len: "length (two_digits a) = length (two_digits b)" for a b by (simp add: two_digits_def)
  have "four_digits m < four_digits n \<longleftrightarrow> m div 100 < n div 100 \<or> m div 100 = n div 100 \<and> m mod 100 < n mod 100"
    unfolding m(1) n(1) lex_append_less [OF len] eq [OF m(2,3) n(2,3)]
      two_digits_less [OF m(2,3) n(2,3)] two_digits_less [OF m(4,5) n(4,5)] by (rule refl)
  also have "\<dots> \<longleftrightarrow> m < n"
    using digits_order_hundred [OF m(4,5) n(4,5), of "m div 100" "n div 100"] by (simp only: m(6) n(6))
  finally show ?thesis .
qed


text \<open>Years and months are monotone.\<close>

lemma div_step:
  fixes y k :: int
  assumes "0 < k"
  shows "y div k = (y - 1) div k + (if y mod k = 0 then 1 else 0)"
proof -
  define q r where "q = y div k" and "r = y mod k"
  have y: "y = k * q + r" "0 \<le> r" "r < k" using assms by (simp_all add: q_def r_def)
  show ?thesis
  proof (cases "r = 0")
    case True
    have "(y - 1) div k = q - 1" using y True assms by (intro int_div_pos_eq [where r = "k - 1"]) (simp_all add: algebra_simps)
    then show ?thesis using True by (simp add: q_def r_def)
  next
    case False
    have "(y - 1) div k = q" using y False by (intro int_div_pos_eq [where r = "r - 1"]) simp_all
    then show ?thesis using False by (simp add: q_def r_def)
  qed
qed

lemma leap_count:
  fixes p a b c :: int
  assumes "R \<Longrightarrow> Q" "Q \<Longrightarrow> P"
  shows "(p + 1) * 365 + (a + (if P then 1 else 0)) - (b + (if Q then 1 else 0)) + (c + (if R then 1 else 0))
    = p * 365 + a - b + c + (if P \<and> (\<not> Q \<or> R) then 366 else 365)"
  using assms by auto

lemma days_before_year_next: "days_before_year (y + 1) = days_before_year y + (if is_leap y then 366 else 365)"
proof -
  have l: "y mod 400 = 0 \<Longrightarrow> y mod 100 = 0" "y mod 100 = 0 \<Longrightarrow> y mod 4 = 0"
    using mod_mod_cancel [of 4 100 y] mod_mod_cancel [of 100 400 y] by simp_all
  have "days_before_year (y + 1) = (y - 1 + 1) * 365 + y div 4 - y div 100 + y div 400"
    unfolding days_before_year_def Let_def by (simp only: add_diff_cancel_right' diff_add_cancel)
  also have "\<dots> = (y - 1) * 365 + (y - 1) div 4 - (y - 1) div 100 + (y - 1) div 400
      + (if y mod 4 = 0 \<and> (y mod 100 \<noteq> 0 \<or> y mod 400 = 0) then 366 else 365)"
    unfolding div_step [of 4 y, OF zero_less_numeral] div_step [of 100 y, OF zero_less_numeral] div_step [of 400 y, OF zero_less_numeral]
    by (rule leap_count [OF l])
  finally show ?thesis unfolding is_leap_def days_before_year_def Let_def .
qed

lemma days_before_year_mono: "y \<le> z \<Longrightarrow> days_before_year y \<le> days_before_year z"
proof (induction z rule: int_ge_induct)
  case (step z)
  then show ?case using days_before_year_next [of z] by (simp split: if_splits)
qed simp

lemma days_before_month_mono: "m \<le> k \<Longrightarrow> 1 \<le> m \<Longrightarrow> days_before_month y m \<le> days_before_month y k"
proof (induction k rule: int_ge_induct)
  case (step k)
  then show ?case using days_before_month_next [of k y] by (simp add: days_in_month_def split: if_splits)
qed simp

lemma isoformat_less:
  assumes "valid_day n" and "valid_day m" and "n < m"
  shows "isoformat n < isoformat m"
proof -
  define y r mo d where p: "y = (\<lambda>n. year_of n)" "r = (\<lambda>n. n - 1 - days_before_year (y n))" "mo = (\<lambda>n. month_of (y n) (r n))"
    "d = (\<lambda>n. r n - days_before_month (y n) (mo n) + 1)"
  have facts: "0 \<le> y n" "y n \<le> 9999" "1 \<le> mo n" "mo n \<le> 12" "1 \<le> d n" "d n \<le> days_in_month (y n) (mo n)" "0 \<le> r n"
    "n \<le> days_before_year (y n + 1)" "days_before_year (y n) < n" "n = days_before_year (y n) + r n + 1"
    "r n = days_before_month (y n) (mo n) + d n - 1"
    "isoformat n = four_digits (y n) @ ''-'' @ two_digits (mo n) @ ''-'' @ two_digits (d n)" if v: "valid_day n" for n
  proof -
    have r: "0 \<le> r n" "r n < (if is_leap (y n) then 366 else 365)"
      using year_of_bounds [of n] v unfolding p(1,2) by (simp_all add: valid_day_def)
    note m = month_of_bounds [OF r, folded fun_cong [OF p(3)]]
    show "0 \<le> r n" by (rule r(1))
    show n: "n = days_before_year (y n) + r n + 1" by (simp add: p(2))
    show "days_before_year (y n) < n" "n \<le> days_before_year (y n + 1)" using n r days_before_year_next [of "y n"] by linarith+
    show "0 \<le> y n" "y n \<le> 9999" using year_of_range [OF v] by (simp_all add: p(1))
    show "1 \<le> mo n" "mo n \<le> 12" "1 \<le> d n" "d n \<le> days_in_month (y n) (mo n)" "r n = days_before_month (y n) (mo n) + d n - 1"
      using m by (simp_all add: p(3,4))
    show "isoformat n = four_digits (y n) @ ''-'' @ two_digits (mo n) @ ''-'' @ two_digits (d n)" by (simp add: isoformat_def Let_def p)
  qed
  note N = facts [OF assms(1)] and M = facts [OF assms(2)]
  have dim: "days_in_month a b \<le> 31" for a b by (simp add: days_in_month_def)
  have y: "y n \<le> y m" using days_before_year_mono [of "y m + 1" "y n"] N(9) M(8) assms(3) by fastforce
  have mo: "mo n \<le> mo m" if "y n = y m"
  proof (rule ccontr)
    assume "\<not> mo n \<le> mo m"
    then have "days_before_month (y m) (mo m + 1) \<le> days_before_month (y m) (mo n)" using M(3) by (intro days_before_month_mono) simp_all
    then show False using days_before_month_next [OF M(3), of "y m"] that N(5,10,11) M(6,10,11) assms(3) by simp
  qed
  have d: "d n < d m" if "y n = y m" "mo n = mo m" using that N(10,11) M(10,11) assms(3) by simp
  have lt: "four_digits (y n) < four_digits (y m) \<longleftrightarrow> y n < y m" using N M by (intro four_digits_less) simp_all
  have lm: "two_digits (mo n) < two_digits (mo m) \<longleftrightarrow> mo n < mo m" using N(3,4) M(3,4) by (intro two_digits_less) simp_all
  have ld: "two_digits (d n) < two_digits (d m) \<longleftrightarrow> d n < d m"
    using N(5,6) M(5,6) dim [of "y n" "mo n"] dim [of "y m" "mo m"] by (intro two_digits_less) simp_all
  have len: "length (two_digits a) = length (two_digits b)" "length (four_digits a) = length (four_digits b)" for a b
    by (simp_all add: two_digits_def four_digits_def)
  have "isoformat n \<le> isoformat m"
    unfolding N(12) M(12) lex_append [OF len(2)] lt using y mo d lm ld
    by (cases "y n = y m"; cases "mo n = mo m") (auto simp: lex_append [OF len(1)])
  moreover have "isoformat n \<noteq> isoformat m" using assms fromisoformat_isoformat by (metis less_irrefl option.inject)
  ultimately show ?thesis by simp
qed

lemma isoformat_le: "valid_day n \<Longrightarrow> valid_day m \<Longrightarrow> isoformat n \<le> isoformat m \<longleftrightarrow> n \<le> m"
  using isoformat_less by (metis leD leI le_less)

end
