(* ===== verification/ShadowLedger.thy ===== *)
theory ShadowLedger
  imports EpisodeAverage PyJson
begin

text \<open>
  The shadow ledger (\<open>hope/backtest/shadow.py\<close>): what every admitted model did on every basket day.
  A day is a directory with a file of lines per hotkey, a plan of the hotkeys the run set out to run,
  and a marker written last. Lines are only appended; each reader has its own rule for the line that
  counts.

  The run of a day is a list of writes (plan, one record per model, marker), so a run that is cut off
  is a prefix of it. Shown: the last status wins; a supplement keeps the coverage of the day; a run
  that ends covers every model; and a run that is cut off is recognisable, with the models it never
  reached planned and without a record.

  The text that \<open>json.dumps\<close> writes for a missing duration and the signature of the day's summary
  (\<open>finalize_day\<close>, by the rail) are not modelled.
\<close>

section \<open>The ledger\<close>

record shadow_model =
  sm_hotkey :: hotkey
  sm_image_digest :: string
  sm_admitted_at :: string

record run_result =
  rr_ok :: bool
  rr_predictions :: "(string, json) dict"
  rr_error :: "string option"
  rr_episodes_in :: int
  rr_predictions_out :: int
  rr_duration_s :: "float option"
  rr_peak_rss_mb :: "float option"

record shadow_day =
  sd_marker :: "json option"
  sd_plan :: "hotkey list option"
  sd_files :: "(hotkey, json list) dict"

type_synonym shadow = "(string, shadow_day) dict"

definition empty_day :: shadow_day where
  "empty_day = \<lparr>sd_marker = None, sd_plan = None, sd_files = []\<rparr>"

definition day_of :: "shadow \<Rightarrow> string \<Rightarrow> shadow_day" where
  "day_of S day = (case map_of S day of None \<Rightarrow> empty_day | Some d \<Rightarrow> d)"

definition on_day :: "(shadow_day \<Rightarrow> shadow_day) \<Rightarrow> string \<Rightarrow> shadow \<Rightarrow> shadow" where
  "on_day f day S = AList.update day (f (day_of S day)) S"

definition lines_of :: "shadow \<Rightarrow> string \<Rightarrow> hotkey \<Rightarrow> json list" where
  "lines_of S day hotkey = (case map_of (sd_files (day_of S day)) hotkey of None \<Rightarrow> [] | Some ls \<Rightarrow> ls)"

definition append_line :: "shadow \<Rightarrow> string \<Rightarrow> hotkey \<Rightarrow> json \<Rightarrow> shadow" where
  "append_line S day hotkey line =
     on_day (\<lambda>d. d\<lparr>sd_files := AList.update hotkey (lines_of S day hotkey @ [line]) (sd_files d)\<rparr>) day S"

section \<open>Writing\<close>

definition run_line :: "string \<Rightarrow> shadow_model \<Rightarrow> run_result \<Rightarrow> json" where
  "run_line day model result = JDict
     [(''day'', JStr day), (''hotkey'', JStr (sm_hotkey model)), (''image_digest'', JStr (sm_image_digest model)),
      (''ok'', JBool (rr_ok result)), (''error'', jopt JStr (rr_error result)),
      (''episodes_in'', jint (rr_episodes_in result)), (''predictions_out'', jint (rr_predictions_out result)),
      (''duration_s'', jopt JNum (rr_duration_s result)), (''peak_rss_mb'', jopt JNum (rr_peak_rss_mb result)),
      (''predictions'', JDict (rr_predictions result))]"

definition record_day :: "shadow \<Rightarrow> string \<Rightarrow> shadow_model \<Rightarrow> run_result \<Rightarrow> shadow" where
  "record_day S day model result = append_line S day (sm_hotkey model) (run_line day model result)"

definition record_run_marker :: "shadow \<Rightarrow> string \<Rightarrow> nat \<Rightarrow> nat \<Rightarrow> string option \<Rightarrow> shadow" where
  "record_run_marker S day episodes models generated_at =
     on_day (\<lambda>d. d\<lparr>sd_marker := Some (JDict ([(''day'', JStr day), (''episodes'', jnat episodes), (''models'', jnat models)] @
        (case generated_at of None \<Rightarrow> [] | Some t \<Rightarrow> if t = [] then [] else [(''generated_at'', JStr t)])))\<rparr>) day S"

definition last_record :: "shadow \<Rightarrow> string \<Rightarrow> hotkey \<Rightarrow> json option" where
  "last_record S day hotkey = (let ls = lines_of S day hotkey in if ls = [] then None else Some (last ls))"

text \<open>\<open>d.update(e)\<close>.\<close>

definition dict_update :: "('k, 'v) dict \<Rightarrow> ('k, 'v) dict \<Rightarrow> ('k, 'v) dict" where
  "dict_update d e = foldl (\<lambda>acc (k, v). AList.update k v acc) d e"

definition merged_supplement :: "json option \<Rightarrow> run_result \<Rightarrow> string list \<Rightarrow> string \<Rightarrow> py_error + (string, json) dict" where
  "merged_supplement previous result added_ids basket_key =
     (let prev = (case previous of None \<Rightarrow> JDict [] | Some p \<Rightarrow> p);
          predictions = dict_update (json_fields (jget prev ''predictions'')) (rr_predictions result);
          prev_ok = jget prev ''ok''
      in map_sum id (\<lambda>prev_in.
           [(''day'', jget prev ''day''), (''hotkey'', jget prev ''hotkey''), (''image_digest'', jget prev ''image_digest''),
            (''ok'', JBool (rr_ok result \<and> prev_ok \<noteq> JBool False)),
            (''error'', (case rr_error result of Some e \<Rightarrow> if e = [] then jget prev ''error'' else JStr e | None \<Rightarrow> jget prev ''error'')),
            (''episodes_in'', jint (prev_in + int (length added_ids))),
            (''predictions_out'', jnat (length predictions)),
            (''duration_s'', jopt JNum (rr_duration_s result)), (''peak_rss_mb'', jopt JNum (rr_peak_rss_mb result)),
            (''predictions'', JDict predictions),
            (''supplement'', JDict [(''basket'', JStr basket_key), (''added'', jnat (length added_ids)),
               (''added_predicted'', jnat (length (filter (\<lambda>e. map_of (rr_predictions result) e \<noteq> None) added_ids))),
               (''previous_ok'', prev_ok), (''previous_episodes_in'', jint prev_in),
               (''previous_duration_s'', jget prev ''duration_s'')])])
         (int_or_zero (jget prev ''episodes_in'')))"

definition record_supplement ::
    "shadow \<Rightarrow> string \<Rightarrow> shadow_model \<Rightarrow> run_result \<Rightarrow> string list \<Rightarrow> string \<Rightarrow> py_error + shadow" where
  "record_supplement S day model result added_ids basket_key =
     map_sum id (\<lambda>line.
         let line1 = AList.update ''hotkey'' (JStr (sm_hotkey model)) (AList.update ''day'' (JStr day) line);
             digest = jget (JDict line1) ''image_digest'';
             line2 = AList.update ''image_digest'' (if truthy digest then digest else JStr (sm_image_digest model)) line1
         in append_line S day (sm_hotkey model) (JDict line2))
       (merged_supplement (last_record S day (sm_hotkey model)) result added_ids basket_key)"

section \<open>Reading\<close>

definition subnet_ran :: "shadow \<Rightarrow> string \<Rightarrow> bool" where
  "subnet_ran S day \<longleftrightarrow> map_of S day \<noteq> None \<and> (sd_marker (day_of S day) \<noteq> None \<or> sd_files (day_of S day) \<noteq> [])"

definition run_complete :: "shadow \<Rightarrow> string \<Rightarrow> bool" where
  "run_complete S day \<longleftrightarrow> sd_marker (day_of S day) \<noteq> None"

definition day_plan :: "shadow \<Rightarrow> string \<Rightarrow> hotkey set option" where
  "day_plan S day = map_option set (sd_plan (day_of S day))"

definition record_run_plan :: "shadow \<Rightarrow> string \<Rightarrow> hotkey list \<Rightarrow> shadow" where
  "record_run_plan S day hotkeys =
     on_day (\<lambda>d. d\<lparr>sd_plan := Some (sort (remdups ((case sd_plan (day_of S day) of None \<Rightarrow> [] | Some p \<Rightarrow> p) @ hotkeys)))\<rparr>) day S"

definition day_models :: "shadow \<Rightarrow> string \<Rightarrow> hotkey set" where
  "day_models S day = set (keys (sd_files (day_of S day)))"

definition is_day_name :: "string \<Rightarrow> bool" where
  "is_day_name s \<longleftrightarrow> length s = 10 \<and> list_all is_digit (take 4 s) \<and> s ! 4 = CHR ''-'' \<and>
     list_all is_digit (take 2 (drop 5 s)) \<and> s ! 7 = CHR ''-'' \<and> list_all is_digit (drop 8 s)"

definition shadow_days :: "shadow \<Rightarrow> string list" where
  "shadow_days S = sort (filter (\<lambda>name. is_day_name name \<and> subnet_ran S name) (keys S))"

text \<open>The files of a day in the order of their names.\<close>

definition day_files :: "shadow \<Rightarrow> string \<Rightarrow> (hotkey, json list) dict" where
  "day_files S day = sort_key (\<lambda>(hk, _). hk @ ''.jsonl'') (sd_files (day_of S day))"

text \<open>The last line that carries a field.\<close>

definition last_with :: "string \<Rightarrow> json list \<Rightarrow> json option" where
  "last_with k ls = last_such (\<lambda>rec. jget rec k \<noteq> JNull) ls"

definition line_status :: "json \<Rightarrow> bool \<times> json" where
  "line_status rec = (truthy (jget rec ''ok''), jget rec ''error'')"

definition day_run_status :: "shadow \<Rightarrow> string \<Rightarrow> (hotkey, bool \<times> json) dict" where
  "day_run_status S day = concat (map (\<lambda>(hk, ls). case last_with ''ok'' ls of
     None \<Rightarrow> [] | Some rec \<Rightarrow> [(hk, line_status rec)]) (day_files S day))"

definition line_coverage :: "json \<Rightarrow> py_error + int \<times> int" where
  "line_coverage rec = and_then (int_or_zero (jget rec ''episodes_in'')) (\<lambda>n.
     map_sum id (\<lambda>p. (n, p)) (int_or_zero (jget rec ''predictions_out'')))"

definition day_coverage :: "shadow \<Rightarrow> string \<Rightarrow> py_error + (hotkey, int \<times> int) dict" where
  "day_coverage S day = fold_sum (\<lambda>out (hk, ls). case last_with ''episodes_in'' ls of
     None \<Rightarrow> Inr out | Some rec \<Rightarrow> map_sum id (\<lambda>c. out @ [(hk, c)]) (line_coverage rec)) [] (day_files S day)"

definition day_summary :: "shadow \<Rightarrow> string \<Rightarrow> (hotkey, json) dict" where
  "day_summary S day = map (\<lambda>(hk, ls). let rec = (if ls = [] then JDict [] else last ls) in
     (hk, JDict [(''ok'', jget rec ''ok''), (''episodes_in'', jget rec ''episodes_in''),
        (''predictions_out'', jget rec ''predictions_out''), (''image_digest'', jget rec ''image_digest'')])) (day_files S day)"

definition shadow_workers :: "environ \<Rightarrow> int" where
  "shadow_workers environ =
     (let raw = strip (case environ ''SN21_SHADOW_WORKERS'' of None \<Rightarrow> ''2'' | Some s \<Rightarrow> if s = [] then ''2'' else s)
      in case py_int raw of None \<Rightarrow> 2 | Some n \<Rightarrow> max 1 (min 4 n))"

section \<open>The run of a day\<close>

text \<open>
  The results arrive in the order of submission whatever the number of workers: the writes are those
  of one thread.
\<close>

datatype run_step = Plan "hotkey list" | Note shadow_model run_result | Mark nat nat

fun do_step :: "string \<Rightarrow> shadow \<Rightarrow> run_step \<Rightarrow> shadow" where
  "do_step day S (Plan hotkeys) = record_run_plan S day hotkeys"
| "do_step day S (Note m r) = record_day S day m r"
| "do_step day S (Mark episodes models) = record_run_marker S day episodes models None"

definition run_steps :: "json list \<Rightarrow> shadow_model list \<Rightarrow> (shadow_model \<Rightarrow> json list \<Rightarrow> run_result) \<Rightarrow> run_step list" where
  "run_steps episodes models runner =
     Plan (map sm_hotkey models) # map (\<lambda>m. Note m (runner m episodes)) models
       @ [Mark (length episodes) (length (remdups (map sm_hotkey models)))]"

definition run_shadow_day ::
    "string \<Rightarrow> json list \<Rightarrow> shadow_model list \<Rightarrow> (shadow_model \<Rightarrow> json list \<Rightarrow> run_result) \<Rightarrow> shadow \<Rightarrow> shadow" where
  "run_shadow_day day episodes models runner S = foldl (do_step day) S (run_steps episodes models runner)"

text \<open>The switch from shadow to payment: which models have enough scored days.\<close>

record cutover_verdict =
  cv_scored_days :: nat
  cv_ready :: bool
  cv_standing :: "float option"
  cv_placement_eligible :: bool

definition cutover_verdict_of ::
    "(float \<Rightarrow> float \<Rightarrow> float) \<Rightarrow> environ \<Rightarrow> date \<Rightarrow> int \<Rightarrow> scored_episode list \<Rightarrow> py_error + cutover_verdict" where
  "cutover_verdict_of powf environ as_of min_scored_days eps =
     (let days = card (set (map scored_on eps))
      in map_sum id (\<lambda>st. \<lparr>cv_scored_days = days, cv_ready = (min_scored_days \<le> int days), cv_standing = average st,
            cv_placement_eligible = placement_eligible st\<rparr>)
          (standing powf environ eps as_of None None None 0))"

definition cutover_ready ::
    "(float \<Rightarrow> float \<Rightarrow> float) \<Rightarrow> environ \<Rightarrow> (hotkey, scored_episode list) dict \<Rightarrow> date \<Rightarrow> int
      \<Rightarrow> py_error + (hotkey, cutover_verdict) dict \<times> nat \<times> bool" where
  "cutover_ready powf environ entries as_of min_scored_days =
     map_sum id (\<lambda>verdicts. let ready = length (filter (\<lambda>(_, v). cv_ready v) verdicts) in (verdicts, ready, 1 \<le> ready))
       (fold_sum (\<lambda>out (hk, eps). map_sum id (\<lambda>v. AList.update hk v out) (cutover_verdict_of powf environ as_of min_scored_days eps))
          [] entries)"


section \<open>Facts\<close>

lemma day_of_on_day: "day_of (on_day f d S) d' = (if d' = d then f (day_of S d) else day_of S d')"
  by (simp add: day_of_def on_day_def map_of_update)

lemma lines_of_append:
  "lines_of (append_line S d hk l) d' hk' = (if d' = d \<and> hk' = hk then lines_of S d hk @ [l] else lines_of S d' hk')"
  by (simp add: lines_of_def append_line_def day_of_on_day map_of_update split: option.splits)

lemma day_parts:
  "sd_marker (day_of (append_line S d hk l) d') = sd_marker (day_of S d')"
  "sd_plan (day_of (append_line S d hk l) d') = sd_plan (day_of S d')"
  "day_models (append_line S d hk l) d' = (if d' = d then insert hk (day_models S d) else day_models S d')"
  by (auto simp add: append_line_def day_of_on_day day_models_def keys_update)

definition shadow_ok :: "shadow \<Rightarrow> bool" where
  "shadow_ok S \<longleftrightarrow> (\<forall>d. dict_ok (sd_files (day_of S d)))"

lemma shadow_ok_append: "shadow_ok S \<Longrightarrow> shadow_ok (append_line S d hk l)"
  by (auto simp: shadow_ok_def append_line_def day_of_on_day)

lemma shadow_ok_step: "shadow_ok S \<Longrightarrow> shadow_ok (do_step day S s)"
  by (cases s) (auto simp: shadow_ok_def record_run_plan_def record_run_marker_def record_day_def append_line_def day_of_on_day)

lemma map_of_concat_option:
  "dict_ok d \<Longrightarrow> map_of (concat (map (\<lambda>(k, v). case g v of None \<Rightarrow> [] | Some r \<Rightarrow> [(k, f r)]) d)) k =
     (case map_of d k of None \<Rightarrow> None | Some v \<Rightarrow> map_option f (g v))"
proof (induction d)
  case (Cons x d)
  obtain k' v where x: "x = (k', v)" by (cases x)
  have new: "map_of d k' = None" using Cons.prems by (simp add: x map_of_None_iff)
  have IH: "map_of (concat (map (\<lambda>(k, v). case g v of None \<Rightarrow> [] | Some r \<Rightarrow> [(k, f r)]) d)) k =
     (case map_of d k of None \<Rightarrow> None | Some v \<Rightarrow> map_option f (g v))" using Cons by simp
  show ?case
  proof (cases "k = k'")
    case True
    then show ?thesis using IH new by (cases "g v") (simp_all add: x)
  next
    case False
    then show ?thesis using IH by (cases "g v") (simp_all add: x)
  qed
qed simp

lemma day_files_map_of: "shadow_ok S \<Longrightarrow> map_of (day_files S day) = map_of (sd_files (day_of S day))"
  by (simp add: day_files_def map_of_sort shadow_ok_def)

lemma last_of_append:
  "last_record (append_line S d hk l) d' hk' = (if d' = d \<and> hk' = hk then Some l else last_record S d' hk')"
  by (simp add: last_record_def lines_of_append)

text \<open>The status of a hotkey is that of its last line that carries one.\<close>

lemma status_of:
  assumes "shadow_ok S"
  shows "map_of (day_run_status S day) hk = map_option line_status (last_with ''ok'' (lines_of S day hk))"
proof -
  have "dict_ok (day_files S day)" using assms by (simp add: day_files_def shadow_ok_def dict_ok_sort)
  from map_of_concat_option [where g = "last_with ''ok''" and f = line_status and k = hk, OF this] show ?thesis
    by (simp add: day_run_status_def day_files_map_of [OF assms] lines_of_def last_with_def split: option.splits)
qed

lemma run_line_fields:
  "jget (run_line day m r) ''ok'' = JBool (rr_ok r)" "jget (run_line day m r) ''error'' = jopt JStr (rr_error r)"
  by (simp_all add: run_line_def jget_JDict)

lemma dict_update_map_of:
  "dict_ok e \<Longrightarrow> map_of (dict_update d e) k = (case map_of e k of Some v \<Rightarrow> Some v | None \<Rightarrow> map_of d k)"
  unfolding dict_update_def
proof (induction e arbitrary: d)
  case (Cons x e)
  obtain k' v where x: "x = (k', v)" by (cases x)
  have "map_of e k' = None" using Cons.prems by (simp add: x map_of_None_iff)
  then show ?case using Cons by (cases "k = k'") (simp_all add: x map_of_update split: option.split)
qed simp

section \<open>Properties\<close>

text \<open>The state after the plan and the first models.\<close>

lemma noted:
  assumes "shadow_ok S" and "distinct (map sm_hotkey models)"
    and T_def: "T = foldl (do_step day) S (map (\<lambda>m. Note m (res m)) models)"
  shows "shadow_ok T" "sd_marker (day_of T d') = sd_marker (day_of S d')" "sd_plan (day_of T d') = sd_plan (day_of S d')"
    "day_models T day = day_models S day \<union> sm_hotkey ` set models"
    "m \<in> set models \<Longrightarrow> last_record T day (sm_hotkey m) = Some (run_line day m (res m))"
    "d' \<noteq> day \<or> hk \<notin> sm_hotkey ` set models \<Longrightarrow> lines_of T d' hk = lines_of S d' hk"
proof -
  have "shadow_ok T \<and> sd_marker (day_of T d') = sd_marker (day_of S d') \<and> sd_plan (day_of T d') = sd_plan (day_of S d') \<and>
    day_models T day = day_models S day \<union> sm_hotkey ` set models \<and>
    (\<forall>m \<in> set models. last_record T day (sm_hotkey m) = Some (run_line day m (res m))) \<and>
    (\<forall>d' hk. d' \<noteq> day \<or> hk \<notin> sm_hotkey ` set models \<longrightarrow> lines_of T d' hk = lines_of S d' hk)"
    using assms(2) unfolding T_def
  proof (induction models rule: rev_induct)
    case (snoc m models)
    let ?T = "foldl (do_step day) S (map (\<lambda>m. Note m (res m)) models)"
    have "foldl (do_step day) S (map (\<lambda>m. Note m (res m)) (models @ [m])) = append_line ?T day (sm_hotkey m) (run_line day m (res m))"
      by (simp add: record_day_def)
    moreover
    have "sm_hotkey m \<notin> sm_hotkey ` set models" using snoc.prems by simp
    then have "\<forall>m' \<in> set models. sm_hotkey m' \<noteq> sm_hotkey m" by (metis imageI)
    moreover have "distinct (map sm_hotkey models)" using snoc.prems by simp
    ultimately show ?case using snoc.IH
      by (auto simp: shadow_ok_append day_parts lines_of_append last_of_append)
  qed (simp add: assms(1))
  then show "shadow_ok T" "sd_marker (day_of T d') = sd_marker (day_of S d')" "sd_plan (day_of T d') = sd_plan (day_of S d')"
    "day_models T day = day_models S day \<union> sm_hotkey ` set models"
    "m \<in> set models \<Longrightarrow> last_record T day (sm_hotkey m) = Some (run_line day m (res m))"
    "d' \<noteq> day \<or> hk \<notin> sm_hotkey ` set models \<Longrightarrow> lines_of T d' hk = lines_of S d' hk" by blast+
qed

lemma cut_run:
  assumes "shadow_ok S" and "distinct (map sm_hotkey models)" and "1 \<le> n" and "n \<le> Suc (length models)"
  shows "let S' = foldl (do_step day) S (take n (run_steps eps models runner)) in
    run_complete S' day = run_complete S day \<and>
    (\<exists>P. day_plan S' day = Some P \<and> sm_hotkey ` set models \<subseteq> P) \<and>
    day_models S' day = day_models S day \<union> sm_hotkey ` set (take (n - 1) models)"
proof -
  obtain k where n: "n = Suc k" "k \<le> length models" using assms(3,4) by (cases n) auto
  let ?P = "record_run_plan S day (map sm_hotkey models)"
  have ok: "shadow_ok ?P" using shadow_ok_step [OF assms(1), of day "Plan (map sm_hotkey models)"] by simp
  have dist: "distinct (map sm_hotkey (take k models))" using assms(2) by (simp add: take_map [symmetric])
  define T where "T = foldl (do_step day) ?P (map (\<lambda>m. Note m (runner m eps)) (take k models))"
  note t = noted [where res = "\<lambda>m. runner m eps", OF ok dist T_def]
  have plan: "day_plan ?P day = Some (set (case sd_plan (day_of S day) of None \<Rightarrow> [] | Some p \<Rightarrow> p) \<union> sm_hotkey ` set models)"
    "run_complete ?P day = run_complete S day" "day_models ?P day = day_models S day"
    by (simp_all add: record_run_plan_def day_of_on_day day_plan_def run_complete_def day_models_def)
  have steps: "take n (run_steps eps models runner) = Plan (map sm_hotkey models) # map (\<lambda>m. Note m (runner m eps)) (take k models)"
    using n by (simp add: run_steps_def take_map)
  let ?S' = "foldl (do_step day) S (take n (run_steps eps models runner))"
  have S': "?S' = foldl (do_step day) ?P (map (\<lambda>m. Note m (runner m eps)) (take k models))" by (simp add: steps)
  note S' = S' [folded T_def]
  have "run_complete ?S' day = run_complete S day" unfolding S' using t(2) plan(2) by (simp add: run_complete_def)
  moreover have "day_plan ?S' day = day_plan ?P day" unfolding S' using t(3) by (simp add: day_plan_def)
  moreover have "day_models ?S' day = day_models S day \<union> sm_hotkey ` set (take (n - 1) models)"
    unfolding S' using t(4) plan(3) n(1) by simp
  ultimately show ?thesis using plan(1) by (simp add: Let_def)
qed

text \<open>A run that is cut off is recognisable and blames nobody it never reached: whatever prefix of
  the run's writes was made before the cut (the plan at least, the marker not), the day is not marked
  complete if it was not before, every model of the run is in the day's plan, and the records present
  are the earlier ones and those of exactly the models reached.\<close>

theorem sh_cut_run:
  assumes "shadow_ok S" and "distinct (map sm_hotkey models)" and "1 \<le> n" and "n \<le> Suc (length models)"
  shows "let S' = foldl (do_step day) S (take n (run_steps eps models runner)) in
    run_complete S' day = run_complete S day \<and>
    (\<exists>P. day_plan S' day = Some P \<and> sm_hotkey ` set models \<subseteq> P) \<and>
    day_models S' day = day_models S day \<union> sm_hotkey ` set (take (n - 1) models)"
  by (rule cut_run [OF assms])

definition sample_model :: "string \<Rightarrow> shadow_model" where
  "sample_model hk = \<lparr>sm_hotkey = hk, sm_image_digest = ''sha256:'' @ hk, sm_admitted_at = ''2026-09-01''\<rparr>"

definition sample_result :: run_result where
  "sample_result = \<lparr>rr_ok = True, rr_predictions = [], rr_error = None, rr_episodes_in = 3, rr_predictions_out = 0,
     rr_duration_s = None, rr_peak_rss_mb = None\<rparr>"

theorem sh_cut_run_witness:
  "let S' = foldl (do_step ''2026-11-04'') [] (take 2 (run_steps [] [sample_model ''a'', sample_model ''b''] (\<lambda>_ _. sample_result))) in
    \<not> run_complete S' ''2026-11-04'' \<and> (\<exists>P. day_plan S' ''2026-11-04'' = Some P \<and> ''b'' \<in> P) \<and> day_models S' ''2026-11-04'' = {''a''}"
proof -
  have e: "shadow_ok []" by (simp add: shadow_ok_def day_of_def empty_day_def)
  have "distinct (map sm_hotkey [sample_model ''a'', sample_model ''b''])" by (simp add: sample_model_def)
  from sh_cut_run [OF e this, of 2 "''2026-11-04''" "[]" "\<lambda>_ _. sample_result"] show ?thesis
    by (auto simp: Let_def sample_model_def run_complete_def day_models_def day_of_def empty_day_def numeral_2_eq_2)
qed

text \<open>A run that ends covers its models: the day is complete, every model of the run has the status
  its runner returned, also when an earlier run of the day left another one, and no other hotkey's and
  no other day's lines change.\<close>

theorem sh_run_covers_models:
  assumes "shadow_ok S" and "distinct (map sm_hotkey models)"
  shows "let S' = run_shadow_day day eps models runner S in
    run_complete S' day \<and> subnet_ran S' day \<and>
    (\<forall>m \<in> set models. map_of (day_run_status S' day) (sm_hotkey m)
       = Some (rr_ok (runner m eps), jopt JStr (rr_error (runner m eps)))) \<and>
    (\<forall>d hk. d \<noteq> day \<or> hk \<notin> sm_hotkey ` set models \<longrightarrow> lines_of S' d hk = lines_of S d hk)"
proof -
  let ?P = "record_run_plan S day (map sm_hotkey models)"
  have okP: "shadow_ok ?P" using shadow_ok_step [OF assms(1), of day "Plan (map sm_hotkey models)"] by simp
  define T where "T = foldl (do_step day) ?P (map (\<lambda>m. Note m (runner m eps)) models)"
  note t = noted [where res = "\<lambda>m. runner m eps", OF okP assms(2) T_def]
  define N where "N = length (remdups (map sm_hotkey models))"
  have S': "run_shadow_day day eps models runner S = record_run_marker T day (length eps) N None"
    by (simp add: run_shadow_day_def run_steps_def T_def N_def)
  let ?S' = "record_run_marker T day (length eps) N None"
  have ok: "shadow_ok ?S'" using shadow_ok_step [OF t(1), of day "Mark (length eps) N"] by simp
  have lines: "lines_of ?S' d hk = lines_of T d hk" for d hk by (simp add: lines_of_def record_run_marker_def day_of_on_day)
  have P: "lines_of ?P d hk = lines_of S d hk" for d hk by (simp add: lines_of_def record_run_plan_def day_of_on_day)
  have "map_of (day_run_status ?S' day) (sm_hotkey m) = Some (rr_ok (runner m eps), jopt JStr (rr_error (runner m eps)))"
    if m: "m \<in> set models" for m
  proof -
    obtain ls where ls: "lines_of T day (sm_hotkey m) = ls @ [run_line day m (runner m eps)]"
      using t(5) [OF m] by (cases "lines_of T day (sm_hotkey m)" rule: rev_cases) (simp_all add: last_record_def Let_def split: if_splits)
    show ?thesis unfolding status_of [OF ok] lines ls
      by (simp add: last_with_def run_line_fields line_status_def truthy_def)
  qed
  moreover have "run_complete ?S' day" "subnet_ran ?S' day"
    by (simp_all add: run_complete_def subnet_ran_def record_run_marker_def day_of_on_day) (simp add: on_day_def map_of_update)
  moreover have "lines_of ?S' d hk = lines_of S d hk" if "d \<noteq> day \<or> hk \<notin> sm_hotkey ` set models" for d hk
    unfolding lines using t(6) [OF that] P by simp
  ultimately show ?thesis unfolding S' Let_def by blast
qed

theorem sh_run_covers_models_witness:
  "map_of (day_run_status (run_shadow_day ''2026-11-04'' [] [sample_model ''a''] (\<lambda>_ _. sample_result) []) ''2026-11-04'') ''a''
    = Some (True, JNull)"
proof -
  have e: "shadow_ok []" by (simp add: shadow_ok_def day_of_def empty_day_def)
  from sh_run_covers_models [OF e, of "[sample_model ''a'']" "''2026-11-04''" "[]" "\<lambda>_ _. sample_result"] show ?thesis
    by (simp add: Let_def sample_model_def sample_result_def jopt_def)
qed

text \<open>A supplement never erases the day's coverage: the line it appends counts the earlier episodes
  and the added ones, keeps every earlier prediction that was not made again and has every new one,
  and is a success only if both runs were.\<close>

theorem sh_supplement_keeps_coverage:
  assumes "last_record S day (sm_hotkey m) = Some prev" and "jget prev ''episodes_in'' = jint n" and "shadow_ok S" and "dict_ok (rr_predictions r)"
  shows "\<exists>S' line. record_supplement S day m r added basket = Inr S' \<and> last_record S' day (sm_hotkey m) = Some line \<and>
    line_coverage line = Inr (n + int (length added), int (length (json_fields (jget line ''predictions'')))) \<and>
    (\<forall>e. map_of (json_fields (jget line ''predictions'')) e = (case map_of (rr_predictions r) e of
       Some p \<Rightarrow> Some p | None \<Rightarrow> map_of (json_fields (jget prev ''predictions'')) e)) \<and>
    map_option fst (map_of (day_run_status S' day) (sm_hotkey m)) = Some (rr_ok r \<and> jget prev ''ok'' \<noteq> JBool False)"
proof -
  let ?hk = "sm_hotkey m"
  let ?preds = "dict_update (json_fields (jget prev ''predictions'')) (rr_predictions r)"
  have n: "int_or_zero (jint k) = Inr k" for k by (simp add: int_or_zero_def jint_def truthy_def int_of_def)
  have nn: "int_or_zero (jnat k) = Inr (int k)" for k using n [of "int k"] by (simp add: jint_def jnat_def)
  obtain line0 where l0: "merged_supplement (Some prev) r added basket = Inr line0"
    and f0: "map_of line0 ''episodes_in'' = Some (jint (n + int (length added)))" "map_of line0 ''predictions'' = Some (JDict ?preds)"
      "map_of line0 ''predictions_out'' = Some (jnat (length ?preds))"
      "map_of line0 ''ok'' = Some (JBool (rr_ok r \<and> jget prev ''ok'' \<noteq> JBool False))"
    by (simp add: merged_supplement_def assms(2) n Let_def)
  define line where "line = JDict (AList.update ''image_digest''
     (let digest = jget (JDict (AList.update ''hotkey'' (JStr ?hk) (AList.update ''day'' (JStr day) line0))) ''image_digest''
      in if truthy digest then digest else JStr (sm_image_digest m))
     (AList.update ''hotkey'' (JStr ?hk) (AList.update ''day'' (JStr day) line0)))"
  have s: "record_supplement S day m r added basket = Inr (append_line S day ?hk line)"
    by (simp add: record_supplement_def assms(1) l0 line_def Let_def)
  have f: "jget line ''episodes_in'' = jint (n + int (length added))" "jget line ''predictions'' = JDict ?preds"
    "jget line ''predictions_out'' = jnat (length ?preds)" "jget line ''ok'' = JBool (rr_ok r \<and> jget prev ''ok'' \<noteq> JBool False)"
    by (simp_all add: line_def jget_JDict map_of_update f0)
  have "map_of ?preds e = (case map_of (rr_predictions r) e of Some p \<Rightarrow> Some p
      | None \<Rightarrow> map_of (json_fields (jget prev ''predictions'')) e)" for e
    by (rule dict_update_map_of [OF assms(4)])
  moreover have "map_of (day_run_status (append_line S day ?hk line) day) ?hk = Some (line_status line)"
    unfolding status_of [OF shadow_ok_append [OF assms(3)]] by (simp add: lines_of_append last_with_def f)
  moreover have "line_coverage line = Inr (n + int (length added), int (length ?preds))"
    by (simp add: line_coverage_def f n nn and_then_def)
  ultimately show ?thesis using s f by (simp add: last_of_append json_fields_def line_status_def truthy_def)
qed

theorem sh_supplement_keeps_coverage_witness:
  "\<exists>S' line. record_supplement (record_day [] ''2026-11-04'' (sample_model ''a'') sample_result) ''2026-11-04'' (sample_model ''a'')
      (sample_result\<lparr>rr_predictions := [(''e'', JNull)]\<rparr>) [''e''] ''b'' = Inr S' \<and>
    last_record S' ''2026-11-04'' ''a'' = Some line \<and> fst (projr (line_coverage line)) = 4"
proof -
  let ?S = "record_day [] ''2026-11-04'' (sample_model ''a'') sample_result"
  have e: "shadow_ok []" by (simp add: shadow_ok_def day_of_def empty_day_def)
  have ok: "shadow_ok ?S" unfolding record_day_def by (rule shadow_ok_append [OF e])
  have "last_record ?S ''2026-11-04'' (sm_hotkey (sample_model ''a'')) = Some (run_line ''2026-11-04'' (sample_model ''a'') sample_result)"
    by (simp add: record_day_def last_of_append)
  moreover have "jget (run_line ''2026-11-04'' (sample_model ''a'') sample_result) ''episodes_in'' = jint 3"
    by (simp add: run_line_def jget_JDict sample_result_def)
  ultimately obtain S' line where "record_supplement ?S ''2026-11-04'' (sample_model ''a'') (sample_result\<lparr>rr_predictions := [(''e'', JNull)]\<rparr>) [''e''] ''b'' = Inr S'"
    "last_record S' ''2026-11-04'' (sm_hotkey (sample_model ''a'')) = Some line"
    "line_coverage line = Inr (3 + int (length [''e'']), int (length (json_fields (jget line ''predictions''))))"
    using sh_supplement_keeps_coverage [of ?S "''2026-11-04''" "sample_model ''a''" _ 3 "sample_result\<lparr>rr_predictions := [(''e'', JNull)]\<rparr>" "[''e'']" "''b''"]
      ok by auto
  then show ?thesis by (simp add: sample_model_def)
qed

end
