(* ===== verification/UnchangedModels.thy ===== *)
theory UnchangedModels
  imports ShadowLedger
begin

text \<open>
  Removal of models that never change (\<open>hope/backtest/unchanged_models.py\<close>). A hotkey that runs one
  image digest for 40 days is not run from day 41, and a removed digest is never run again. The record
  counts from the shadow ledger and is brought up to date on every read.

  The record is a value: the file \<open>registry/_digest_since.json\<close> holds what \<open>save\<close> wrote or is absent
  (\<open>None\<close>, also when it is unreadable). Days are the strings of the directory names, compared as
  strings; an image reference is a string. The comparison of a new model's predictions with the probes
  of removed models (\<open>same_as_removed\<close>) rests on the copy check and is not modelled.
\<close>

section \<open>The record\<close>

record digest_since =
  ds_digest :: string
  ds_since :: string

record removal =
  rm_hotkey :: hotkey
  rm_removed_on :: string
  rm_image_ref :: string

record unchanged_record =
  through :: "string option"
  hotkeys :: "(hotkey, digest_since) dict"
  removed :: "(string, removal) dict"
  by_day :: "(string, hotkey list) dict"

definition max_days :: int where "max_days = 40"

definition switch_date :: "environ \<Rightarrow> string option" where
  "switch_date environ = (let raw = env_raw environ ''SN21_UNCHANGED_REMOVAL_FROM''
     in if raw = [] then None else map_option isoformat (fromisoformat raw))"

definition enabled :: "string \<Rightarrow> environ \<Rightarrow> bool" where
  "enabled as_of environ = (case switch_date environ of
     None \<Rightarrow> False
   | Some start \<Rightarrow> (case (fromisoformat (take 10 as_of), fromisoformat start) of
       (Some today, Some from_day) \<Rightarrow> from_day \<le> today
     | _ \<Rightarrow> False))"

text \<open>\<open>s.split("@", 1)[1] if "@" in s else s\<close>; an empty reference has no digest.\<close>

definition bare_digest :: "string \<Rightarrow> string option" where
  "bare_digest ref = (if ref = [] then None
     else if CHR ''@'' \<in> set ref then Some (tl (dropWhile (\<lambda>c. c \<noteq> CHR ''@'') ref)) else Some ref)"

definition empty_record :: unchanged_record where
  "empty_record = \<lparr>through = None, hotkeys = [], removed = [], by_day = []\<rparr>"

definition load_record :: "unchanged_record option \<Rightarrow> unchanged_record" where
  "load_record file = (case file of None \<Rightarrow> empty_record | Some r \<Rightarrow> r)"

text \<open>The file is written with sorted keys.\<close>

definition save_record :: "unchanged_record \<Rightarrow> unchanged_record option" where
  "save_record r = Some (r\<lparr>hotkeys := sort_key fst (hotkeys r), removed := sort_key fst (removed r), by_day := sort_key fst (by_day r)\<rparr>)"

section \<open>Counting\<close>

definition note_digest :: "string \<Rightarrow> (hotkey, digest_since) dict \<Rightarrow> hotkey \<times> string \<Rightarrow> (hotkey, digest_since) dict" where
  "note_digest day hks item = (case item of (hk, ref) \<Rightarrow>
     (case bare_digest ref of
        None \<Rightarrow> hks
      | Some dg \<Rightarrow>
          if dg = [] \<or> map_option ds_digest (map_of hks hk) = Some dg then hks
          else AList.update hk \<lparr>ds_digest = dg, ds_since = take 10 day\<rparr> hks))"

definition update_record :: "unchanged_record \<Rightarrow> (hotkey, string) dict \<Rightarrow> string \<Rightarrow> py_error + unchanged_record" where
  "update_record r delivered day =
     (case filter (\<lambda>s. s \<noteq> []) ((case through r of None \<Rightarrow> [] | Some t \<Rightarrow> [t]) @ [take 10 day]) of
        [] \<Rightarrow> Inl ValueError
      | t # ts \<Rightarrow> Inr (r\<lparr>hotkeys := foldl (note_digest day) (hotkeys r) delivered, through := Some (foldl max t ts)\<rparr>))"

text \<open>\<open>(x or 0) > 0\<close>: a string or a container has no order with 0.\<close>

definition count_positive :: "json \<Rightarrow> py_error + bool" where
  "count_positive j = (if \<not> truthy j then Inr False
     else case j of JNum x \<Rightarrow> Inr (0 < x) | JBool b \<Rightarrow> Inr b | _ \<Rightarrow> Inl TypeError)"

definition ran_line :: "(hotkey, string) dict \<Rightarrow> hotkey \<times> json list \<Rightarrow> py_error + (hotkey, string) dict" where
  "ran_line delivered item = (case item of (hk, ls) \<Rightarrow>
     (let rec = (if ls = [] then JDict [] else last ls) in
      case opt_string (jget rec ''image_digest'') of
        None \<Rightarrow> Inr delivered
      | Some dg \<Rightarrow> if dg = [] then Inr delivered
          else map_sum id (\<lambda>p. if p then delivered @ [(hk, dg)] else delivered) (count_positive (jget rec ''predictions_out''))))"

definition ran_on :: "shadow \<Rightarrow> string \<Rightarrow> py_error + (hotkey, string) dict" where
  "ran_on S day = fold_sum ran_line [] (day_files S day)"

definition refresh_day :: "shadow \<Rightarrow> string option \<Rightarrow> unchanged_record \<Rightarrow> string \<Rightarrow> py_error + unchanged_record" where
  "refresh_day S through0 r day =
     (if (case through0 of None \<Rightarrow> True | Some t \<Rightarrow> t < day) then and_then (ran_on S day) (\<lambda>delivered. update_record r delivered day) else Inr r)"

definition refresh_record :: "shadow \<Rightarrow> unchanged_record option \<Rightarrow> py_error + unchanged_record" where
  "refresh_record S file = fold_sum (refresh_day S (through (load_record file))) (load_record file) (shadow_days S)"

text \<open>\<open>refresh(root)\<close> also saves what it read.\<close>

definition refresh_saved :: "shadow \<Rightarrow> unchanged_record option \<Rightarrow> py_error + unchanged_record option \<times> unchanged_record" where
  "refresh_saved S file = map_sum id (\<lambda>r. (save_record r, r)) (refresh_record S file)"

record unchanged_standing =
  us_digest_since :: date
  us_days_unchanged :: int
  us_removal_on :: string

definition unchanged_standing_of :: "digest_since option \<Rightarrow> string \<Rightarrow> py_error + unchanged_standing option" where
  "unchanged_standing_of entry as_of = (case entry of
     None \<Rightarrow> Inr None
   | Some e \<Rightarrow>
       if ds_since e = [] then Inr None
       else case (fromisoformat (ds_since e), fromisoformat (take 10 as_of)) of
         (Some since, Some today) \<Rightarrow> Inr (Some \<lparr>us_digest_since = since, us_days_unchanged = max 0 (today - since + 1),
            us_removal_on = isoformat (since + max_days)\<rparr>)
       | _ \<Rightarrow> Inl ValueError)"

section \<open>Removal\<close>

datatype removal_reason = Unchanged | RemovedDigest

definition removal_of :: "unchanged_record \<Rightarrow> string \<Rightarrow> hotkey \<Rightarrow> string \<Rightarrow> py_error + removal_reason option" where
  "removal_of r as_of hk ref =
     (let dg = bare_digest ref in
      if (case dg of None \<Rightarrow> False | Some d \<Rightarrow> map_of (removed r) d \<noteq> None) then Inr (Some RemovedDigest)
      else if map_option ds_digest (map_of (hotkeys r) hk) = None \<or> map_option ds_digest (map_of (hotkeys r) hk) \<noteq> dg then Inr None
      else map_sum id (\<lambda>st. case st of None \<Rightarrow> None | Some s \<Rightarrow> if us_removal_on s \<le> take 10 as_of then Some Unchanged else None)
             (unchanged_standing_of (map_of (hotkeys r) hk) as_of))"

definition removal_step ::
    "unchanged_record \<Rightarrow> string \<Rightarrow> (hotkey, removal_reason) dict \<Rightarrow> hotkey \<times> string \<Rightarrow> py_error + (hotkey, removal_reason) dict" where
  "removal_step r as_of out item = (case item of (hk, ref) \<Rightarrow>
     map_sum id (\<lambda>v. case v of None \<Rightarrow> out | Some reason \<Rightarrow> out @ [(hk, reason)]) (removal_of r as_of hk ref))"

definition to_remove :: "unchanged_record \<Rightarrow> (hotkey, string) dict \<Rightarrow> string \<Rightarrow> py_error + (hotkey, removal_reason) dict" where
  "to_remove r active as_of = fold_sum (removal_step r as_of) [] active"

text \<open>\<open>removed.setdefault(...)\<close> for every hotkey of the day's removals.\<close>

definition mark_removed :: "(hotkey, string) dict \<Rightarrow> string \<Rightarrow> (string, removal) dict \<Rightarrow> hotkey \<Rightarrow> (string, removal) dict" where
  "mark_removed active as_of rms hk = (case map_of active hk of
     None \<Rightarrow> rms
   | Some ref \<Rightarrow> (case bare_digest ref of
       None \<Rightarrow> rms
     | Some dg \<Rightarrow> if map_of rms dg \<noteq> None then rms
         else AList.update dg \<lparr>rm_hotkey = hk, rm_removed_on = take 10 as_of, rm_image_ref = ref\<rparr> rms))"

definition keep_days :: "string \<Rightarrow> (string, hotkey list) dict \<Rightarrow> py_error + (string, hotkey list) dict" where
  "keep_days as_of days = (if days = [] then Inr []
     else case fromisoformat (take 10 as_of) of
       None \<Rightarrow> Inl ValueError
     | Some today \<Rightarrow> Inr (filter (\<lambda>(d, _). isoformat (today - 14) < d) days))"

definition apply_removals ::
    "shadow \<Rightarrow> unchanged_record option \<Rightarrow> (hotkey, string) dict \<Rightarrow> string \<Rightarrow> environ
      \<Rightarrow> py_error + unchanged_record option \<times> (hotkey, removal_reason) dict" where
  "apply_removals S file active as_of environ =
     and_then (refresh_record S file) (\<lambda>r.
     and_then (if enabled as_of environ then to_remove r active as_of else Inr []) (\<lambda>out.
     map_sum id (\<lambda>days. (save_record (r\<lparr>removed := foldl (mark_removed active as_of) (removed r) (keys out),
            by_day := (if out \<noteq> [] then AList.update (take 10 as_of) (sort (keys out)) days else days)\<rparr>), out))
       (keep_days as_of (by_day r))))"

definition removed_hotkeys :: "unchanged_record option \<Rightarrow> string \<Rightarrow> hotkey set" where
  "removed_hotkeys file day =
     (let r = load_record file; d = take 10 day in
      set (keys (filter (\<lambda>(hk, e). case map_of (removed r) (ds_digest e) of None \<Rightarrow> False | Some rm \<Rightarrow> rm_removed_on rm \<le> d) (hotkeys r)))
        \<union> (case map_of (by_day r) d of None \<Rightarrow> {} | Some hks \<Rightarrow> set hks))"

section \<open>Probes of removed models\<close>

text \<open>The probe directory: corpus prefix, then the hex digest, then the predictions.\<close>

type_synonym probe_store = "(string, (string, json) dict) dict"

fun after_sha :: "string \<Rightarrow> string option" where
  "after_sha [] = None"
| "after_sha (c # cs) = (if startswith (c # cs) ''sha256:'' then Some (drop 7 (c # cs)) else after_sha cs)"

definition hex_digest :: "string \<Rightarrow> string" where
  "hex_digest dg = (case after_sha dg of None \<Rightarrow> dg | Some h \<Rightarrow> h)"

definition save_probe :: "probe_store \<Rightarrow> string \<Rightarrow> string \<Rightarrow> json \<Rightarrow> probe_store" where
  "save_probe P corpus_sha dg predictions =
     (let d = take 16 corpus_sha; files = (case map_of P d of None \<Rightarrow> [] | Some fs \<Rightarrow> fs)
      in AList.update d (AList.update (hex_digest dg) predictions files) P)"

definition load_probes :: "probe_store \<Rightarrow> string \<Rightarrow> (string, json) dict" where
  "load_probes P corpus_sha = map (\<lambda>(h, p). (''sha256:'' @ h, p))
     (sort_key (\<lambda>(h, _). h @ ''.json'') (case map_of P (take 16 corpus_sha) of None \<Rightarrow> [] | Some fs \<Rightarrow> fs))"

definition probes_due :: "probe_store \<Rightarrow> unchanged_record option \<Rightarrow> string \<Rightarrow> environ \<Rightarrow> (string \<times> string) list" where
  "probes_due P file corpus_sha environ =
     (let cap = (case environ ''SN21_UNCHANGED_PROBES_PER_DAY'' of None \<Rightarrow> 4
            | Some s \<Rightarrow> if s = [] then 4 else case py_int s of None \<Rightarrow> 4 | Some n \<Rightarrow> n);
          have_keys = set (keys (load_probes P corpus_sha));
          due = sort_key id (map (\<lambda>(dg, e). (rm_removed_on e, dg, rm_image_ref e))
                  (filter (\<lambda>(dg, e). dg \<notin> have_keys \<and> rm_image_ref e \<noteq> []) (removed (load_record file))))
      in map snd (take (nat (max 0 cap)) due))"




section \<open>The count is the current streak\<close>

text \<open>The digest a hotkey delivered predictions with on a day, and its runs in order.\<close>

definition digest_on :: "shadow \<Rightarrow> hotkey \<Rightarrow> string \<Rightarrow> string option" where
  "digest_on S hk day = (case ran_on S day of Inl _ \<Rightarrow> None | Inr delivered \<Rightarrow>
     (case map_of delivered hk of None \<Rightarrow> None | Some ref \<Rightarrow>
       (case bare_digest ref of None \<Rightarrow> None | Some dg \<Rightarrow> if dg = [] then None else Some dg)))"

definition runs :: "shadow \<Rightarrow> hotkey \<Rightarrow> string list \<Rightarrow> (string \<times> string) list" where
  "runs S hk days = concat (map (\<lambda>d. case digest_on S hk d of None \<Rightarrow> [] | Some dg \<Rightarrow> [(d, dg)]) days)"

definition streak :: "(string \<times> string) list \<Rightarrow> digest_since option" where
  "streak rs = (if rs = [] then None
     else Some \<lparr>ds_digest = snd (last rs), ds_since = fst (last (takeWhile (\<lambda>r. snd r = snd (last rs)) (rev rs)))\<rparr>)"

definition counts_ok :: "shadow \<Rightarrow> unchanged_record \<Rightarrow> bool" where
  "counts_ok S r \<longleftrightarrow> (\<forall>hk. map_of (hotkeys r) hk =
     streak (runs S hk (filter (\<lambda>d. case through r of None \<Rightarrow> False | Some t \<Rightarrow> d \<le> t) (shadow_days S))))"

lemma streak_snoc:
  "streak (rs @ [(d, dg)]) = (if map_option ds_digest (streak rs) = Some dg then streak rs else Some \<lparr>ds_digest = dg, ds_since = d\<rparr>)"
proof (cases "rs = []")
  case False
  then obtain rs' x where rs: "rs = rs' @ [x]" by (metis rev_exhaust)
  show ?thesis by (cases "snd x = dg") (auto simp: streak_def rs)
qed (simp add: streak_def)

lemma note_other: "hk \<noteq> k \<Longrightarrow> map_of (note_digest day hks (k, ref)) hk = map_of hks hk"
  by (simp add: note_digest_def map_of_update split: option.split)

lemma note_fold_other: "hk \<notin> fst ` set delivered \<Longrightarrow> map_of (foldl (note_digest day) hks delivered) hk = map_of hks hk"
proof (induction delivered arbitrary: hks)
  case (Cons x delivered)
  then show ?case by (cases x) (simp add: note_other)
qed simp

lemma note_fold:
  assumes "dict_ok delivered"
  shows "map_of (foldl (note_digest day) hks delivered) hk =
    (case map_of delivered hk of None \<Rightarrow> map_of hks hk | Some ref \<Rightarrow> map_of (note_digest day hks (hk, ref)) hk)"
  using assms
proof (induction delivered arbitrary: hks)
  case (Cons x delivered)
  obtain k ref where x: "x = (k, ref)" by (cases x)
  show ?case
  proof (cases "k = hk")
    case True
    then show ?thesis using Cons.prems by (simp add: x note_fold_other)
  next
    case False
    have "map_of (note_digest day (note_digest day hks (k, ref)) (hk, r)) hk = map_of (note_digest day hks (hk, r)) hk" for r
      using False by (auto simp: note_digest_def map_of_update split: option.split)
    then show ?thesis using Cons False by (auto simp: x note_other split: option.split)
  qed
qed simp

lemma ran_on_ok:
  assumes "shadow_ok S" and "ran_on S day = Inr delivered"
  shows "dict_ok delivered"
proof -
  have "dict_ok delivered \<and> fst ` set delivered \<subseteq> fst ` set acc \<union> fst ` set files"
    if "fold_sum ran_line acc files = Inr delivered" "dict_ok acc" "dict_ok files" "fst ` set acc \<inter> fst ` set files = {}" for acc files
    using that
  proof (induction files arbitrary: acc)
    case (Cons x files)
    obtain hk ls where x: "x = (hk, ls)" by (cases x)
    obtain acc' where step: "ran_line acc x = Inr acc'" "fold_sum ran_line acc' files = Inr delivered"
      using Cons.prems(1) by (auto split: sum.splits)
    have "acc' = acc \<or> (\<exists>dg. acc' = acc @ [(hk, dg)])"
      using step(1) unfolding x ran_line_def by (auto simp: Let_def split: option.splits if_splits)
    moreover have "hk \<notin> fst ` set acc" "hk \<notin> fst ` set files" using Cons.prems(3,4) by (simp_all add: x)
    moreover have "fst ` set acc \<inter> fst ` set files = {}" using Cons.prems(4) by (simp add: x)
    ultimately have "dict_ok acc' \<and> fst ` set acc' \<inter> fst ` set files = {} \<and> fst ` set acc' \<subseteq> insert hk (fst ` set acc)"
      using Cons.prems(2) by (elim disjE exE) auto
    then have acc': "dict_ok acc'" "fst ` set acc' \<inter> fst ` set files = {}" "fst ` set acc' \<subseteq> insert hk (fst ` set acc)" by blast+
    have "dict_ok files" using Cons.prems(3) by (simp add: x)
    note IH = Cons.IH [OF step(2) acc'(1) this acc'(2)]
    have "fst ` set delivered \<subseteq> insert hk (fst ` set acc) \<union> fst ` set files"
      by (rule subset_trans [OF conjunct2 [OF IH] Un_mono [OF acc'(3) subset_refl]])
    then show ?case using IH by (simp add: x)
  qed simp
  moreover have "dict_ok (day_files S day)" using assms(1) by (simp add: day_files_def shadow_ok_def dict_ok_sort)
  ultimately show ?thesis using assms(2) unfolding ran_on_def by simp
qed

lemma day_names: "d \<in> set (shadow_days S) \<Longrightarrow> take 10 d = d \<and> d \<noteq> []"
  by (auto simp: shadow_days_def is_day_name_def)

text \<open>Folding one day in extends every hotkey's streak by that day.\<close>

lemma update_streak:
  assumes "shadow_ok S" and "ran_on S day = Inr delivered" and "update_record r delivered day = Inr r'" and "take 10 day = day"
    and "map_of (hotkeys r) hk = streak rs"
  shows "map_of (hotkeys r') hk = streak (rs @ runs S hk [day])"
proof -
  have r': "hotkeys r' = foldl (note_digest day) (hotkeys r) delivered"
    using assms(3) by (auto simp: update_record_def split: list.splits)
  have "runs S hk [day] = (case map_of delivered hk of None \<Rightarrow> [] | Some ref \<Rightarrow>
      (case bare_digest ref of None \<Rightarrow> [] | Some dg \<Rightarrow> if dg = [] then [] else [(day, dg)]))"
    by (simp add: runs_def digest_on_def assms(2) split: option.split)
  then show ?thesis unfolding r' note_fold [OF ran_on_ok [OF assms(1,2)]]
    using assms(5) by (auto simp: note_digest_def map_of_update streak_snoc assms(4) split: option.split)
qed

lemma refresh_new_day:
  assumes "fold_sum (refresh_day S t0) r (d # days) = Inr r'" and "case t0 of None \<Rightarrow> True | Some t \<Rightarrow> t < d"
  obtains delivered r1 where "ran_on S d = Inr delivered" "update_record r delivered d = Inr r1" "fold_sum (refresh_day S t0) r1 days = Inr r'"
proof -
  obtain r1 where r1: "refresh_day S t0 r d = Inr r1" "fold_sum (refresh_day S t0) r1 days = Inr r'"
    using assms(1) by (auto split: sum.splits)
  then have "and_then (ran_on S d) (\<lambda>delivered. update_record r delivered d) = Inr r1"
    using assms(2) by (simp add: refresh_day_def)
  then show ?thesis using r1(2) that unfolding and_then_Inr by blast
qed

lemma refresh_fold:
  assumes "shadow_ok S" and "fold_sum (refresh_day S t0) r days = Inr r'" and "\<forall>d \<in> set days. take 10 d = d \<and> (case t0 of None \<Rightarrow> True | Some t \<Rightarrow> t < d)"
    and "map_of (hotkeys r) hk = streak rs"
  shows "map_of (hotkeys r') hk = streak (rs @ runs S hk days)"
  using assms(2-4)
proof (induction days arbitrary: r rs)
  case (Cons d days)
  have new: "case t0 of None \<Rightarrow> True | Some t \<Rightarrow> t < d" "take 10 d = d" using Cons.prems(2) by simp_all
  obtain delivered r1 where s: "ran_on S d = Inr delivered" "update_record r delivered d = Inr r1" "fold_sum (refresh_day S t0) r1 days = Inr r'"
    using refresh_new_day [OF Cons.prems(1) new(1)] .
  have "map_of (hotkeys r1) hk = streak (rs @ runs S hk [d])" by (rule update_streak [OF assms(1) s(1,2) new(2) Cons.prems(3)])
  from Cons.IH [OF s(3) _ this] Cons.prems(2) show ?case by (simp add: runs_def)
qed (simp add: runs_def)

lemma refresh_through:
  assumes "fold_sum (refresh_day S t0) r days = Inr r'" and "\<forall>d \<in> set days. take 10 d = d \<and> d \<noteq> [] \<and> (case t0 of None \<Rightarrow> True | Some t \<Rightarrow> t < d)"
  shows "(\<forall>d \<in> set days. \<exists>t. through r' = Some t \<and> d \<le> t) \<and> (\<forall>u. through r = Some u \<longrightarrow> (\<exists>t. through r' = Some t \<and> u \<le> t)) \<and>
    (days = [] \<longrightarrow> r' = r) \<and> removed r' = removed r \<and> by_day r' = by_day r"
  using assms
proof (induction days arbitrary: r)
  case (Cons d days)
  have new: "case t0 of None \<Rightarrow> True | Some t \<Rightarrow> t < d" "take 10 d = d" "d \<noteq> []" using Cons.prems(2) by simp_all
  obtain delivered r1 where s: "update_record r delivered d = Inr r1" "fold_sum (refresh_day S t0) r1 days = Inr r'"
    using refresh_new_day [OF Cons.prems(1) new(1)] .
  have r1: "(\<exists>t. through r1 = Some t \<and> d \<le> t) \<and> (\<forall>u. through r = Some u \<longrightarrow> (\<exists>t. through r1 = Some t \<and> u \<le> t)) \<and>
      removed r1 = removed r \<and> by_day r1 = by_day r"
    using s(1) new(2,3) by (cases "through r") (auto simp: update_record_def split: if_splits)
  with Cons.IH [OF s(2)] Cons.prems(2) show ?case by (auto intro: order_trans)
qed simp

lemma refresh_skips:
  "fold_sum (refresh_day S t0) r days = fold_sum (refresh_day S t0) r (filter (\<lambda>d. case t0 of None \<Rightarrow> True | Some t \<Rightarrow> t < d) days)"
  by (induction days arbitrary: r) (auto simp: refresh_day_def split: sum.split)

lemma sorted_split:
  fixes t :: string
  shows "sorted ds \<Longrightarrow> filter (\<lambda>d. d \<le> t) ds @ filter (\<lambda>d. t < d) ds = ds"
proof (induction ds)
  case (Cons d ds)
  have "filter (\<lambda>d. d \<le> t) ds = []" if "t < d" using that Cons.prems by (auto simp: filter_empty_conv not_le intro: less_le_trans)
  then show ?case using Cons by (auto simp: not_le)
qed simp

lemma old_and_new_days:
  "filter (\<lambda>d. case t of None \<Rightarrow> False | Some u \<Rightarrow> d \<le> u) (shadow_days S) @
   filter (\<lambda>d. case t of None \<Rightarrow> True | Some u \<Rightarrow> u < d) (shadow_days S) = shadow_days S"
  by (cases t) (simp_all add: sorted_split shadow_days_def)

lemma new_day_names:
  "\<forall>d \<in> set (filter (\<lambda>d. case t of None \<Rightarrow> True | Some u \<Rightarrow> u < d) (shadow_days S)).
    take 10 d = d \<and> d \<noteq> [] \<and> (case t of None \<Rightarrow> True | Some u \<Rightarrow> u < d)"
  using day_names by auto

lemma refresh_as_fold:
  "refresh_record S file = Inr r \<Longrightarrow> fold_sum (refresh_day S (through (load_record file))) (load_record file)
     (filter (\<lambda>d. case through (load_record file) of None \<Rightarrow> True | Some u \<Rightarrow> u < d) (shadow_days S)) = Inr r"
  using refresh_skips by (simp add: refresh_record_def)

lemma refreshed_streak:
  assumes "shadow_ok S" and "counts_ok S (load_record file)" and "refresh_record S file = Inr r"
  shows "map_of (hotkeys r) hk = streak (runs S hk (shadow_days S))"
proof -
  let ?t0 = "through (load_record file)"
  let ?new = "filter (\<lambda>d. case ?t0 of None \<Rightarrow> True | Some t \<Rightarrow> t < d) (shadow_days S)"
  let ?old = "filter (\<lambda>d. case ?t0 of None \<Rightarrow> False | Some t \<Rightarrow> d \<le> t) (shadow_days S)"
  have "map_of (hotkeys (load_record file)) hk = streak (runs S hk ?old)" using assms(2) by (simp add: counts_ok_def)
  from refresh_fold [OF assms(1) refresh_as_fold [OF assms(3)] _ this] new_day_names
  have "map_of (hotkeys r) hk = streak (runs S hk ?old @ runs S hk ?new)" by blast
  moreover have "runs S hk ?old @ runs S hk ?new = runs S hk (?old @ ?new)" by (simp add: runs_def)
  ultimately show ?thesis by (simp only: old_and_new_days)
qed

lemma refreshed_through:
  assumes "refresh_record S file = Inr r" and "d \<in> set (shadow_days S)"
  shows "case through r of None \<Rightarrow> False | Some t \<Rightarrow> d \<le> t"
proof -
  let ?t0 = "through (load_record file)"
  let ?new = "filter (\<lambda>d. case ?t0 of None \<Rightarrow> True | Some t \<Rightarrow> t < d) (shadow_days S)"
  note th = refresh_through [OF refresh_as_fold [OF assms(1)] new_day_names]
  show ?thesis
  proof (cases "d \<in> set ?new")
    case True
    then show ?thesis using th by force
  next
    case False
    then have "d \<in> set (filter (\<lambda>d. case ?t0 of None \<Rightarrow> False | Some t \<Rightarrow> d \<le> t) (shadow_days S))"
      using assms(2) old_and_new_days [of ?t0 S] by (metis Un_iff set_append)
    then obtain t where t: "?t0 = Some t" "d \<le> t" by (auto split: option.splits)
    then obtain u where "through r = Some u" "t \<le> u" using th by blast
    then show ?thesis using t(2) by simp
  qed
qed

text \<open>The incremental count is the recount: bringing the saved record up to date gives, for every
  hotkey, its current streak over the whole ledger, the digest it last delivered predictions with
  and the first day of the unbroken series of its runs with that digest (days it did not run do not
  break the series). The record of a refresh is again a correct one.\<close>

theorem um_refresh_is_recount:
  assumes "shadow_ok S" and "counts_ok S (load_record file)" and "refresh_record S file = Inr r"
  shows "map_of (hotkeys r) hk = streak (runs S hk (shadow_days S)) \<and> counts_ok S r"
proof -
  have "filter (\<lambda>d. case through r of None \<Rightarrow> False | Some t \<Rightarrow> d \<le> t) (shadow_days S) = shadow_days S"
    using refreshed_through [OF assms(3)] by (simp add: filter_id_conv)
  then have "counts_ok S r" unfolding counts_ok_def using refreshed_streak [OF assms] by simp
  then show ?thesis using refreshed_streak [OF assms] by blast
qed

text \<open>A model that ran on one day, the rule in force forty days later.\<close>

definition sample_shadow :: shadow where
  "sample_shadow = [(''2026-10-01'', \<lparr>sd_marker = None, sd_plan = None, sd_files = [(''a'', [JDict
     [(''image_digest'', JStr ''sha256:aa''), (''predictions_out'', JNum 5)]])]\<rparr>)]"

lemma sample_days: "shadow_days sample_shadow = [''2026-10-01'']"
  by (simp add: sample_shadow_def shadow_days_def is_day_name_def is_digit_def subnet_ran_def day_of_def)

lemma sample_runs: "runs sample_shadow ''a'' [''2026-10-01''] = [(''2026-10-01'', ''sha256:aa'')]"
  by (simp add: runs_def digest_on_def ran_on_def day_files_def sample_shadow_def day_of_def ran_line_def jget_JDict
      opt_string_def count_positive_def truthy_def bare_digest_def)

theorem um_refresh_is_recount_witness:
  "\<exists>r. refresh_record sample_shadow None = Inr r \<and> map_of (hotkeys r) ''a'' = Some \<lparr>ds_digest = ''sha256:aa'', ds_since = ''2026-10-01''\<rparr>"
proof -
  have "refresh_record sample_shadow None = Inr (projr (refresh_record sample_shadow None))" by code_simp
  then obtain r where r: "refresh_record sample_shadow None = Inr r" by blast
  have "shadow_ok sample_shadow" by (simp add: shadow_ok_def sample_shadow_def day_of_def empty_day_def)
  moreover have "counts_ok sample_shadow (load_record None)" by (simp add: counts_ok_def load_record_def empty_record_def runs_def streak_def)
  ultimately have "map_of (hotkeys r) ''a'' = streak (runs sample_shadow ''a'' (shadow_days sample_shadow))"
    using um_refresh_is_recount [OF _ _ r] by blast
  then show ?thesis using r by (simp add: sample_days sample_runs streak_def)
qed

section \<open>Removal\<close>

definition record_ok :: "unchanged_record \<Rightarrow> bool" where
  "record_ok r \<longleftrightarrow> dict_ok (hotkeys r) \<and> dict_ok (removed r) \<and> dict_ok (by_day r)"

lemma removal_step_pair: "removal_step r as_of out (hk, ref) =
    map_sum id (\<lambda>v. case v of None \<Rightarrow> out | Some reason \<Rightarrow> out @ [(hk, reason)]) (removal_of r as_of hk ref)"
  by (simp add: removal_step_def)

lemma removal_lookup:
  assumes "to_remove r active as_of = Inr out" and "dict_ok active"
  shows "dict_ok out" "map_of active hk = None \<Longrightarrow> map_of out hk = None"
    "map_of active hk = Some ref \<Longrightarrow> removal_of r as_of hk ref = Inr (map_of out hk)"
proof -
  let ?f = "removal_step r as_of"
  have "\<exists>new. out = acc @ new \<and> dict_ok new \<and> fst ` set new \<subseteq> fst ` set active \<and>
      (case map_of active hk of None \<Rightarrow> True | Some ref \<Rightarrow> removal_of r as_of hk ref = Inr (map_of new hk))"
    if "fold_sum ?f acc active = Inr out" "dict_ok active" for acc active
    using that
  proof (induction active arbitrary: acc)
    case (Cons x active)
    obtain k ref where x: "x = (k, ref)" by (cases x)
    obtain v where v: "removal_of r as_of k ref = Inr v"
      "fold_sum ?f (case v of None \<Rightarrow> acc | Some reason \<Rightarrow> acc @ [(k, reason)]) active = Inr out"
      using Cons.prems(1) by (cases "removal_of r as_of k ref") (simp_all add: x removal_step_pair)
    have k: "k \<notin> fst ` set active" "dict_ok active" using Cons.prems(2) by (simp_all add: x)
    from Cons.IH [OF v(2) k(2)] obtain new where
      new: "out = (case v of None \<Rightarrow> acc | Some reason \<Rightarrow> acc @ [(k, reason)]) @ new" "dict_ok new" "fst ` set new \<subseteq> fst ` set active"
        "case map_of active hk of None \<Rightarrow> True | Some ref \<Rightarrow> removal_of r as_of hk ref = Inr (map_of new hk)" by blast
    have none: "map_of new k = None" using k(1) new(3) by (auto simp: map_of_None_iff)
    show ?case
    proof (cases v)
      case None
      then show ?thesis using new v(1) none by (intro exI [of _ new]) (auto simp: x)
    next
      case (Some reason)
      then show ?thesis using new v(1) none k(1) by (intro exI [of _ "(k, reason) # new"]) (auto simp: x split: option.splits)
    qed
  qed simp
  from this [of "[]" active] obtain new where new: "out = new" "dict_ok new" "fst ` set new \<subseteq> fst ` set active"
      "case map_of active hk of None \<Rightarrow> True | Some ref \<Rightarrow> removal_of r as_of hk ref = Inr (map_of new hk)"
    using assms by (auto simp: to_remove_def)
  show "dict_ok out" using new by simp
  show "map_of active hk = None \<Longrightarrow> map_of out hk = None" using new(1,3) by (auto simp: map_of_None_iff)
  show "map_of active hk = Some ref \<Longrightarrow> removal_of r as_of hk ref = Inr (map_of out hk)" using new(1,4) by simp
qed

lemma streak_member: "streak rs = Some e \<Longrightarrow> ds_since e \<in> fst ` set rs"
proof -
  assume e: "streak rs = Some e"
  then have "rs \<noteq> []" by (auto simp: streak_def)
  then obtain rs' x where rs: "rs = rs' @ [x]" by (metis rev_exhaust)
  let ?T = "takeWhile (\<lambda>r. snd r = snd x) (rev rs)"
  have "last ?T \<in> set ?T" by (rule last_in_set) (simp add: rs)
  then have "last ?T \<in> set rs" using set_takeWhileD by fastforce
  moreover have "ds_since e = fst (last ?T)" using e by (auto simp: streak_def rs)
  ultimately show ?thesis by simp
qed

lemma runs_days: "fst ` set (runs S hk days) \<subseteq> set days"
  by (auto simp: runs_def split: option.splits)

lemma mark_keeps: "map_of rms dg = Some rm \<Longrightarrow> map_of (foldl (mark_removed active as_of) rms hks) dg = Some rm"
proof (induction hks arbitrary: rms)
  case (Cons hk hks)
  have "map_of (mark_removed active as_of rms hk) dg = Some rm"
    using Cons.prems by (auto simp: mark_removed_def map_of_update split: option.split)
  then show ?case using Cons.IH by simp
qed simp

lemma mark_marks:
  assumes "hk \<in> set hks" "map_of active hk = Some ref" "bare_digest ref = Some dg"
  shows "map_of (foldl (mark_removed active as_of) rms hks) dg \<noteq> None"
  using assms(1)
proof (induction hks arbitrary: rms)
  case (Cons k hks)
  show ?case
  proof (cases "k = hk")
    case True
    have "\<exists>rm. map_of (mark_removed active as_of rms hk) dg = Some rm"
      using assms(2,3) by (auto simp: mark_removed_def map_of_update)
    then show ?thesis using mark_keeps True by fastforce
  next
    case False
    then show ?thesis using Cons by simp
  qed
qed simp

lemma mark_ok: "dict_ok rms \<Longrightarrow> dict_ok (foldl (mark_removed active as_of) rms hks)"
  by (rule foldl_invariant) (auto simp: mark_removed_def split: option.split)

lemma note_ok: "dict_ok hks \<Longrightarrow> dict_ok (foldl (note_digest day) hks delivered)"
  by (rule foldl_invariant) (auto simp: note_digest_def split: option.split)

lemma refresh_keeps:
  assumes "refresh_record S file = Inr r"
  shows "removed r = removed (load_record file)" "by_day r = by_day (load_record file)"
    "record_ok (load_record file) \<Longrightarrow> record_ok r"
proof -
  have step: "removed r1 = removed r0 \<and> by_day r1 = by_day r0 \<and> (record_ok r0 \<longrightarrow> record_ok r1)"
    if day: "refresh_day S t0 r0 d = Inr r1" for t0 r0 r1 d
  proof (cases "r1 = r0")
    case False
    then obtain delivered where "update_record r0 delivered d = Inr r1"
      using day by (auto simp: refresh_day_def and_then_Inr split: if_splits)
    then show ?thesis by (auto simp: update_record_def record_ok_def intro: note_ok split: list.splits)
  qed simp
  have "removed r = removed r0 \<and> by_day r = by_day r0 \<and> (record_ok r0 \<longrightarrow> record_ok r)"
    if "fold_sum (refresh_day S t0) r0 days = Inr r" for t0 r0 days
    using that
  proof (induction days arbitrary: r0)
    case (Cons d days)
    then obtain r1 where "refresh_day S t0 r0 d = Inr r1" "fold_sum (refresh_day S t0) r1 days = Inr r"
      by (auto split: sum.splits)
    then show ?case using step Cons.IH by fastforce
  qed simp
  from this [OF assms [unfolded refresh_record_def]] show
    "removed r = removed (load_record file)" "by_day r = by_day (load_record file)"
    "record_ok (load_record file) \<Longrightarrow> record_ok r" by simp_all
qed

lemma saved:
  assumes "record_ok r"
  shows "record_ok (load_record (save_record r))" "map_of (hotkeys (load_record (save_record r))) = map_of (hotkeys r)"
    "map_of (removed (load_record (save_record r))) = map_of (removed r)" "map_of (by_day (load_record (save_record r))) = map_of (by_day r)"
    "through (load_record (save_record r)) = through r"
  using assms by (simp_all add: record_ok_def save_record_def load_record_def dict_ok_sort map_of_sort)

text \<open>What a day's step leaves.\<close>

lemma apply_removals_parts:
  assumes "apply_removals S file active as_of environ = Inr (file', out)" and "record_ok (load_record file)" and "dict_ok active"
  obtains r where "refresh_record S file = Inr r" "(if enabled as_of environ then to_remove r active as_of else Inr []) = Inr out"
    "record_ok (load_record file')" "dict_ok out"
    "map_of (removed (load_record file')) = map_of (foldl (mark_removed active as_of) (removed (load_record file)) (keys out))"
    "out \<noteq> [] \<Longrightarrow> map_of (by_day (load_record file')) (take 10 as_of) = Some (sort (keys out))"
    "map_of (hotkeys (load_record file')) = map_of (hotkeys r)" "through (load_record file') = through r"
proof -
  obtain r days where p: "refresh_record S file = Inr r" "(if enabled as_of environ then to_remove r active as_of else Inr []) = Inr out"
    "keep_days as_of (by_day r) = Inr days"
    "file' = save_record (r\<lparr>removed := foldl (mark_removed active as_of) (removed r) (keys out),
        by_day := (if out \<noteq> [] then AList.update (take 10 as_of) (sort (keys out)) days else days)\<rparr>)"
    using assms(1) by (auto simp: apply_removals_def and_then_Inr)
  define r' where "r' = r\<lparr>removed := foldl (mark_removed active as_of) (removed r) (keys out),
        by_day := (if out \<noteq> [] then AList.update (take 10 as_of) (sort (keys out)) days else days)\<rparr>"
  note k = refresh_keeps [OF p(1)]
  have r: "dict_ok (hotkeys r)" "dict_ok (removed r)" "dict_ok (by_day r)" using k(3) assms(2) by (simp_all add: record_ok_def)
  have "dict_ok days" using p(3) r(3) by (auto simp: keep_days_def distinct_map_filter split: if_splits option.splits)
  then have "record_ok r'" using r mark_ok [OF r(2)] unfolding record_ok_def r'_def by (auto intro: dict_ok_update)
  note saved [OF this, folded p(4) [folded r'_def]]
  moreover have "removed r' = foldl (mark_removed active as_of) (removed (load_record file)) (keys out)"
    "hotkeys r' = hotkeys r" "through r' = through r" by (simp_all add: r'_def k(1))
  moreover have "map_of (by_day r') (take 10 as_of) = Some (sort (keys out))" if "out \<noteq> []"
    using that by (simp add: r'_def map_of_update)
  moreover have "dict_ok out" using p(2) removal_lookup(1) assms(3) by (auto split: if_splits)
  ultimately show ?thesis using that p(1,2) by simp
qed

lemma removal_of_unchanged:
  "removal_of r as_of hk ref = Inr (Some Unchanged) \<longleftrightarrow> (\<exists>e st. bare_digest ref = Some (ds_digest e) \<and>
     map_of (removed r) (ds_digest e) = None \<and> map_of (hotkeys r) hk = Some e \<and>
     unchanged_standing_of (Some e) as_of = Inr (Some st) \<and> us_removal_on st \<le> take 10 as_of)"
proof (cases "map_of (hotkeys r) hk")
  case None
  then show ?thesis by (simp add: removal_of_def Let_def)
next
  case (Some e)
  then show ?thesis
    by (cases "bare_digest ref = Some (ds_digest e)") (auto simp: removal_of_def Let_def split: option.splits)
qed

definition sample_env :: environ where
  "sample_env name = (if name = ''SN21_UNCHANGED_REMOVAL_FROM'' then Some ''2026-11-10'' else None)"

lemma sample_iso: "isoformat 739890 = ''2026-10-01''" "isoformat 739930 = ''2026-11-10''"
  by code_simp+

lemma sample_applied:
  "\<not> isl (apply_removals sample_shadow None [(''a'', ''sha256:aa'')] ''2026-11-10'' sample_env)"
  by code_simp

lemma unchanged_after_forty:
  assumes count: "map_of (hotkeys r) hk = streak (runs S hk (shadow_days S))" and "valid_day today"
    and "\<forall>d \<in> set (shadow_days S). \<exists>n. d = isoformat n \<and> valid_day n \<and> valid_day (n + 40)"
  shows "removal_of r (isoformat today) hk ref = Inr (Some Unchanged) \<longleftrightarrow>
      (\<exists>dg n. bare_digest ref = Some dg \<and> map_of (removed r) dg = None \<and>
       streak (runs S hk (shadow_days S)) = Some \<lparr>ds_digest = dg, ds_since = isoformat n\<rparr> \<and> valid_day n \<and> n + 40 \<le> today)"
proof -
  have ten: "take 10 (isoformat today) = isoformat today" by (simp add: isoformat_def Let_def four_digits_def two_digits_def)
  have since: "\<exists>n. ds_since e = isoformat n \<and> valid_day n \<and> valid_day (n + 40)" if "streak (runs S hk (shadow_days S)) = Some e" for e
    using streak_member [OF that] runs_days [of S hk "shadow_days S"] assms(3) by blast
  show ?thesis
  proof (cases "streak (runs S hk (shadow_days S))")
    case None
    then show ?thesis by (auto simp: removal_of_def count Let_def split: if_splits)
  next
    case (Some e)
    obtain n where n: "ds_since e = isoformat n" "valid_day n" "valid_day (n + 40)" using since [OF Some] by blast
    have e: "e = \<lparr>ds_digest = dg, ds_since = isoformat k\<rparr> \<and> valid_day k \<longleftrightarrow> ds_digest e = dg \<and> k = n" for dg k
    proof -
      have "e = \<lparr>ds_digest = dg, ds_since = isoformat k\<rparr> \<longleftrightarrow> ds_digest e = dg \<and> isoformat n = isoformat k"
        unfolding n(1) [symmetric] by (cases e) simp
      then show ?thesis using isoformat_inj [OF n(2), of k] n(2) by metis
    qed
    have st: "unchanged_standing_of (Some e) (isoformat today) = Inr (Some \<lparr>us_digest_since = n,
        us_days_unchanged = max 0 (today - n + 1), us_removal_on = isoformat (n + 40)\<rparr>)"
      using n assms(2) by (simp add: unchanged_standing_of_def ten isoformat_nonempty fromisoformat_isoformat max_days_def)
    have "removal_of r (isoformat today) hk ref = Inr (Some Unchanged) \<longleftrightarrow>
        bare_digest ref = Some (ds_digest e) \<and> map_of (removed r) (ds_digest e) = None \<and> n + 40 \<le> today"
      unfolding removal_of_unchanged count Some ten isoformat_le [OF n(3) assms(2), symmetric] using st by auto
    moreover have "e = \<lparr>ds_digest = dg, ds_since = isoformat k\<rparr> \<and> valid_day k \<and> C \<longleftrightarrow> ds_digest e = dg \<and> k = n \<and> C" for dg k C
      using e [of dg k] by blast
    ultimately show ?thesis unfolding Some option.inject by (simp only:) blast
  qed
qed

text \<open>C24. A model is removed for running unchanged exactly when the rule is in force, its digest was not
  removed before, and the hotkey's current streak is with that digest and began at least forty days
  before: a hotkey that changed its model in the last forty days, or whose new model has not run
  yet, is never removed by the count.\<close>

theorem um_removed_after_forty_days:
  assumes "shadow_ok S" and "counts_ok S (load_record file)" and "record_ok (load_record file)" and "dict_ok active"
    and "apply_removals S file active (isoformat today) environ = Inr (file', out)"
    and "valid_day today" and "\<forall>d \<in> set (shadow_days S). \<exists>n. d = isoformat n \<and> valid_day n \<and> valid_day (n + 40)"
  shows "map_of out hk = Some Unchanged \<longleftrightarrow> enabled (isoformat today) environ \<and>
    (\<exists>ref dg n. map_of active hk = Some ref \<and> bare_digest ref = Some dg \<and> map_of (removed (load_record file)) dg = None \<and>
       streak (runs S hk (shadow_days S)) = Some \<lparr>ds_digest = dg, ds_since = isoformat n\<rparr> \<and> valid_day n \<and> n + 40 \<le> today)"
proof -
  obtain r where r: "refresh_record S file = Inr r"
    "(if enabled (isoformat today) environ then to_remove r active (isoformat today) else Inr []) = Inr out"
    by (rule apply_removals_parts [OF assms(5,3,4)])
  note count = refreshed_streak [OF assms(1,2) r(1)]
  have one: "removal_of r (isoformat today) hk ref = Inr (Some Unchanged) \<longleftrightarrow>
      (\<exists>dg n. bare_digest ref = Some dg \<and> map_of (removed (load_record file)) dg = None \<and>
       streak (runs S hk (shadow_days S)) = Some \<lparr>ds_digest = dg, ds_since = isoformat n\<rparr> \<and> valid_day n \<and> n + 40 \<le> today)" for ref
    using unchanged_after_forty [OF count assms(6,7), of hk ref] refresh_keeps(1) [OF r(1)] by simp
  show ?thesis
  proof (cases "enabled (isoformat today) environ")
    case True
    then have "to_remove r active (isoformat today) = Inr out" using r(2) by simp
    note l = removal_lookup(2,3) [OF this assms(4), of hk]
    show ?thesis
    proof (cases "map_of active hk")
      case None
      then show ?thesis using l(1) by simp
    next
      case (Some ref)
      have "map_of out hk = Some Unchanged \<longleftrightarrow> removal_of r (isoformat today) hk ref = Inr (Some Unchanged)"
        unfolding l(2) [OF Some] by simp
      then show ?thesis unfolding one Some option.inject using True by simp
    qed
  next
    case False
    then show ?thesis using r(2) by simp
  qed
qed

theorem um_removed_after_forty_days_witness:
  "\<exists>file' out. apply_removals sample_shadow None [(''a'', ''sha256:aa'')] ''2026-11-10'' sample_env = Inr (file', out) \<and>
    map_of out ''a'' = Some Unchanged"
proof -
  obtain file' out where o: "apply_removals sample_shadow None [(''a'', ''sha256:aa'')] (isoformat 739930) sample_env = Inr (file', out)"
    using sample_applied by (cases "apply_removals sample_shadow None [(''a'', ''sha256:aa'')] ''2026-11-10'' sample_env") (auto simp: sample_iso)
  have "shadow_ok sample_shadow" by (simp add: shadow_ok_def sample_shadow_def day_of_def empty_day_def)
  moreover have "counts_ok sample_shadow (load_record None)" by (simp add: counts_ok_def load_record_def empty_record_def runs_def streak_def)
  moreover have "record_ok (load_record None)" by (simp add: record_ok_def load_record_def empty_record_def)
  moreover have "\<forall>d \<in> set (shadow_days sample_shadow). \<exists>n. d = isoformat n \<and> valid_day n \<and> valid_day (n + 40)"
    by (auto simp: sample_days valid_day_def sample_iso intro!: exI [of _ 739890])
  ultimately have "map_of out ''a'' = Some Unchanged \<longleftrightarrow> enabled (isoformat 739930) sample_env \<and>
    (\<exists>ref dg n. map_of [(''a'', ''sha256:aa'')] ''a'' = Some ref \<and> bare_digest ref = Some dg \<and> map_of (removed (load_record None)) dg = None \<and>
       streak (runs sample_shadow ''a'' (shadow_days sample_shadow)) = Some \<lparr>ds_digest = dg, ds_since = isoformat n\<rparr> \<and> valid_day n \<and> n + 40 \<le> 739930)"
    using o by (intro um_removed_after_forty_days) (simp_all add: valid_day_def)
  moreover have "enabled (isoformat 739930) sample_env" unfolding sample_iso by code_simp
  moreover have "streak (runs sample_shadow ''a'' (shadow_days sample_shadow)) = Some \<lparr>ds_digest = ''sha256:aa'', ds_since = isoformat 739890\<rparr>"
    by (simp add: sample_days sample_runs streak_def sample_iso)
  ultimately have "map_of out ''a'' = Some Unchanged"
    by (auto simp: bare_digest_def valid_day_def load_record_def empty_record_def intro!: exI [of _ "739890::int"])
  then show ?thesis using o by (auto simp: sample_iso)
qed

text \<open>The steps of later days, and what they keep.\<close>

definition later_steps ::
    "unchanged_record option \<Rightarrow> (shadow \<times> (hotkey, string) dict \<times> string \<times> environ) list \<Rightarrow> py_error + unchanged_record option" where
  "later_steps file steps = fold_sum (\<lambda>f (S, active, as_of, environ). map_sum id fst (apply_removals S f active as_of environ)) file steps"

lemma removed_kept:
  assumes "apply_removals S file active as_of environ = Inr (file', out)" and "record_ok (load_record file)" and "dict_ok active"
  shows "map_of (removed (load_record file)) dg = Some rm \<Longrightarrow> map_of (removed (load_record file')) dg = Some rm"
    and "record_ok (load_record file')"
  by (rule apply_removals_parts [OF assms]; simp add: mark_keeps)+

lemma later_kept:
  assumes "later_steps f0 steps = Inr file'" and "record_ok (load_record f0)" and "\<forall>(S, active, as_of, environ) \<in> set steps. dict_ok active"
  shows "(map_of (removed (load_record f0)) dg = Some rm \<longrightarrow> map_of (removed (load_record file')) dg = Some rm) \<and> record_ok (load_record file')"
  using assms
proof (induction steps arbitrary: f0)
  case (Cons x steps)
  obtain S active as_of environ where x: "x = (S, active, as_of, environ)" by (cases x)
  obtain f1 out where s: "apply_removals S f0 active as_of environ = Inr (f1, out)" "later_steps f1 steps = Inr file'"
    using Cons.prems(1) by (cases "apply_removals S f0 active as_of environ") (auto simp: later_steps_def x)
  have ok: "dict_ok active" using Cons.prems(3) by (simp add: x)
  note k = removed_kept [OF s(1) Cons.prems(2) ok]
  then show ?case using Cons.IH [OF s(2) k(2)] Cons.prems(3) by simp
qed (simp add: later_steps_def)

text \<open>A removed digest is never run again, by any hotkey: whatever days follow, once a hotkey was
  removed, every hotkey whose active model has that digest is on the list of every later day on which
  the rule is in force, and it is among the removed hotkeys of that day, which are neither charged
  for absence nor seated.\<close>

theorem um_removed_for_ever:
  assumes "apply_removals S file active as_of environ = Inr (file1, out)" and "record_ok (load_record file)" and "dict_ok active"
    and "map_of out hk \<noteq> None" and "map_of active hk = Some ref" and "bare_digest ref = Some dg"
    and "later_steps file1 steps = Inr file2" and "\<forall>(S, active, as_of, environ) \<in> set steps. dict_ok active"
    and "apply_removals S' file2 active' as_of' environ' = Inr (file3, out')" and "enabled as_of' environ'" and "dict_ok active'"
    and "map_of active' hk' = Some ref'" and "bare_digest ref' = Some dg"
  shows "map_of out' hk' = Some RemovedDigest \<and> hk' \<in> removed_hotkeys file3 as_of'"
proof -
  have "map_of (removed (load_record file1)) dg \<noteq> None"
  proof (rule apply_removals_parts [OF assms(1-3)])
    assume "map_of (removed (load_record file1)) = map_of (foldl (mark_removed active as_of) (removed (load_record file)) (keys out))"
    moreover have "hk \<in> set (keys out)" using assms(4) by (auto simp: map_of_None_iff)
    ultimately show ?thesis using mark_marks [OF _ assms(5,6)] by simp
  qed
  then obtain rm where rm: "map_of (removed (load_record file1)) dg = Some rm" by blast
  have ok1: "record_ok (load_record file1)" by (rule removed_kept(2) [OF assms(1-3)])
  have rm2: "map_of (removed (load_record file2)) dg = Some rm" and ok2: "record_ok (load_record file2)"
    using later_kept [OF assms(7) ok1 assms(8)] rm by blast+
  have out': "map_of out' hk' = Some RemovedDigest \<and> (out' \<noteq> [] \<longrightarrow> map_of (by_day (load_record file3)) (take 10 as_of') = Some (sort (keys out')))"
  proof (rule apply_removals_parts [OF assms(9) ok2 assms(11)])
    fix r assume r: "refresh_record S' file2 = Inr r" "(if enabled as_of' environ' then to_remove r active' as_of' else Inr []) = Inr out'"
      and bd: "out' \<noteq> [] \<Longrightarrow> map_of (by_day (load_record file3)) (take 10 as_of') = Some (sort (keys out'))"
    have tr: "to_remove r active' as_of' = Inr out'" using r(2) assms(10) by simp
    have "removal_of r as_of' hk' ref' = Inr (Some RemovedDigest)"
      using rm2 refresh_keeps(1) [OF r(1)] assms(13) by (simp add: removal_of_def Let_def)
    then show ?thesis using removal_lookup(3) [OF tr assms(11,12)] bd by simp
  qed
  then have "hk' \<in> set (keys out')" by (metis map_of_in_keys list.set_map)
  then have "out' \<noteq> []" "hk' \<in> set (sort (keys out'))" by auto
  then show ?thesis using out' by (simp add: removed_hotkeys_def Let_def)
qed


definition sample_first :: "py_error + unchanged_record option \<times> (hotkey, removal_reason) dict" where
  "sample_first = apply_removals sample_shadow None [(''a'', ''sha256:aa'')] ''2026-11-10'' sample_env"

definition sample_again :: "py_error + unchanged_record option \<times> (hotkey, removal_reason) dict" where
  "sample_again = apply_removals sample_shadow (fst (projr sample_first)) [(''b'', ''r@sha256:aa'')] ''2026-11-11'' sample_env"

lemma sample_results: "sample_first = Inr (projr sample_first)" "sample_again = Inr (projr sample_again)"
  "map_of (snd (projr sample_first)) ''a'' = Some Unchanged"
  by code_simp+

theorem um_removed_for_ever_witness:
  "\<exists>file3 out'. sample_again = Inr (file3, out') \<and> map_of out' ''b'' = Some RemovedDigest \<and> ''b'' \<in> removed_hotkeys file3 ''2026-11-11''"
proof -
  obtain file1 out where f: "projr sample_first = (file1, out)" by (cases "projr sample_first")
  obtain file3 out' where g: "projr sample_again = (file3, out')" by (cases "projr sample_again")
  have r: "record_ok (load_record None)" by (simp add: record_ok_def load_record_def empty_record_def)
  have e: "enabled ''2026-11-11'' sample_env" by code_simp
  have one: "apply_removals sample_shadow None [(''a'', ''sha256:aa'')] ''2026-11-10'' sample_env = Inr (file1, out)"
    using sample_results(1) [unfolded f] by (simp add: sample_first_def)
  have two: "apply_removals sample_shadow file1 [(''b'', ''r@sha256:aa'')] ''2026-11-11'' sample_env = Inr (file3, out')"
    using sample_results(2) [unfolded g] by (simp add: sample_again_def f)
  have "later_steps file1 [] = Inr file1" by (simp add: later_steps_def)
  from um_removed_for_ever [OF one r _ _ _ _ this _ two e, of "''a''" "''sha256:aa''" "''sha256:aa''" "''b''" "''r@sha256:aa''"]
  have "map_of out' ''b'' = Some RemovedDigest \<and> ''b'' \<in> removed_hotkeys file3 ''2026-11-11''"
    using sample_results(3) by (simp add: f bare_digest_def)
  then show ?thesis using sample_results(2) g by auto
qed

end
