(* ===== verification/ModelEpoch.thy ===== *)
theory ModelEpoch
  imports UnchangedModels EpisodeAverage
begin

text \<open>
  Which model a hotkey runs and since when (\<open>hope/scoring/model_epoch.py\<close>). The boundary of a hotkey is
  read from the shadow ledger and kept in a file; entries predicted before it are discounted in the
  mean, in proportion to the evidence of the current model, and keep their weight.

  The file is a JSON object (\<open>None\<close> when missing or unreadable); a value that is not a date is skipped
  by the reader. The published statistics of the discount are part of the result; the texts in them
  that never change are left out.
\<close>

section \<open>The boundary\<close>

record model_since_entry =
  mse_digest :: string
  mse_since :: string
  mse_changes :: nat

definition model_since_window_days :: int where "model_since_window_days = 42"
definition model_change_default_gap :: int where "model_change_default_gap = 7"

definition model_change_min_gap_days :: "environ \<Rightarrow> int" where
  "model_change_min_gap_days environ = int_env_or environ ''SN21_MODEL_CHANGE_MIN_GAP_DAYS'' (\<lambda>v. 0 \<le> v) model_change_default_gap"

definition image_on :: "shadow \<Rightarrow> string \<Rightarrow> hotkey \<Rightarrow> string option" where
  "image_on S day hk = (case last_record S day hk of None \<Rightarrow> None | Some rec \<Rightarrow>
     (case opt_string (jget rec ''image_digest'') of None \<Rightarrow> None | Some dg \<Rightarrow> if dg = [] then None else Some dg))"

definition image_seq :: "shadow \<Rightarrow> hotkey \<Rightarrow> string list \<Rightarrow> (string \<times> string) list" where
  "image_seq S hk days = concat (map (\<lambda>d. case image_on S d hk of None \<Rightarrow> [] | Some g \<Rightarrow> [(d, g)]) days)"

text \<open>The days whose digest differs from that of the run before.\<close>

fun change_days :: "(string \<times> string) list \<Rightarrow> string list" where
  "change_days ((d0, g0) # (d1, g1) # rest) = (if g1 \<noteq> g0 then [d1] else []) @ change_days ((d1, g1) # rest)"
| "change_days _ = []"

text \<open>A change counts when it comes \<open>min_gap_days\<close> or more after the last counted one.\<close>

definition count_change :: "int \<Rightarrow> string list \<Rightarrow> string \<Rightarrow> py_error + string list" where
  "count_change min_gap_days counted d =
     (if counted = [] then Inr [d]
      else case (fromisoformat d, fromisoformat (last counted)) of
        (Some new, Some old) \<Rightarrow> Inr (if min_gap_days \<le> new - old then counted @ [d] else counted)
      | _ \<Rightarrow> Inl ValueError)"

definition boundary_of :: "int \<Rightarrow> string \<Rightarrow> (string \<times> string) list \<Rightarrow> py_error + string" where
  "boundary_of min_gap_days latest seq =
     map_sum id (\<lambda>counted. if counted \<noteq> [] then last counted else if seq \<noteq> [] then fst (hd seq) else latest)
       (fold_sum (count_change min_gap_days) [] (change_days seq))"

definition note_since ::
    "shadow \<Rightarrow> int \<Rightarrow> string list \<Rightarrow> string \<Rightarrow> (hotkey, model_since_entry) dict \<Rightarrow> hotkey \<Rightarrow> py_error + (hotkey, model_since_entry) dict" where
  "note_since S min_gap_days in_span latest out hk =
     (case image_on S latest hk of
        None \<Rightarrow> Inr out
      | Some current \<Rightarrow>
          (let seq = image_seq S hk in_span
           in map_sum id (\<lambda>since. AList.update hk \<lparr>mse_digest = current, mse_since = since, mse_changes = length (change_days seq)\<rparr> out)
                (boundary_of min_gap_days latest seq)))"

definition model_since_from_shadow ::
    "shadow \<Rightarrow> (hotkey, model_since_entry) dict \<Rightarrow> int \<Rightarrow> date option \<Rightarrow> int \<Rightarrow> py_error + (hotkey, model_since_entry) dict" where
  "model_since_from_shadow S previous window_days as_of min_gap_days =
     (let days = shadow_days S in
      if days = [] then Inr previous
      else case (case as_of of None \<Rightarrow> fromisoformat (last days) | Some d \<Rightarrow> Some d) of
        None \<Rightarrow> Inl ValueError
      | Some today \<Rightarrow>
          (let in_span = filter (\<lambda>d. isoformat (today - (window_days + min_gap_days)) \<le> d) days
           in fold_sum (note_since S min_gap_days in_span (last days)) previous (sort (keys (sd_files (day_of S (last days)))))))"

section \<open>The file\<close>

definition write_model_since :: "(hotkey, model_since_entry) dict \<Rightarrow> json \<times> nat" where
  "write_model_since mapping =
     (let out = map (\<lambda>(hk, rec). (hk, JDict [(''digest'', JStr (mse_digest rec)), (''since'', JStr (take 10 (mse_since rec))),
                  (''changes'', jnat (mse_changes rec))])) (filter (\<lambda>(hk, rec). mse_since rec \<noteq> []) mapping)
      in (JDict (sort_key fst out), length out))"

definition since_day :: "json \<Rightarrow> date option" where
  "since_day rec = (case opt_string (case rec of JDict _ \<Rightarrow> jget rec ''since'' | _ \<Rightarrow> rec) of
     None \<Rightarrow> None | Some s \<Rightarrow> fromisoformat (take 10 s))"

definition load_model_since :: "json option \<Rightarrow> (hotkey, date) dict" where
  "load_model_since doc = (case doc of None \<Rightarrow> [] | Some raw \<Rightarrow>
     concat (map (\<lambda>(hk, rec). case since_day rec of None \<Rightarrow> [] | Some d \<Rightarrow> [(hk, d)]) (json_fields raw)))"

section \<open>The discount\<close>

record ramp_row =
  rp_current_mass :: float
  rp_threshold_mass :: float
  rp_remaining_mass :: float
  rp_factor :: float
  rp_previous_entries :: nat

record discount_stats =
  dc_weight :: float
  dc_threshold_mass :: float
  dc_hotkeys_discounted :: "hotkey list"
  dc_factor :: "(hotkey, float) dict"
  dc_entries_discounted :: nat
  dc_ramp :: "(hotkey, ramp_row) dict"

definition prediction_day :: "scored_episode \<Rightarrow> date option" where
  "prediction_day ep = (case predicted_on ep of Some d \<Rightarrow> Some d | None \<Rightarrow> aged_from ep)"

text \<open>Is the entry one the current model made, or one of a replaced model; neither when its day is
  unknown or it is outside the window.\<close>

definition of_current :: "date \<Rightarrow> date \<Rightarrow> int \<Rightarrow> scored_episode \<Rightarrow> bool" where
  "of_current since as_of window ep \<longleftrightarrow> in_window as_of window ep \<and> (case prediction_day ep of None \<Rightarrow> False | Some d \<Rightarrow> since \<le> d)"

definition of_previous :: "date \<Rightarrow> date \<Rightarrow> int \<Rightarrow> scored_episode \<Rightarrow> bool" where
  "of_previous since as_of window ep \<longleftrightarrow> in_window as_of window ep \<and> (case prediction_day ep of None \<Rightarrow> False | Some d \<Rightarrow> d < since)"

definition current_mass :: "date \<Rightarrow> date \<Rightarrow> int \<Rightarrow> bool \<Rightarrow> scored_episode list \<Rightarrow> float" where
  "current_mass since as_of window real_entries_only eps =
     foldl (\<lambda>m ep. if of_current since as_of window ep \<and> \<not> (real_entries_only \<and> penalty ep) then fadd m (weight ep) else m) 0 eps"

definition ramp_factor :: "float \<Rightarrow> float \<Rightarrow> float \<Rightarrow> float" where
  "ramp_factor wgt threshold_mass mass =
     (let progress = (if 0 < threshold_mass then min 1 (fdiv mass threshold_mass) else 1)
      in fsub 1 (fmul (fsub 1 wgt) progress))"

definition discounted :: "float \<Rightarrow> scored_episode \<Rightarrow> scored_episode" where
  "discounted factor ep = ep\<lparr>discount := map_option (\<lambda>x. fmul x factor) (discount ep)\<rparr>"

definition empty_stats :: "float \<Rightarrow> float \<Rightarrow> discount_stats" where
  "empty_stats wgt threshold_mass = \<lparr>dc_weight = wgt, dc_threshold_mass = threshold_mass, dc_hotkeys_discounted = [],
     dc_factor = [], dc_entries_discounted = 0, dc_ramp = []\<rparr>"

definition discount_hotkey ::
    "(hotkey, date) dict \<Rightarrow> date \<Rightarrow> int \<Rightarrow> float \<Rightarrow> float \<Rightarrow> bool
      \<Rightarrow> (hotkey, scored_episode list) dict \<times> discount_stats \<Rightarrow> hotkey \<times> scored_episode list
      \<Rightarrow> (hotkey, scored_episode list) dict \<times> discount_stats" where
  "discount_hotkey model_since as_of window wgt threshold_mass real_entries_only acc item = (case (acc, item) of ((out, st), (hk, eps)) \<Rightarrow>
     (case map_of model_since hk of
        None \<Rightarrow> (out @ [(hk, eps)], st)
      | Some since \<Rightarrow>
          (let mass = current_mass since as_of window real_entries_only eps;
               previous = filter (of_previous since as_of window) eps;
               factor = ramp_factor wgt threshold_mass mass;
               row = \<lparr>rp_current_mass = fround 4 mass, rp_threshold_mass = threshold_mass,
                 rp_remaining_mass = fround 4 (max 0 (fsub threshold_mass mass)), rp_factor = fround 4 factor,
                 rp_previous_entries = length previous\<rparr>;
               st1 = st\<lparr>dc_ramp := dc_ramp st @ [(hk, row)]\<rparr>
           in if previous = [] \<or> 1 \<le> factor then (out @ [(hk, eps)], st1)
              else (out @ [(hk, map (\<lambda>ep. if of_previous since as_of window ep then discounted factor ep else ep) eps)],
                    st1\<lparr>dc_hotkeys_discounted := dc_hotkeys_discounted st1 @ [hk],
                      dc_factor := dc_factor st1 @ [(hk, fround 4 factor)],
                      dc_entries_discounted := dc_entries_discounted st1 + length previous\<rparr>))))"

definition apply_previous_model_discount ::
    "(hotkey, scored_episode list) dict \<Rightarrow> (hotkey, date) dict \<Rightarrow> date \<Rightarrow> int \<Rightarrow> float \<Rightarrow> float \<Rightarrow> bool
      \<Rightarrow> (hotkey, scored_episode list) dict \<times> discount_stats" where
  "apply_previous_model_discount entries model_since as_of window wgt threshold_mass real_entries_only =
     (case foldl (discount_hotkey model_since as_of window wgt threshold_mass real_entries_only) ([], empty_stats wgt threshold_mass) entries of
        (out, st) \<Rightarrow> (out, st\<lparr>dc_hotkeys_discounted := sort (dc_hotkeys_discounted st), dc_factor := sort_key fst (dc_factor st),
           dc_ramp := sort_key fst (dc_ramp st)\<rparr>))"



section \<open>Facts\<close>

lemma unit_steps:
  assumes "0 \<le> p" "p \<le> 1" "0 \<le> w" "w \<le> 1"
  shows "0 \<le> fsub 1 (fmul (fsub 1 w) p)" "fsub 1 (fmul (fsub 1 w) p) \<le> 1"
proof -
  have one: "fl 1 = 1" using is_float_1 by (simp add: is_float_def)
  have unit: "0 \<le> fl x \<and> fl x \<le> 1" if "0 \<le> x" "x \<le> 1" for x
    using fl_mono [OF that(1)] fl_mono [OF that(2)] by (simp add: one)
  have "0 \<le> fsub 1 w \<and> fsub 1 w \<le> 1" unfolding fsub_def using assms(3,4) by (intro unit) simp_all
  then have "0 \<le> fsub 1 w * p \<and> fsub 1 w * p \<le> 1" using assms(1,2) by (simp add: mult_le_one)
  then have "0 \<le> fmul (fsub 1 w) p \<and> fmul (fsub 1 w) p \<le> 1" unfolding fmul_def by (intro unit) simp_all
  then have "0 \<le> fsub 1 (fmul (fsub 1 w) p) \<and> fsub 1 (fmul (fsub 1 w) p) \<le> 1"
    unfolding fsub_def [of 1 "fmul (fsub 1 w) p"] by (intro unit) simp_all
  then show "0 \<le> fsub 1 (fmul (fsub 1 w) p)" "fsub 1 (fmul (fsub 1 w) p) \<le> 1" by blast+
qed

lemma ramp_factor_unit:
  assumes "0 \<le> mass" "0 \<le> wgt" "wgt \<le> 1"
  shows "0 \<le> ramp_factor wgt threshold_mass mass" "ramp_factor wgt threshold_mass mass \<le> 1"
proof -
  let ?p = "if 0 < threshold_mass then min 1 (fdiv mass threshold_mass) else 1"
  have "0 \<le> ?p \<and> ?p \<le> 1" using assms(1) by (simp add: fdiv_def fl_nonneg)
  then have p: "0 \<le> ?p" "?p \<le> 1" by blast+
  show "0 \<le> ramp_factor wgt threshold_mass mass" "ramp_factor wgt threshold_mass mass \<le> 1"
    unfolding ramp_factor_def Let_def using unit_steps [OF p assms(2,3)] by blast+
qed

lemma current_mass_nonneg:
  assumes "\<forall>ep \<in> set eps. 0 \<le> weight ep"
  shows "0 \<le> current_mass since as_of window real_only eps"
proof -
  have "0 \<le> foldl (\<lambda>m ep. if of_current since as_of window ep \<and> \<not> (real_only \<and> penalty ep) then fadd m (weight ep) else m) 0 eps"
    by (rule foldl_invariant) (use assms in \<open>auto simp: fadd_def intro!: fl_nonneg\<close>)
  then show ?thesis by (simp add: current_mass_def)
qed

lemma no_current_mass:
  "\<forall>ep \<in> set eps. of_current since as_of window ep \<longrightarrow> real_only \<and> penalty ep \<Longrightarrow> current_mass since as_of window real_only eps = 0"
  unfolding current_mass_def by (induction eps) auto

text \<open>What becomes of one hotkey's entries.\<close>

definition discounted_entries ::
    "(hotkey, date) dict \<Rightarrow> date \<Rightarrow> int \<Rightarrow> float \<Rightarrow> float \<Rightarrow> bool \<Rightarrow> hotkey \<Rightarrow> scored_episode list \<Rightarrow> scored_episode list" where
  "discounted_entries model_since as_of window wgt thr real_only hk eps =
     snd (last (fst (discount_hotkey model_since as_of window wgt thr real_only ([], empty_stats wgt thr) (hk, eps))))"

lemma discount_hotkey_out:
  "fst (discount_hotkey model_since as_of window wgt thr real_only (out, st) (hk, eps)) =
     out @ [(hk, discounted_entries model_since as_of window wgt thr real_only hk eps)]"
  by (auto simp: discounted_entries_def discount_hotkey_def Let_def split: option.split)

lemma discount_fold_out:
  "fst (foldl (discount_hotkey model_since as_of window wgt thr real_only) acc entries) =
     fst acc @ map (\<lambda>(hk, eps). (hk, discounted_entries model_since as_of window wgt thr real_only hk eps)) entries"
proof (induction entries arbitrary: acc)
  case (Cons x entries)
  show ?case using Cons.IH [of "discount_hotkey model_since as_of window wgt thr real_only acc x"]
    by (cases acc; cases x) (simp add: discount_hotkey_out)
qed simp

lemma discount_out:
  "fst (apply_previous_model_discount entries model_since as_of window wgt thr real_only) =
     map (\<lambda>(hk, eps). (hk, discounted_entries model_since as_of window wgt thr real_only hk eps)) entries"
  using discount_fold_out [of model_since as_of window wgt thr real_only "([], empty_stats wgt thr)" entries]
  by (simp add: apply_previous_model_discount_def case_prod_beta)

lemma discounted_entries_cases:
  "discounted_entries model_since as_of window wgt thr real_only hk eps =
    (case map_of model_since hk of
       None \<Rightarrow> eps
     | Some since \<Rightarrow>
         (let f = ramp_factor wgt thr (current_mass since as_of window real_only eps)
          in if filter (of_previous since as_of window) eps = [] \<or> 1 \<le> f then eps
             else map (\<lambda>ep. if of_previous since as_of window ep then discounted f ep else ep) eps))"
  by (auto simp: discounted_entries_def discount_hotkey_def Let_def split: option.split)

lemma discounted_parts [simp]: "weight (discounted f ep) = weight ep" "age_day (discounted f ep) = age_day ep"
  "score (discounted f ep) = score ep"
  by (simp_all add: discounted_def age_day_def split: option.split)

lemma count_same:
  assumes "\<And>ep. weight (g ep) = weight ep \<and> age_day (g ep) = age_day ep"
  shows "scored_prediction_count environ (map g eps) as_of w = scored_prediction_count environ eps as_of w"
proof -
  have "in_window as_of v (g ep) = in_window as_of v ep" for v ep using assms [of ep] by (simp add: in_window_def)
  then have "map weight (filter (in_window as_of v) (map g eps)) = map weight (filter (in_window as_of v) eps)" for v
    using assms by (induction eps) simp_all
  then show ?thesis by (simp add: scored_prediction_count_def)
qed

section \<open>Properties\<close>

lemma current_mass_filter:
  "current_mass since as_of window real_only eps =
     foldl fadd 0 (map weight (filter (\<lambda>ep. in_window as_of window ep \<and> (\<exists>d. prediction_day ep = Some d \<and> since \<le> d) \<and> \<not> (real_only \<and> penalty ep)) eps))"
proof -
  have c: "of_current since as_of window ep \<longleftrightarrow> in_window as_of window ep \<and> (\<exists>d. prediction_day ep = Some d \<and> since \<le> d)" for ep
    by (simp add: of_current_def split: option.split)
  have "foldl (\<lambda>m ep. if of_current since as_of window ep \<and> \<not> (real_only \<and> penalty ep) then fadd m (weight ep) else m) m eps =
     foldl fadd m (map weight (filter (\<lambda>ep. in_window as_of window ep \<and> (\<exists>d. prediction_day ep = Some d \<and> since \<le> d) \<and> \<not> (real_only \<and> penalty ep)) eps))" for m
    by (induction eps arbitrary: m) (auto simp: c)
  then show ?thesis by (simp add: current_mass_def)
qed

lemma of_previous_iff: "of_previous since as_of window ep \<longleftrightarrow> in_window as_of window ep \<and> (\<exists>d. prediction_day ep = Some d \<and> d < since)"
  by (simp add: of_previous_def split: option.split)

lemma ramp_factor_ends:
  "0 < thr \<Longrightarrow> ramp_factor wgt thr 0 = 1"
  "0 \<le> m \<Longrightarrow> thr \<le> m \<Longrightarrow> ramp_factor wgt thr m = fsub 1 (fsub 1 wgt)"
proof -
  have one: "fl 1 = 1" using is_float_1 by (simp add: is_float_def)
  show "0 < thr \<Longrightarrow> ramp_factor wgt thr 0 = 1" by (simp add: ramp_factor_def fdiv_def fmul_def fsub_def one)
  assume "0 \<le> m" "thr \<le> m"
  then have "1 \<le> fdiv m thr" if "0 < thr" using that fl_mono [of 1 "m / thr"] by (simp add: fdiv_def one)
  then have "(if 0 < thr then min 1 (fdiv m thr) else 1) = 1" by (simp add: min_def antisym)
  moreover have "fmul (fsub 1 wgt) 1 = fsub 1 wgt" by (simp add: fmul_def fsub_def)
  ultimately show "ramp_factor wgt thr m = fsub 1 (fsub 1 wgt)" by (simp only: ramp_factor_def Let_def)
qed

text \<open>C30. A new model never costs evidence: for entries of non-negative weight and a discount weight between 0
  and 1, the discount changes no hotkey's evidence mass, whatever day and window it is counted at; a
  hotkey without a boundary keeps its entries as they are; otherwise exactly the entries in the window
  that were predicted before the boundary are discounted, and all of them, by one factor: one less
  (one less the weight) times the share of the threshold that the current model's entries in the window
  have reached. The factor lies between 0 and 1; it is 1, and nothing is discounted, while the current
  model has shown nothing (at a positive threshold), and it is the full discount from the threshold on.\<close>

theorem me_discount_keeps_evidence:
  assumes "dict_ok entries" and "map_of entries hk = Some eps" and "\<forall>ep \<in> set eps. 0 \<le> weight ep" and "0 \<le> wgt" and "wgt \<le> 1"
  shows "\<exists>eps'. map_of (fst (apply_previous_model_discount entries model_since as_of window wgt thr real_only)) hk = Some eps' \<and>
    (\<forall>environ day w. scored_prediction_count environ eps' day w = scored_prediction_count environ eps day w) \<and>
    (case map_of model_since hk of
       None \<Rightarrow> eps' = eps
     | Some since \<Rightarrow>
         (let older = (\<lambda>ep. in_window as_of window ep \<and> (\<exists>d. prediction_day ep = Some d \<and> d < since));
              shown = filter (\<lambda>ep. in_window as_of window ep \<and> (\<exists>d. prediction_day ep = Some d \<and> since \<le> d) \<and> \<not> (real_only \<and> penalty ep)) eps;
              mass = foldl fadd 0 (map weight shown);
              f = fsub 1 (fmul (fsub 1 wgt) (if 0 < thr then min 1 (fdiv mass thr) else 1))
          in 0 \<le> f \<and> f \<le> 1 \<and> (0 < thr \<and> shown = [] \<longrightarrow> f = 1) \<and> (thr \<le> mass \<longrightarrow> f = fsub 1 (fsub 1 wgt)) \<and>
             eps' = (if f = 1 then eps
                     else map (\<lambda>ep. if older ep then ep\<lparr>discount := map_option (\<lambda>x. fmul x f) (discount ep)\<rparr> else ep) eps)))"
proof -
  let ?eps' = "discounted_entries model_since as_of window wgt thr real_only hk eps"
  have 1: "map_of (fst (apply_previous_model_discount entries model_since as_of window wgt thr real_only)) hk = Some ?eps'"
    using assms(2) by (simp add: discount_out map_of_map_pair)
  have 2: "\<forall>environ day w. scored_prediction_count environ ?eps' day w = scored_prediction_count environ eps day w"
    by (auto simp: discounted_entries_cases Let_def split: option.split intro!: count_same)
  show ?thesis
  proof (cases "map_of model_since hk")
    case None
    then show ?thesis using 1 2 by (intro exI [of _ ?eps']) (simp add: discounted_entries_cases)
  next
    case (Some since)
    let ?shown = "filter (\<lambda>ep. in_window as_of window ep \<and> (\<exists>d. prediction_day ep = Some d \<and> since \<le> d) \<and> \<not> (real_only \<and> penalty ep)) eps"
    let ?m = "foldl fadd 0 (map weight ?shown)"
    let ?f = "ramp_factor wgt thr ?m"
    note mass = current_mass_filter [of since as_of window real_only eps]
    have nonneg: "0 \<le> ?m" using current_mass_nonneg [OF assms(3), of since as_of window real_only] unfolding mass .
    have f: "0 \<le> ?f" "?f \<le> 1" using ramp_factor_unit [OF nonneg assms(4,5)] by blast+
    have ends: "0 < thr \<and> ?shown = [] \<longrightarrow> ?f = 1" "thr \<le> ?m \<longrightarrow> ?f = fsub 1 (fsub 1 wgt)"
      using ramp_factor_ends [of thr wgt] ramp_factor_ends(2) [OF nonneg, of thr wgt] by auto
    have "?eps' = (if ?f = 1 then eps else map (\<lambda>ep. if of_previous since as_of window ep then discounted ?f ep else ep) eps)"
      using f(2) by (auto simp: discounted_entries_cases Some Let_def mass filter_empty_conv intro!: map_idI [symmetric])
    then have new: "?eps' = (if ?f = 1 then eps else map (\<lambda>ep. if in_window as_of window ep \<and> (\<exists>d. prediction_day ep = Some d \<and> d < since)
        then ep\<lparr>discount := map_option (\<lambda>x. fmul x ?f) (discount ep)\<rparr> else ep) eps)"
      by (simp only: of_previous_iff discounted_def)
    have r: "?f = fsub 1 (fmul (fsub 1 wgt) (if 0 < thr then min 1 (fdiv ?m thr) else 1))" by (simp only: ramp_factor_def Let_def)
    show ?thesis unfolding Some option.case Let_def r [symmetric] using 1 2 f ends new by blast
  qed
qed

lemma boundary_fold:
  assumes "fold_sum (count_change gap) counted ds = Inr counted'" and "counted \<noteq> []"
  shows "counted' \<noteq> [] \<and> (\<exists>pre post. counted ! (length counted - 1) # ds = pre @ last counted' # post \<and>
    (\<forall>d \<in> set post. \<exists>x y. fromisoformat d = Some x \<and> fromisoformat (last counted') = Some y \<and> x - y < gap))"
  using assms
proof (induction ds arbitrary: counted)
  case (Cons d ds)
  obtain c1 where c1: "count_change gap counted d = Inr c1" "fold_sum (count_change gap) c1 ds = Inr counted'"
    using Cons.prems(1) by (auto split: sum.splits)
  obtain x y where xy: "fromisoformat d = Some x" "fromisoformat (last counted) = Some y"
    "c1 = (if gap \<le> x - y then counted @ [d] else counted)"
    using c1(1) Cons.prems(2) by (auto simp: count_change_def split: option.splits)
  have lc: "counted ! (length counted - 1) = last counted" using Cons.prems(2) by (simp add: last_conv_nth)
  show ?case
  proof (cases "gap \<le> x - y")
    case True
    then have "c1 \<noteq> []" "c1 ! (length c1 - 1) = d" using xy(3) by simp_all
    with Cons.IH [OF c1(2)] obtain pre post where p: "counted' \<noteq> []" "d # ds = pre @ last counted' # post"
      "\<forall>d \<in> set post. \<exists>x y. fromisoformat d = Some x \<and> fromisoformat (last counted') = Some y \<and> x - y < gap" by auto
    have "last counted # d # ds = (last counted # pre) @ last counted' # post" using p(2) by simp
    then show ?thesis using p(1,3) unfolding lc by blast
  next
    case False
    then have "c1 = counted" using xy(3) by simp
    with Cons.IH [of counted] c1(2) Cons.prems(2) lc obtain pre post where p: "counted' \<noteq> []" "last counted # ds = pre @ last counted' # post"
      "\<forall>d \<in> set post. \<exists>x y. fromisoformat d = Some x \<and> fromisoformat (last counted') = Some y \<and> x - y < gap" by auto
    show ?thesis
    proof (cases pre)
      case Nil
      then have e: "last counted' = last counted" "ds = post" using p(2) by simp_all
      then have "last counted # d # ds = [] @ last counted' # (d # post)" by simp
      moreover have "\<forall>d \<in> set (d # post). \<exists>x y. fromisoformat d = Some x \<and> fromisoformat (last counted') = Some y \<and> x - y < gap"
        using p(3) xy(1,2) False e(1) by auto
      ultimately show ?thesis using p(1) unfolding lc by blast
    next
      case (Cons z pre')
      then have "last counted # d # ds = (last counted # d # pre') @ last counted' # post" using p(2) by simp
      then show ?thesis using p(1,3) unfolding lc by blast
    qed
  qed
qed (auto simp: last_conv_nth intro!: exI [of _ "[]"])

lemma boundary_is_change:
  assumes "boundary_of gap latest seq = Inr since"
  shows "change_days seq = [] \<and> since = (if seq = [] then latest else fst (hd seq)) \<or>
    (\<exists>pre post. change_days seq = pre @ since # post \<and>
      (\<forall>d \<in> set post. \<exists>x y. fromisoformat d = Some x \<and> fromisoformat since = Some y \<and> x - y < gap))"
proof (cases "change_days seq")
  case Nil
  then show ?thesis using assms by (auto simp: boundary_of_def)
next
  case (Cons d ds)
  obtain counted where c: "fold_sum (count_change gap) [d] ds = Inr counted"
    "since = (if counted \<noteq> [] then last counted else if seq \<noteq> [] then fst (hd seq) else latest)"
    using assms by (auto simp: boundary_of_def Cons count_change_def)
  then show ?thesis using boundary_fold [OF c(1)] by (auto simp: Cons)
qed

lemma note_since_fold:
  assumes "fold_sum (note_since S gap in_span latest) out hks = Inr out'" and "distinct hks"
  shows "(hk \<notin> set hks \<or> image_on S latest hk = None \<longrightarrow> map_of out' hk = map_of out hk) \<and>
    (hk \<in> set hks \<and> image_on S latest hk = Some dg \<longrightarrow> (\<exists>since. boundary_of gap latest (image_seq S hk in_span) = Inr since \<and>
       map_of out' hk = Some \<lparr>mse_digest = dg, mse_since = since, mse_changes = length (change_days (image_seq S hk in_span))\<rparr>))"
  using assms
proof (induction hks arbitrary: out)
  case (Cons k hks)
  obtain out1 where o: "note_since S gap in_span latest out k = Inr out1" "fold_sum (note_since S gap in_span latest) out1 hks = Inr out'"
    using Cons.prems(1) by (auto split: sum.splits)
  have "k \<notin> set hks" "distinct hks" using Cons.prems(2) by simp_all
  note IH = Cons.IH [OF o(2) this(2)]
  show ?case
  proof (cases "k = hk")
    case True
    then show ?thesis using IH o(1) \<open>k \<notin> set hks\<close>
      by (auto simp: note_since_def Let_def map_of_update split: option.splits)
  next
    case False
    then have "map_of out1 hk = map_of out hk"
      using o(1) by (auto simp: note_since_def Let_def map_of_update split: option.splits)
    then show ?thesis using IH False by auto
  qed
qed simp

text \<open>The boundary of a hotkey that ran on the latest day is its last model change that is not within
  the gap of an earlier counted one: if its digest changed inside the span, the boundary is one of
  the days it changed and every later change came less than the gap after it; if not, the boundary is
  its first run in the span. A hotkey that did not run that day keeps its entry.\<close>

theorem me_boundary_is_a_change:
  assumes "model_since_from_shadow S previous window_days as_of gap = Inr out" and "shadow_ok S" and "shadow_days S \<noteq> []"
    and "today = (case as_of of None \<Rightarrow> the (fromisoformat (last (shadow_days S))) | Some d \<Rightarrow> d)"
  shows "let latest = last (shadow_days S); seq = image_seq S hk (filter (\<lambda>d. isoformat (today - (window_days + gap)) \<le> d) (shadow_days S)) in
    (case image_on S latest hk of
       None \<Rightarrow> map_of out hk = map_of previous hk
     | Some dg \<Rightarrow> (\<exists>since. map_of out hk = Some \<lparr>mse_digest = dg, mse_since = since, mse_changes = length (change_days seq)\<rparr> \<and>
         (change_days seq = [] \<and> since = (if seq = [] then latest else fst (hd seq)) \<or>
          (\<exists>pre post. change_days seq = pre @ since # post \<and>
             (\<forall>d \<in> set post. \<exists>x y. fromisoformat d = Some x \<and> fromisoformat since = Some y \<and> x - y < gap)))))"
proof -
  let ?latest = "last (shadow_days S)" and ?span = "filter (\<lambda>d. isoformat (today - (window_days + gap)) \<le> d) (shadow_days S)"
  let ?hks = "sort (keys (sd_files (day_of S (last (shadow_days S)))))"
  have fold: "fold_sum (note_since S gap ?span ?latest) previous ?hks = Inr out"
    using assms(1,3,4) by (auto simp: model_since_from_shadow_def Let_def split: option.splits)
  have d: "distinct ?hks" using assms(2) by (simp add: shadow_ok_def)
  have mem: "hk \<in> set ?hks" if "image_on S ?latest hk = Some dg" for dg
  proof -
    have "lines_of S ?latest hk \<noteq> []" using that by (auto simp: image_on_def last_record_def Let_def split: option.splits if_splits)
    then have "map_of (sd_files (day_of S ?latest)) hk \<noteq> None" by (auto simp: lines_of_def split: option.splits)
    then show ?thesis by (auto simp: map_of_None_iff)
  qed
  show ?thesis
  proof (cases "image_on S ?latest hk")
    case None
    then show ?thesis using note_since_fold [OF fold d, of hk] by (simp add: Let_def)
  next
    case (Some dg)
    then obtain since where s: "boundary_of gap ?latest (image_seq S hk ?span) = Inr since"
      "map_of out hk = Some \<lparr>mse_digest = dg, mse_since = since, mse_changes = length (change_days (image_seq S hk ?span))\<rparr>"
      using note_since_fold [OF fold d, of hk dg] mem by blast
    then show ?thesis using boundary_is_change [OF s(1)] Some by (auto simp: Let_def)
  qed
qed

text \<open>The file round-trips: reading the file that was written gives, for every hotkey, the day of its
  boundary, and nothing for a hotkey without one or whose boundary is not a date.\<close>

theorem me_since_roundtrip:
  assumes "dict_ok mapping"
  shows "map_of (load_model_since (Some (fst (write_model_since mapping)))) hk =
    (case map_of mapping hk of None \<Rightarrow> None
     | Some e \<Rightarrow> if mse_since e = [] then None else fromisoformat (take 10 (mse_since e)))"
proof -
  let ?row = "\<lambda>rec. JDict [(''digest'', JStr (mse_digest rec)), (''since'', JStr (take 10 (mse_since rec))), (''changes'', jnat (mse_changes rec))]"
  let ?kept = "filter (\<lambda>(hk, rec). mse_since rec \<noteq> []) mapping"
  let ?out = "map (\<lambda>(hk, rec). (hk, ?row rec)) ?kept"
  have k: "keys ?out = keys ?kept" by (simp add: comp_def case_prod_beta)
  have kept: "dict_ok ?kept" using assms by (simp add: distinct_map_filter)
  then have out: "dict_ok ?out" unfolding k .
  have "map_of (concat (map (\<lambda>(hk, rec). case since_day rec of None \<Rightarrow> [] | Some d \<Rightarrow> [(hk, d)]) (sort_key fst ?out))) hk =
      (case map_of (sort_key fst ?out) hk of None \<Rightarrow> None | Some rec \<Rightarrow> since_day rec)"
    using map_of_concat_option [where g = since_day and f = "\<lambda>x. x" and k = hk, OF dict_ok_sort [OF out, of fst]]
    by (cases "map_of (sort_key fst ?out) hk") (simp_all add: option.map_ident)
  moreover have "map_of (sort_key fst ?out) hk = map_option ?row (map_of ?kept hk)"
    unfolding map_of_sort [OF out] by (simp add: map_of_map_pair)
  moreover have "map_of ?kept hk = (case map_of mapping hk of None \<Rightarrow> None | Some e \<Rightarrow> if mse_since e = [] then None else Some e)"
    using assms
  proof (induction mapping)
    case (Cons x mapping)
    then show ?case by (cases x) (auto simp: map_of_None_iff [symmetric] split: option.splits if_splits)
  qed simp
  ultimately show ?thesis
    by (simp add: load_model_since_def write_model_since_def Let_def json_fields_def since_day_def jget_def opt_string_def split: option.split)
qed

theorem me_since_roundtrip_witness:
  "map_of (load_model_since (Some (fst (write_model_since [(''a'', \<lparr>mse_digest = ''d'', mse_since = ''2026-10-01'', mse_changes = 1\<rparr>)])))) ''a''
    = fromisoformat ''2026-10-01''"
  using me_since_roundtrip [of "[(''a'', \<lparr>mse_digest = ''d'', mse_since = ''2026-10-01'', mse_changes = 1\<rparr>)]" "''a''"] by simp

lemma sample_since: "\<not> isl (model_since_from_shadow sample_shadow [] 42 None 7)"
  by code_simp

theorem me_boundary_is_a_change_witness:
  "\<exists>out. model_since_from_shadow sample_shadow [] 42 None 7 = Inr out \<and>
    (\<exists>e. map_of out ''a'' = Some e \<and> mse_digest e = ''sha256:aa'')"
proof -
  obtain out where o: "model_since_from_shadow sample_shadow [] 42 None 7 = Inr out"
    using sample_since by (cases "model_since_from_shadow sample_shadow [] 42 None 7") simp_all
  have "shadow_ok sample_shadow" by (simp add: shadow_ok_def sample_shadow_def day_of_def empty_day_def)
  moreover have "image_on sample_shadow ''2026-10-01'' ''a'' = Some ''sha256:aa''" by code_simp
  ultimately show ?thesis using me_boundary_is_a_change [OF o _ _ refl, of "''a''"] o by (auto simp: Let_def sample_days)
qed

text \<open>Half-way to the threshold the older entry keeps five eighths of its voice.\<close>

lemma sample_factor: "fsub 1 (fmul (fsub 1 (1 / 4)) (min 1 (fdiv 1 2))) = 5 / 8" "fmul 1 (5 / 8) = 5 / 8" "fadd 0 1 = 1"
  by code_simp+

definition older_entry :: scored_episode where "older_entry = (plain_episode 1 80)\<lparr>predicted_on := Some 79\<rparr>"
definition newer_entry :: scored_episode where "newer_entry = (plain_episode 1 100)\<lparr>predicted_on := Some 99\<rparr>"

lemma sample_entries:
  "prediction_day older_entry = Some 79" "prediction_day newer_entry = Some 99" "in_window 110 35 older_entry" "in_window 110 35 newer_entry"
  "weight older_entry = 1" "weight newer_entry = 1" "discount older_entry = Some 1"
  by (simp_all add: prediction_day_def plain_episode_def in_window_def age_day_def older_entry_def newer_entry_def)

theorem me_discount_keeps_evidence_witness:
  "map_of (fst (apply_previous_model_discount [(''a'', [older_entry, newer_entry])] [(''a'', 90)] 110 35 (1 / 4) 2 False)) ''a''
    = Some [older_entry\<lparr>discount := Some (5 / 8)\<rparr>, newer_entry]"
proof -
  have w: "\<forall>ep \<in> set [older_entry, newer_entry]. 0 \<le> weight ep" by (simp add: sample_entries)
  obtain eps' where eps': "map_of (fst (apply_previous_model_discount [(''a'', [older_entry, newer_entry])] [(''a'', 90)] 110 35 (1 / 4) 2 False)) ''a'' = Some eps'"
    and c: "case map_of [(''a'', 90)] ''a'' of
       None \<Rightarrow> eps' = [older_entry, newer_entry]
     | Some since \<Rightarrow>
         (let older = (\<lambda>ep. in_window 110 35 ep \<and> (\<exists>d. prediction_day ep = Some d \<and> d < since));
              shown = filter (\<lambda>ep. in_window 110 35 ep \<and> (\<exists>d. prediction_day ep = Some d \<and> since \<le> d) \<and> \<not> (False \<and> penalty ep)) [older_entry, newer_entry];
              mass = foldl fadd 0 (map weight shown);
              f = fsub 1 (fmul (fsub 1 (1 / 4)) (if 0 < (2::float) then min 1 (fdiv mass 2) else 1))
          in 0 \<le> f \<and> f \<le> 1 \<and> (0 < (2::float) \<and> shown = [] \<longrightarrow> f = 1) \<and> (2 \<le> mass \<longrightarrow> f = fsub 1 (fsub 1 (1 / 4))) \<and>
             eps' = (if f = 1 then [older_entry, newer_entry]
                     else map (\<lambda>ep. if older ep then ep\<lparr>discount := map_option (\<lambda>x. fmul x f) (discount ep)\<rparr> else ep) [older_entry, newer_entry]))"
    using me_discount_keeps_evidence [of "[(''a'', [older_entry, newer_entry])]" "''a''", OF _ _ w, of "1 / 4" "[(''a'', 90)]" 110 35 2 False]
    by fastforce
  have "eps' = [older_entry\<lparr>discount := Some (5 / 8)\<rparr>, newer_entry]" using c by (simp add: Let_def sample_entries sample_factor)
  then show ?thesis using eps' by simp
qed

end
