(* ===== verification/ScoreFlow.thy ===== *)
theory ScoreFlow
  imports EpisodeAverage PyJson
begin

text \<open>
  What enters the standing each day (\<open>hope/scoring/daily_score_flow.py\<close>): every (episode, horizon)
  result finalised on the day becomes one weighted entry. Shown: the shares of the three horizons of
  one episode add up to exactly 1 at every resolution, every entry's weight is in the unit interval,
  and over a run of days every result enters exactly once, on its own day.
\<close>

section \<open>The tables\<close>

text \<open>\<open>str(n)\<close> of a natural number.\<close>

fun str_nat :: "nat \<Rightarrow> string" where
  "str_nat n = (if n < 10 then [char_of (48 + n)] else str_nat (n div 10) @ [char_of (48 + n mod 10)])"

declare str_nat.simps [simp del]

definition str_int :: "int \<Rightarrow> string" where
  "str_int n = (if n < 0 then ''-'' @ str_nat (nat (- n)) else str_nat (nat n))"

definition daily_stream_horizons :: "int list" where
  "daily_stream_horizons = [7, 14, 28]"

definition daily_stream_horizon_weights :: "(string, (string, float) dict) dict" where
  "daily_stream_horizon_weights =
     [(''high'', [(''7'', fl (20 / 100)), (''14'', fl (35 / 100)), (''28'', fl (45 / 100))]),
      (''medium'', [(''7'', fl (15 / 100)), (''14'', fl (30 / 100)), (''28'', fl (55 / 100))]),
      (''low'', [(''7'', 0), (''14'', fl (20 / 100)), (''28'', fl (80 / 100))])]"

definition resolution_episode_weight :: "(string, float) dict" where
  "resolution_episode_weight = [(''high'', 1), (''medium'', fl (7 / 10)), (''low'', fl (4 / 10))]"

record horizon_result =
  hr_episode_id :: string
  hr_horizon_days :: int
  hr_miner :: hotkey
  hr_score :: float
  hr_finalized_on :: date
  hr_resolution :: string

record weighted_entry =
  we_miner :: hotkey
  we_score :: float
  we_weight :: float
  we_entered_on :: date
  we_episode_id :: string
  we_horizon_days :: int

section \<open>The flow\<close>

definition resolution_gate_from :: "environ \<Rightarrow> date option" where
  "resolution_gate_from environ = date_env environ ''SN21_RESOLUTION_GATE_FROM''"

text \<open>\<open>str(resolution or "high").lower()\<close>.\<close>

definition resolution_name :: "string option \<Rightarrow> string" where
  "resolution_name r = lower (case r of None \<Rightarrow> ''high'' | Some s \<Rightarrow> if s = [] then ''high'' else s)"

definition resolution_in_force :: "date \<Rightarrow> string option \<Rightarrow> environ \<Rightarrow> string" where
  "resolution_in_force finalized_on resolution environ =
     (case resolution_gate_from environ of
        None \<Rightarrow> ''high''
      | Some start \<Rightarrow>
          if finalized_on < start then ''high''
          else let r = resolution_name resolution
               in if map_of daily_stream_horizon_weights r \<noteq> None then r else ''high'')"

definition episode_weight :: "string \<Rightarrow> float" where
  "episode_weight resolution =
     (case map_of resolution_episode_weight (resolution_name (Some resolution)) of None \<Rightarrow> 1 | Some w \<Rightarrow> w)"

definition horizon_table :: "string \<Rightarrow> (string, float) dict" where
  "horizon_table resolution =
     (case map_of daily_stream_horizon_weights resolution of
        None \<Rightarrow> the (map_of daily_stream_horizon_weights ''high'') | Some t \<Rightarrow> t)"

definition horizon_entry_weight :: "int \<Rightarrow> string \<Rightarrow> py_error + float" where
  "horizon_entry_weight horizon_days resolution =
     (case map_of (horizon_table resolution) (str_int horizon_days) of
        None \<Rightarrow> Inl ValueError | Some w \<Rightarrow> Inr w)"

definition entry_weight :: "int \<Rightarrow> string \<Rightarrow> py_error + float" where
  "entry_weight horizon_days resolution =
     map_sum id (\<lambda>w. fmul w (episode_weight resolution)) (horizon_entry_weight horizon_days resolution)"

text \<open>A type weight that is not positive is ignored.\<close>

definition typed_weight :: "(string \<Rightarrow> float) option \<Rightarrow> string \<Rightarrow> float \<Rightarrow> float" where
  "typed_weight type_weight_fn episode w =
     (case type_weight_fn of None \<Rightarrow> w | Some f \<Rightarrow> let tw = f episode in if 0 < tw then fmul w tw else w)"

definition entry_of :: "(string \<Rightarrow> float) option \<Rightarrow> horizon_result \<Rightarrow> py_error + weighted_entry" where
  "entry_of type_weight_fn r =
     map_sum id (\<lambda>w. \<lparr>we_miner = hr_miner r, we_score = hr_score r,
         we_weight = typed_weight type_weight_fn (hr_episode_id r) w, we_entered_on = hr_finalized_on r,
         we_episode_id = hr_episode_id r, we_horizon_days = hr_horizon_days r\<rparr>)
       (entry_weight (hr_horizon_days r) (hr_resolution r))"

fun day_flow :: "horizon_result list \<Rightarrow> date \<Rightarrow> (string \<Rightarrow> float) option \<Rightarrow> py_error + weighted_entry list" where
  "day_flow [] day type_weight_fn = Inr []"
| "day_flow (r # results) day type_weight_fn =
     (if hr_finalized_on r \<noteq> day then day_flow results day type_weight_fn
      else case entry_of type_weight_fn r of
        Inl e \<Rightarrow> Inl e
      | Inr x \<Rightarrow> map_sum id (\<lambda>out. x # out) (day_flow results day type_weight_fn))"

definition episode_total_weight :: "string \<Rightarrow> py_error + float" where
  "episode_total_weight resolution =
     (case map_of daily_stream_horizon_weights resolution of
        None \<Rightarrow> Inl KeyError | Some table \<Rightarrow> Inr (fsum (map snd table)))"

section \<open>Facts\<close>

lemma str_known: "str_int 7 = ''7''" "str_int 14 = ''14''" "str_int 28 = ''28''"
  by code_simp+

lemma known_resolution:
  "map_of daily_stream_horizon_weights r \<noteq> None \<longleftrightarrow> r \<in> {''high'', ''medium'', ''low''}"
  by (auto simp: daily_stream_horizon_weights_def)

lemma shares_of:
  "map (\<lambda>h. horizon_entry_weight h ''high'') daily_stream_horizons = map Inr [fl (20 / 100), fl (35 / 100), fl (45 / 100)]"
  "map (\<lambda>h. horizon_entry_weight h ''medium'') daily_stream_horizons = map Inr [fl (15 / 100), fl (30 / 100), fl (55 / 100)]"
  "map (\<lambda>h. horizon_entry_weight h ''low'') daily_stream_horizons = map Inr [0, fl (20 / 100), fl (80 / 100)]"
  by (simp_all add: daily_stream_horizons_def horizon_entry_weight_def horizon_table_def
      daily_stream_horizon_weights_def str_known)

lemma shares_sum:
  "fsum [fl (20 / 100), fl (35 / 100), fl (45 / 100)] = 1"
  "fsum [fl (15 / 100), fl (30 / 100), fl (55 / 100)] = 1"
  "fsum [0, fl (20 / 100), fl (80 / 100)] = 1"
  by code_simp+

lemma share_range: "0 \<le> x \<Longrightarrow> x \<le> 1 \<Longrightarrow> 0 \<le> fl x \<and> fl x \<le> 1"
  using fl_mono [of x 1] fl_nonneg [of x] is_float_1 by (simp add: is_float_def)

lemma episode_total: "map_of daily_stream_horizon_weights r \<noteq> None \<Longrightarrow> episode_total_weight r = Inr 1"
  unfolding known_resolution using shares_sum
  by (auto simp: episode_total_weight_def daily_stream_horizon_weights_def)

lemma tables:
  "horizon_table ''high'' = [(''7'', fl (20 / 100)), (''14'', fl (35 / 100)), (''28'', fl (45 / 100))]"
  "horizon_table ''medium'' = [(''7'', fl (15 / 100)), (''14'', fl (30 / 100)), (''28'', fl (55 / 100))]"
  "horizon_table ''low'' = [(''7'', 0), (''14'', fl (20 / 100)), (''28'', fl (80 / 100))]"
  by (simp_all add: horizon_table_def daily_stream_horizon_weights_def)

lemma horizon_weight_ok:
  assumes "h \<in> set daily_stream_horizons"
  shows "\<exists>w. horizon_entry_weight h r = Inr w \<and> 0 \<le> w \<and> w \<le> 1"
proof -
  have h: "str_int h \<in> {''7'', ''14'', ''28''}" using assms str_known by (auto simp: daily_stream_horizons_def)
  have "horizon_table r = horizon_table ''high''" if "map_of daily_stream_horizon_weights r = None"
    using that by (simp add: horizon_table_def daily_stream_horizon_weights_def)
  then consider "horizon_table r = horizon_table ''high''" | "horizon_table r = horizon_table ''medium''"
    | "horizon_table r = horizon_table ''low''" using known_resolution [of r] by blast
  then show ?thesis
    by cases (use h share_range in \<open>auto simp: horizon_entry_weight_def tables\<close>)
qed

lemma episode_weight_range: "0 \<le> episode_weight r \<and> episode_weight r \<le> 1"
  using share_range [of "7 / 10"] share_range [of "4 / 10"]
  by (auto simp: episode_weight_def resolution_episode_weight_def split: option.splits)

lemma entry_weight_ok:
  assumes "h \<in> set daily_stream_horizons"
  shows "\<exists>w. entry_weight h r = Inr w \<and> 0 \<le> w \<and> w \<le> 1"
proof -
  obtain w where w: "horizon_entry_weight h r = Inr w" "0 \<le> w" "w \<le> 1" using horizon_weight_ok [OF assms] by blast
  have "0 \<le> w * episode_weight r \<and> w * episode_weight r \<le> 1"
    using w episode_weight_range [of r] by (simp add: mult_le_one)
  then show ?thesis using w(1) share_range by (auto simp: entry_weight_def fmul_def)
qed

lemma entry_of_ok:
  assumes "hr_horizon_days r \<in> set daily_stream_horizons"
  shows "\<exists>e. entry_of tw r = Inr e \<and> we_entered_on e = hr_finalized_on r"
  using entry_weight_ok [OF assms] by (force simp: entry_of_def)

lemma day_flow_ok:
  assumes "\<forall>r \<in> set results. hr_horizon_days r \<in> set daily_stream_horizons"
  shows "\<exists>out. day_flow results day tw = Inr out \<and>
    map Inr out = map (entry_of tw) (filter (\<lambda>r. hr_finalized_on r = day) results)"
  using assms
proof (induction results)
  case (Cons r results)
  then obtain out where out: "day_flow results day tw = Inr out"
    "map Inr out = map (entry_of tw) (filter (\<lambda>r. hr_finalized_on r = day) results)" by auto
  obtain e where "entry_of tw r = Inr e" using entry_of_ok [of r] Cons.prems by auto
  then show ?case using out by auto
qed simp

lemma split_by_day:
  "distinct days \<Longrightarrow> (\<forall>r \<in> set rs. f r \<in> set days) \<Longrightarrow>
    mset rs = (\<Sum>d \<leftarrow> days. filter_mset (\<lambda>r. f r = d) (mset rs))"
proof (induction days arbitrary: rs)
  case (Cons d days)
  let ?rest = "filter (\<lambda>r. f r \<noteq> d) rs"
  have other: "filter_mset (\<lambda>r. f r = e) (mset ?rest) = filter_mset (\<lambda>r. f r = e) (mset rs)" if "e \<in> set days" for e
  proof -
    have "e \<noteq> d" using that Cons.prems(1) by auto
    then show ?thesis by (induction rs) auto
  qed
  have "mset ?rest = (\<Sum>e \<leftarrow> days. filter_mset (\<lambda>r. f r = e) (mset ?rest))"
    using Cons.prems by (intro Cons.IH) auto
  also have "\<dots> = (\<Sum>e \<leftarrow> days. filter_mset (\<lambda>r. f r = e) (mset rs))"
    by (rule arg_cong [where f = sum_list], rule map_cong [OF refl], rule other)
  finally have rest: "mset ?rest = (\<Sum>e \<leftarrow> days. filter_mset (\<lambda>r. f r = e) (mset rs))" .
  have "mset rs = filter_mset (\<lambda>r. f r = d) (mset rs) + mset ?rest" by (induction rs) auto
  then show ?case by (simp only: rest list.map sum_list.Cons)
qed simp

section \<open>Properties\<close>

text \<open>One prediction, one unit of standing mass: at every resolution of the published table the
  shares of the three horizons add up to exactly 1 (as doubles, in the order they are summed), each in
  the unit interval.\<close>

theorem sf_one_episode_one_unit:
  assumes "map_of daily_stream_horizon_weights resolution \<noteq> None"
  shows "episode_total_weight resolution = Inr 1 \<and>
    (\<exists>ws. map (\<lambda>h. horizon_entry_weight h resolution) daily_stream_horizons = map Inr ws \<and> fsum ws = 1 \<and>
      (\<forall>w \<in> set ws. 0 \<le> w \<and> w \<le> 1))"
proof -
  have "\<exists>ws. map (\<lambda>h. horizon_entry_weight h resolution) daily_stream_horizons = map Inr ws \<and> fsum ws = 1"
    using assms shares_of shares_sum unfolding known_resolution by blast
  then obtain ws where ws: "map (\<lambda>h. horizon_entry_weight h resolution) daily_stream_horizons = map Inr ws" "fsum ws = 1"
    by blast
  have "0 \<le> w \<and> w \<le> 1" if "w \<in> set ws" for w
  proof -
    have "Inr w \<in> set (map (\<lambda>h. horizon_entry_weight h resolution) daily_stream_horizons)" unfolding ws(1) using that by simp
    then obtain h where "h \<in> set daily_stream_horizons" "horizon_entry_weight h resolution = Inr w" by auto
    then show ?thesis using horizon_weight_ok [of h resolution] by auto
  qed
  then show ?thesis using ws episode_total [OF assms] by blast
qed

lemma sf_one_episode_one_unit_witness:
  "episode_total_weight ''low'' = Inr 1"
  using sf_one_episode_one_unit [of "''low''"] by (simp add: daily_stream_horizon_weights_def)

text \<open>Nothing is rescored and nothing is lost: over any run of distinct days that covers the
  results, with published horizons, the day flows all return and together hold exactly one entry per
  result, each under its own finalisation day.\<close>

theorem sf_each_result_once:
  assumes "distinct days"
    and "\<forall>r \<in> set results. hr_finalized_on r \<in> set days \<and> hr_horizon_days r \<in> set daily_stream_horizons"
  shows "\<exists>flows. map (\<lambda>d. day_flow results d type_weight_fn) days = map Inr flows \<and>
    mset (map Inr (concat flows)) = mset (map (entry_of type_weight_fn) results) \<and>
    list_all2 (\<lambda>d out. \<forall>e \<in> set out. we_entered_on e = d) days flows"
proof -
  define flow where "flow d = (SOME out. day_flow results d type_weight_fn = Inr out \<and>
    map Inr out = map (entry_of type_weight_fn) (filter (\<lambda>r. hr_finalized_on r = d) results))" for d
  have flow: "day_flow results d type_weight_fn = Inr (flow d)"
    "map Inr (flow d) = map (entry_of type_weight_fn) (filter (\<lambda>r. hr_finalized_on r = d) results)" for d
    using someI_ex [OF day_flow_ok [of results d type_weight_fn]] assms(2) unfolding flow_def by blast+
  have dated: "we_entered_on e = d" if "e \<in> set (flow d)" for d e
  proof -
    have "Inr e \<in> set (map Inr (flow d) :: (py_error + weighted_entry) list)" using that by simp
    then obtain r where "entry_of type_weight_fn r = Inr e" "hr_finalized_on r = d" "r \<in> set results"
      unfolding flow(2) by auto
    then show ?thesis using entry_of_ok [of r type_weight_fn] assms(2) by auto
  qed
  have "mset (map Inr (concat (map flow days))) = (\<Sum>d \<leftarrow> days. mset (map Inr (flow d)))"
    by (induction days) simp_all
  also have "\<dots> = (\<Sum>d \<leftarrow> days. image_mset (entry_of type_weight_fn) (filter_mset (\<lambda>r. hr_finalized_on r = d) (mset results)))"
    unfolding flow(2) by (simp only: mset_map mset_filter)
  also have "\<dots> = image_mset (entry_of type_weight_fn) (\<Sum>d \<leftarrow> days. filter_mset (\<lambda>r. hr_finalized_on r = d) (mset results))"
    by (induction days) simp_all
  also have "\<dots> = mset (map (entry_of type_weight_fn) results)"
    using split_by_day [OF assms(1), of results hr_finalized_on] assms(2) by simp
  finally show ?thesis using flow(1) dated
    by (intro exI [of _ "map flow days"]) (simp add: list_all2_conv_all_nth)
qed

lemma sf_each_result_once_witness:
  "\<exists>flows. map (\<lambda>d. day_flow
      [\<lparr>hr_episode_id = ''e'', hr_horizon_days = 7, hr_miner = ''m'', hr_score = 1 / 2, hr_finalized_on = 10, hr_resolution = ''high''\<rparr>]
      d None) [9, 10] = map Inr flows \<and> length (concat flows) = 1"
proof -
  let ?r = "\<lparr>hr_episode_id = ''e'', hr_horizon_days = 7, hr_miner = ''m'', hr_score = 1 / 2, hr_finalized_on = 10, hr_resolution = ''high''\<rparr>"
  have "\<exists>flows. map (\<lambda>d. day_flow [?r] d None) [9, 10] = map Inr flows \<and>
      mset (map Inr (concat flows)) = mset (map (entry_of None) [?r]) \<and>
      list_all2 (\<lambda>d out. \<forall>e \<in> set out. we_entered_on e = d) [9, 10] flows"
    by (rule sf_each_result_once) (simp_all add: daily_stream_horizons_def)
  then obtain flows where f: "map (\<lambda>d. day_flow [?r] d None) [9, 10] = map Inr flows"
    "mset (map Inr (concat flows)) = mset (map (entry_of None) [?r])" by blast
  have "size (mset (map Inr (concat flows) :: (py_error + weighted_entry) list)) = 1" unfolding f(2) by simp
  then show ?thesis using f(1) by auto
qed

end
