(* ===== verification/ChampionPromotion.thy ===== *)
theory ChampionPromotion
  imports Prelude Interfaces PyFloat
begin

text \<open>
  Champion promotion (\<open>hope/scoring/champion_promotion.py\<close>): the state machine that decides which
  miner's model holds the live seat. A day's standings are folded into a \<open>promotion_state\<close>; the
  seat changes hands only by an explicit decision whose event is the promotion log's entry.

  The section "Histories" adds what the code does not keep, the list of all observations, and
  shows that a promotion is backed by the full hold of consecutive days the design asks for, as
  long as no observation came without standings; the last section shows that the proviso is
  needed.
\<close>

section \<open>The state machine\<close>

record promotion_params =
  margin :: float
  hold_days :: int
  min_scored_days :: int
  margin_abs :: "float option"

definition default_promotion_params :: promotion_params where
  "default_promotion_params =
     \<lparr>margin = fl (1 / 20), hold_days = 7, min_scored_days = 14, margin_abs = None\<rparr>"

record promotion_state =
  champion :: "hotkey option"
  challenger :: "hotkey option"
  lead_started :: "date option"
  last_observed :: "date option"
  vacated_on :: "date option"
  vacate_reason :: "string option"

definition cold_start :: promotion_state where
  "cold_start = \<lparr>champion = None, challenger = None, lead_started = None, last_observed = None,
     vacated_on = None, vacate_reason = None\<rparr>"

datatype promotion_event =
    VacateEvent (old_champion: hotkey) (event_day: date) (event_reason: string)
  | InitialSeat (new_champion: hotkey) (event_day: date)
  | SeatAfterVacate (new_champion: hotkey) (event_day: date) (event_vacated_on: date)
      (vacated_because: "string option")
  | Promotion (old_champion: hotkey) (new_champion: hotkey) (event_day: date) (held_days: int)
      (margin_met: bool) (event_scored_days: int)

record promotion_decision =
  decided :: promotion_state
  promoted :: bool
  log_event :: "promotion_event option"

type_synonym standings = "(hotkey, float option) dict"

definition rank_key :: "hotkey \<times> float \<Rightarrow> float \<times> hotkey" where
  "rank_key item = (case item of (miner, standing) \<Rightarrow> (- standing, miner))"

text \<open>\<open>min(xs, key=f)\<close>: the first least element, which a stable sort puts in front.\<close>

definition py_min :: "('a \<Rightarrow> 'k::linorder) \<Rightarrow> 'a list \<Rightarrow> 'a" where
  "py_min f xs = hd (sort_key f xs)"

definition vacate_seat :: "promotion_state \<Rightarrow> date \<Rightarrow> string \<Rightarrow> promotion_decision" where
  "vacate_seat state day reason =
     (case champion state of
        None \<Rightarrow> \<lparr>decided = state, promoted = False, log_event = None\<rparr>
      | Some c \<Rightarrow>
          \<lparr>decided = \<lparr>champion = None, challenger = None, lead_started = None,
             last_observed = last_observed state, vacated_on = Some day, vacate_reason = Some reason\<rparr>,
           promoted = False, log_event = Some (VacateEvent c day reason)\<rparr>)"

definition scored :: "(hotkey, int) dict \<Rightarrow> hotkey \<Rightarrow> int" where
  "scored scored_days m = (case map_of scored_days m of None \<Rightarrow> 0 | Some n \<Rightarrow> n)"

text \<open>\<open>[(m, s) for m, s in standings.items() if s is not None]\<close>.\<close>

definition with_standing :: "standings \<Rightarrow> (hotkey \<times> float) list" where
  "with_standing standings = concat (map (\<lambda>(m, s). case s of None \<Rightarrow> [] | Some x \<Rightarrow> [(m, x)]) standings)"

definition eligible :: "promotion_params \<Rightarrow> standings \<Rightarrow> (hotkey, int) dict \<Rightarrow> (hotkey \<times> float) list" where
  "eligible params standings scored_days =
     filter (\<lambda>(m, s). min_scored_days params \<le> scored scored_days m) (with_standing standings)"

definition qualified_contenders :: "promotion_params \<Rightarrow> hotkey \<Rightarrow> standings \<Rightarrow> (hotkey \<times> float) list" where
  "qualified_contenders params c standings =
     (let champ_avg = Option.bind (map_of standings c) id;
          contenders = filter (\<lambda>(m, s). m \<noteq> c) (with_standing standings)
      in case champ_avg of
           None \<Rightarrow> contenders
         | Some avg \<Rightarrow>
             (case margin_abs params of
                Some d \<Rightarrow> filter (\<lambda>(m, s). fadd avg d \<le> s) contenders
              | None \<Rightarrow> filter (\<lambda>(m, s). fmul avg (fadd 1 (margin params)) \<le> s) contenders))"

definition leader_of :: "promotion_params \<Rightarrow> hotkey \<Rightarrow> standings \<Rightarrow> hotkey option" where
  "leader_of params c standings =
     (let q = qualified_contenders params c standings
      in if q = [] then None else Some (fst (py_min rank_key q)))"

definition seat_first :: "promotion_state \<Rightarrow> date \<Rightarrow> hotkey \<Rightarrow> promotion_decision" where
  "seat_first state day best =
     \<lparr>decided = cold_start\<lparr>champion := Some best, last_observed := Some day\<rparr>, promoted = True,
      log_event = Some (case vacated_on state of
        Some v \<Rightarrow> SeatAfterVacate best day v (vacate_reason state)
      | None \<Rightarrow> InitialSeat best day)\<rparr>"

text \<open>
  One day. \<open>day - lead_started\<close> raises a \<open>TypeError\<close> when the streak of the persisted state has
  no start; the invariant below excludes it.
\<close>

definition observe_day ::
    "promotion_state \<Rightarrow> date \<Rightarrow> standings \<Rightarrow> (hotkey, int) dict \<Rightarrow> promotion_params
      \<Rightarrow> py_error + promotion_decision" where
  "observe_day state day standings scored_days params =
     (if standings = [] then
        Inr \<lparr>decided = state\<lparr>last_observed := Some day\<rparr>, promoted = False, log_event = None\<rparr>
      else case champion state of
        None \<Rightarrow>
          (let el = eligible params standings scored_days in
           if el \<noteq> [] then Inr (seat_first state day (fst (py_min rank_key el)))
           else Inr \<lparr>decided = state\<lparr>last_observed := Some day\<rparr>, promoted = False, log_event = None\<rparr>)
      | Some c \<Rightarrow>
          (case leader_of params c standings of
             None \<Rightarrow>
               Inr \<lparr>decided = state\<lparr>challenger := None, lead_started := None, last_observed := Some day\<rparr>,
                    promoted = False, log_event = None\<rparr>
           | Some leader \<Rightarrow>
               (let same_day = (last_observed state = Some day);
                    consecutive = (challenger state = Some leader \<and>
                      (last_observed state = Some (day - 1) \<or> same_day));
                    started = (if consecutive then lead_started state else Some day)
                in case started of
                     None \<Rightarrow> Inl TypeError
                   | Some start \<Rightarrow>
                       (let held = day - start + 1 in
                        if hold_days params \<le> held \<and> min_scored_days params \<le> scored scored_days leader then
                          Inr \<lparr>decided = cold_start\<lparr>champion := Some leader, last_observed := Some day\<rparr>,
                               promoted = True,
                               log_event = Some (Promotion c leader day held
                                 (Option.bind (map_of standings c) id \<noteq> None) (scored scored_days leader))\<rparr>
                        else
                          Inr \<lparr>decided = state\<lparr>challenger := Some leader, lead_started := Some start,
                                 last_observed := Some day\<rparr>,
                               promoted = False, log_event = None\<rparr>))))"

text \<open>A day's observation, and the steps the daily run makes on the persisted state.\<close>

record observation =
  obs_day :: date
  obs_standings :: standings
  obs_scored :: "(hotkey, int) dict"

datatype seat_step = Observe observation | Vacate date string

definition seat_step :: "promotion_params \<Rightarrow> promotion_state \<Rightarrow> seat_step \<Rightarrow> promotion_state" where
  "seat_step params st s =
     (case s of
        Observe ob \<Rightarrow>
          (case observe_day st (obs_day ob) (obs_standings ob) (obs_scored ob) params of
             Inl _ \<Rightarrow> st | Inr d \<Rightarrow> decided d)
      | Vacate day reason \<Rightarrow> decided (vacate_seat st day reason))"

section \<open>The rank key\<close>

interpretation rank: ranking rank_key
  by unfold_locales (auto simp: rank_key_def split: prod.splits)

lemma sort_key_Nil_iff: "sort_key f xs = [] \<longleftrightarrow> xs = []"
  by (metis length_0_conv length_sort)

lemma py_min_in: "xs \<noteq> [] \<Longrightarrow> py_min f xs \<in> set xs"
  using hd_in_set [of "sort_key f xs"] by (simp add: py_min_def sort_key_Nil_iff)

lemma py_min_le: "x \<in> set xs \<Longrightarrow> f (py_min f xs) \<le> f x"
proof -
  assume x: "x \<in> set xs"
  then have ne: "sort_key f xs \<noteq> []" by (metis length_sort length_greater_0_conv length_pos_if_in_set)
  then obtain y ys where s: "sort_key f xs = y # ys" by (cases "sort_key f xs") auto
  have "sorted (map f (y # ys))" by (metis s sorted_sort_key)
  moreover have "x \<in> set (y # ys)" using x by (metis s set_sort)
  ultimately show ?thesis by (auto simp: py_min_def s)
qed

lemma rank_min_order_free: "mset xs = mset ys \<Longrightarrow> py_min rank_key xs = py_min rank_key ys"
  unfolding py_min_def by (rule arg_cong [where f = hd]) (rule rank.sort_order_free)

lemma with_standing_in: "(m, x) \<in> set (with_standing standings) \<longleftrightarrow> (m, Some x) \<in> set standings"
  unfolding with_standing_def by (auto split: option.splits)

lemma with_standing_map_of:
  "dict_ok standings \<Longrightarrow> (m, x) \<in> set (with_standing standings) \<longleftrightarrow> map_of standings m = Some (Some x)"
  by (simp add: with_standing_in)

lemma mset_with_standing:
  "mset xs = mset ys \<Longrightarrow> mset (with_standing xs) = mset (with_standing ys)"
proof -
  have "mset (with_standing zs) =
      \<Sum>\<^sub># (image_mset (\<lambda>(m, s). case s of None \<Rightarrow> {#} | Some x \<Rightarrow> {#(m, x)#}) (mset zs))" for zs
    by (induction zs) (auto simp: with_standing_def split: option.splits)
  then show "mset xs = mset ys \<Longrightarrow> ?thesis" by simp
qed

lemma qualified_in:
  "(m, x) \<in> set (qualified_contenders params c standings) \<longleftrightarrow>
     (m, x) \<in> set (with_standing standings) \<and> m \<noteq> c \<and>
     (case Option.bind (map_of standings c) id of
        None \<Rightarrow> True
      | Some avg \<Rightarrow> (case margin_abs params of
            Some d \<Rightarrow> fadd avg d \<le> x
          | None \<Rightarrow> fmul avg (fadd 1 (margin params)) \<le> x))"
  by (auto simp: qualified_contenders_def Let_def split: option.splits)

lemma leader_of_in:
  assumes "leader_of params c standings = Some m"
  shows "\<exists>x. (m, x) \<in> set (qualified_contenders params c standings) \<and>
    (\<forall>(m', y) \<in> set (qualified_contenders params c standings). y < x \<or> (y = x \<and> m \<le> m'))"
proof -
  let ?q = "qualified_contenders params c standings"
  from assms have ne: "?q \<noteq> []" and m: "m = fst (py_min rank_key ?q)"
    by (auto simp: leader_of_def Let_def split: if_splits)
  obtain x where min: "py_min rank_key ?q = (m, x)" using m by (metis prod.collapse)
  have "y < x \<or> (y = x \<and> m \<le> m')" if "(m', y) \<in> set ?q" for m' y
    using py_min_le [OF that, of rank_key] by (auto simp: min rank_key_def less_eq_prod_def)
  moreover have "(m, x) \<in> set ?q" using py_min_in [OF ne, of rank_key] by (simp add: min)
  ultimately show ?thesis by blast
qed

lemma leader_of_neq: "leader_of params c standings = Some m \<Longrightarrow> m \<noteq> c \<and> standings \<noteq> []"
  using leader_of_in by (fastforce simp: qualified_in with_standing_in)

section \<open>One step\<close>

definition seat_inv :: "promotion_state \<Rightarrow> bool" where
  "seat_inv st \<longleftrightarrow>
     (challenger st = None \<longleftrightarrow> lead_started st = None) \<and>
     (challenger st \<noteq> None \<longrightarrow> champion st \<noteq> None \<and> challenger st \<noteq> champion st \<and> last_observed st \<noteq> None) \<and>
     (champion st \<noteq> None \<longrightarrow> vacated_on st = None)"

lemma cold_start_inv [simp]: "seat_inv cold_start"
  by (simp add: seat_inv_def cold_start_def)

text \<open>The five outcomes of a day, as the cases every proof about a step goes through.\<close>

lemma observe_cases:
  assumes "seat_inv st"
  obtains (no_standings) "standings = []"
      "observe_day st day standings scored_days params =
         Inr \<lparr>decided = st\<lparr>last_observed := Some day\<rparr>, promoted = False, log_event = None\<rparr>"
  | (nobody) "champion st = None" "standings \<noteq> []" "eligible params standings scored_days = []"
      "observe_day st day standings scored_days params =
         Inr \<lparr>decided = st\<lparr>last_observed := Some day\<rparr>, promoted = False, log_event = None\<rparr>"
  | (seated) "champion st = None" "standings \<noteq> []" "eligible params standings scored_days \<noteq> []"
      "observe_day st day standings scored_days params =
         Inr (seat_first st day (fst (py_min rank_key (eligible params standings scored_days))))"
  | (no_leader) c where "champion st = Some c" "standings \<noteq> []" "leader_of params c standings = None"
      "observe_day st day standings scored_days params =
         Inr \<lparr>decided = st\<lparr>challenger := None, lead_started := None, last_observed := Some day\<rparr>,
              promoted = False, log_event = None\<rparr>"
  | (streak) c m start where "champion st = Some c" "standings \<noteq> []" "leader_of params c standings = Some m"
      "start = day \<or> (challenger st = Some m \<and> lead_started st = Some start \<and>
         (last_observed st = Some (day - 1) \<or> last_observed st = Some day))"
      "challenger st = Some m \<and> (last_observed st = Some (day - 1) \<or> last_observed st = Some day)
         \<longrightarrow> lead_started st = Some start"
      "observe_day st day standings scored_days params =
         Inr \<lparr>decided = st\<lparr>challenger := Some m, lead_started := Some start, last_observed := Some day\<rparr>,
              promoted = False, log_event = None\<rparr>"
      "\<not> (hold_days params \<le> day - start + 1 \<and> min_scored_days params \<le> scored scored_days m)"
  | (promotion) c m start where "champion st = Some c" "standings \<noteq> []" "leader_of params c standings = Some m"
      "start = day \<or> (challenger st = Some m \<and> lead_started st = Some start \<and>
         (last_observed st = Some (day - 1) \<or> last_observed st = Some day))"
      "hold_days params \<le> day - start + 1" "min_scored_days params \<le> scored scored_days m"
      "observe_day st day standings scored_days params =
         Inr \<lparr>decided = cold_start\<lparr>champion := Some m, last_observed := Some day\<rparr>, promoted = True,
              log_event = Some (Promotion c m day (day - start + 1)
                (Option.bind (map_of standings c) id \<noteq> None) (scored scored_days m))\<rparr>"
proof -
  consider "standings = []"
    | "standings \<noteq> []" "champion st = None" "eligible params standings scored_days = []"
    | "standings \<noteq> []" "champion st = None" "eligible params standings scored_days \<noteq> []"
    | c where "standings \<noteq> []" "champion st = Some c" "leader_of params c standings = None"
    | c m where "standings \<noteq> []" "champion st = Some c" "leader_of params c standings = Some m"
    by (metis option.exhaust)
  then show thesis
  proof cases
    case (5 c m)
    let ?cons = "challenger st = Some m \<and>
      (last_observed st = Some (day - 1) \<or> last_observed st = Some day)"
    have "\<exists>start. (if ?cons then lead_started st else Some day) = Some start"
      using assms by (auto simp: seat_inv_def)
    then obtain start where start: "(if ?cons then lead_started st else Some day) = Some start"
      by blast
    have from_start: "start = day \<or> (challenger st = Some m \<and> lead_started st = Some start \<and>
         (last_observed st = Some (day - 1) \<or> last_observed st = Some day))"
      using start by (auto split: if_splits)
    have to_start: "?cons \<longrightarrow> lead_started st = Some start" using start by auto
    note def = observe_day_def [of st day standings scored_days params]
    show thesis
    proof (cases "hold_days params \<le> day - start + 1 \<and> min_scored_days params \<le> scored scored_days m")
      case True
      then show thesis
        using 5 start from_start by (intro promotion [of c m start]) (simp_all add: def Let_def)
    next
      case False
      then show thesis
        using 5 start from_start to_start by (intro streak [of c m start]) (simp_all add: def Let_def)
    qed
  qed (rule no_standings nobody seated no_leader; simp add: observe_day_def Let_def)+
qed

lemma observe_inv:
  assumes "seat_inv st"
  shows "\<exists>d. observe_day st day standings scored_days params = Inr d \<and> seat_inv (decided d)"
  using assms
proof (cases rule: observe_cases [where day = day and standings = standings
    and scored_days = scored_days and params = params])
  case (streak c m start)
  then show ?thesis using assms leader_of_neq [OF streak(3)] by (auto simp: seat_inv_def)
qed (use assms in \<open>auto simp: seat_inv_def seat_first_def cold_start_def\<close>)

lemma vacate_inv: "seat_inv st \<Longrightarrow> seat_inv (decided (vacate_seat st day reason))"
  by (auto simp: vacate_seat_def seat_inv_def split: option.splits)

lemma seat_step_inv: "seat_inv st \<Longrightarrow> seat_inv (seat_step params st s)"
proof (cases s)
  case (Observe ob)
  assume "seat_inv st"
  then obtain d where "observe_day st (obs_day ob) (obs_standings ob) (obs_scored ob) params = Inr d"
    and "seat_inv (decided d)" using observe_inv by blast
  then show ?thesis by (simp add: seat_step_def Observe)
qed (simp add: seat_step_def vacate_inv)

interpretation seat: day_machine "seat_step params" "\<lambda>_ _. True" seat_inv for params
  by unfold_locales (rule seat_step_inv)

lemma run_seat_inv: "seat_inv (foldl (seat_step params) cold_start hist)"
proof -
  have "admissible (seat_step params) (\<lambda>_ _. True) st hist" for st
    by (induction hist arbitrary: st) auto
  then show ?thesis by (intro seat.run_inv) simp_all
qed

section \<open>Histories\<close>

text \<open>Miner \<open>m\<close> led over champion \<open>c\<close> on day \<open>d\<close> of the history.\<close>

definition led_on :: "promotion_params \<Rightarrow> hotkey \<Rightarrow> hotkey \<Rightarrow> seat_step list \<Rightarrow> date \<Rightarrow> bool" where
  "led_on params c m hist d \<longleftrightarrow>
     (\<exists>ob. Observe ob \<in> set hist \<and> obs_day ob = d \<and> leader_of params c (obs_standings ob) = Some m)"

fun with_scores :: "seat_step \<Rightarrow> bool" where
  "with_scores (Observe ob) \<longleftrightarrow> obs_standings ob \<noteq> []"
| "with_scores (Vacate _ _) \<longleftrightarrow> True"

text \<open>The streak the state carries is a run of days the history bears out.\<close>

definition streak_backed :: "promotion_params \<Rightarrow> seat_step list \<Rightarrow> promotion_state \<Rightarrow> bool" where
  "streak_backed params hist st \<longleftrightarrow>
     (\<forall>c m start l. champion st = Some c \<and> challenger st = Some m \<and> lead_started st = Some start
        \<and> last_observed st = Some l \<longrightarrow> (\<forall>d. start \<le> d \<and> d \<le> l \<longrightarrow> led_on params c m hist d))"

lemma led_on_snoc: "led_on params c m hist d \<Longrightarrow> led_on params c m (hist @ [s]) d"
  by (auto simp: led_on_def)

lemma led_on_last:
  "leader_of params c (obs_standings ob) = Some m \<Longrightarrow> led_on params c m (hist @ [Observe ob]) (obs_day ob)"
  by (auto simp: led_on_def)

text \<open>The days of a streak extended by today.\<close>

lemma streak_extended:
  assumes backed: "streak_backed params hist st"
    and c: "champion st = Some c" and lead: "leader_of params c (obs_standings ob) = Some m"
    and start: "start = obs_day ob \<or> (challenger st = Some m \<and> lead_started st = Some start \<and>
      (last_observed st = Some (obs_day ob - 1) \<or> last_observed st = Some (obs_day ob)))"
    and d: "start \<le> d" "d \<le> obs_day ob"
  shows "led_on params c m (hist @ [Observe ob]) d"
proof (cases "d = obs_day ob")
  case True
  then show ?thesis using led_on_last lead by blast
next
  case False
  with start d obtain l where "challenger st = Some m" "lead_started st = Some start"
    "last_observed st = Some l" "d \<le> l" by force
  then have "led_on params c m hist d" using backed c d by (auto simp: streak_backed_def)
  then show ?thesis by (rule led_on_snoc)
qed

lemma streak_backed_step:
  assumes "seat_inv st" and "streak_backed params hist st" and "with_scores s"
  shows "streak_backed params (hist @ [s]) (seat_step params st s)"
proof (cases s)
  case (Observe ob)
  show ?thesis
    using assms(1)
  proof (cases rule: observe_cases [where day = "obs_day ob" and standings = "obs_standings ob"
      and scored_days = "obs_scored ob" and params = params])
    case no_standings
    then show ?thesis using assms(3) Observe by simp
  next
    case nobody
    then show ?thesis by (simp add: Observe seat_step_def streak_backed_def)
  next
    case (streak c m start)
    have "led_on params c m (hist @ [Observe ob]) d" if "start \<le> d" "d \<le> obs_day ob" for d
      using streak_extended assms(2) streak(1,3,4) that by blast
    then show ?thesis using streak by (simp add: Observe seat_step_def streak_backed_def)
  qed (simp_all add: Observe seat_step_def streak_backed_def seat_first_def cold_start_def)
next
  case (Vacate day reason)
  then show ?thesis
    using assms(2)
    by (auto simp: seat_step_def vacate_seat_def streak_backed_def led_on_def split: option.splits)
qed

lemma run_streak_backed:
  "\<forall>s \<in> set hist. with_scores s \<Longrightarrow>
     streak_backed params hist (foldl (seat_step params) cold_start hist)"
proof (induction hist rule: rev_induct)
  case Nil
  show ?case by (simp add: streak_backed_def cold_start_def)
next
  case (snoc s hist)
  then show ?case using streak_backed_step [OF run_seat_inv] by simp
qed

section \<open>Properties\<close>

text \<open>C7. No raw crossover. Start from a cold start and fold any history of observations (each
  with some standing) and vacated seats; if today's observation puts another miner into an occupied
  seat, then that miner led over the incumbent, by the margin and ahead of every other contender,
  on each of the last \<open>hold_days\<close> calendar days, today included, and has the required number of
  scored days.\<close>

theorem cp_no_raw_crossover:
  assumes "\<forall>s \<in> set hist. with_scores s" and "with_scores (Observe ob)"
    and "st = foldl (seat_step params) cold_start hist" and "champion st = Some old"
    and "champion (seat_step params st (Observe ob)) = Some new" and "new \<noteq> old"
  shows "min_scored_days params \<le> scored (obs_scored ob) new \<and>
    (\<forall>d. obs_day ob - hold_days params < d \<and> d \<le> obs_day ob \<longrightarrow>
      led_on params old new (hist @ [Observe ob]) d)"
proof -
  have inv: "seat_inv st" and backed: "streak_backed params hist st"
    using assms run_seat_inv run_streak_backed by blast+
  from inv show ?thesis
  proof (cases rule: observe_cases [where day = "obs_day ob" and standings = "obs_standings ob"
      and scored_days = "obs_scored ob" and params = params])
    case (promotion c m start)
    then have cm: "c = old" "m = new" using assms(4,5) by (simp_all add: seat_step_def cold_start_def)
    have "led_on params old new (hist @ [Observe ob]) d"
      if "obs_day ob - hold_days params < d" "d \<le> obs_day ob" for d
      using streak_extended [OF backed assms(4) _ promotion(4) [unfolded cm]] promotion(3,5) that
      by (simp add: cm)
    with promotion(6) show ?thesis by (simp add: cm)
  qed (use assms(4-6) in \<open>auto simp: seat_step_def\<close>)
qed

text \<open>A two-day hold, with a one-day scoring requirement: \<open>a\<close> is seated, then \<open>b\<close> leads.\<close>

definition two_day_hold :: promotion_params where
  "two_day_hold = \<lparr>margin = fl (1 / 20), hold_days = 2, min_scored_days = 1, margin_abs = None\<rparr>"

definition sample_day :: "date \<Rightarrow> float \<Rightarrow> float \<Rightarrow> observation" where
  "sample_day d a b = \<lparr>obs_day = d, obs_standings = [(''a'', Some a), (''b'', Some b)],
     obs_scored = [(''a'', 20), (''b'', 20)]\<rparr>"

lemma cp_no_raw_crossover_witness:
  "min_scored_days two_day_hold \<le> scored (obs_scored (sample_day 3 (1/2) 1)) ''b'' \<and>
    led_on two_day_hold ''a'' ''b''
      ([Observe (sample_day 1 1 (1/2)), Observe (sample_day 2 (1/2) 1)] @ [Observe (sample_day 3 (1/2) 1)]) 2"
proof -
  let ?h = "[Observe (sample_day 1 1 (1/2)), Observe (sample_day 2 (1/2) 1)]"
  let ?st = "foldl (seat_step two_day_hold) cold_start ?h"
  have "\<forall>s \<in> set ?h. with_scores s" "with_scores (Observe (sample_day 3 (1/2) 1))"
    "champion ?st = Some ''a''"
    "champion (seat_step two_day_hold ?st (Observe (sample_day 3 (1/2) 1))) = Some ''b''"
    by code_simp+
  note this = cp_no_raw_crossover [OF this(1,2) refl this(3,4)]
  then show ?thesis by (simp add: sample_day_def two_day_hold_def)
qed

text \<open>The proviso of the previous property is needed: an observation without standings keeps the
  streak and advances its clock, whatever day it is made on. Under the shipped parameters (seven
  consecutive days) the challenger below is promoted after leading on two days, 2 and 9, because
  the only observation in between, on day 8, had no standings.\<close>

theorem cp_empty_day_bridges_hold:
  "let hist = [Observe (sample_day 1 1 (1/2)), Observe (sample_day 2 (1/2) 1),
         Observe \<lparr>obs_day = 8, obs_standings = [], obs_scored = []\<rparr>];
       st = foldl (seat_step default_promotion_params) cold_start hist
   in champion st = Some ''a'' \<and>
      Inr (Promotion ''a'' ''b'' 9 8 True 20) =
        map_sum id (the \<circ> log_event)
          (observe_day st 9 [(''a'', Some (1/2)), (''b'', Some 1)] [(''a'', 20), (''b'', 20)]
             default_promotion_params)"
  by code_simp

text \<open>The decision does not depend on the order in which the standings dict lists the miners:
  validators that iterate it differently decide alike.\<close>

theorem cp_order_free:
  assumes "dict_ok standings" and "mset standings = mset standings'"
  shows "observe_day st day standings scored_days params = observe_day st day standings' scored_days params"
proof -
  have ws: "mset (with_standing standings) = mset (with_standing standings')"
    using assms(2) by (rule mset_with_standing)
  have "dict_ok standings'" using assms mset_eq_imp_distinct_iff [of "map fst standings" "map fst standings'"]
    by (metis mset_map)
  then have mo: "map_of standings = map_of standings'"
    using assms by (intro map_of_inject_set [THEN iffD2]) (auto dest: mset_eq_setD)
  have el: "mset (eligible params standings scored_days) = mset (eligible params standings' scored_days)"
    by (simp add: eligible_def ws)
  have q: "mset (qualified_contenders params c standings) = mset (qualified_contenders params c standings')" for c
    by (auto simp: qualified_contenders_def Let_def mo ws split: option.splits)
  have nil: "(mset xs = mset ys) \<Longrightarrow> (xs = []) = (ys = [])" for xs ys :: "'z list"
    by auto
  have lead: "leader_of params c standings = leader_of params c standings'" for c
    using rank_min_order_free [OF q [of c]] nil [OF q [of c]] by (simp add: leader_of_def Let_def)
  show ?thesis
    by (simp only: observe_day_def Let_def lead mo nil [OF assms(2)] nil [OF el] rank_min_order_free [OF el])
qed

lemma cp_order_free_witness:
  "observe_day cold_start 5 [(''a'', Some 1), (''b'', Some 1)] [(''a'', 20), (''b'', 20)] default_promotion_params
   = observe_day cold_start 5 [(''b'', Some 1), (''a'', Some 1)] [(''a'', 20), (''b'', 20)] default_promotion_params"
  by (rule cp_order_free) (simp_all add: add_mset_commute)

text \<open>How far a challenger has come after leading on \<open>k\<close> consecutive days from day \<open>d\<close>.\<close>

definition on_course :: "promotion_params \<Rightarrow> hotkey \<Rightarrow> hotkey \<Rightarrow> date \<Rightarrow> nat \<Rightarrow> promotion_state \<Rightarrow> bool" where
  "on_course params c m d k st \<longleftrightarrow> seat_inv st \<and> champion st = Some c \<and>
     (\<forall>s. lead_started st = Some s \<longrightarrow> s \<le> d) \<and>
     (0 < k \<longrightarrow> challenger st = Some m \<and> last_observed st = Some (d + int k - 1) \<and> int k < hold_days params)"

lemma on_course_step:
  assumes "on_course params c m d k st" and "obs_day ob = d + int k"
    and "leader_of params c (obs_standings ob) = Some m"
    and "min_scored_days params \<le> scored (obs_scored ob) m"
  shows "champion (seat_step params st (Observe ob)) = Some m \<or>
    on_course params c m d (Suc k) (seat_step params st (Observe ob))"
proof -
  have inv: "seat_inv st" and c: "champion st = Some c" using assms(1) by (auto simp: on_course_def)
  have inv': "seat_inv (seat_step params st (Observe ob))" using inv by (rule seat_step_inv)
  from inv show ?thesis
  proof (cases rule: observe_cases [where day = "obs_day ob" and standings = "obs_standings ob"
      and scored_days = "obs_scored ob" and params = params])
    case no_standings
    then show ?thesis using leader_of_neq [OF assms(3)] by simp
  next
    case (streak c' m' start)
    have cm: "c' = c" "m' = m" using streak(1,3) c assms(3) by auto
    have "start \<le> d"
      using streak(4,5) assms(1,2) by (cases "k = 0") (auto simp: on_course_def cm)
    then show ?thesis using streak inv' assms(2,4) c
      by (auto simp: seat_step_def on_course_def cm)
  next
    case (promotion c' m' start)
    then show ?thesis using c assms(3) by (auto simp: seat_step_def cold_start_def)
  qed (use c assms(3) in auto)
qed

lemma on_course_run:
  assumes "on_course params c m d 0 st"
    and "\<forall>i < length obs. obs_day (obs ! i) = d + int i \<and>
      leader_of params c (obs_standings (obs ! i)) = Some m \<and>
      min_scored_days params \<le> scored (obs_scored (obs ! i)) m"
  shows "n \<le> length obs \<Longrightarrow>
    (\<exists>k \<le> n. champion (foldl (seat_step params) st (map Observe (take k obs))) = Some m) \<or>
    on_course params c m d n (foldl (seat_step params) st (map Observe (take n obs)))"
proof (induction n)
  case 0
  then show ?case using assms(1) by simp
next
  case (Suc n)
  let ?run = "\<lambda>k. foldl (seat_step params) st (map Observe (take k obs))"
  have step: "?run (Suc n) = seat_step params (?run n) (Observe (obs ! n))"
    using Suc.prems by (simp add: take_Suc_conv_app_nth)
  from Suc consider k where "k \<le> n" "champion (?run k) = Some m" | "on_course params c m d n (?run n)"
    by auto
  then show ?case
  proof cases
    case 1
    then show ?thesis using le_Suc_eq by blast
  next
    case 2
    have "champion (?run (Suc n)) = Some m \<or> on_course params c m d (Suc n) (?run (Suc n))"
      unfolding step using on_course_step [OF 2, of "obs ! n"] assms(2) Suc.prems by simp
    then show ?thesis by blast
  qed
qed

text \<open>C18. The hold pays off: if the seat is taken and one challenger leads over the incumbent, with
  enough scored days, on \<open>n \<ge> hold_days\<close> consecutive days, then it takes the seat within them.\<close>

theorem cp_hold_promotes:
  assumes "seat_inv st" and "champion st = Some c" and "\<forall>s. lead_started st = Some s \<longrightarrow> s \<le> d"
    and "\<forall>i < length obs. obs_day (obs ! i) = d + int i \<and>
      leader_of params c (obs_standings (obs ! i)) = Some m \<and>
      min_scored_days params \<le> scored (obs_scored (obs ! i)) m"
    and "hold_days params \<le> int (length obs)" and "obs \<noteq> []"
  shows "\<exists>k \<le> length obs. champion (foldl (seat_step params) st (map Observe (take k obs))) = Some m"
  using on_course_run [of params c m d st obs "length obs"] assms
  by (auto simp: on_course_def)

lemma cp_hold_promotes_witness:
  "\<exists>k \<le> 2. champion (foldl (seat_step two_day_hold) (cold_start\<lparr>champion := Some ''a''\<rparr>)
     (map Observe (take k [sample_day 2 (1/2) 1, sample_day 3 (1/2) 1]))) = Some ''b''"
proof -
  let ?st = "cold_start\<lparr>champion := Some ''a''\<rparr>"
  let ?obs = "[sample_day 2 (1/2) 1, sample_day 3 (1/2) 1]"
  have st: "seat_inv ?st" "champion ?st = Some ''a''" "\<forall>s. lead_started ?st = Some s \<longrightarrow> s \<le> 2"
    by (simp_all add: seat_inv_def cold_start_def)
  have "leader_of two_day_hold ''a'' (obs_standings (sample_day 2 (1/2) 1)) = Some ''b''"
    "leader_of two_day_hold ''a'' (obs_standings (sample_day 3 (1/2) 1)) = Some ''b''"
    by code_simp+
  then have "\<forall>i < length ?obs. obs_day (?obs ! i) = 2 + int i \<and>
      leader_of two_day_hold ''a'' (obs_standings (?obs ! i)) = Some ''b'' \<and>
      min_scored_days two_day_hold \<le> scored (obs_scored (?obs ! i)) ''b''"
    by (auto simp: less_Suc_eq sample_day_def two_day_hold_def scored_def)
  from cp_hold_promotes [OF st this] show ?thesis
    by (simp add: two_day_hold_def numeral_2_eq_2)
qed

text \<open>The promotion log is honest about cold starts: after any history, an \<open>initial_seat\<close> is logged
  only if no miner has held the seat before; a replacement for a vacated champion is logged as
  \<open>seat_after_vacate\<close>.\<close>

theorem cp_initial_seat_is_first:
  assumes "st = foldl (seat_step params) cold_start hist"
    and "observe_day st day standings scored_days params = Inr d"
    and "log_event d = Some (InitialSeat m day')" and "k \<le> length hist"
  shows "champion (foldl (seat_step params) cold_start (take k hist)) = None"
proof -
  have kept: "champion (seat_step params s x) \<noteq> None \<or> vacated_on (seat_step params s x) \<noteq> None"
    if "seat_inv s" "champion s \<noteq> None \<or> vacated_on s \<noteq> None" for s x
  proof (cases x)
    case (Observe ob)
    from that(1) show ?thesis
      by (cases rule: observe_cases [where day = "obs_day ob" and standings = "obs_standings ob"
            and scored_days = "obs_scored ob" and params = params])
        (use that in \<open>auto simp: Observe seat_step_def seat_first_def\<close>)
  qed (use that in \<open>auto simp: seat_step_def vacate_seat_def split: option.splits\<close>)
  have later: "champion (foldl (seat_step params) s xs) \<noteq> None \<or> vacated_on (foldl (seat_step params) s xs) \<noteq> None"
    if "seat_inv s" "champion s \<noteq> None \<or> vacated_on s \<noteq> None" for s xs
    using that by (induction xs arbitrary: s) (simp, metis foldl_Cons kept seat_step_inv)
  have inv: "seat_inv st" using assms(1) run_seat_inv by simp
  have "champion st = None \<and> vacated_on st = None"
    using inv by (cases rule: observe_cases [where day = day and standings = standings
          and scored_days = scored_days and params = params])
      (use assms(2,3) in \<open>auto simp: seat_first_def split: option.splits\<close>)
  moreover have "st = foldl (seat_step params) (foldl (seat_step params) cold_start (take k hist)) (drop k hist)"
    by (metis append_take_drop_id assms(1) foldl_append)
  ultimately show ?thesis using later run_seat_inv by metis
qed

lemma cp_initial_seat_is_first_witness:
  "champion (foldl (seat_step two_day_hold) cold_start
     (take 1 [Observe \<lparr>obs_day = 1, obs_standings = [(''a'', None)], obs_scored = []\<rparr>])) = None"
  by (rule cp_initial_seat_is_first [where standings = "[(''a'', Some 1)]" and day = 2
      and scored_days = "[(''a'', 5)]" and m = "''a''" and day' = 2
      and d = "\<lparr>decided = cold_start\<lparr>champion := Some ''a'', last_observed := Some 2\<rparr>,
        promoted = True, log_event = Some (InitialSeat ''a'' 2)\<rparr>", OF refl])
    (code_simp, simp_all)

end
