(* ===== verification/ChronicFailure.thy ===== *)
theory ChronicFailure
  imports Interfaces
begin

text \<open>
  Model of \<open>hope/scoring/chronic_failure.py\<close>: fault classification of a failed run, strike
  counting in a rolling window, and the eviction state machine \<open>observe_day\<close> with its
  retraction, re-entry and non-empty-field floor. States are a dict from hotkey to
  \<open>eviction_state\<close>, the liveness log is a list of \<open>strike_event\<close>s in append order.
  The message text of a withheld eviction is kept as the values it interpolates.
\<close>

section \<open>Policy, events and states\<close>

datatype fault = FaultNone | FaultMiner | FaultSubnet | FaultUnknown

datatype reason = ReasonNone | ReasonTimeout | ReasonMemory | ReasonCrash
  | ReasonSubnetUnavailable | ReasonUnknown
  | BlockedHouse hotkey | BlockedFloor hotkey int int

datatype event_kind = KindStrike | KindClean | KindExcluded | KindEvicted | KindReinstated
  | KindEvictionRetracted | KindEvictionWithheld

fun is_observation_kind :: "event_kind \<Rightarrow> bool" where
  "is_observation_kind KindStrike = True"
| "is_observation_kind KindClean = True"
| "is_observation_kind KindExcluded = True"
| "is_observation_kind _ = False"

datatype event_detail = NoDetail
  | EvictDetail "int option" int int bool int date
  | RetractDetail date int "date option"
  | ReinstateDetail int date bool

record strike_event =
  ev_day :: date
  ev_hotkey :: hotkey
  ev_kind :: event_kind
  ev_fault :: fault
  ev_error :: "string option"
  ev_reason :: reason
  ev_detail :: event_detail

record eviction_state =
  es_hotkey :: hotkey
  evicted_on :: "date option"
  evictions_total :: int
  last_eviction_on :: "date option"
  reinstate_not_before :: "date option"

definition fresh_state :: "hotkey \<Rightarrow> eviction_state" where
  "fresh_state hk = \<lparr>es_hotkey = hk, evicted_on = None, evictions_total = 0,
     last_eviction_on = None, reinstate_not_before = None\<rparr>"

record chronic_params =
  strikes_to_evict :: int
  min_survivors :: int
  house_hotkey :: "hotkey option"
  cp_window_days :: int
  repeat_review_days :: int
  repeat_lookback_days :: "int option"

definition default_chronic_params :: chronic_params where
  "default_chronic_params = \<lparr>strikes_to_evict = 5, min_survivors = 1, house_hotkey = None,
     cp_window_days = 14, repeat_review_days = 7, repeat_lookback_days = None\<rparr>"

definition house_hotkey_from :: "environ \<Rightarrow> hotkey option" where
  "house_hotkey_from environ =
     (let raw = env_raw environ ''SN21_HOUSE_HOTKEY'' in if raw = [] then None else Some raw)"

definition min_survivors_from :: "environ \<Rightarrow> int" where
  "min_survivors_from environ =
     (let raw = env_raw environ ''SN21_MIN_SURVIVORS'' in
      if raw = [] then 1
      else case py_int raw of None \<Rightarrow> 1 | Some n \<Rightarrow> if n < 1 then 1 else n)"

definition chronic_failure_policy_enabled :: "environ \<Rightarrow> bool" where
  "chronic_failure_policy_enabled environ = flag_on environ ''SN21_CHRONIC_FAILURE_POLICY''"

definition int_env :: "environ \<Rightarrow> string \<Rightarrow> int option \<Rightarrow> int \<Rightarrow> int option" where
  "int_env environ name dflt minimum =
     (let raw = env_raw environ name in
      if raw = [] then dflt
      else case py_int raw of None \<Rightarrow> dflt | Some n \<Rightarrow> Some (max minimum n))"

definition params_from_env :: "environ \<Rightarrow> chronic_params" where
  "params_from_env environ = default_chronic_params
     \<lparr>strikes_to_evict := the (int_env environ ''SN21_CHRONIC_STRIKES'' (Some 5) 1),
      cp_window_days := the (int_env environ ''SN21_CHRONIC_WINDOW_DAYS'' (Some 14) 1),
      repeat_review_days := the (int_env environ ''SN21_CHRONIC_REVIEW_DAYS'' (Some 7) 0),
      repeat_lookback_days := int_env environ ''SN21_CHRONIC_REPEAT_LOOKBACK_DAYS'' None 1\<rparr>"

section \<open>Fault classification\<close>

definition classify_failure :: "bool \<Rightarrow> string option \<Rightarrow> fault" where
  "classify_failure ok error =
     (if ok then FaultNone
      else let err = strip (case error of None \<Rightarrow> [] | Some e \<Rightarrow> e) in
        if err = [] then FaultUnknown
        else if startswith err ''docker_not_available'' then FaultSubnet
        else if startswith err ''pull timeout>'' \<or> startswith err ''pull exit='' then FaultUnknown
        else if startswith err ''timeout>'' then FaultMiner
        else if startswith err ''exit='' then FaultMiner
        else FaultUnknown)"

text \<open>\<open>re.search(r"exit=(-?\\d+)", error)\<close>: the first place where the pattern matches.\<close>

fun exit_code_search :: "string \<Rightarrow> int option" where
  "exit_code_search [] = None"
| "exit_code_search (c # cs) =
     (let r = drop 5 (c # cs);
          neg = (r \<noteq> [] \<and> hd r = CHR ''-'');
          ds = takeWhile is_digit (if neg then tl r else r)
      in if startswith (c # cs) ''exit='' \<and> ds \<noteq> []
         then Some ((if neg then -1 else 1) * the (digits_from ds 0 False))
         else exit_code_search cs)"

definition exit_code :: "string option \<Rightarrow> int option" where
  "exit_code error = exit_code_search (case error of None \<Rightarrow> [] | Some e \<Rightarrow> e)"

definition failure_reason :: "bool \<Rightarrow> string option \<Rightarrow> reason" where
  "failure_reason ok error =
     (if ok then ReasonNone
      else let fault = classify_failure ok error in
        if fault = FaultSubnet then ReasonSubnetUnavailable
        else if fault \<noteq> FaultMiner then ReasonUnknown
        else let err = strip (case error of None \<Rightarrow> [] | Some e \<Rightarrow> e) in
          if startswith err ''timeout>'' then ReasonTimeout
          else if exit_code (Some err) = Some 137 then ReasonMemory
          else ReasonCrash)"

section \<open>Strike counting\<close>

definition is_observation_of :: "hotkey \<Rightarrow> strike_event \<Rightarrow> bool" where
  "is_observation_of hk ev \<longleftrightarrow> ev_hotkey ev = hk \<and> is_observation_kind (ev_kind ev)"

definition observations :: "strike_event list \<Rightarrow> hotkey \<Rightarrow> (date, strike_event) dict" where
  "observations events hk =
     foldl (\<lambda>per_day ev. if is_observation_of hk ev then AList.update (ev_day ev) ev per_day
                         else per_day) [] events"

definition strike_days_in_window ::
  "strike_event list \<Rightarrow> hotkey \<Rightarrow> date \<Rightarrow> int \<Rightarrow> date option \<Rightarrow> date list" where
  "strike_days_in_window events hk as_of window_days since =
     (let cutoff = as_of - (max 1 window_days - 1) in
      sort (map fst (filter (\<lambda>(d, ev).
        \<not> (as_of < d \<or> d < cutoff)
        \<and> \<not> (case since of None \<Rightarrow> False | Some s \<Rightarrow> d \<le> s)
        \<and> ev_kind ev = KindStrike) (observations events hk))))"

definition strikes_in_window ::
  "strike_event list \<Rightarrow> hotkey \<Rightarrow> date \<Rightarrow> int \<Rightarrow> date option \<Rightarrow> int" where
  "strikes_in_window events hk as_of window_days since =
     int (length (strike_days_in_window events hk as_of window_days since))"

section \<open>Lifecycle transitions\<close>

definition is_repeat :: "eviction_state \<Rightarrow> date \<Rightarrow> chronic_params \<Rightarrow> bool" where
  "is_repeat st day P =
     (if evictions_total st \<le> 0 then False
      else case last_eviction_on st of
        None \<Rightarrow> False
      | Some l \<Rightarrow> (case repeat_lookback_days P of None \<Rightarrow> True | Some k \<Rightarrow> day - l \<le> k))"

definition evict ::
  "eviction_state \<Rightarrow> date \<Rightarrow> chronic_params \<Rightarrow> int option \<Rightarrow> eviction_state \<times> strike_event" where
  "evict st day P strikes =
     (let repeat = is_repeat st day P;
          not_before = (if repeat then day + repeat_review_days P else day);
          new = \<lparr>es_hotkey = es_hotkey st, evicted_on = Some day,
                 evictions_total = evictions_total st + 1, last_eviction_on = Some day,
                 reinstate_not_before = Some not_before\<rparr>
      in (new, \<lparr>ev_day = day, ev_hotkey = es_hotkey st, ev_kind = KindEvicted,
                ev_fault = FaultMiner, ev_error = None, ev_reason = ReasonNone,
                ev_detail = EvictDetail strikes (strikes_to_evict P) (cp_window_days P) repeat
                  (evictions_total new) not_before\<rparr>))"

definition retract_eviction ::
  "eviction_state \<Rightarrow> strike_event list \<Rightarrow> date \<Rightarrow> eviction_state \<times> strike_event" where
  "retract_eviction st events day =
     (let retracted_days = ev_day ` set (filter (\<lambda>e. ev_hotkey e = es_hotkey st
                               \<and> ev_kind e = KindEvictionRetracted) events);
          others = filter (\<lambda>e. ev_hotkey e = es_hotkey st \<and> ev_kind e = KindEvicted
                     \<and> ev_day e \<noteq> day \<and> ev_day e \<notin> retracted_days) events;
          prev = (if others = [] then None else Some (ev_day (last others)));
          new = \<lparr>es_hotkey = es_hotkey st, evicted_on = None,
                 evictions_total = int (length others), last_eviction_on = prev,
                 reinstate_not_before = None\<rparr>
      in (new, \<lparr>ev_day = day, ev_hotkey = es_hotkey st, ev_kind = KindEvictionRetracted,
                ev_fault = FaultNone, ev_error = None, ev_reason = ReasonNone,
                ev_detail = RetractDetail day (evictions_total new) prev\<rparr>))"

definition reinstate ::
  "(hotkey, eviction_state) dict \<Rightarrow> hotkey \<Rightarrow> date
     \<Rightarrow> (hotkey, eviction_state) dict \<times> strike_event option" where
  "reinstate states hk day =
     (case map_of states hk of
        None \<Rightarrow> (states, None)
      | Some st \<Rightarrow>
          (case evicted_on st of
             None \<Rightarrow> (states, None)
           | Some on \<Rightarrow>
               if (case reinstate_not_before st of None \<Rightarrow> False | Some nb \<Rightarrow> day < nb)
               then (states, None)
               else (AList.update hk (st\<lparr>evicted_on := None, reinstate_not_before := None\<rparr>) states,
                     Some \<lparr>ev_day = day, ev_hotkey = hk, ev_kind = KindReinstated,
                           ev_fault = FaultNone, ev_error = None, ev_reason = ReasonNone,
                           ev_detail = ReinstateDetail (evictions_total st) on
                             (case reinstate_not_before st of None \<Rightarrow> False | Some nb \<Rightarrow> on < nb)\<rparr>)))"

definition state_of :: "(hotkey, eviction_state) dict \<Rightarrow> hotkey \<Rightarrow> eviction_state" where
  "state_of states hk = (case map_of states hk of Some st \<Rightarrow> st | None \<Rightarrow> fresh_state hk)"

definition surviving :: "hotkey list \<Rightarrow> (hotkey, eviction_state) dict \<Rightarrow> hotkey list" where
  "surviving known states = filter (\<lambda>hk. evicted_on (state_of states hk) = None) known"

definition eviction_blocked ::
  "hotkey \<Rightarrow> (hotkey, eviction_state) dict \<Rightarrow> hotkey list \<Rightarrow> chronic_params \<Rightarrow> reason option" where
  "eviction_blocked hk states known P =
     (if (case house_hotkey P of None \<Rightarrow> False | Some h \<Rightarrow> h \<noteq> [] \<and> hk = h)
      then Some (BlockedHouse hk)
      else let n = int (length (surviving (filter (\<lambda>k. k \<noteq> hk) known) states));
               floor = max 1 (min_survivors P)
           in if n < floor then Some (BlockedFloor hk n floor) else None)"

section \<open>One day folded into the state machine\<close>

text \<open>The local variables of \<open>observe_day\<close>, threaded through its loop over sorted hotkeys.\<close>

record day_fold =
  df_states :: "(hotkey, eviction_state) dict"
  df_log :: "strike_event list"
  df_emitted :: "strike_event list"
  df_struck :: "hotkey list"
  df_evicted :: "hotkey list"
  df_reinstated :: "hotkey list"
  df_excluded :: "hotkey list"
  df_retracted :: "hotkey list"
  df_withheld :: "hotkey list"

definition emit :: "strike_event \<Rightarrow> day_fold \<Rightarrow> day_fold" where
  "emit ev f = f\<lparr>df_log := df_log f @ [ev], df_emitted := df_emitted f @ [ev]\<rparr>"

definition run_kind :: "bool \<Rightarrow> string option \<Rightarrow> event_kind" where
  "run_kind ok error =
     (if ok then KindClean
      else if classify_failure ok error = FaultMiner then KindStrike else KindExcluded)"

definition run_event :: "date \<Rightarrow> hotkey \<Rightarrow> bool \<Rightarrow> string option \<Rightarrow> strike_event" where
  "run_event day hk ok error =
     \<lparr>ev_day = day, ev_hotkey = hk, ev_kind = run_kind ok error,
      ev_fault = classify_failure ok error, ev_error = (if ok then None else error),
      ev_reason = failure_reason ok error, ev_detail = NoDetail\<rparr>"

text \<open>The observation: appended unless the day's operative record already says the same.\<close>

definition record_run :: "date \<Rightarrow> hotkey \<Rightarrow> bool \<Rightarrow> string option \<Rightarrow> day_fold \<Rightarrow> day_fold" where
  "record_run day hk ok error f =
     (let kind = run_kind ok error;
          prior = map_of (observations (df_log f) hk) day;
          f1 = (if (case prior of None \<Rightarrow> True | Some p \<Rightarrow> ev_kind p \<noteq> kind)
                then emit (run_event day hk ok error) f else f)
      in if kind = KindStrike then f1\<lparr>df_struck := df_struck f1 @ [hk]\<rparr>
         else if kind = KindExcluded then f1\<lparr>df_excluded := df_excluded f1 @ [hk]\<rparr>
         else f1)"

text \<open>The retraction: today's strike is gone and today's eviction rested on it.\<close>

definition retract_if_recovered ::
  "date \<Rightarrow> hotkey \<Rightarrow> event_kind \<Rightarrow> strike_event option \<Rightarrow> day_fold \<Rightarrow> day_fold" where
  "retract_if_recovered day hk kind prior f =
     (let st = state_of (df_states f) hk in
      if (case prior of None \<Rightarrow> False | Some p \<Rightarrow> ev_kind p = KindStrike)
         \<and> kind \<noteq> KindStrike \<and> evicted_on st = Some day
      then let (st', lifecycle) = retract_eviction st (df_log f) day;
               f1 = emit lifecycle f
           in f1\<lparr>df_retracted := df_retracted f1 @ [hk],
                 df_states := AList.update hk st' (df_states f1)\<rparr>
      else f)"

text \<open>Eviction of a model in the field, re-entry of a model outside it.\<close>

definition enforce ::
  "chronic_params \<Rightarrow> hotkey list \<Rightarrow> date \<Rightarrow> hotkey \<Rightarrow> event_kind \<Rightarrow> day_fold \<Rightarrow> day_fold" where
  "enforce P known day hk kind f =
     (let st = state_of (df_states f) hk;
          settled = f\<lparr>df_states := AList.update hk st (df_states f)\<rparr>
      in if evicted_on st = None then
           if kind = KindStrike then
             let n = strikes_in_window (df_log f) hk day (cp_window_days P) (last_eviction_on st) in
             if max 1 (strikes_to_evict P) \<le> n then
               case eviction_blocked hk (df_states f) known P of
                 Some block \<Rightarrow>
                   let f1 = emit \<lparr>ev_day = day, ev_hotkey = hk, ev_kind = KindEvictionWithheld,
                               ev_fault = FaultMiner, ev_error = None, ev_reason = block,
                               ev_detail = NoDetail\<rparr> settled
                   in f1\<lparr>df_withheld := df_withheld f1 @ [hk]\<rparr>
               | None \<Rightarrow>
                   let (st', lifecycle) = evict st day P (Some n);
                       f1 = emit lifecycle f
                   in f1\<lparr>df_evicted := df_evicted f1 @ [hk],
                         df_states := AList.update hk st' (df_states f1)\<rparr>
             else settled
           else settled
         else if kind = KindClean then
           (case reinstate (df_states settled) hk day of
              (states', Some lifecycle) \<Rightarrow>
                let f1 = emit lifecycle settled
                in f1\<lparr>df_reinstated := df_reinstated f1 @ [hk], df_states := states'\<rparr>
            | (states', None) \<Rightarrow> settled\<lparr>df_states := states'\<rparr>)
         else settled)"

definition observe_run ::
  "chronic_params \<Rightarrow> hotkey list \<Rightarrow> date \<Rightarrow> day_fold \<Rightarrow> hotkey \<times> bool \<times> string option \<Rightarrow> day_fold" where
  "observe_run P known day f run =
     (case run of (hk, ok, error) \<Rightarrow>
        let kind = run_kind ok error;
            prior = map_of (observations (df_log f) hk) day
        in enforce P known day hk kind
             (retract_if_recovered day hk kind prior (record_run day hk ok error f)))"

definition start_fold :: "(hotkey, eviction_state) dict \<Rightarrow> strike_event list \<Rightarrow> day_fold" where
  "start_fold states events = \<lparr>df_states = states, df_log = events, df_emitted = [],
     df_struck = [], df_evicted = [], df_reinstated = [], df_excluded = [], df_retracted = [],
     df_withheld = []\<rparr>"

definition known_hotkeys ::
  "(hotkey, eviction_state) dict \<Rightarrow> (hotkey, bool \<times> string option) dict \<Rightarrow> hotkey list" where
  "known_hotkeys states runs = remdups (keys states @ keys runs)"

definition cf_observe_day ::
  "(hotkey, eviction_state) dict \<Rightarrow> strike_event list \<Rightarrow> date
     \<Rightarrow> (hotkey, bool \<times> string option) dict \<Rightarrow> chronic_params \<Rightarrow> day_fold" where
  "cf_observe_day states events day runs P =
     foldl (observe_run P (known_hotkeys states runs) day) (start_fold states events)
       (sort_key fst runs)"

definition evicted_hotkeys :: "(hotkey, eviction_state) dict \<Rightarrow> date \<Rightarrow> hotkey list" where
  "evicted_hotkeys states day =
     keys (filter (\<lambda>(hk, st). case evicted_on st of None \<Rightarrow> False | Some d \<Rightarrow> d \<le> day) states)"

section \<open>Lemmas\<close>

subsection \<open>Observations: the last record of a day is operative\<close>

lemma observations_snoc:
  "observations (es @ [e]) hk =
     (if is_observation_of hk e then AList.update (ev_day e) e (observations es hk)
      else observations es hk)"
  by (simp add: observations_def)

lemma observations_operative:
  "map_of (observations es hk) d = last_such (\<lambda>e. is_observation_of hk e \<and> ev_day e = d) es"
  by (induction es rule: rev_induct) (auto simp: observations_def dict_simps)

lemma dict_ok_observations: "dict_ok (observations es hk)"
  by (induction es rule: rev_induct) (auto simp: observations_def)

lemma observations_irrelevant:
  "(\<And>y. y \<in> set ys \<Longrightarrow> \<not> is_observation_of hk y) \<Longrightarrow> observations (es @ ys) hk = observations es hk"
  by (induction ys rule: rev_induct) (auto simp: observations_snoc simp flip: append_assoc)

lemma strikes_in_window_irrelevant:
  "(\<And>y. y \<in> set ys \<Longrightarrow> \<not> is_observation_of hk y) \<Longrightarrow>
     strikes_in_window (es @ ys) hk d w s = strikes_in_window es hk d w s"
  by (simp add: strikes_in_window_def strike_days_in_window_def observations_irrelevant)

subsection \<open>States after an update\<close>

lemma state_of_update [simp]:
  "state_of (AList.update hk st d) hk' = (if hk' = hk then st else state_of d hk')"
  by (simp add: state_of_def dict_simps)

lemma state_of_reinstate_other:
  "hk' \<noteq> hk \<Longrightarrow> state_of (fst (reinstate states hk day)) hk' = state_of states hk'"
  by (simp add: reinstate_def split: option.splits)

lemma reinstate_not_evicted:
  "evicted_on (state_of states hk) = None \<Longrightarrow> evicted_on (state_of (fst (reinstate states hk day)) hk) = None"
  by (auto simp: reinstate_def state_of_def split: option.splits)

lemma emit_simps [simp]:
  "df_states (emit e f) = df_states f" "df_log (emit e f) = df_log f @ [e]"
  "df_emitted (emit e f) = df_emitted f @ [e]" "df_evicted (emit e f) = df_evicted f"
  "df_withheld (emit e f) = df_withheld f" "df_struck (emit e f) = df_struck f"
  "df_reinstated (emit e f) = df_reinstated f" "df_retracted (emit e f) = df_retracted f"
  "df_excluded (emit e f) = df_excluded f"
  by (simp_all add: emit_def)

lemma record_run_frame [simp]:
  "df_states (record_run day hk ok error f) = df_states f"
  "df_evicted (record_run day hk ok error f) = df_evicted f"
  "df_withheld (record_run day hk ok error f) = df_withheld f"
  "df_retracted (record_run day hk ok error f) = df_retracted f"
  "df_reinstated (record_run day hk ok error f) = df_reinstated f"
  by (simp_all add: record_run_def Let_def)

lemma retract_frame [simp]:
  "df_evicted (retract_if_recovered day hk kind prior f) = df_evicted f"
  "df_withheld (retract_if_recovered day hk kind prior f) = df_withheld f"
  "df_reinstated (retract_if_recovered day hk kind prior f) = df_reinstated f"
  by (simp_all add: retract_if_recovered_def Let_def split: prod.splits)

lemma retract_state_other:
  "hk' \<noteq> hk \<Longrightarrow> state_of (df_states (retract_if_recovered day hk kind prior f)) hk'
     = state_of (df_states f) hk'"
  by (simp add: retract_if_recovered_def Let_def split: prod.splits)

lemma retract_not_evicted:
  "evicted_on (state_of (df_states f) hk) = None \<Longrightarrow>
     retract_if_recovered day hk kind prior f = f"
  by (simp add: retract_if_recovered_def Let_def)

lemma retract_strike [simp]: "retract_if_recovered day hk KindStrike prior f = f"
  by (simp add: retract_if_recovered_def Let_def)

lemma enforce_state_other:
  "hk' \<noteq> hk \<Longrightarrow> state_of (df_states (enforce P known day hk kind f)) hk' = state_of (df_states f) hk'"
proof -
  assume ne: "hk' \<noteq> hk"
  then show ?thesis
    using state_of_reinstate_other [OF ne, of "AList.update hk (state_of (df_states f) hk) (df_states f)" day]
    by (auto simp: enforce_def Let_def split: option.splits prod.splits)
qed

lemma enforce_evicts:
  assumes "evicted_on (state_of (df_states f) hk) = None"
    and "evicted_on (state_of (df_states (enforce P known day hk kind f)) hk) \<noteq> None
         \<or> df_evicted (enforce P known day hk kind f) \<noteq> df_evicted f"
  shows "kind = KindStrike \<and> eviction_blocked hk (df_states f) known P = None
    \<and> max 1 (strikes_to_evict P) \<le> strikes_in_window (df_log f) hk day (cp_window_days P)
        (last_eviction_on (state_of (df_states f) hk))"
  using assms by (auto simp: enforce_def Let_def split: option.splits prod.splits if_splits)

lemma observe_run_state_other:
  "hk' \<noteq> hk \<Longrightarrow> state_of (df_states (observe_run P known day f (hk, ok, error))) hk'
     = state_of (df_states f) hk'"
  by (simp add: observe_run_def Let_def enforce_state_other retract_state_other)

lemma observe_run_evicts:
  assumes "evicted_on (state_of (df_states f) hk) = None"
    and "evicted_on (state_of (df_states (observe_run P known day f (hk, ok, error))) hk) \<noteq> None"
  shows "run_kind ok error = KindStrike \<and> eviction_blocked hk (df_states f) known P = None"
  using assms enforce_evicts [of "record_run day hk ok error f" hk P known day "run_kind ok error"]
  by (auto simp: observe_run_def Let_def retract_not_evicted)

subsection \<open>The non-empty-field floor\<close>

lemma surviving_split:
  assumes "distinct known" and "hk \<in> set known"
  shows "length (surviving known states) =
    length (surviving (filter (\<lambda>k. k \<noteq> hk) known) states)
      + (if evicted_on (state_of states hk) = None then 1 else 0)"
proof -
  have "length (surviving known states) =
      length (filter (\<lambda>k. k \<noteq> hk) (surviving known states))
        + length (filter (\<lambda>k. \<not> k \<noteq> hk) (surviving known states))"
    by (rule sum_length_filter_compl [symmetric])
  moreover have "filter (\<lambda>k. k \<noteq> hk) (surviving known states) = surviving (filter (\<lambda>k. k \<noteq> hk) known) states"
    by (simp add: surviving_def) (metis (mono_tags, lifting))
  moreover have "length (filter (\<lambda>k. \<not> k \<noteq> hk) (surviving known states))
      = (if evicted_on (state_of states hk) = None then 1 else 0)"
  proof -
    have "filter (\<lambda>k. \<not> k \<noteq> hk) (surviving known states)
        = filter (\<lambda>k. evicted_on (state_of states k) = None) (filter (\<lambda>k. hk = k) known)"
      by (simp add: surviving_def) (metis (mono_tags, lifting))
    moreover have "filter (\<lambda>k. hk = k) known = [hk]"
      using assms by (simp add: filter_single)
    ultimately show ?thesis by simp
  qed
  ultimately show ?thesis by simp
qed

lemma surviving_cong:
  "(\<And>k. k \<in> set known \<Longrightarrow> state_of s k = state_of t k) \<Longrightarrow> surviving known s = surviving known t"
  by (simp add: surviving_def cong: filter_cong)

lemma observe_run_floor:
  assumes "distinct known" and "hk \<in> set known"
  shows "min (max 1 (min_survivors P)) (int (length (surviving known (df_states f))))
    \<le> int (length (surviving known (df_states (observe_run P known day f (hk, ok, error)))))"
proof -
  let ?f' = "observe_run P known day f (hk, ok, error)"
  let ?others = "filter (\<lambda>k. k \<noteq> hk) known"
  have others: "surviving ?others (df_states ?f') = surviving ?others (df_states f)"
    by (rule surviving_cong) (simp add: observe_run_state_other)
  note split = surviving_split [OF assms, of "df_states f"] surviving_split [OF assms, of "df_states ?f'"]
  show ?thesis
  proof (cases "evicted_on (state_of (df_states f) hk) = None
      \<and> evicted_on (state_of (df_states ?f') hk) \<noteq> None")
    case True
    then have "eviction_blocked hk (df_states f) known P = None"
      using observe_run_evicts by blast
    then have "max 1 (min_survivors P) \<le> int (length (surviving ?others (df_states f)))"
      by (auto simp: eviction_blocked_def Let_def split: if_splits option.splits)
    then show ?thesis using True split others by simp
  next
    case False
    then show ?thesis using split others by auto
  qed
qed

lemma observe_runs_floor:
  assumes "distinct known" and "fst ` set runs \<subseteq> set known"
  shows "min (max 1 (min_survivors P)) (int (length (surviving known (df_states f))))
    \<le> int (length (surviving known (df_states (foldl (observe_run P known day) f runs))))"
  using assms(2)
proof (induction runs arbitrary: f)
  case Nil
  then show ?case by simp
next
  case (Cons run runs)
  obtain hk ok error where run: "run = (hk, ok, error)" by (cases run)
  with Cons.prems have "hk \<in> set known" by simp
  from observe_run_floor [OF assms(1) this, of P f day ok error]
    Cons.IH [of "observe_run P known day f run"] Cons.prems
  show ?case by (simp add: run)
qed

lemma known_hotkeys_facts:
  "distinct (known_hotkeys states runs)" "fst ` set (sort_key fst runs) \<subseteq> set (known_hotkeys states runs)"
  by (auto simp: known_hotkeys_def)

subsection \<open>The house model\<close>

lemma observe_run_house:
  assumes "house_hotkey P = Some h" and "h \<noteq> []"
    and "evicted_on (state_of (df_states f) h) = None"
  shows "evicted_on (state_of (df_states (observe_run P known day f run)) h) = None"
proof -
  obtain hk ok error where run: "run = (hk, ok, error)" by (cases run)
  show ?thesis
  proof (cases "hk = h")
    case True
    have "eviction_blocked h (df_states f) known P \<noteq> None"
      using assms by (simp add: eviction_blocked_def)
    then show ?thesis
      using assms(3) observe_run_evicts [of f h P known day ok error] unfolding run True by metis
  next
    case False
    then show ?thesis using assms by (simp add: run observe_run_state_other)
  qed
qed

subsection \<open>Who is in the states, and what the log gains\<close>

lemma reinstate_keys: "fst ` set (fst (reinstate states hk day)) = fst ` set states"
  by (simp add: reinstate_def insert_absorb map_of_in_keys split: option.splits)

lemma reinstate_dict_ok: "dict_ok states \<Longrightarrow> dict_ok (fst (reinstate states hk day))"
  by (auto simp: reinstate_def split: option.splits)

lemma enforce_keys: "fst ` set (df_states (enforce P known day hk kind f)) = insert hk (fst ` set (df_states f))"
proof -
  let ?s = "AList.update hk (state_of (df_states f) hk) (df_states f)"
  obtain s' l where r: "reinstate ?s hk day = (s', l)" by fastforce
  then have "fst ` set s' = insert hk (fst ` set (df_states f))"
    using reinstate_keys [of ?s hk day] by simp
  with r show ?thesis
    by (cases l) (simp_all add: enforce_def Let_def split: option.splits prod.splits)
qed

lemma retract_keys:
  "fst ` set (df_states f) \<subseteq> fst ` set (df_states (retract_if_recovered day hk kind prior f))"
  "fst ` set (df_states (retract_if_recovered day hk kind prior f)) \<subseteq> insert hk (fst ` set (df_states f))"
  by (simp_all add: retract_if_recovered_def Let_def subset_insertI split: prod.splits)

lemma observe_run_keys:
  "fst ` set (df_states (observe_run P known day f run)) = insert (fst run) (fst ` set (df_states f))"
proof -
  obtain hk ok error where run: "run = (hk, ok, error)" by (cases run)
  show ?thesis
    using retract_keys [where f = "record_run day hk ok error f" and day = day and hk = hk]
    unfolding run observe_run_def Let_def split by (simp only: enforce_keys record_run_frame fst_conv) blast
qed

lemma observe_runs_keys:
  "fst ` set (df_states (foldl (observe_run P known day) f runs))
     = fst ` set runs \<union> fst ` set (df_states f)"
  by (induction runs arbitrary: f) (simp_all add: observe_run_keys)

lemma cf_observe_day_keys:
  "fst ` set (df_states (cf_observe_day states events day runs P)) = set (known_hotkeys states runs)"
  by (auto simp: cf_observe_day_def observe_runs_keys start_fold_def known_hotkeys_def)

lemma retract_log:
  obtains es where "df_log (retract_if_recovered day hk kind prior f) = df_log f @ es"
    and "df_emitted (retract_if_recovered day hk kind prior f) = df_emitted f @ es"
    and "\<forall>e \<in> set es. \<not> is_observation_kind (ev_kind e)"
  by (atomize_elim)
    (auto simp: retract_if_recovered_def retract_eviction_def Let_def intro!: exI [of _ "[]"])

lemma enforce_log:
  obtains es where "df_log (enforce P known day hk kind f) = df_log f @ es"
    and "df_emitted (enforce P known day hk kind f) = df_emitted f @ es"
    and "\<forall>e \<in> set es. \<not> is_observation_kind (ev_kind e)"
  by (atomize_elim)
    (auto simp: enforce_def evict_def reinstate_def Let_def intro!: exI [of _ "[]"]
       split: option.splits)

lemma record_run_log:
  obtains es where "df_log (record_run day hk ok error f) = df_log f @ es"
    and "df_emitted (record_run day hk ok error f) = df_emitted f @ es"
    and "es = [] \<or> es = [run_event day hk ok error]"
  by (atomize_elim) (auto simp: record_run_def Let_def)

lemma observe_run_log:
  obtains es where "df_log (observe_run P known day f (hk, ok, error)) = df_log f @ es"
    and "df_emitted (observe_run P known day f (hk, ok, error)) = df_emitted f @ es"
    and "\<forall>e \<in> set es. is_observation_kind (ev_kind e) \<longrightarrow> ev_hotkey e = hk"
proof -
  let ?kind = "run_kind ok error" and ?prior = "map_of (observations (df_log f) hk) day"
  let ?f1 = "record_run day hk ok error f"
  let ?f2 = "retract_if_recovered day hk ?kind ?prior ?f1"
  obtain a where a: "df_log ?f1 = df_log f @ a" "df_emitted ?f1 = df_emitted f @ a"
      "a = [] \<or> a = [run_event day hk ok error]"
    by (rule record_run_log)
  obtain b where b: "df_log ?f2 = df_log ?f1 @ b" "df_emitted ?f2 = df_emitted ?f1 @ b"
      "\<forall>e \<in> set b. \<not> is_observation_kind (ev_kind e)"
    by (rule retract_log)
  obtain c where c: "df_log (enforce P known day hk ?kind ?f2) = df_log ?f2 @ c"
      "df_emitted (enforce P known day hk ?kind ?f2) = df_emitted ?f2 @ c"
      "\<forall>e \<in> set c. \<not> is_observation_kind (ev_kind e)"
    by (rule enforce_log)
  show thesis
    by (rule that [of "a @ b @ c"])
      (use a b c in \<open>auto simp: observe_run_def Let_def run_event_def\<close>)
qed

lemma observe_run_observations_other:
  assumes "hk' \<noteq> hk"
  shows "observations (df_log (observe_run P known day f (hk, ok, error))) hk' = observations (df_log f) hk'"
proof -
  obtain es where "df_log (observe_run P known day f (hk, ok, error)) = df_log f @ es"
    and "\<forall>e \<in> set es. is_observation_kind (ev_kind e) \<longrightarrow> ev_hotkey e = hk"
    by (rule observe_run_log)
  with assms show ?thesis
    by (auto simp: is_observation_of_def intro!: observations_irrelevant)
qed

lemma observe_runs_log:
  "df_log (foldl (observe_run P known day) f runs)
     = df_log f @ drop (length (df_emitted f)) (df_emitted (foldl (observe_run P known day) f runs))
   \<and> (\<exists>es. df_emitted (foldl (observe_run P known day) f runs) = df_emitted f @ es)"
proof (induction runs rule: rev_induct)
  case Nil
  then show ?case by simp
next
  case (snoc run runs)
  obtain hk ok error where run: "run = (hk, ok, error)" by (cases run)
  obtain es where "df_log (observe_run P known day (foldl (observe_run P known day) f runs) run)
        = df_log (foldl (observe_run P known day) f runs) @ es"
    and "df_emitted (observe_run P known day (foldl (observe_run P known day) f runs) run)
        = df_emitted (foldl (observe_run P known day) f runs) @ es"
    unfolding run by (rule observe_run_log)
  with snoc show ?case by auto
qed

lemma cf_observe_day_log:
  "df_log (cf_observe_day states events day runs P) = events @ df_emitted (cf_observe_day states events day runs P)"
  using observe_runs_log [of P "known_hotkeys states runs" day "start_fold states events" "sort_key fst runs"]
  by (simp add: cf_observe_day_def start_fold_def)

lemma observe_runs_other:
  assumes "hk \<notin> fst ` set runs"
  shows "state_of (df_states (foldl (observe_run P known day) f runs)) hk = state_of (df_states f) hk"
    and "observations (df_log (foldl (observe_run P known day) f runs)) hk = observations (df_log f) hk"
  using assms
  by (induction runs arbitrary: f)
    (auto simp: observe_run_state_other observe_run_observations_other split: prod.splits)

subsection \<open>The window count, abstractly\<close>

definition operative :: "strike_event list \<Rightarrow> hotkey \<Rightarrow> date \<Rightarrow> event_kind option" where
  "operative es hk d = map_option ev_kind (last_such (\<lambda>e. is_observation_of hk e \<and> ev_day e = d) es)"

definition strike_day_set :: "strike_event list \<Rightarrow> hotkey \<Rightarrow> date \<Rightarrow> int \<Rightarrow> date option \<Rightarrow> date set" where
  "strike_day_set es hk as_of w since =
     {d. as_of - (max 1 w - 1) \<le> d \<and> d \<le> as_of \<and> (\<forall>s. since = Some s \<longrightarrow> s < d)
         \<and> operative es hk d = Some KindStrike}"

lemma operative_observations: "operative es hk d = map_option ev_kind (map_of (observations es hk) d)"
  by (simp add: operative_def observations_operative)

lemma set_strike_days: "set (strike_days_in_window es hk as_of w since) = strike_day_set es hk as_of w since"
proof -
  have "(d, ev) \<in> set (observations es hk) \<longleftrightarrow> map_of (observations es hk) d = Some ev" for d ev
    using dict_ok_observations [of es hk] by (metis map_of_eq_Some_iff)
  note obs = this
  show ?thesis
  proof (rule set_eqI)
    fix d
    have "d \<in> set (strike_days_in_window es hk as_of w since) \<longleftrightarrow>
        (\<exists>ev. (d, ev) \<in> set (observations es hk) \<and> \<not> (as_of < d \<or> d < as_of - (max 1 w - 1))
          \<and> \<not> (case since of None \<Rightarrow> False | Some s \<Rightarrow> d \<le> s) \<and> ev_kind ev = KindStrike)"
      by (simp add: strike_days_in_window_def Let_def image_iff Bex_def)
    also have "\<dots> \<longleftrightarrow> d \<in> strike_day_set es hk as_of w since"
      by (cases since) (auto simp: obs strike_day_set_def operative_observations)
    finally show "d \<in> set (strike_days_in_window es hk as_of w since)
        \<longleftrightarrow> d \<in> strike_day_set es hk as_of w since" .
  qed
qed

lemma distinct_strike_days: "distinct (strike_days_in_window es hk as_of w since)"
  by (simp add: strike_days_in_window_def Let_def distinct_map_filter dict_ok_observations)

lemma strikes_in_window_card:
  "strikes_in_window es hk as_of w since = int (card (strike_day_set es hk as_of w since))"
  using distinct_card [OF distinct_strike_days [of es hk as_of w since]]
  by (simp add: strikes_in_window_def set_strike_days)

lemma strikes_in_window_cong:
  "(\<And>d. operative es hk d = operative es' hk d) \<Longrightarrow>
     strikes_in_window es hk as_of w since = strikes_in_window es' hk as_of w since"
  by (simp add: strikes_in_window_card strike_day_set_def)

lemma operative_run:
  "operative (es @ [run_event day hk ok error]) hk d =
     (if d = day then Some (run_kind ok error) else operative es hk d)"
  by (auto simp: operative_def is_observation_of_def run_event_def run_kind_def)

lemma operative_record_run:
  "operative (df_log (record_run day hk ok error f)) hk d =
     (if d = day then Some (run_kind ok error) else operative (df_log f) hk d)"
proof (cases "operative (df_log f) hk day = Some (run_kind ok error)")
  case True
  then have "df_log (record_run day hk ok error f) = df_log f"
    by (auto simp: record_run_def Let_def operative_observations)
  with True show ?thesis by simp
next
  case False
  then have "df_log (record_run day hk ok error f) = df_log f @ [run_event day hk ok error]"
    by (auto simp: record_run_def Let_def operative_observations split: option.splits)
  then show ?thesis by (simp add: operative_run)
qed

lemma operative_append_lifecycle:
  "\<forall>e \<in> set es'. \<not> is_observation_kind (ev_kind e) \<Longrightarrow> operative (es @ es') hk d = operative es hk d"
  by (simp add: operative_observations observations_irrelevant is_observation_of_def)

lemma operative_observe_run:
  "operative (df_log (observe_run P known day f (hk, ok, error))) hk d =
     (if d = day then Some (run_kind ok error) else operative (df_log f) hk d)"
proof -
  let ?kind = "run_kind ok error" and ?prior = "map_of (observations (df_log f) hk) day"
  let ?f1 = "record_run day hk ok error f"
  let ?f2 = "retract_if_recovered day hk ?kind ?prior ?f1"
  obtain b where b: "df_log ?f2 = df_log ?f1 @ b" "\<forall>e \<in> set b. \<not> is_observation_kind (ev_kind e)"
    by (rule retract_log)
  obtain c where c: "df_log (enforce P known day hk ?kind ?f2) = df_log ?f2 @ c"
      "\<forall>e \<in> set c. \<not> is_observation_kind (ev_kind e)"
    by (rule enforce_log)
  have "df_log (observe_run P known day f (hk, ok, error)) = df_log ?f1 @ (b @ c)"
    by (simp add: observe_run_def Let_def b c)
  moreover have "\<forall>e \<in> set (b @ c). \<not> is_observation_kind (ev_kind e)" using b c by auto
  ultimately show ?thesis
    by (simp only: operative_append_lifecycle operative_record_run)
qed

subsection \<open>Who is evicted or withheld on a day\<close>

definition threshold_met ::
  "chronic_params \<Rightarrow> eviction_state \<Rightarrow> strike_event list \<Rightarrow> date \<Rightarrow> hotkey \<Rightarrow> bool \<Rightarrow> string option \<Rightarrow> bool" where
  "threshold_met P st es day hk ok error \<longleftrightarrow>
     run_kind ok error = KindStrike \<and> evicted_on st = None
     \<and> max 1 (strikes_to_evict P)
         \<le> strikes_in_window (es @ [run_event day hk ok error]) hk day (cp_window_days P) (last_eviction_on st)"

lemma enforce_lists:
  "set (df_evicted (enforce P known day hk kind f)) \<subseteq> insert hk (set (df_evicted f))"
  "set (df_evicted f) \<subseteq> set (df_evicted (enforce P known day hk kind f))"
  "set (df_withheld (enforce P known day hk kind f)) \<subseteq> insert hk (set (df_withheld f))"
  "set (df_withheld f) \<subseteq> set (df_withheld (enforce P known day hk kind f))"
  by (simp_all add: enforce_def Let_def subset_insertI split: option.splits prod.splits)

lemma strikes_record_run:
  "strikes_in_window (df_log (record_run day hk ok error f)) hk d w since
     = strikes_in_window (df_log f @ [run_event day hk ok error]) hk d w since"
  by (rule strikes_in_window_cong) (simp add: operative_record_run operative_run)

lemma enforce_threshold:
  assumes "hk \<notin> set (df_evicted f)" and "hk \<notin> set (df_withheld f)"
  shows "hk \<in> set (df_evicted (enforce P known day hk kind f)) \<union> set (df_withheld (enforce P known day hk kind f))
    \<longleftrightarrow> evicted_on (state_of (df_states f) hk) = None \<and> kind = KindStrike
        \<and> max 1 (strikes_to_evict P) \<le> strikes_in_window (df_log f) hk day (cp_window_days P)
            (last_eviction_on (state_of (df_states f) hk))"
  using assms by (simp add: enforce_def Let_def split: option.splits prod.splits)

lemma observe_run_threshold:
  assumes "hk \<notin> set (df_evicted f)" and "hk \<notin> set (df_withheld f)"
  shows "hk \<in> set (df_evicted (observe_run P known day f (hk, ok, error)))
              \<union> set (df_withheld (observe_run P known day f (hk, ok, error)))
    \<longleftrightarrow> threshold_met P (state_of (df_states f) hk) (df_log f) day hk ok error"
proof (cases "run_kind ok error = KindStrike")
  case True
  then show ?thesis
    using enforce_threshold [of hk "record_run day hk ok error f"] assms
    by (auto simp: observe_run_def Let_def threshold_met_def strikes_record_run)
next
  case False
  then show ?thesis
    using enforce_threshold [of hk "retract_if_recovered day hk (run_kind ok error)
        (map_of (observations (df_log f) hk) day) (record_run day hk ok error f)"] assms
    by (simp add: observe_run_def Let_def threshold_met_def)
qed

lemma observe_runs_lists_other:
  assumes "hk \<notin> fst ` set runs"
  shows "hk \<in> set (df_evicted (foldl (observe_run P known day) f runs)) \<longleftrightarrow> hk \<in> set (df_evicted f)"
    and "hk \<in> set (df_withheld (foldl (observe_run P known day) f runs)) \<longleftrightarrow> hk \<in> set (df_withheld f)"
proof -
  have step: "hk \<in> set (df_evicted (observe_run P known day g r)) \<longleftrightarrow> hk \<in> set (df_evicted g)"
     "hk \<in> set (df_withheld (observe_run P known day g r)) \<longleftrightarrow> hk \<in> set (df_withheld g)"
    if "fst r \<noteq> hk" for g r
  proof -
    obtain k ok error where r: "r = (k, ok, error)" by (cases r)
    let ?g = "retract_if_recovered day k (run_kind ok error)
        (map_of (observations (df_log g) k) day) (record_run day k ok error g)"
    show "hk \<in> set (df_evicted (observe_run P known day g r)) \<longleftrightarrow> hk \<in> set (df_evicted g)"
      using enforce_lists(1,2) [where f = ?g and P = P and known = known and day = day and hk = k
          and kind = "run_kind ok error"] that
      by (auto simp: r observe_run_def Let_def)
    show "hk \<in> set (df_withheld (observe_run P known day g r)) \<longleftrightarrow> hk \<in> set (df_withheld g)"
      using enforce_lists(3,4) [where f = ?g and P = P and known = known and day = day and hk = k
          and kind = "run_kind ok error"] that
      by (auto simp: r observe_run_def Let_def)
  qed
  show "hk \<in> set (df_evicted (foldl (observe_run P known day) f runs)) \<longleftrightarrow> hk \<in> set (df_evicted f)"
    using assms
  proof (induction runs arbitrary: f)
    case (Cons r runs)
    then have "hk \<notin> fst ` set runs" and "fst r \<noteq> hk" by auto
    then show ?case using step(1) [of r f] Cons.IH [of "observe_run P known day f r"]
      unfolding foldl_Cons by blast
  qed simp
  show "hk \<in> set (df_withheld (foldl (observe_run P known day) f runs)) \<longleftrightarrow> hk \<in> set (df_withheld f)"
    using assms
  proof (induction runs arbitrary: f)
    case (Cons r runs)
    then have "hk \<notin> fst ` set runs" and "fst r \<noteq> hk" by auto
    then show ?case using step(2) [of r f] Cons.IH [of "observe_run P known day f r"]
      unfolding foldl_Cons by blast
  qed simp
qed

lemma runs_split:
  assumes "dict_ok runs" and "map_of runs hk = Some (ok, error)"
  obtains pre post where "sort_key fst runs = pre @ (hk, ok, error) # post"
    and "hk \<notin> fst ` set pre" and "hk \<notin> fst ` set post"
proof -
  have "(hk, ok, error) \<in> set (sort_key fst runs)"
    using map_of_SomeD [OF assms(2)] by simp
  from split_list [OF this]
  obtain pre post where s: "sort_key fst runs = pre @ (hk, ok, error) # post"
    by blast
  moreover have "distinct (map fst (sort_key fst runs))"
    using assms(1) by (rule dict_ok_sort)
  ultimately have "hk \<notin> fst ` set pre" "hk \<notin> fst ` set post" by auto
  with s that show thesis by blast
qed

lemma cf_observe_day_threshold:
  assumes "dict_ok runs" and "map_of runs hk = Some (ok, error)"
  shows "hk \<in> set (df_evicted (cf_observe_day states es day runs P))
              \<union> set (df_withheld (cf_observe_day states es day runs P))
    \<longleftrightarrow> threshold_met P (state_of states hk) es day hk ok error"
proof -
  obtain pre post where split: "sort_key fst runs = pre @ (hk, ok, error) # post"
    and other: "hk \<notin> fst ` set pre" "hk \<notin> fst ` set post"
    using assms by (rule runs_split)
  let ?known = "known_hotkeys states runs"
  let ?f = "foldl (observe_run P ?known day) (start_fold states es) pre"
  have pre: "state_of (df_states ?f) hk = state_of states hk"
      "observations (df_log ?f) hk = observations es hk"
      "hk \<notin> set (df_evicted ?f)" "hk \<notin> set (df_withheld ?f)"
    using observe_runs_other [OF other(1)] observe_runs_lists_other [OF other(1)]
    by (simp_all add: start_fold_def)
  have "strikes_in_window (df_log ?f @ [run_event day hk ok error]) hk day w s
      = strikes_in_window (es @ [run_event day hk ok error]) hk day w s" for w s
  proof (rule strikes_in_window_cong)
    fix d
    have "operative (df_log ?f) hk d = operative es hk d"
      by (simp add: operative_observations pre(2))
    then show "operative (df_log ?f @ [run_event day hk ok error]) hk d
        = operative (es @ [run_event day hk ok error]) hk d"
      by (simp only: operative_run)
  qed
  then have "threshold_met P (state_of (df_states ?f) hk) (df_log ?f) day hk ok error
      = threshold_met P (state_of states hk) es day hk ok error"
    by (simp add: threshold_met_def pre(1))
  then show ?thesis
    using observe_run_threshold [OF pre(3,4), of P ?known day ok error]
      observe_runs_lists_other [OF other(2), of P ?known day "observe_run P ?known day ?f (hk, ok, error)"]
    by (simp add: cf_observe_day_def split)
qed

subsection \<open>Re-observing a day\<close>

text \<open>What a processed hotkey looks like when nothing more is to be said about its day.\<close>

definition settled_run :: "chronic_params \<Rightarrow> date \<Rightarrow> day_fold \<Rightarrow> hotkey \<times> bool \<times> string option \<Rightarrow> bool" where
  "settled_run P day f run \<longleftrightarrow> (case run of (hk, ok, error) \<Rightarrow>
     let kind = run_kind ok error; st = state_of (df_states f) hk in
     map_of (df_states f) hk = Some st
     \<and> operative (df_log f) hk day = Some kind
     \<and> (evicted_on st = None \<and> kind = KindStrike \<longrightarrow>
          strikes_in_window (df_log f) hk day (cp_window_days P) (last_eviction_on st)
            < max 1 (strikes_to_evict P))
     \<and> (evicted_on st \<noteq> None \<and> kind = KindClean \<longrightarrow>
          (\<exists>nb. reinstate_not_before st = Some nb \<and> day < nb)))"

lemma update_same: "map_of d k = Some v \<Longrightarrow> AList.update k v d = d"
  by (induction d) auto

lemma settled_run_noop:
  assumes "settled_run P day f (hk, ok, error)"
  shows "df_states (observe_run P known day f (hk, ok, error)) = df_states f
    \<and> df_log (observe_run P known day f (hk, ok, error)) = df_log f
    \<and> df_emitted (observe_run P known day f (hk, ok, error)) = df_emitted f"
proof -
  let ?kind = "run_kind ok error" and ?prior = "map_of (observations (df_log f) hk) day"
  let ?f1 = "record_run day hk ok error f"
  have here: "map_of (df_states f) hk = Some (state_of (df_states f) hk)"
    and op: "map_option ev_kind ?prior = Some ?kind"
    using assms by (auto simp: settled_run_def Let_def operative_observations)
  have rec: "df_states ?f1 = df_states f" "df_log ?f1 = df_log f" "df_emitted ?f1 = df_emitted f"
    using op by (auto simp: record_run_def Let_def)
  have ret: "retract_if_recovered day hk ?kind ?prior ?f1 = ?f1"
    using op by (auto simp: retract_if_recovered_def Let_def)
  have "df_states (enforce P known day hk ?kind ?f1) = df_states f
      \<and> df_log (enforce P known day hk ?kind ?f1) = df_log f
      \<and> df_emitted (enforce P known day hk ?kind ?f1) = df_emitted f"
    using assms update_same [OF here]
    by (auto simp: enforce_def Let_def rec settled_run_def reinstate_def here split: option.splits)
  then show ?thesis by (simp add: observe_run_def Let_def ret)
qed

lemma observe_run_settles:
  assumes "df_withheld (observe_run P known day f (hk, ok, error)) = df_withheld f"
  shows "settled_run P day (observe_run P known day f (hk, ok, error)) (hk, ok, error)"
proof -
  let ?kind = "run_kind ok error" and ?prior = "map_of (observations (df_log f) hk) day"
  let ?g = "retract_if_recovered day hk ?kind ?prior (record_run day hk ok error f)"
  let ?f' = "observe_run P known day f (hk, ok, error)"
  have f': "?f' = enforce P known day hk ?kind ?g"
    by (simp add: observe_run_def Let_def)
  have "hk \<in> fst ` set (df_states ?f')"
    by (simp only: observe_run_keys fst_conv insertI1)
  then have here: "map_of (df_states ?f') hk = Some (state_of (df_states ?f') hk)"
    by (auto simp: state_of_def map_of_keys_iff)
  have op: "operative (df_log ?f') hk day = Some ?kind"
    by (simp add: operative_observe_run)
  obtain c where c: "df_log ?f' = df_log ?g @ c" "\<forall>e \<in> set c. \<not> is_observation_kind (ev_kind e)"
    unfolding f' by (rule enforce_log)
  have count: "strikes_in_window (df_log ?f') hk day w s = strikes_in_window (df_log ?g) hk day w s" for w s
    by (rule strikes_in_window_cong) (simp only: c(1) operative_append_lifecycle [OF c(2)])
  have strike: "strikes_in_window (df_log ?g) hk day (cp_window_days P)
        (last_eviction_on (state_of (df_states ?f') hk)) < max 1 (strikes_to_evict P)"
    if "?kind = KindStrike" and "evicted_on (state_of (df_states ?f') hk) = None"
    using that assms unfolding f'
    by (auto simp: enforce_def evict_def Let_def split: option.splits if_splits)
  have clean: "\<exists>nb. reinstate_not_before (state_of (df_states ?f') hk) = Some nb \<and> day < nb"
    if "?kind = KindClean" and "evicted_on (state_of (df_states ?f') hk) \<noteq> None"
    using that unfolding f'
    by (auto simp: enforce_def reinstate_def dict_simps Let_def split: option.splits if_splits)
  show ?thesis
    using here op strike clean by (auto simp: settled_run_def Let_def count)
qed

lemma settled_run_other:
  assumes "k \<noteq> hk" and "settled_run P day f (k, ok, error)"
  shows "settled_run P day (observe_run Q known day f (hk, ok', error')) (k, ok, error)"
proof -
  let ?f' = "observe_run Q known day f (hk, ok', error')"
  have st: "state_of (df_states ?f') k = state_of (df_states f) k"
    and obs: "operative (df_log ?f') k d = operative (df_log f) k d" for d
    using assms(1) by (simp_all add: observe_run_state_other operative_observations observe_run_observations_other)
  have "strikes_in_window (df_log ?f') k day w s = strikes_in_window (df_log f) k day w s" for w s
    by (rule strikes_in_window_cong) (rule obs)
  moreover have "k \<in> fst ` set (df_states ?f')"
    using assms(2) map_of_in_keys [of "df_states f" k]
    by (simp only: observe_run_keys) (auto simp: settled_run_def Let_def)
  then have "map_of (df_states ?f') k = Some (state_of (df_states ?f') k)"
    by (auto simp: state_of_def map_of_keys_iff)
  ultimately show ?thesis
    using assms(2) by (simp add: settled_run_def Let_def st obs)
qed

lemma observe_run_withheld_grows: "\<exists>ws. df_withheld (observe_run P known day f run) = df_withheld f @ ws"
  by (cases run) (auto simp: observe_run_def enforce_def Let_def split: option.splits prod.splits)

lemma observe_runs_withheld_grows: "\<exists>ws. df_withheld (foldl (observe_run P known day) f runs) = df_withheld f @ ws"
proof (induction runs arbitrary: f)
  case (Cons run runs)
  from Cons.IH [of "observe_run P known day f run"] observe_run_withheld_grows [of P known day f run]
  show ?case by auto
qed simp

lemma observe_runs_settle:
  assumes "distinct (map fst runs)"
    and "df_withheld (foldl (observe_run P known day) f runs) = df_withheld f"
    and "run \<in> set runs"
  shows "settled_run P day (foldl (observe_run P known day) f runs) run"
  using assms
proof (induction runs rule: rev_induct)
  case (snoc r runs)
  obtain hk ok error where r: "r = (hk, ok, error)" by (cases r)
  let ?f = "foldl (observe_run P known day) f runs"
  obtain ws vs where "df_withheld ?f = df_withheld f @ ws"
    "df_withheld (observe_run P known day ?f r) = df_withheld ?f @ vs"
    using observe_runs_withheld_grows [of P known day f runs]
      observe_run_withheld_grows [of P known day ?f r] by blast
  with snoc.prems(2) have same: "df_withheld ?f = df_withheld f"
    "df_withheld (observe_run P known day ?f r) = df_withheld ?f" by auto
  show ?case
  proof (cases "run = r")
    case True
    then show ?thesis using observe_run_settles same(2) by (simp add: r)
  next
    case False
    obtain k ok' error' where run: "run = (k, ok', error')" by (cases run)
    from False snoc.prems have "run \<in> set runs" "k \<noteq> hk" by (auto simp: r run rev_image_eqI)
    with snoc same(1) show ?thesis
      using settled_run_other [of k hk P day ?f ok' error' P known ok error] by (simp add: r run)
  qed
qed simp

lemma settled_runs_noop:
  assumes "\<forall>run \<in> set runs. settled_run P day f run"
    and "df_states g = df_states f" and "df_log g = df_log f"
  shows "df_states (foldl (observe_run P known day) g runs) = df_states f
    \<and> df_log (foldl (observe_run P known day) g runs) = df_log f
    \<and> df_emitted (foldl (observe_run P known day) g runs) = df_emitted g"
  using assms
proof (induction runs arbitrary: g)
  case (Cons r runs)
  obtain hk ok error where r: "r = (hk, ok, error)" by (cases r)
  have "settled_run P day g (hk, ok, error)"
    using Cons.prems by (simp add: r settled_run_def Let_def)
  note noop = settled_run_noop [OF this, of known]
  show ?case
    using Cons.IH [of "observe_run P known day g r"] Cons.prems noop by (simp add: r)
qed simp

lemma cf_observe_day_again:
  assumes "dict_ok runs" and "df_withheld (cf_observe_day states es day runs P) = []"
  shows "df_emitted (cf_observe_day (df_states (cf_observe_day states es day runs P))
             (df_log (cf_observe_day states es day runs P)) day runs P) = []
    \<and> df_states (cf_observe_day (df_states (cf_observe_day states es day runs P))
             (df_log (cf_observe_day states es day runs P)) day runs P)
        = df_states (cf_observe_day states es day runs P)"
proof -
  let ?f = "cf_observe_day states es day runs P"
  have "settled_run P day ?f run" if "run \<in> set (sort_key fst runs)" for run
    unfolding cf_observe_day_def
    by (rule observe_runs_settle)
      (use assms that in \<open>simp_all add: dict_ok_sort cf_observe_day_def start_fold_def\<close>)
  then show ?thesis
    using settled_runs_noop [of "sort_key fst runs" P day ?f "start_fold (df_states ?f) (df_log ?f)"
        "known_hotkeys (df_states ?f) runs"]
    by (simp add: cf_observe_day_def [of "df_states ?f"] start_fold_def)
qed

section \<open>The daily loop over the machine\<close>

text \<open>The liveness step of the daily loop: fold the day, extend the log by what it emitted.\<close>

definition chronic_day ::
  "chronic_params \<Rightarrow> (hotkey, eviction_state) dict \<times> strike_event list
     \<Rightarrow> date \<times> (hotkey, bool \<times> string option) dict
     \<Rightarrow> (hotkey, eviction_state) dict \<times> strike_event list" where
  "chronic_day P s obs =
     (let f = cf_observe_day (fst s) (snd s) (fst obs) (snd obs) P
      in (df_states f, snd s @ df_emitted f))"

definition field_alive :: "(hotkey, eviction_state) dict \<times> strike_event list \<Rightarrow> bool" where
  "field_alive s \<longleftrightarrow> fst s = [] \<or> (\<exists>hk \<in> fst ` set (fst s). evicted_on (state_of (fst s) hk) = None)"

lemma cf_observe_day_floor:
  "min (max 1 (min_survivors P)) (int (length (surviving (known_hotkeys states runs) states)))
    \<le> int (length (surviving (known_hotkeys states runs) (df_states (cf_observe_day states es day runs P))))"
  using observe_runs_floor [OF known_hotkeys_facts, where P = P and day = day and f = "start_fold states es"]
  by (simp add: cf_observe_day_def start_fold_def)

lemma surviving_pos: "1 \<le> length (surviving known states) \<longleftrightarrow>
    (\<exists>hk \<in> set known. evicted_on (state_of states hk) = None)"
  by (auto simp: surviving_def Suc_le_eq filter_empty_conv)

lemma chronic_day_alive:
  assumes "field_alive s"
  shows "field_alive (chronic_day P s obs)"
proof -
  let ?known = "known_hotkeys (fst s) (snd obs)"
  let ?after = "df_states (cf_observe_day (fst s) (snd s) (fst obs) (snd obs) P)"
  have after: "fst (chronic_day P s obs) = ?after" by (simp add: chronic_day_def Let_def)
  have keys: "fst ` set ?after = set ?known" by (rule cf_observe_day_keys)
  show ?thesis
  proof (cases "?known = []")
    case True
    then show ?thesis using keys by (simp add: field_alive_def after)
  next
    case False
    have "\<exists>hk \<in> set ?known. evicted_on (state_of (fst s) hk) = None"
    proof (cases "fst s = []")
      case True
      then have "evicted_on (state_of (fst s) hk) = None" for hk
        by (simp add: state_of_def fresh_state_def)
      then show ?thesis using False by (metis list.set_sel(1))
    next
      case False
      then show ?thesis using assms by (auto simp: field_alive_def known_hotkeys_def)
    qed
    then have "1 \<le> length (surviving ?known (fst s))" by (simp only: surviving_pos)
    then have "1 \<le> length (surviving ?known ?after)"
      using cf_observe_day_floor [of P "fst s" "snd obs" "snd s" "fst obs"] by linarith
    then show ?thesis by (simp only: surviving_pos field_alive_def after keys) blast
  qed
qed

lemma chronic_day_house:
  assumes "house_hotkey P = Some h" and "h \<noteq> []" and "evicted_on (state_of (fst s) h) = None"
  shows "evicted_on (state_of (fst (chronic_day P s obs)) h) = None"
proof -
  let ?Q = "\<lambda>f. evicted_on (state_of (df_states f) h) = None"
  have "?Q (foldl (observe_run P known day) f runs)" if "?Q f" for known day f runs
    by (rule foldl_invariant [where Q = ?Q]) (use that observe_run_house assms in auto)
  then show ?thesis using assms(3)
    by (simp add: chronic_day_def Let_def cf_observe_day_def start_fold_def)
qed

interpretation field: day_machine "chronic_day P" "\<lambda>_ _. True" field_alive for P
  by unfold_locales (rule chronic_day_alive)

interpretation house: day_machine "chronic_day P" "\<lambda>_ _. True"
    "\<lambda>s. house_hotkey P = Some h \<and> h \<noteq> [] \<longrightarrow> evicted_on (state_of (fst s) h) = None" for P h
  by unfold_locales (use chronic_day_house in blast)

section \<open>Retraction restores the history\<close>

text \<open>The evictions of a hotkey a log still counts: those of a day without a retraction.\<close>

definition counted_evictions :: "strike_event list \<Rightarrow> hotkey \<Rightarrow> strike_event list" where
  "counted_evictions es hk = filter (\<lambda>e. ev_hotkey e = hk \<and> ev_kind e = KindEvicted
     \<and> ev_day e \<notin> ev_day ` set (filter (\<lambda>e. ev_hotkey e = hk \<and> ev_kind e = KindEvictionRetracted) es)) es"

definition history_ok :: "eviction_state \<Rightarrow> strike_event list \<Rightarrow> bool" where
  "history_ok st es \<longleftrightarrow>
     evictions_total st = int (length (counted_evictions es (es_hotkey st)))
     \<and> last_eviction_on st = (if counted_evictions es (es_hotkey st) = [] then None
          else Some (ev_day (last (counted_evictions es (es_hotkey st)))))"

definition untouched :: "strike_event list \<Rightarrow> hotkey \<Rightarrow> date \<Rightarrow> bool" where
  "untouched es hk day \<longleftrightarrow> (\<forall>e \<in> set es. ev_hotkey e = hk \<and> ev_day e = day \<longrightarrow>
     ev_kind e \<noteq> KindEvicted \<and> ev_kind e \<noteq> KindEvictionRetracted)"

lemma retract_after_evict:
  assumes "history_ok st es" and "untouched es (es_hotkey st) day"
    and "evict st day P n = (st', e)"
  shows "evictions_total (fst (retract_eviction st' (es @ [e]) day)) = evictions_total st
    \<and> last_eviction_on (fst (retract_eviction st' (es @ [e]) day)) = last_eviction_on st
    \<and> evicted_on (fst (retract_eviction st' (es @ [e]) day)) = None"
proof -
  let ?hk = "es_hotkey st"
  let ?ret = "ev_day ` set (filter (\<lambda>e. ev_hotkey e = ?hk \<and> ev_kind e = KindEvictionRetracted) es)"
  have e: "ev_day e = day" "ev_kind e = KindEvicted" "ev_hotkey e = ?hk" "es_hotkey st' = ?hk"
    using assms(3) by (auto simp: evict_def Let_def)
  have "filter (\<lambda>x. ev_hotkey x = ?hk \<and> ev_kind x = KindEvicted \<and> ev_day x \<noteq> day \<and> ev_day x \<notin> ?ret) es
      = counted_evictions es ?hk"
    unfolding counted_evictions_def
    by (rule filter_cong) (use assms(2) in \<open>auto simp: untouched_def\<close>)
  then have "filter (\<lambda>x. ev_hotkey x = ?hk \<and> ev_kind x = KindEvicted \<and> ev_day x \<noteq> day \<and> ev_day x \<notin> ?ret) (es @ [e])
      = counted_evictions es ?hk"
    by (simp add: e)
  then show ?thesis
    using assms(1) by (simp add: retract_eviction_def Let_def e history_ok_def cong: conj_cong)
qed

section \<open>Properties\<close>

lemma admissible_True: "admissible step (\<lambda>_ _. True) s is"
  by (induction "is" arbitrary: s) auto

text \<open>
  C1. Over any sequence of observed days, starting from an empty ledger, the liveness machine
  never evicts the whole field: as soon as any model is known, at least one known model is not
  evicted.
\<close>

theorem cf_field_never_emptied: "field_alive (foldl (chronic_day P) ([], []) days)"
  by (rule field.run_inv) (simp_all add: field_alive_def admissible_True)

text \<open>
  One day never takes the surviving field below the configured floor: the number of known
  models that are not evicted after the day is at least the smaller of the floor and the number
  before it.
\<close>

theorem cf_floor_per_day:
  "min (max 1 (min_survivors P)) (int (length (surviving (known_hotkeys states runs) states)))
    \<le> int (length (surviving (known_hotkeys states runs) (df_states (cf_observe_day states es day runs P))))"
  by (rule cf_observe_day_floor)

text \<open>
  A model named as the house model in the parameters is never evicted, whatever the days
  bring.
\<close>

theorem cf_house_protected:
  assumes "house_hotkey P = Some h" and "h \<noteq> []"
  shows "evicted_on (state_of (fst (foldl (chronic_day P) ([], []) days)) h) = None"
  using assms house.run_inv [of P h "([], [])" days]
  by (simp add: admissible_True state_of_def fresh_state_def)

theorem cf_house_protected_witness:
  "evicted_on (state_of (fst (foldl (chronic_day (default_chronic_params\<lparr>house_hotkey := Some ''h''\<rparr>)) ([], [])
     (map (\<lambda>d. (d, [(''h'', False, Some ''exit=1'')])) [1..9]))) ''h'') = None"
  by (rule cf_house_protected) simp_all

text \<open>
  The strike count is the number of distinct days inside the rolling window, after the last
  eviction, whose last recorded observation is a strike: a failed run followed by a clean re-run
  of the same day does not count.
\<close>

theorem cf_strike_count_spec:
  "strikes_in_window es hk as_of w since =
     int (card {d. as_of - (max 1 w - 1) \<le> d \<and> d \<le> as_of \<and> \<not> (\<exists>s. since = Some s \<and> d \<le> s)
        \<and> map_option ev_kind (last_such (\<lambda>e. is_observation_of hk e \<and> ev_day e = d) es) = Some KindStrike})"
proof -
  have "(\<forall>s. since = Some s \<longrightarrow> s < d) \<longleftrightarrow> \<not> (\<exists>s. since = Some s \<and> d \<le> s)" for d :: date
    by (cases since) auto
  then show ?thesis by (simp add: strikes_in_window_card strike_day_set_def operative_def)
qed

text \<open>
  C16. On a day a model ran, it is evicted or its eviction is withheld exactly when the run failed
  by the miner's fault, the model was not already evicted, and its strikes in the window,
  today's included and those before its last eviction not, reach the threshold.
\<close>

theorem cf_evicted_or_withheld_iff:
  assumes "dict_ok runs" and "map_of runs hk = Some (ok, error)"
  shows "hk \<in> set (df_evicted (cf_observe_day states es day runs P))
              \<union> set (df_withheld (cf_observe_day states es day runs P))
    \<longleftrightarrow> run_kind ok error = KindStrike \<and> evicted_on (state_of states hk) = None
        \<and> max 1 (strikes_to_evict P)
            \<le> strikes_in_window (es @ [run_event day hk ok error]) hk day (cp_window_days P)
                (last_eviction_on (state_of states hk))"
  using cf_observe_day_threshold [OF assms, of states es day P] by (simp add: threshold_met_def)

theorem cf_evicted_or_withheld_iff_witness:
  "''h'' \<in> set (df_evicted (cf_observe_day [] [] 3 [(''h'', False, Some ''exit=1'')] default_chronic_params))
         \<union> set (df_withheld (cf_observe_day [] [] 3 [(''h'', False, Some ''exit=1'')] default_chronic_params))
    \<longleftrightarrow> run_kind False (Some ''exit=1'') = KindStrike \<and> evicted_on (state_of [] ''h'') = None
        \<and> max 1 (strikes_to_evict default_chronic_params)
            \<le> strikes_in_window ([] @ [run_event 3 ''h'' False (Some ''exit=1'')]) ''h'' 3
                (cp_window_days default_chronic_params) (last_eviction_on (state_of [] ''h''))"
  by (rule cf_evicted_or_withheld_iff) simp_all

text \<open>
  Observing the same results of a day a second time emits no event and changes no state,
  provided the first observation withheld no eviction.
\<close>

theorem cf_reobserve_idempotent:
  assumes "dict_ok runs" and "df_withheld (cf_observe_day states es day runs P) = []"
  shows "df_emitted (cf_observe_day (df_states (cf_observe_day states es day runs P))
             (df_log (cf_observe_day states es day runs P)) day runs P) = []
    \<and> df_states (cf_observe_day (df_states (cf_observe_day states es day runs P))
             (df_log (cf_observe_day states es day runs P)) day runs P)
        = df_states (cf_observe_day states es day runs P)"
  using assms by (rule cf_observe_day_again)

theorem cf_reobserve_idempotent_witness:
  "df_emitted (cf_observe_day (df_states (cf_observe_day [] [] 3 [(''h'', True, None)] default_chronic_params))
      (df_log (cf_observe_day [] [] 3 [(''h'', True, None)] default_chronic_params)) 3 [(''h'', True, None)]
      default_chronic_params) = []"
proof -
  have "df_withheld (cf_observe_day [] [] 3 [(''h'', True, None)] default_chronic_params) = []"
    by code_simp
  with cf_reobserve_idempotent [of "[(''h'', True, None)]" "[]" "[]" 3 default_chronic_params]
  show ?thesis by simp
qed

text \<open>
  The documented idempotence fails for a withheld eviction: with one model in the field whose
  failed day reaches the threshold, observing that day again appends another withheld event.
\<close>

theorem cf_withheld_reemitted:
  "let P = default_chronic_params\<lparr>strikes_to_evict := 1\<rparr>;
       runs = [(''h'', False, Some ''exit=1'')];
       once = cf_observe_day [] [] 3 runs P;
       twice = cf_observe_day (df_states once) (df_log once) 3 runs P
   in map ev_kind (df_emitted once) = [KindStrike, KindEvictionWithheld]
      \<and> map ev_kind (df_emitted twice) = [KindEvictionWithheld]"
  by code_simp

text \<open>
  C17. Retracting an eviction on the day it was decided restores the state before it: the eviction
  count and the last eviction day are those from before, so the miner is neither a repeat
  offender nor relieved of earlier strikes. This needs a log that agrees with the counters and
  records no other eviction or retraction of that miner on the same day.
\<close>

theorem cf_retract_restores:
  assumes "history_ok st es" and "untouched es (es_hotkey st) day"
  shows "let (st', e) = evict st day P n;
             st'' = fst (retract_eviction st' (es @ [e]) day)
         in evictions_total st'' = evictions_total st
            \<and> last_eviction_on st'' = last_eviction_on st \<and> evicted_on st'' = None"
  using retract_after_evict [OF assms] by (simp add: Let_def split: prod.splits)

theorem cf_retract_restores_witness:
  "let (st', e) = evict (fresh_state ''h'') 7 default_chronic_params (Some 5);
       st'' = fst (retract_eviction st' ([] @ [e]) 7)
   in evictions_total st'' = evictions_total (fresh_state ''h'')
      \<and> last_eviction_on st'' = last_eviction_on (fresh_state ''h'') \<and> evicted_on st'' = None"
  by (rule cf_retract_restores)
    (simp_all add: history_ok_def counted_evictions_def fresh_state_def untouched_def)

text \<open>
  A retraction does lose history when its miner fails, recovers and fails again on one earlier
  day: the second eviction of that day stands and is served, yet a later retraction counts no
  earlier eviction at all, so the next eviction is not a repeat.
\<close>

theorem cf_double_flip_loses_history:
  "let P = default_chronic_params\<lparr>strikes_to_evict := 1\<rparr>;
       crash = (False, Some ''exit=1''); clean = (True, None);
       before = foldl (chronic_day P) ([], [])
         [(10, [(''b'', clean), (''h'', crash)]), (10, [(''h'', clean)]), (10, [(''h'', crash)]),
          (11, [(''h'', clean)])];
       after = foldl (chronic_day P) before [(12, [(''h'', crash)]), (12, [(''h'', clean)])]
   in evictions_total (state_of (fst before) ''h'') = 1
      \<and> last_eviction_on (state_of (fst before) ''h'') = Some 10
      \<and> evictions_total (state_of (fst after) ''h'') = 0
      \<and> last_eviction_on (state_of (fst after) ''h'') = None"
  by code_simp

text \<open>
  The house model and the survivor floor named in the environment never reach the policy: the
  parameters read from any environment protect no house model and keep a floor of one, so a
  configured house model that crashes is evicted.
\<close>

theorem cf_env_house_ignored:
  "(house_hotkey (params_from_env environ) = None \<and> min_survivors (params_from_env environ) = 1)
   \<and> (let env = [''SN21_HOUSE_HOTKEY'' \<mapsto> ''house'', ''SN21_CHRONIC_STRIKES'' \<mapsto> ''1''];
          f = cf_observe_day [] [] 3 [(''b'', True, None), (''house'', False, Some ''exit=1'')] (params_from_env env)
      in house_hotkey_from env = Some ''house'' \<and> df_evicted f = [''house''])"
proof (rule conjI)
  show "house_hotkey (params_from_env environ) = None \<and> min_survivors (params_from_env environ) = 1"
    by (simp add: params_from_env_def default_chronic_params_def)
qed code_simp

end
