(* ===== verification/StandingLedger.thy ===== *)
theory StandingLedger
  imports ScoreFlow ChampionPromotion ChronicFailure
begin

text \<open>
  The ledger directory (\<open>hope/scoring/standing_ledger.py\<close>): a file of score entries per hotkey, and the
  control files of the promotion state machine, the liveness policy and the charge cancellations. The
  directory is an explicit state: an operation takes it and returns it changed.

  A line of an entry file is the JSON document written; a log of events holds the events. The names
  of entry files are strings, listed in sorted order; a hotkey whose file name would be that of a
  control file (it would have to start with an underscore, which no ss58 address does) is not
  followed into that file. Control documents are objects, and their hotkeys and reasons strings or
  null, as the writers leave them.
\<close>

section \<open>The directory\<close>

record cancellation =
  cn_day :: string
  cn_hotkey :: hotkey
  cn_missed :: int
  cn_score :: float
  cn_weight :: float
  cn_reason :: string

record penalty =
  pe_day :: string
  pe_hotkey :: hotkey
  pe_missed :: int
  pe_score :: float

record ledger =
  made :: bool
  entry_files :: "(string, json list) dict"
  cancellation_log :: "cancellation list"
  promotion_file :: "json option"
  promotion_log :: "promotion_event list"
  eviction_file :: "json option"
  strike_log :: "strike_event list option"
  penalty_file :: "penalty list"

definition empty_ledger :: ledger where
  "empty_ledger = \<lparr>made = False, entry_files = [], cancellation_log = [], promotion_file = None,
     promotion_log = [], eviction_file = None, strike_log = None, penalty_file = []\<rparr>"

definition safe_char :: "char \<Rightarrow> bool" where
  "safe_char c \<longleftrightarrow> (let n = (of_char c :: nat) in
     (97 \<le> n \<and> n \<le> 122) \<or> (65 \<le> n \<and> n \<le> 90) \<or> (48 \<le> n \<and> n \<le> 57) \<or> c = CHR ''_'' \<or> c = CHR ''-'')"

definition safe_hotkey :: "hotkey \<Rightarrow> bool" where
  "safe_hotkey hotkey \<longleftrightarrow> hotkey \<noteq> [] \<and> list_all safe_char hotkey"

definition entry_path :: "hotkey \<Rightarrow> py_error + string" where
  "entry_path hotkey = (if \<not> safe_hotkey hotkey then Inl ValueError else Inr (hotkey @ ''.jsonl''))"

section \<open>Score entries\<close>

definition entry_line :: "weighted_entry \<Rightarrow> json" where
  "entry_line e = JDict [(''score'', JNum (we_score e)), (''weight'', JNum (we_weight e)), (''day'', JStr (isoformat (we_entered_on e)))]"

definition group_by_miner :: "weighted_entry list \<Rightarrow> (hotkey, weighted_entry list) dict" where
  "group_by_miner entries = foldl (\<lambda>acc e.
     AList.update (we_miner e) ((case map_of acc (we_miner e) of None \<Rightarrow> [] | Some es \<Rightarrow> es) @ [e]) acc) [] entries"

text \<open>A miner's block is written before the next miner's path is checked.\<close>

definition append_miner :: "ledger \<Rightarrow> hotkey \<times> weighted_entry list \<Rightarrow> py_error \<times> ledger + ledger" where
  "append_miner L item = (case item of (miner, es) \<Rightarrow>
     (case entry_path miner of
        Inl e \<Rightarrow> Inl (e, L)
      | Inr path \<Rightarrow> Inr (L\<lparr>entry_files := AList.update path
          ((case map_of (entry_files L) path of None \<Rightarrow> [] | Some ls \<Rightarrow> ls) @ map entry_line es) (entry_files L)\<rparr>)))"

fun append_miners :: "ledger \<Rightarrow> (hotkey \<times> weighted_entry list) list \<Rightarrow> py_error \<times> ledger + ledger" where
  "append_miners L [] = Inr L"
| "append_miners L (item # items) = (case append_miner L item of Inl x \<Rightarrow> Inl x | Inr L' \<Rightarrow> append_miners L' items)"

text \<open>The left value of a write that raises carries the directory as the error leaves it. The count is
  of the lines written, block by block.\<close>

definition append_entries :: "ledger \<Rightarrow> weighted_entry list \<Rightarrow> py_error \<times> ledger + ledger \<times> nat" where
  "append_entries L entries =
     (let by_miner = group_by_miner entries
      in map_sum id (\<lambda>L'. (L', sum_list (map (\<lambda>(miner, es). length (map entry_line es)) by_miner)))
           (append_miners (L\<lparr>made := True\<rparr>) by_miner))"

definition record_cancellation :: "ledger \<Rightarrow> string \<Rightarrow> hotkey \<Rightarrow> int \<Rightarrow> float \<Rightarrow> float \<Rightarrow> string \<Rightarrow> ledger" where
  "record_cancellation L day hotkey missed scr wgt reason =
     L\<lparr>made := True, cancellation_log := cancellation_log L @
        [\<lparr>cn_day = day, cn_hotkey = hotkey, cn_missed = missed, cn_score = scr, cn_weight = wgt, cn_reason = reason\<rparr>]\<rparr>"

definition load_cancellations :: "ledger \<Rightarrow> cancellation list" where
  "load_cancellations L = cancellation_log L"

text \<open>The fields of a line: \<open>float(rec["score"])\<close>, \<open>float(rec.get("weight", 1.0))\<close>, \<open>rec["day"]\<close>.\<close>

definition line_score :: "json \<Rightarrow> py_error + float" where
  "line_score j = (case map_of (json_fields j) ''score'' of None \<Rightarrow> Inl KeyError | Some v \<Rightarrow> num_of v)"

definition line_weight :: "json \<Rightarrow> py_error + float" where
  "line_weight j = (case map_of (json_fields j) ''weight'' of None \<Rightarrow> Inr 1 | Some v \<Rightarrow> num_of v)"

definition line_day :: "json \<Rightarrow> py_error + date" where
  "line_day j = (case j of
     JDict rec \<Rightarrow> (case map_of rec ''day'' of
         None \<Rightarrow> Inl KeyError
       | Some (JStr s) \<Rightarrow> (case fromisoformat s of None \<Rightarrow> Inl ValueError | Some d \<Rightarrow> Inr d)
       | Some _ \<Rightarrow> Inl TypeError)
   | _ \<Rightarrow> Inl TypeError)"

definition matches_line :: "cancellation \<Rightarrow> json \<Rightarrow> float \<Rightarrow> float \<Rightarrow> bool" where
  "matches_line c j scr wgt \<longleftrightarrow> 0 < cn_missed c \<and> jget j ''day'' = JStr (cn_day c) \<and> scr = cn_score c \<and> wgt = cn_weight c"

text \<open>The first cancellation that matches is used up by one.\<close>

fun use_cancellation :: "cancellation list \<Rightarrow> json \<Rightarrow> float \<Rightarrow> float \<Rightarrow> cancellation list option" where
  "use_cancellation [] j scr wgt = None"
| "use_cancellation (c # cs) j scr wgt =
     (if matches_line c j scr wgt then Some (c\<lparr>cn_missed := cn_missed c - 1\<rparr> # cs)
      else map_option (\<lambda>cs'. c # cs') (use_cancellation cs j scr wgt))"

text \<open>One line: its day, then (in the window) its score and weight.\<close>

definition read_line ::
    "date \<Rightarrow> cancellation list \<times> scored_episode list \<Rightarrow> json \<Rightarrow> py_error + cancellation list \<times> scored_episode list" where
  "read_line cutoff acc j = (case acc of (cs, eps) \<Rightarrow>
     (case line_day j of
        Inl e \<Rightarrow> Inl e
      | Inr day \<Rightarrow>
          if day < cutoff then Inr acc
          else case (line_score j, line_weight j) of
            (Inl e, _) \<Rightarrow> Inl e
          | (_, Inl e) \<Rightarrow> Inl e
          | (Inr scr, Inr wgt) \<Rightarrow>
              (case use_cancellation cs j scr wgt of
                 Some cs' \<Rightarrow> Inr (cs', eps)
               | None \<Rightarrow> Inr (cs, eps @ [(plain_episode scr day)\<lparr>weight := wgt\<rparr>]))))"

definition read_file :: "date \<Rightarrow> cancellation list \<Rightarrow> json list \<Rightarrow> py_error + scored_episode list" where
  "read_file cutoff cs lines = map_sum id snd (fold_sum (read_line cutoff) (cs, []) lines)"

text \<open>\<open>name.endswith(".jsonl") and not name.startswith("_")\<close>, and the hotkey of a name.\<close>

definition is_entry_file :: "string \<Rightarrow> bool" where
  "is_entry_file name \<longleftrightarrow> drop (length name - 6) name = ''.jsonl'' \<and> \<not> startswith name ''_''"

definition hotkey_of_file :: "string \<Rightarrow> hotkey" where
  "hotkey_of_file name = take (length name - 6) name"

definition entry_listing :: "ledger \<Rightarrow> (string \<times> json list) list" where
  "entry_listing L = filter (\<lambda>f. is_entry_file (fst f)) (sort_key fst (entry_files L))"

definition load_file ::
    "date \<Rightarrow> cancellation list \<Rightarrow> (hotkey, scored_episode list) dict \<Rightarrow> string \<times> json list
      \<Rightarrow> py_error + (hotkey, scored_episode list) dict" where
  "load_file cutoff cancels out file = (case file of (name, lines) \<Rightarrow>
     (let hotkey = hotkey_of_file name in
      case read_file cutoff (filter (\<lambda>c. cn_hotkey c = hotkey) cancels) lines of
        Inl e \<Rightarrow> Inl e
      | Inr eps \<Rightarrow> Inr (if eps \<noteq> [] then AList.update hotkey eps out else out)))"

definition load_entries :: "ledger \<Rightarrow> date \<Rightarrow> int \<Rightarrow> py_error + (hotkey, scored_episode list) dict" where
  "load_entries L as_of window_days =
     (if \<not> made L then Inr []
      else fold_sum (load_file (as_of - window_days) (load_cancellations L)) [] (entry_listing L))"

text \<open>A line without a day, or with one that is not a date, is skipped; a line that is not an object, or
  whose day is not a string, raises.\<close>

definition earliest_day :: "date option \<Rightarrow> json \<Rightarrow> py_error + date option" where
  "earliest_day earliest j =
     (case line_day j of
        Inl e \<Rightarrow> if e = ValueError \<or> e = KeyError then Inr earliest else Inl e
      | Inr day \<Rightarrow> Inr (case earliest of None \<Rightarrow> Some day | Some d \<Rightarrow> if day < d then Some day else Some d))"

definition first_scored_day :: "ledger \<Rightarrow> py_error + date option" where
  "first_scored_day L = (if \<not> made L then Inr None
     else fold_sum earliest_day None (concat (map snd (entry_listing L))))"

definition scored_day_counts :: "(hotkey, scored_episode list) dict \<Rightarrow> (hotkey, int) dict" where
  "scored_day_counts entries = map (\<lambda>(hk, eps). (hk, int (card (set (map scored_on eps))))) entries"

section \<open>Compaction\<close>

fun keep_lines :: "date \<Rightarrow> json list \<Rightarrow> py_error + json list" where
  "keep_lines cutoff [] = Inr []"
| "keep_lines cutoff (j # js) =
     (case line_day j of
        Inl e \<Rightarrow> Inl e
      | Inr day \<Rightarrow> map_sum id (\<lambda>ks. if cutoff \<le> day then j # ks else ks) (keep_lines cutoff js))"

definition compact_file :: "date \<Rightarrow> ledger \<times> nat \<Rightarrow> string \<times> json list \<Rightarrow> py_error \<times> ledger + ledger \<times> nat" where
  "compact_file cutoff acc file = (case (acc, file) of ((L, shed), (name, lines)) \<Rightarrow>
     (case keep_lines cutoff lines of
        Inl e \<Rightarrow> Inl (e, L)
      | Inr kept \<Rightarrow>
          if length kept \<noteq> length lines
          then Inr (L\<lparr>entry_files := AList.update name kept (entry_files L)\<rparr>, shed + (length lines - length kept))
          else Inr (L, shed)))"

definition compact :: "ledger \<Rightarrow> date \<Rightarrow> int \<Rightarrow> py_error \<times> ledger + ledger \<times> nat" where
  "compact L as_of window_days =
     (if \<not> made L then Inr (L, 0)
      else fold_sum (compact_file (as_of - window_days)) (L, 0) (entry_listing L))"


section \<open>Promotion state\<close>

text \<open>\<open>str(x) if x else None\<close> of an optional day (a day is always true).\<close>

definition day_field :: "date option \<Rightarrow> json" where
  "day_field d = jopt (\<lambda>x. JStr (isoformat x)) d"

text \<open>\<open>date.fromisoformat(raw) if raw else None\<close>.\<close>

definition opt_date :: "json \<Rightarrow> py_error + date option" where
  "opt_date j = (if \<not> truthy j then Inr None
     else case j of JStr s \<Rightarrow> (case fromisoformat s of None \<Rightarrow> Inl ValueError | Some d \<Rightarrow> Inr (Some d)) | _ \<Rightarrow> Inl TypeError)"

definition load_promotion_state :: "ledger \<Rightarrow> py_error + promotion_state" where
  "load_promotion_state L =
     (case promotion_file L of
        None \<Rightarrow> Inr cold_start
      | Some rec \<Rightarrow>
          and_then (opt_date (jget rec ''lead_started'')) (\<lambda>ls.
          and_then (opt_date (jget rec ''last_observed'')) (\<lambda>lo.
          and_then (opt_date (jget rec ''vacated_on'')) (\<lambda>vo.
            Inr \<lparr>champion = opt_string (jget rec ''champion''), challenger = opt_string (jget rec ''challenger''),
              lead_started = ls, last_observed = lo, vacated_on = vo,
              vacate_reason = opt_string (jget rec ''vacate_reason'')\<rparr>))))"

definition save_promotion_state :: "ledger \<Rightarrow> promotion_state \<Rightarrow> ledger" where
  "save_promotion_state L st = L\<lparr>made := True, promotion_file := Some (JDict
     [(''champion'', jopt JStr (champion st)), (''challenger'', jopt JStr (challenger st)),
      (''lead_started'', day_field (lead_started st)), (''last_observed'', day_field (last_observed st)),
      (''vacated_on'', day_field (vacated_on st)), (''vacate_reason'', jopt JStr (vacate_reason st))])\<rparr>"

definition append_promotion_event :: "ledger \<Rightarrow> promotion_event \<Rightarrow> ledger" where
  "append_promotion_event L ev = L\<lparr>made := True, promotion_log := promotion_log L @ [ev]\<rparr>"

section \<open>Liveness state and log\<close>

definition load_eviction_state :: "hotkey \<Rightarrow> json \<Rightarrow> py_error + eviction_state" where
  "load_eviction_state hotkey rec =
     and_then (opt_date (jget rec ''evicted_on'')) (\<lambda>eo.
     and_then (case map_of (json_fields rec) ''evictions_total'' of None \<Rightarrow> Inr 0 | Some v \<Rightarrow> int_of v) (\<lambda>n.
     and_then (opt_date (jget rec ''last_eviction_on'')) (\<lambda>le.
     and_then (opt_date (jget rec ''reinstate_not_before'')) (\<lambda>nb.
       Inr \<lparr>es_hotkey = (case map_of (json_fields rec) ''hotkey'' of None \<Rightarrow> hotkey | Some v \<Rightarrow> (case opt_string v of None \<Rightarrow> [] | Some s \<Rightarrow> s)),
         evicted_on = eo, evictions_total = n, last_eviction_on = le, reinstate_not_before = nb\<rparr>))))"

definition load_eviction_states :: "ledger \<Rightarrow> py_error + (hotkey, eviction_state) dict" where
  "load_eviction_states L =
     (case eviction_file L of
        None \<Rightarrow> Inr []
      | Some raw \<Rightarrow>
          fold_sum (\<lambda>out (hotkey, rec). map_sum id (\<lambda>st. AList.update hotkey st out) (load_eviction_state hotkey rec))
            [] (json_fields raw))"

definition eviction_record :: "eviction_state \<Rightarrow> json" where
  "eviction_record st = JDict
     [(''hotkey'', JStr (es_hotkey st)), (''evicted_on'', day_field (evicted_on st)),
      (''evictions_total'', jint (evictions_total st)), (''last_eviction_on'', day_field (last_eviction_on st)),
      (''reinstate_not_before'', day_field (reinstate_not_before st))]"

definition save_eviction_states :: "ledger \<Rightarrow> (hotkey, eviction_state) dict \<Rightarrow> ledger" where
  "save_eviction_states L states = L\<lparr>made := True, eviction_file := Some (JDict
     (map (\<lambda>(hotkey, st). (hotkey, eviction_record st)) (sort_key fst states)))\<rparr>"

definition append_strike_events :: "ledger \<Rightarrow> strike_event list \<Rightarrow> ledger" where
  "append_strike_events L events =
     (if events = [] then L
      else L\<lparr>made := True, strike_log := Some ((case strike_log L of None \<Rightarrow> [] | Some es \<Rightarrow> es) @ events)\<rparr>)"

definition strike_event_in_window :: "strike_event \<Rightarrow> date option \<Rightarrow> bool" where
  "strike_event_in_window ev cutoff =
     (case cutoff of None \<Rightarrow> True | Some c \<Rightarrow> \<not> is_observation_kind (ev_kind ev) \<or> c \<le> ev_day ev)"

definition load_strike_events :: "ledger \<Rightarrow> date option \<Rightarrow> int option \<Rightarrow> strike_event list" where
  "load_strike_events L as_of window_days =
     (case strike_log L of
        None \<Rightarrow> []
      | Some events \<Rightarrow>
          (let cutoff = (case (as_of, window_days) of (Some d, Some w) \<Rightarrow> if w \<noteq> 0 then Some (d - (w - 1)) else None | _ \<Rightarrow> None)
           in filter (\<lambda>ev. strike_event_in_window ev cutoff) events))"

definition compact_strike_events :: "ledger \<Rightarrow> date \<Rightarrow> int \<Rightarrow> ledger \<times> nat" where
  "compact_strike_events L as_of window_days =
     (case strike_log L of
        None \<Rightarrow> (L, 0)
      | Some events \<Rightarrow>
          (let kept = filter (\<lambda>ev. strike_event_in_window ev (Some (as_of - (window_days - 1)))) events
           in if length kept = length events then (L, 0)
              else (L\<lparr>strike_log := Some kept\<rparr>, length events - length kept)))"

section \<open>Logs are append-only\<close>

text \<open>A day's promotion events are appended one at a time.\<close>

interpretation strikes: append_log "\<lambda>L. load_strike_events L None None" append_strike_events
  by unfold_locales (auto simp: load_strike_events_def append_strike_events_def strike_event_in_window_def split: option.splits)

interpretation promotions: append_log promotion_log "\<lambda>L evs. foldl append_promotion_event L evs"
proof
  fix L evs
  show "promotion_log (foldl append_promotion_event L evs) = promotion_log L @ evs"
    by (induction evs arbitrary: L) (auto simp: append_promotion_event_def)
qed

section \<open>States survive a restart\<close>

lemma opt_date_day_field: "(\<forall>x. d = Some x \<longrightarrow> valid_day x) \<Longrightarrow> opt_date (day_field d) = Inr d"
  by (cases d) (simp_all add: opt_date_def day_field_def jopt_def truthy_def isoformat_nonempty fromisoformat_isoformat)

lemma opt_string_jopt: "opt_string (jopt JStr x) = x"
  by (cases x) (simp_all add: opt_string_def jopt_def)

definition promotion_days_ok :: "promotion_state \<Rightarrow> bool" where
  "promotion_days_ok st \<longleftrightarrow> (\<forall>x. lead_started st = Some x \<or> last_observed st = Some x \<or> vacated_on st = Some x \<longrightarrow> valid_day x)"

lemma promotion_roundtrip:
  assumes "promotion_days_ok st"
  shows "load_promotion_state (save_promotion_state L st) = Inr st"
proof -
  have d: "opt_date (day_field (lead_started st)) = Inr (lead_started st)"
    "opt_date (day_field (last_observed st)) = Inr (last_observed st)"
    "opt_date (day_field (vacated_on st)) = Inr (vacated_on st)"
    using assms by (intro opt_date_day_field; simp add: promotion_days_ok_def)+
  show ?thesis
    by (simp add: load_promotion_state_def save_promotion_state_def jget_JDict d and_then_def opt_string_jopt)
qed

definition eviction_days_ok :: "eviction_state \<Rightarrow> bool" where
  "eviction_days_ok st \<longleftrightarrow>
     (\<forall>x. evicted_on st = Some x \<or> last_eviction_on st = Some x \<or> reinstate_not_before st = Some x \<longrightarrow> valid_day x)"

lemma eviction_record_roundtrip:
  assumes "eviction_days_ok st"
  shows "load_eviction_state hk (eviction_record st) = Inr st"
proof -
  have d: "opt_date (day_field (evicted_on st)) = Inr (evicted_on st)"
    "opt_date (day_field (last_eviction_on st)) = Inr (last_eviction_on st)"
    "opt_date (day_field (reinstate_not_before st)) = Inr (reinstate_not_before st)"
    using assms by (intro opt_date_day_field; simp add: eviction_days_ok_def)+
  have "int_of (jint (evictions_total st)) = Inr (evictions_total st)" by (simp add: int_of_def jint_def)
  then show ?thesis
    by (simp add: load_eviction_state_def eviction_record_def jget_JDict json_fields_def d and_then_def opt_string_def)
qed

lemma load_states_fold:
  assumes "\<forall>(hk, st) \<in> set states. eviction_days_ok st"
  shows "fold_sum (\<lambda>out (hotkey, rec). map_sum id (\<lambda>st. AList.update hotkey st out) (load_eviction_state hotkey rec)) out
      (map (\<lambda>(hotkey, st). (hotkey, eviction_record st)) states)
    = Inr (foldl (\<lambda>out (hk, st). AList.update hk st out) out states)"
  using assms by (induction states arbitrary: out) (auto simp: eviction_record_roundtrip)

lemma foldl_update_new:
  "dict_ok (out @ xs) \<Longrightarrow> foldl (\<lambda>out (k, v). AList.update k v out) out xs = out @ xs"
proof (induction xs arbitrary: out)
  case (Cons x xs)
  have "AList.update k v out = out @ [(k, v)]" if "k \<notin> fst ` set out" for k v
    using that by (induction out) auto
  then have "foldl (\<lambda>out (k, v). AList.update k v out) out (x # xs)
      = foldl (\<lambda>out (k, v). AList.update k v out) (out @ [x]) xs" using Cons.prems by (cases x) auto
  then show ?case using Cons.IH [of "out @ [x]"] Cons.prems by simp
qed simp

lemma eviction_roundtrip:
  assumes "dict_ok states" and "\<forall>(hk, st) \<in> set states. eviction_days_ok st"
  shows "load_eviction_states (save_eviction_states L states) = Inr (sort_key fst states)"
proof -
  have "\<forall>(hk, st) \<in> set (sort_key fst states). eviction_days_ok st" using assms(2) by simp
  note load_states_fold [OF this, of "[]"]
  moreover have "foldl (\<lambda>out (hk, st). AList.update hk st out) [] (sort_key fst states) = sort_key fst states"
    using foldl_update_new [where out = "[]", unfolded append_Nil, OF dict_ok_sort [OF assms(1)]] .
  ultimately show ?thesis by (simp add: load_eviction_states_def save_eviction_states_def json_fields_def)
qed


section \<open>Reading and appending entries\<close>

definition episode_of :: "weighted_entry \<Rightarrow> scored_episode" where
  "episode_of e = (plain_episode (we_score e) (we_entered_on e))\<lparr>weight := we_weight e\<rparr>"

lemma entry_line_read:
  "valid_day (we_entered_on e) \<Longrightarrow> line_day (entry_line e) = Inr (we_entered_on e)"
  "line_score (entry_line e) = Inr (we_score e)" "line_weight (entry_line e) = Inr (we_weight e)"
  "jget (entry_line e) ''day'' = JStr (isoformat (we_entered_on e))"
  by (simp_all add: line_day_def line_score_def line_weight_def entry_line_def json_fields_def num_of_def
      fromisoformat_isoformat jget_def)

lemma use_cancellation_days: "use_cancellation cs j a b = Some cs' \<Longrightarrow> map cn_day cs' = map cn_day cs"
  by (induction cs arbitrary: cs') (auto split: if_splits)

lemma use_cancellation_None: "(\<forall>c \<in> set cs. jget j ''day'' \<noteq> JStr (cn_day c)) \<Longrightarrow> use_cancellation cs j a b = None"
  by (induction cs) (auto simp: matches_line_def)

lemma read_line_days: "read_line cutoff acc j = Inr acc' \<Longrightarrow> map cn_day (fst acc') = map cn_day (fst acc)"
  by (auto simp: read_line_def use_cancellation_days split: prod.splits sum.splits option.splits if_splits)

lemma read_lines_days: "fold_sum (read_line cutoff) acc js = Inr acc' \<Longrightarrow> map cn_day (fst acc') = map cn_day (fst acc)"
  by (induction js arbitrary: acc) (auto dest: read_line_days split: sum.splits)

lemma read_new_line:
  assumes "valid_day (we_entered_on e)" and "isoformat (we_entered_on e) \<notin> set (map cn_day cs)"
  shows "read_line cutoff (cs, eps) (entry_line e) =
    Inr (cs, eps @ (if we_entered_on e < cutoff then [] else [episode_of e]))"
proof -
  have "use_cancellation cs (entry_line e) (we_score e) (we_weight e) = None"
    using assms(2) by (intro use_cancellation_None) (auto simp: entry_line_read)
  then show ?thesis by (simp add: read_line_def entry_line_read assms(1) episode_of_def)
qed

lemma read_new_lines:
  assumes "\<forall>e \<in> set es. valid_day (we_entered_on e) \<and> isoformat (we_entered_on e) \<notin> set (map cn_day cs)"
  shows "fold_sum (read_line cutoff) (cs, eps) (map entry_line es) =
    Inr (cs, eps @ map episode_of (filter (\<lambda>e. \<not> we_entered_on e < cutoff) es))"
  using assms by (induction es arbitrary: eps) (auto simp: read_new_line)

lemma read_file_append:
  assumes "read_file cutoff cs lines = Inr eps"
    and "\<forall>e \<in> set es. valid_day (we_entered_on e) \<and> isoformat (we_entered_on e) \<notin> set (map cn_day cs)"
  shows "read_file cutoff cs (lines @ map entry_line es) =
    Inr (eps @ map episode_of (filter (\<lambda>e. \<not> we_entered_on e < cutoff) es))"
proof -
  obtain acc where acc: "fold_sum (read_line cutoff) (cs, []) lines = Inr acc" "eps = snd acc"
    using assms(1) by (auto simp: read_file_def)
  have "\<forall>e \<in> set es. valid_day (we_entered_on e) \<and> isoformat (we_entered_on e) \<notin> set (map cn_day (fst acc))"
    using assms(2) read_lines_days [OF acc(1)] by simp
  from read_new_lines [OF this, of cutoff "snd acc"] show ?thesis using acc by (simp add: read_file_def fold_sum_append)
qed

text \<open>File names and hotkeys.\<close>

lemma file_name: "is_entry_file name \<Longrightarrow> name = hotkey_of_file name @ ''.jsonl''"
  using append_take_drop_id [of "length name - 6" name] by (simp add: is_entry_file_def hotkey_of_file_def)

lemma hotkey_of_path [simp]: "hotkey_of_file (hk @ ''.jsonl'') = hk"
  by (simp add: hotkey_of_file_def)

lemma is_entry_path: "is_entry_file (hk @ ''.jsonl'') \<longleftrightarrow> \<not> startswith (hk @ ''.jsonl'') ''_''"
  by (simp add: is_entry_file_def)

definition cancels_of :: "ledger \<Rightarrow> hotkey \<Rightarrow> cancellation list" where
  "cancels_of L hk = filter (\<lambda>c. cn_hotkey c = hk) (load_cancellations L)"

definition read_hotkey :: "ledger \<Rightarrow> date \<Rightarrow> hotkey \<Rightarrow> py_error + scored_episode list" where
  "read_hotkey L cutoff hk =
     (if \<not> is_entry_file (hk @ ''.jsonl'') then Inr []
      else case map_of (entry_files L) (hk @ ''.jsonl'') of
        None \<Rightarrow> Inr [] | Some lines \<Rightarrow> read_file cutoff (cancels_of L hk) lines)"

definition ledger_ok :: "ledger \<Rightarrow> bool" where
  "ledger_ok L \<longleftrightarrow> dict_ok (entry_files L) \<and> (\<not> made L \<longrightarrow> entry_files L = [])"

definition entries_of :: "(hotkey, scored_episode list) dict \<Rightarrow> hotkey \<Rightarrow> scored_episode list" where
  "entries_of D hk = (case map_of D hk of None \<Rightarrow> [] | Some eps \<Rightarrow> eps)"

lemma load_file_pair:
  "load_file cutoff cancels out (name, lines) =
     (case read_file cutoff (filter (\<lambda>c. cn_hotkey c = hotkey_of_file name) cancels) lines of
        Inl e \<Rightarrow> Inl e | Inr eps \<Rightarrow> Inr (if eps \<noteq> [] then AList.update (hotkey_of_file name) eps out else out))"
  by (simp add: load_file_def Let_def)

lemma load_fold:
  assumes "fold_sum (load_file cutoff cancels) out files = Inr D" and "dict_ok files" and "\<forall>f \<in> set files. is_entry_file (fst f)"
  shows "case map_of files (hk @ ''.jsonl'') of
      None \<Rightarrow> map_of D hk = map_of out hk
    | Some lines \<Rightarrow> \<exists>eps. read_file cutoff (filter (\<lambda>c. cn_hotkey c = hk) cancels) lines = Inr eps \<and>
        map_of D hk = (if eps = [] then map_of out hk else Some eps)"
  using assms
proof (induction files arbitrary: out)
  case (Cons f files)
  obtain name lines where f: "f = (name, lines)" by (cases f)
  obtain eps where eps: "read_file cutoff (filter (\<lambda>c. cn_hotkey c = hotkey_of_file name) cancels) lines = Inr eps"
    and rest: "fold_sum (load_file cutoff cancels) (if eps \<noteq> [] then AList.update (hotkey_of_file name) eps out else out) files = Inr D"
    using Cons.prems(1) by (auto simp: f load_file_pair split: sum.splits)
  have name: "name = hotkey_of_file name @ ''.jsonl''" using Cons.prems(3) by (intro file_name) (simp add: f)
  have new: "map_of files name = None" using Cons.prems(2) by (simp add: f map_of_None_iff)
  have ok: "dict_ok files" "\<forall>f \<in> set files. is_entry_file (fst f)" using Cons.prems(2,3) by auto
  note IH = Cons.IH [OF rest ok]
  show ?case
  proof (cases "hk @ ''.jsonl'' = name")
    case True
    then have "hk = hotkey_of_file name" by (metis hotkey_of_path)
    then show ?thesis using IH new eps True by (simp add: f map_of_update)
  next
    case False
    then have "hk \<noteq> hotkey_of_file name" using name by metis
    then have same: "map_of (if eps \<noteq> [] then AList.update (hotkey_of_file name) eps out else out) hk = map_of out hk"
      by (simp add: map_of_update)
    have "map_of (f # files) (hk @ ''.jsonl'') = map_of files (hk @ ''.jsonl'')" using False by (simp add: f)
    then show ?thesis using IH unfolding same by (simp only:)
  qed
qed simp

lemma load_fold_total:
  assumes "dict_ok files" and "\<forall>f \<in> set files. is_entry_file (fst f)"
    and "\<forall>hk lines. map_of files (hk @ ''.jsonl'') = Some lines \<longrightarrow>
      (\<exists>eps. read_file cutoff (filter (\<lambda>c. cn_hotkey c = hk) cancels) lines = Inr eps)"
  shows "\<exists>D. fold_sum (load_file cutoff cancels) out files = Inr D"
  using assms
proof (induction files arbitrary: out)
  case (Cons f files)
  obtain name lines where f: "f = (name, lines)" by (cases f)
  have name: "name = hotkey_of_file name @ ''.jsonl''" using Cons.prems(2) by (intro file_name) (simp add: f)
  obtain eps where "read_file cutoff (filter (\<lambda>c. cn_hotkey c = hotkey_of_file name) cancels) lines = Inr eps"
    using Cons.prems(3) name f by (metis map_of_Cons_code(2))
  moreover have "\<forall>hk lines. map_of files (hk @ ''.jsonl'') = Some lines \<longrightarrow>
      (\<exists>eps. read_file cutoff (filter (\<lambda>c. cn_hotkey c = hk) cancels) lines = Inr eps)"
  proof (intro allI impI)
    fix hk ls assume m: "map_of files (hk @ ''.jsonl'') = Some ls"
    then have "hk @ ''.jsonl'' \<noteq> name" using Cons.prems(1) map_of_in_keys [OF m] by (auto simp: f)
    then have "map_of (f # files) (hk @ ''.jsonl'') = Some ls" using m by (simp add: f)
    then show "\<exists>eps. read_file cutoff (filter (\<lambda>c. cn_hotkey c = hk) cancels) ls = Inr eps" using Cons.prems(3) by blast
  qed
  ultimately show ?case using Cons.IH [of "if eps \<noteq> [] then AList.update (hotkey_of_file name) eps out else out"] Cons.prems(1,2)
    by (simp add: f load_file_def)
qed simp

lemma listing_map_of:
  assumes "dict_ok (entry_files L)"
  shows "map_of (entry_listing L) name = (if is_entry_file name then map_of (entry_files L) name else None)"
proof -
  have "map_of (filter (\<lambda>f. is_entry_file (fst f)) xs) name = (if is_entry_file name then map_of xs name else None)" for xs :: "(string \<times> json list) list"
    by (induction xs) auto
  then show ?thesis by (simp add: entry_listing_def map_of_sort [OF assms])
qed

lemma listing_ok:
  assumes "dict_ok (entry_files L)"
  shows "dict_ok (entry_listing L)" "\<forall>f \<in> set (entry_listing L). is_entry_file (fst f)"
  using dict_ok_sort [OF assms, of fst] by (auto simp: entry_listing_def distinct_map_filter)

lemma load_entries_iff:
  assumes "ledger_ok L"
  shows "(\<exists>D. load_entries L as_of w = Inr D) \<longleftrightarrow> (\<forall>hk. \<exists>eps. read_hotkey L (as_of - w) hk = Inr eps)"
    and "load_entries L as_of w = Inr D \<Longrightarrow> read_hotkey L (as_of - w) hk = Inr (entries_of D hk)"
    and "load_entries L as_of w = Inr D \<Longrightarrow> map_of D hk \<noteq> Some []"
proof -
  have d: "dict_ok (entry_files L)" using assms by (simp add: ledger_ok_def)
  note li = listing_ok [OF d] listing_map_of [OF d]
  have one: "read_hotkey L (as_of - w) hk = Inr (entries_of D hk) \<and> map_of D hk \<noteq> Some []"
    if l: "load_entries L as_of w = Inr D" for D hk
  proof (cases "made L")
    case True
    then have f: "fold_sum (load_file (as_of - w) (load_cancellations L)) [] (entry_listing L) = Inr D"
      using l by (simp add: load_entries_def)
    show ?thesis using load_fold [OF f li(1,2), of hk]
      by (auto simp: read_hotkey_def li(3) cancels_of_def entries_of_def split: option.splits if_splits)
  next
    case False
    then show ?thesis using l assms by (simp add: load_entries_def read_hotkey_def ledger_ok_def entries_of_def)
  qed
  then show "load_entries L as_of w = Inr D \<Longrightarrow> read_hotkey L (as_of - w) hk = Inr (entries_of D hk)"
    and "load_entries L as_of w = Inr D \<Longrightarrow> map_of D hk \<noteq> Some []" by blast+
  show "(\<exists>D. load_entries L as_of w = Inr D) \<longleftrightarrow> (\<forall>hk. \<exists>eps. read_hotkey L (as_of - w) hk = Inr eps)"
  proof
    assume r: "\<forall>hk. \<exists>eps. read_hotkey L (as_of - w) hk = Inr eps"
    have "\<exists>D. fold_sum (load_file (as_of - w) (load_cancellations L)) [] (entry_listing L) = Inr D"
    proof (rule load_fold_total [OF li(1,2)], intro allI impI)
      fix hk lines assume "map_of (entry_listing L) (hk @ ''.jsonl'') = Some lines"
      then have "is_entry_file (hk @ ''.jsonl'')" "map_of (entry_files L) (hk @ ''.jsonl'') = Some lines"
        by (simp_all add: li(3) split: if_splits)
      then show "\<exists>eps. read_file (as_of - w) (filter (\<lambda>c. cn_hotkey c = hk) (load_cancellations L)) lines = Inr eps"
        using r [rule_format, of hk] by (simp add: read_hotkey_def cancels_of_def)
    qed
    then show "\<exists>D. load_entries L as_of w = Inr D" by (auto simp: load_entries_def)
  qed (use one in blast)
qed


section \<open>What appending does to the files\<close>

lemma group_by_miner_map_of:
  "map_of (group_by_miner es) m = (let xs = filter (\<lambda>e. we_miner e = m) es in if xs = [] then None else Some xs)"
  by (induction es rule: rev_induct) (auto simp: group_by_miner_def map_of_update Let_def)

lemma block_grows:
  "dict_ok d \<Longrightarrow> sum_list (map (\<lambda>(m, es). length es) (AList.update k ((case map_of d k of None \<Rightarrow> [] | Some es \<Rightarrow> es) @ [e]) d))
    = Suc (sum_list (map (\<lambda>(m, es). length es) d))"
  by (induction d) auto

lemma group_by_miner_ok: "dict_ok (group_by_miner es)"
  by (induction es rule: rev_induct) (auto simp: group_by_miner_def)

text \<open>The lines written are as many as the entries.\<close>

lemma group_by_miner_length: "sum_list (map (\<lambda>(m, es). length es) (group_by_miner es)) = length es"
proof (induction es rule: rev_induct)
  case (snoc e es)
  have "group_by_miner (es @ [e]) = AList.update (we_miner e)
     ((case map_of (group_by_miner es) (we_miner e) of None \<Rightarrow> [] | Some xs \<Rightarrow> xs) @ [e]) (group_by_miner es)"
    by (simp add: group_by_miner_def)
  then show ?case using block_grows [where k = "we_miner e" and e = e, OF group_by_miner_ok [of es]] snoc.IH by simp
qed (simp add: group_by_miner_def)

lemma append_entries_lines:
  "append_entries L es = map_sum id (\<lambda>L'. (L', length es)) (append_miners (L\<lparr>made := True\<rparr>) (group_by_miner es))"
  by (simp add: append_entries_def Let_def group_by_miner_length)

lemma append_miner_ok:
  assumes "safe_hotkey m"
  shows "append_miner L (m, es) = Inr (L\<lparr>entry_files := AList.update (m @ ''.jsonl'')
    ((case map_of (entry_files L) (m @ ''.jsonl'') of None \<Rightarrow> [] | Some ls \<Rightarrow> ls) @ map entry_line es) (entry_files L)\<rparr>)"
  using assms by (simp add: append_miner_def entry_path_def)

lemma append_miners_ok:
  assumes "\<forall>m \<in> set (keys items). safe_hotkey m" and "dict_ok items" and "dict_ok (entry_files L)"
  shows "\<exists>F. append_miners L items = Inr (L\<lparr>entry_files := F\<rparr>) \<and> dict_ok F \<and>
    (\<forall>m. map_of F (m @ ''.jsonl'') = (case map_of items m of None \<Rightarrow> map_of (entry_files L) (m @ ''.jsonl'')
       | Some es \<Rightarrow> Some ((case map_of (entry_files L) (m @ ''.jsonl'') of None \<Rightarrow> [] | Some ls \<Rightarrow> ls) @ map entry_line es)))"
  using assms
proof (induction items arbitrary: L)
  case (Cons item items)
  obtain k es where item: "item = (k, es)" by (cases item)
  let ?F = "AList.update (k @ ''.jsonl'')
    ((case map_of (entry_files L) (k @ ''.jsonl'') of None \<Rightarrow> [] | Some ls \<Rightarrow> ls) @ map entry_line es) (entry_files L)"
  have step: "append_miner L item = Inr (L\<lparr>entry_files := ?F\<rparr>)"
    using Cons.prems(1) by (simp add: item append_miner_ok)
  define L1 where "L1 = L\<lparr>entry_files := ?F\<rparr>"
  have L1: "dict_ok (entry_files L1)" "\<And>k'. map_of (entry_files L1) k' = map_of ?F k'" using Cons.prems(3) by (auto simp: L1_def)
  have "\<forall>m \<in> set (keys items). safe_hotkey m" "dict_ok items" using Cons.prems(1,2) by auto
  from Cons.IH [OF this L1(1)] obtain F where F: "append_miners L1 items = Inr (L1\<lparr>entry_files := F\<rparr>)" "dict_ok F"
    "\<And>m. map_of F (m @ ''.jsonl'') = (case map_of items m of None \<Rightarrow> map_of (entry_files L1) (m @ ''.jsonl'')
       | Some es \<Rightarrow> Some ((case map_of (entry_files L1) (m @ ''.jsonl'') of None \<Rightarrow> [] | Some ls \<Rightarrow> ls) @ map entry_line es))"
    by blast
  have "map_of items k = None" using Cons.prems(2) by (simp add: item map_of_None_iff)
  then have "map_of F (m @ ''.jsonl'') = (case map_of (item # items) m of None \<Rightarrow> map_of (entry_files L) (m @ ''.jsonl'')
       | Some es \<Rightarrow> Some ((case map_of (entry_files L) (m @ ''.jsonl'') of None \<Rightarrow> [] | Some ls \<Rightarrow> ls) @ map entry_line es))" for m
    unfolding F(3) L1(2) by (cases "m = k") (simp_all add: item map_of_update split: option.split)
  moreover have "append_miners L (item # items) = Inr (L\<lparr>entry_files := F\<rparr>)"
    using F(1) by (simp add: step flip: L1_def) (simp add: L1_def)
  ultimately show ?case using F(2) by blast
next
  case Nil
  then show ?case by (intro exI [of _ "entry_files L"]) simp
qed

text \<open>The days before compaction that a line is read for.\<close>

lemma keep_lines_read:
  assumes "keep_lines cutoff lines = Inr kept" and "cutoff \<le> cutoff'"
  shows "fold_sum (read_line cutoff') acc kept = fold_sum (read_line cutoff') acc lines"
  using assms
proof (induction lines arbitrary: kept acc)
  case (Cons j lines)
  obtain d where d: "line_day j = Inr d" using Cons.prems(1) by (auto split: sum.splits)
  obtain ks where ks: "keep_lines cutoff lines = Inr ks" and kept: "kept = (if cutoff \<le> d then j # ks else ks)"
    using Cons.prems(1) by (auto simp: d)
  have IH: "fold_sum (read_line cutoff') a ks = fold_sum (read_line cutoff') a lines" for a using Cons.IH [OF ks Cons.prems(2)] .
  show ?case
  proof (cases "cutoff \<le> d")
    case True
    then show ?thesis by (simp add: kept IH split: sum.split)
  next
    case False
    then have "read_line cutoff' acc j = Inr acc" using Cons.prems(2) d by (simp add: read_line_def split: prod.splits)
    then show ?thesis using False by (simp add: kept IH)
  qed
qed simp

lemma keep_lines_length: "keep_lines cutoff lines = Inr kept \<Longrightarrow> length kept \<le> length lines \<and> (length kept = length lines \<longrightarrow> kept = lines)"
proof (induction lines arbitrary: kept)
  case (Cons j lines)
  obtain d where d: "line_day j = Inr d" using Cons.prems(1) by (auto split: sum.splits)
  obtain ks where ks: "keep_lines cutoff lines = Inr ks" and kept: "kept = (if cutoff \<le> d then j # ks else ks)"
    using Cons.prems(1) by (auto simp: d)
  then show ?case using Cons.IH [OF ks] by auto
qed simp

lemma compact_fold:
  assumes "fold_sum (compact_file cutoff) (L, n) files = Inr (L', n')" and "dict_ok files" and "dict_ok (entry_files L)"
    and "\<forall>(name, lines) \<in> set files. map_of (entry_files L) name = Some lines"
  shows "\<exists>F. L' = L\<lparr>entry_files := F\<rparr> \<and> dict_ok F \<and> keys F = keys (entry_files L) \<and>
    (\<forall>name. case map_of files name of
       None \<Rightarrow> map_of F name = map_of (entry_files L) name
     | Some lines \<Rightarrow> \<exists>kept. keep_lines cutoff lines = Inr kept \<and> map_of F name = Some kept)"
  using assms
proof (induction files arbitrary: L n)
  case Nil
  then show ?case by (auto intro!: exI [of _ "entry_files L"])
next
  case (Cons f files)
  obtain name lines where f: "f = (name, lines)" by (cases f)
  have here: "map_of (entry_files L) name = Some lines" using Cons.prems(4) by (simp add: f)
  obtain kept where kept: "keep_lines cutoff lines = Inr kept"
    using Cons.prems(1) by (auto simp: f compact_file_def split: sum.splits)
  define F1 where "F1 = (if length kept \<noteq> length lines then AList.update name kept (entry_files L) else entry_files L)"
  have F1: "map_of F1 k = (if k = name then Some kept else map_of (entry_files L) k)" for k
    using keep_lines_length [OF kept] here by (auto simp: F1_def map_of_update)
  have F1_ok: "dict_ok F1" "keys F1 = keys (entry_files L)"
    using Cons.prems(3) map_of_in_keys [OF here] by (auto simp: F1_def keys_update)
  define L1 where "L1 = L\<lparr>entry_files := F1\<rparr>"
  obtain n1 where step: "compact_file cutoff (L, n) f = Inr (L1, n1)"
    by (cases "length kept \<noteq> length lines") (auto simp: f compact_file_def kept F1_def L1_def)
  have rest: "fold_sum (compact_file cutoff) (L1, n1) files = Inr (L', n')" using Cons.prems(1) by (simp add: step)
  have files: "dict_ok files" "dict_ok (entry_files L1)" "entry_files L1 = F1" using Cons.prems(2) F1_ok by (simp_all add: L1_def)
  have fresh: "map_of files name = None" using Cons.prems(2) by (simp add: f map_of_None_iff)
  have "map_of F1 k = Some ls" if "(k, ls) \<in> set files" for k ls
  proof -
    have "k \<noteq> name" using that Cons.prems(2) by (force simp: f)
    moreover have "map_of (entry_files L) k = Some ls" using that Cons.prems(4) by (fastforce simp: f)
    ultimately show ?thesis by (simp add: F1)
  qed
  then have "\<forall>(k, ls) \<in> set files. map_of (entry_files L1) k = Some ls" unfolding files(3) by blast
  from Cons.IH [OF rest files(1,2) this] obtain F where F: "L' = L1\<lparr>entry_files := F\<rparr>" "dict_ok F" "keys F = keys F1"
    "\<And>k. case map_of files k of None \<Rightarrow> map_of F k = map_of F1 k
     | Some lines \<Rightarrow> \<exists>kept. keep_lines cutoff lines = Inr kept \<and> map_of F k = Some kept"
    unfolding files(3) by blast
  have "case map_of (f # files) k of None \<Rightarrow> map_of F k = map_of (entry_files L) k
     | Some lines \<Rightarrow> \<exists>kept. keep_lines cutoff lines = Inr kept \<and> map_of F k = Some kept" for k
    using F(4) [of k] fresh kept by (cases "k = name") (simp_all add: f F1 split: option.splits)
  moreover have "L' = L\<lparr>entry_files := F\<rparr>" using F(1) by (simp add: L1_def)
  moreover have "keys F = keys (entry_files L)" using F(3) F1_ok(2) by simp
  ultimately show ?case using F(2) by blast
qed

lemma cancels_of_files [simp]: "cancels_of (L\<lparr>entry_files := F\<rparr>) hk = cancels_of L hk"
  by (simp add: cancels_of_def load_cancellations_def)

lemma compact_reads:
  assumes ok: "ledger_ok L" and c: "compact L as_of w = Inr (L', n)" and "as_of - w \<le> cutoff"
  shows "ledger_ok L'" and "read_hotkey L' cutoff hk = read_hotkey L cutoff hk"
proof -
  have d: "dict_ok (entry_files L)" using ok by (simp add: ledger_ok_def)
  have "ledger_ok L' \<and> read_hotkey L' cutoff hk = read_hotkey L cutoff hk"
  proof (cases "made L")
    case True
    have f: "fold_sum (compact_file (as_of - w)) (L, 0) (entry_listing L) = Inr (L', n)"
      using c True by (simp add: compact_def)
    have "\<forall>(name, lines) \<in> set (entry_listing L). map_of (entry_files L) name = Some lines"
      using d by (auto simp: entry_listing_def)
    then obtain F where F: "L' = L\<lparr>entry_files := F\<rparr>" "dict_ok F"
      "\<And>k. case map_of (entry_listing L) k of None \<Rightarrow> map_of F k = map_of (entry_files L) k
         | Some lines \<Rightarrow> \<exists>kept. keep_lines (as_of - w) lines = Inr kept \<and> map_of F k = Some kept"
      using compact_fold [OF f listing_ok(1) [OF d] d] by blast
    have "read_hotkey L' cutoff hk = read_hotkey L cutoff hk"
    proof (cases "map_of (entry_listing L) (hk @ ''.jsonl'')")
      case None
      then show ?thesis using F(3) [of "hk @ ''.jsonl''"] by (simp add: read_hotkey_def F(1) split: option.split)
    next
      case (Some lines)
      then obtain kept where "keep_lines (as_of - w) lines = Inr kept" "map_of F (hk @ ''.jsonl'') = Some kept"
        using F(3) [of "hk @ ''.jsonl''"] by auto
      moreover have "map_of (entry_files L) (hk @ ''.jsonl'') = Some lines"
        using Some by (simp add: listing_map_of [OF d] split: if_splits)
      ultimately show ?thesis using keep_lines_read assms(3)
        by (simp add: read_hotkey_def F(1) read_file_def)
    qed
    then show ?thesis using F(1,2) True by (simp add: ledger_ok_def)
  next
    case False
    then show ?thesis using c ok by (simp add: compact_def)
  qed
  then show "ledger_ok L'" and "read_hotkey L' cutoff hk = read_hotkey L cutoff hk" by blast+
qed

section \<open>Compaction of the liveness log\<close>

abbreviation kept_events :: "date \<Rightarrow> strike_event list \<Rightarrow> strike_event list" where
  "kept_events c \<equiv> filter (\<lambda>ev. strike_event_in_window ev (Some c))"

lemma kept_operative: "c \<le> d \<Longrightarrow> last_such (\<lambda>e. is_observation_of hk e \<and> ev_day e = d) (kept_events c es)
  = last_such (\<lambda>e. is_observation_of hk e \<and> ev_day e = d) es"
proof -
  assume "c \<le> d"
  then have "filter (\<lambda>e. is_observation_of hk e \<and> ev_day e = d) (kept_events c es) = filter (\<lambda>e. is_observation_of hk e \<and> ev_day e = d) es"
    by (auto simp: strike_event_in_window_def intro!: filter_cong)
  then show ?thesis by (simp add: last_such_def)
qed

lemma kept_observation: "c \<le> d \<Longrightarrow> map_of (observations (kept_events c es) hk) d = map_of (observations es hk) d"
  by (simp add: observations_operative kept_operative)

lemma kept_strikes:
  assumes "c \<le> day - (max 1 w - 1)"
  shows "strikes_in_window (kept_events c es) hk day w since = strikes_in_window es hk day w since"
proof -
  have "c \<le> d \<Longrightarrow> operative (kept_events c es) hk d = operative es hk d" for d by (simp add: operative_def kept_operative)
  then have "strike_day_set (kept_events c es) hk day w since = strike_day_set es hk day w since"
    using assms by (auto simp: strike_day_set_def)
  then show ?thesis by (simp add: strikes_in_window_card)
qed

lemma kept_lifecycle:
  "filter (\<lambda>e. ev_hotkey e = hk \<and> ev_kind e = k \<and> Q e) (kept_events c es) = filter (\<lambda>e. ev_hotkey e = hk \<and> ev_kind e = k \<and> Q e) es"
  if "\<not> is_observation_kind k"
  using that by (auto simp: strike_event_in_window_def intro!: filter_cong)

lemma kept_retract: "retract_eviction st (kept_events c es) day = retract_eviction st es day"
proof -
  have 1: "filter (\<lambda>e. ev_hotkey e = es_hotkey st \<and> ev_kind e = KindEvictionRetracted) (kept_events c es)
      = filter (\<lambda>e. ev_hotkey e = es_hotkey st \<and> ev_kind e = KindEvictionRetracted) es"
    using kept_lifecycle [of KindEvictionRetracted "es_hotkey st" "\<lambda>_. True" c es] by simp
  have 2: "filter (\<lambda>e. ev_hotkey e = es_hotkey st \<and> ev_kind e = KindEvicted \<and> ev_day e \<noteq> day \<and> ev_day e \<notin> D) (kept_events c es)
      = filter (\<lambda>e. ev_hotkey e = es_hotkey st \<and> ev_kind e = KindEvicted \<and> ev_day e \<noteq> day \<and> ev_day e \<notin> D) es" for D
    by (rule kept_lifecycle) simp
  show ?thesis unfolding retract_eviction_def 1 2 ..
qed

text \<open>The fold as it would run over the compacted log.\<close>

definition compacted :: "date \<Rightarrow> day_fold \<Rightarrow> day_fold" where
  "compacted c f = f\<lparr>df_log := kept_events c (df_log f)\<rparr>"

lemma compacted_fields [simp]:
  "df_states (compacted c f) = df_states f" "df_emitted (compacted c f) = df_emitted f" "df_log (compacted c f) = kept_events c (df_log f)"
  "df_struck (compacted c f) = df_struck f" "df_evicted (compacted c f) = df_evicted f" "df_reinstated (compacted c f) = df_reinstated f"
  "df_excluded (compacted c f) = df_excluded f" "df_retracted (compacted c f) = df_retracted f" "df_withheld (compacted c f) = df_withheld f"
  by (simp_all add: compacted_def)

lemma compacted_emit: "c \<le> ev_day ev \<Longrightarrow> emit ev (compacted c f) = compacted c (emit ev f)"
  by (simp add: emit_def compacted_def strike_event_in_window_def)

lemma compacted_record_run: "c \<le> day \<Longrightarrow> record_run day hk ok error (compacted c f) = compacted c (record_run day hk ok error f)"
proof -
  assume c: "c \<le> day"
  have e: "emit (run_event day hk ok error) (compacted c f) = compacted c (emit (run_event day hk ok error) f)"
    using c by (intro compacted_emit) (simp add: run_event_def)
  show ?thesis unfolding record_run_def Let_def compacted_fields kept_observation [OF c] e
    by (simp add: compacted_def)
qed

lemma compacted_retract:
  assumes "c \<le> day"
  shows "retract_if_recovered day hk kind prior (compacted c f) = compacted c (retract_if_recovered day hk kind prior f)"
proof -
  obtain st' lc where r: "retract_eviction (state_of (df_states f) hk) (df_log f) day = (st', lc)" by fastforce
  have "ev_day lc = day" using r by (auto simp: retract_eviction_def Let_def)
  then have e: "emit lc (compacted c f) = compacted c (emit lc f)" using assms by (intro compacted_emit) simp
  show ?thesis unfolding retract_if_recovered_def Let_def compacted_fields kept_retract r prod.case e
    by (simp add: compacted_def)
qed

lemma compacted_updates:
  "compacted c f\<lparr>df_states := s\<rparr> = compacted c (f\<lparr>df_states := s\<rparr>)" "compacted c f\<lparr>df_withheld := w\<rparr> = compacted c (f\<lparr>df_withheld := w\<rparr>)"
  "compacted c f\<lparr>df_evicted := w\<rparr> = compacted c (f\<lparr>df_evicted := w\<rparr>)" "compacted c f\<lparr>df_reinstated := w\<rparr> = compacted c (f\<lparr>df_reinstated := w\<rparr>)"
  by (simp_all add: compacted_def)

lemma compacted_enforce:
  assumes "c \<le> day - (max 1 (cp_window_days P) - 1)"
  shows "enforce P known day hk kind (compacted c f) = compacted c (enforce P known day hk kind f)"
proof -
  have c: "c \<le> day" using assms by simp
  let ?st = "state_of (df_states f) hk"
  obtain st' lc where ev: "\<And>n. evict ?st day P (Some n) = (st', lc n)" "\<And>n. ev_day (lc n) = day"
    by (simp add: evict_def Let_def)
  obtain states' ev where re: "reinstate (AList.update hk ?st (df_states f)) hk day = (states', ev)" by fastforce
  have re_day: "e = ev_day l" if "ev = Some l" "e = day" for l e
    using re that by (auto simp: reinstate_def split: option.splits if_splits)
  have emits: "c \<le> ev_day x \<Longrightarrow> emit x (compacted c g) = compacted c (emit x g)" for x g by (rule compacted_emit)
  show ?thesis
    unfolding enforce_def Let_def compacted_fields kept_strikes [OF assms] compacted_updates
    using c re_day by (auto simp: ev re emits compacted_updates split: option.splits)
qed

lemma compacted_observe_run:
  assumes "c \<le> day - (max 1 (cp_window_days P) - 1)"
  shows "observe_run P known day (compacted c f) run = compacted c (observe_run P known day f run)"
proof -
  have c: "c \<le> day" using assms by simp
  obtain hk ok error where run: "run = (hk, ok, error)" by (cases run)
  show ?thesis
    unfolding observe_run_def run prod.case Let_def compacted_fields kept_observation [OF c] compacted_record_run [OF c]
      compacted_retract [OF c] compacted_enforce [OF assms] ..
qed

lemma compacted_runs:
  assumes "c \<le> day - (max 1 (cp_window_days P) - 1)"
  shows "foldl (observe_run P known day) (compacted c f) runs = compacted c (foldl (observe_run P known day) f runs)"
  by (induction runs arbitrary: f) (simp_all add: compacted_observe_run [OF assms])

lemma load_whole_log: "load_strike_events L None None = (case strike_log L of None \<Rightarrow> [] | Some es \<Rightarrow> es)"
  by (auto simp: load_strike_events_def strike_event_in_window_def split: option.splits)

lemma compact_log: "load_strike_events (fst (compact_strike_events L as_of w)) None None = kept_events (as_of - (w - 1)) (load_strike_events L None None)"
proof (cases "strike_log L")
  case (Some es)
  let ?kept = "kept_events (as_of - (w - 1)) es"
  have "length ?kept = length es \<Longrightarrow> ?kept = es" by (metis filter_True length_filter_less less_irrefl)
  then show ?thesis
    by (cases "length ?kept = length es") (simp_all add: load_whole_log compact_strike_events_def Some Let_def)
qed (simp add: load_whole_log compact_strike_events_def)

lemma startswith_path: "startswith (hk @ ''.jsonl'') ''_'' \<longleftrightarrow> startswith hk ''_''"
  by (cases hk) (simp_all add: startswith_def)

lemma read_hotkey_append:
  assumes old: "read_hotkey L cutoff hk = Inr eps"
    and es: "\<forall>e \<in> set es. safe_hotkey (we_miner e) \<and> valid_day (we_entered_on e) \<and>
      (\<forall>c \<in> set (cancellation_log L). cn_hotkey c = we_miner e \<longrightarrow> cn_day c \<noteq> isoformat (we_entered_on e))"
    and F: "map_of F (hk @ ''.jsonl'') = (if filter (\<lambda>e. we_miner e = hk) es = [] then map_of (entry_files L) (hk @ ''.jsonl'')
      else Some ((case map_of (entry_files L) (hk @ ''.jsonl'') of None \<Rightarrow> [] | Some ls \<Rightarrow> ls) @
        map entry_line (filter (\<lambda>e. we_miner e = hk) es)))"
  shows "read_hotkey (L\<lparr>made := True\<rparr>\<lparr>entry_files := F\<rparr>) cutoff hk = Inr (eps @ (if startswith hk ''_'' then []
      else map episode_of (filter (\<lambda>e. \<not> we_entered_on e < cutoff) (filter (\<lambda>e. we_miner e = hk) es))))"
proof (cases "startswith hk ''_''")
  case True
  then show ?thesis using old by (simp add: read_hotkey_def is_entry_path startswith_path)
next
  case False
  let ?new = "filter (\<lambda>e. we_miner e = hk) es"
  let ?ls = "case map_of (entry_files L) (hk @ ''.jsonl'') of None \<Rightarrow> [] | Some ls \<Rightarrow> ls"
  have cs: "cancels_of (L\<lparr>made := True\<rparr>) hk = cancels_of L hk"
    by (simp add: cancels_of_def load_cancellations_def)
  have "read_file cutoff (cancels_of L hk) ?ls = Inr eps"
    using old False by (simp add: read_hotkey_def is_entry_path startswith_path read_file_def split: option.splits)
  moreover have "\<forall>e \<in> set ?new. valid_day (we_entered_on e) \<and> isoformat (we_entered_on e) \<notin> set (map cn_day (cancels_of L hk))"
    using es by (fastforce simp: cancels_of_def load_cancellations_def)
  ultimately have "read_file cutoff (cancels_of L hk) (?ls @ map entry_line ?new) = Inr (eps @ map episode_of (filter (\<lambda>e. \<not> we_entered_on e < cutoff) ?new))"
    by (rule read_file_append)
  moreover have "read_hotkey (L\<lparr>made := True\<rparr>\<lparr>entry_files := F\<rparr>) cutoff hk = read_file cutoff (cancels_of L hk) (?ls @ map entry_line ?new)"
    using False by (simp add: read_hotkey_def is_entry_path startswith_path F cs read_file_def split: option.splits)
  ultimately show ?thesis using False by simp
qed

section \<open>Properties\<close>

text \<open>What is appended is read back: after a day's entries of safe hotkeys are appended (none on a day
  with a charge cancellation for its hotkey), every hotkey's list of in-window entries is its old list
  followed by its new in-window entries in order, and nobody else's changes; the one exception is a
  hotkey that starts with an underscore, whose file no reader opens.\<close>

theorem sl_append_load:
  assumes ok: "ledger_ok L" and old: "load_entries L as_of w = Inr D"
    and es: "\<forall>e \<in> set es. safe_hotkey (we_miner e) \<and> valid_day (we_entered_on e) \<and>
      (\<forall>c \<in> set (cancellation_log L). cn_hotkey c = we_miner e \<longrightarrow> cn_day c \<noteq> isoformat (we_entered_on e))"
  shows "\<exists>L' D'. append_entries L es = Inr (L', length es) \<and> ledger_ok L' \<and> load_entries L' as_of w = Inr D' \<and>
    (\<forall>hk. entries_of D' hk = entries_of D hk @ (if startswith hk ''_'' then []
       else map episode_of (filter (\<lambda>e. we_miner e = hk \<and> as_of - w \<le> we_entered_on e) es)))"
proof -
  let ?L = "L\<lparr>made := True\<rparr>" and ?new = "\<lambda>hk. filter (\<lambda>e. we_miner e = hk) es"
  have d: "dict_ok (entry_files ?L)" using ok by (simp add: ledger_ok_def)
  have "safe_hotkey m" if m: "m \<in> set (keys (group_by_miner es))" for m
  proof -
    obtain xs where "map_of (group_by_miner es) m = Some xs" using m unfolding set_map map_of_keys_iff by blast
    then have "?new m \<noteq> []" by (auto simp: group_by_miner_map_of Let_def split: if_splits)
    then show ?thesis using es by (auto simp: filter_empty_conv)
  qed
  then obtain F where F: "append_miners ?L (group_by_miner es) = Inr (?L\<lparr>entry_files := F\<rparr>)" "dict_ok F"
    "\<And>m. map_of F (m @ ''.jsonl'') = (case map_of (group_by_miner es) m of None \<Rightarrow> map_of (entry_files ?L) (m @ ''.jsonl'')
       | Some es \<Rightarrow> Some ((case map_of (entry_files ?L) (m @ ''.jsonl'') of None \<Rightarrow> [] | Some ls \<Rightarrow> ls) @ map entry_line es))"
    using append_miners_ok [OF _ group_by_miner_ok d] by blast
  let ?L' = "?L\<lparr>entry_files := F\<rparr>"
  have ok': "ledger_ok ?L'" using F(2) by (simp add: ledger_ok_def)
  have files: "map_of F (hk @ ''.jsonl'') = (if ?new hk = [] then map_of (entry_files L) (hk @ ''.jsonl'')
      else Some ((case map_of (entry_files L) (hk @ ''.jsonl'') of None \<Rightarrow> [] | Some ls \<Rightarrow> ls) @ map entry_line (?new hk)))" for hk
    unfolding F(3) by (simp add: group_by_miner_map_of Let_def)
  have read: "read_hotkey ?L' (as_of - w) hk = Inr (entries_of D hk @ (if startswith hk ''_'' then []
      else map episode_of (filter (\<lambda>e. \<not> we_entered_on e < as_of - w) (?new hk))))" for hk
    using read_hotkey_append [OF load_entries_iff(2) [OF ok old, of hk] es files] .
  then obtain D' where D': "load_entries ?L' as_of w = Inr D'" using load_entries_iff(1) [OF ok'] by blast
  have "entries_of D' hk = entries_of D hk @ (if startswith hk ''_'' then []
      else map episode_of (filter (\<lambda>e. \<not> we_entered_on e < as_of - w) (?new hk)))" for hk
    using load_entries_iff(2) [OF ok' D', of hk] unfolding read by simp
  moreover have "append_entries L es = Inr (?L', length es)" by (simp add: append_entries_lines F(1))
  ultimately show ?thesis using ok' D' by (auto simp: not_less conj_commute)
qed

definition sample_entry :: weighted_entry where
  "sample_entry = \<lparr>we_miner = ''hk'', we_score = 1 / 2, we_weight = 1 / 4, we_entered_on = 738000, we_episode_id = ''e'', we_horizon_days = 7\<rparr>"

lemma empty_ledger_ok: "ledger_ok empty_ledger" "load_entries empty_ledger as_of w = Inr []"
  by (simp_all add: ledger_ok_def empty_ledger_def load_entries_def)

theorem sl_append_load_witness:
  "\<exists>L' D'. append_entries empty_ledger [sample_entry] = Inr (L', 1) \<and> load_entries L' 738001 35 = Inr D' \<and>
     entries_of D' ''hk'' = [episode_of sample_entry] \<and> entries_of D' ''other'' = []"
proof -
  have "\<exists>L' D'. append_entries empty_ledger [sample_entry] = Inr (L', length [sample_entry]) \<and> ledger_ok L' \<and> load_entries L' 738001 35 = Inr D' \<and>
    (\<forall>hk. entries_of D' hk = entries_of [] hk @ (if startswith hk ''_'' then []
       else map episode_of (filter (\<lambda>e. we_miner e = hk \<and> 738001 - 35 \<le> we_entered_on e) [sample_entry])))"
    by (rule sl_append_load [OF empty_ledger_ok])
      (simp add: sample_entry_def safe_hotkey_def safe_char_def valid_day_def empty_ledger_def)
  then obtain L' D' where L': "append_entries empty_ledger [sample_entry] = Inr (L', length [sample_entry])" "load_entries L' 738001 35 = Inr D'"
    and D': "\<And>hk. entries_of D' hk = entries_of [] hk @ (if startswith hk ''_'' then []
       else map episode_of (filter (\<lambda>e. we_miner e = hk \<and> 738001 - 35 \<le> we_entered_on e) [sample_entry]))" by blast
  show ?thesis using L' D' [of "''hk''"] D' [of "''other''"]
    by (intro exI [of _ L'] exI [of _ D']) (simp add: sample_entry_def entries_of_def startswith_def)
qed

text \<open>Compaction is invisible to the standing: after the entry files are compacted at a day and
  window, every later load whose window starts no earlier succeeds exactly when it did before, and
  gives every hotkey the same entries.\<close>

theorem sl_compact_load:
  assumes "ledger_ok L" and "compact L as_of w = Inr (L', n)" and "as_of - w \<le> as_of' - w'"
  shows "case (load_entries L as_of' w', load_entries L' as_of' w') of
      (Inr D, Inr D') \<Rightarrow> \<forall>hk. entries_of D' hk = entries_of D hk
    | (Inl _, Inl _) \<Rightarrow> True
    | _ \<Rightarrow> False"
proof -
  note c = compact_reads [OF assms]
  have "(\<exists>D. load_entries L as_of' w' = Inr D) \<longleftrightarrow> (\<exists>D'. load_entries L' as_of' w' = Inr D')"
    unfolding load_entries_iff(1) [OF assms(1)] load_entries_iff(1) [OF c(1)] c(2) ..
  note both = this
  have same: "entries_of D' hk = entries_of D hk" if "load_entries L as_of' w' = Inr D" "load_entries L' as_of' w' = Inr D'" for D D' hk
    using load_entries_iff(2) [OF assms(1) that(1), of hk] load_entries_iff(2) [OF c(1) that(2), of hk] c(2) by simp
  show ?thesis
  proof (cases "load_entries L as_of' w'")
    case (Inl e)
    then obtain e' where "load_entries L' as_of' w' = Inl e'" using both by (cases "load_entries L' as_of' w'") simp_all
    then show ?thesis unfolding Inl by simp
  next
    case (Inr D)
    then obtain D' where D': "load_entries L' as_of' w' = Inr D'" using both by blast
    show ?thesis unfolding Inr D' using same [OF Inr D'] by simp
  qed
qed

definition old_and_new :: ledger where
  "old_and_new = empty_ledger\<lparr>made := True, entry_files :=
     [(''hk.jsonl'', map entry_line [sample_entry\<lparr>we_entered_on := 737000\<rparr>, sample_entry])]\<rparr>"

lemma compact_old_and_new:
  "compact old_and_new 738000 35 = Inr (old_and_new\<lparr>entry_files := [(''hk.jsonl'', [entry_line sample_entry])]\<rparr>, 1)"
proof -
  have v: "valid_day 737000" "valid_day 738000" by (simp_all add: valid_day_def)
  show ?thesis
    by (simp add: compact_def old_and_new_def entry_listing_def is_entry_file_def startswith_def compact_file_def
        entry_line_read v sample_entry_def empty_ledger_def)
qed

theorem sl_compact_load_witness:
  "case (load_entries old_and_new 738001 35, load_entries (old_and_new\<lparr>entry_files := [(''hk.jsonl'', [entry_line sample_entry])]\<rparr>) 738001 35) of
      (Inr D, Inr D') \<Rightarrow> \<forall>hk. entries_of D' hk = entries_of D hk
    | (Inl _, Inl _) \<Rightarrow> True
    | _ \<Rightarrow> False"
  by (rule sl_compact_load [OF _ compact_old_and_new]) (simp_all add: ledger_ok_def old_and_new_def)

text \<open>The anchor of the collateral ladder is the first scored day of the ledger, "deliberately
  unwindowed"; compaction moves it.\<close>

lemma first_scored_day_moves:
  "first_scored_day old_and_new = Inr (Some 737000)"
  "first_scored_day (old_and_new\<lparr>entry_files := [(''hk.jsonl'', [entry_line sample_entry])]\<rparr>) = Inr (Some 738000)"
proof -
  have v: "valid_day 737000" "valid_day 738000" by (simp_all add: valid_day_def)
  show "first_scored_day old_and_new = Inr (Some 737000)"
    "first_scored_day (old_and_new\<lparr>entry_files := [(''hk.jsonl'', [entry_line sample_entry])]\<rparr>) = Inr (Some 738000)"
    by (simp_all add: first_scored_day_def old_and_new_def entry_listing_def is_entry_file_def startswith_def
        earliest_day_def entry_line_read v sample_entry_def)
qed

text \<open>State survives a restart: what a run saves of the promotion machine and of the liveness
  machine is what the next run loads, whichever is written last.\<close>

theorem sl_states_roundtrip:
  assumes "promotion_days_ok st" and "dict_ok states" and "\<forall>(hk, es) \<in> set states. eviction_days_ok es"
  shows "load_promotion_state (save_eviction_states (save_promotion_state L st) states) = Inr st \<and>
    load_eviction_states (save_promotion_state (save_eviction_states L states) st) = Inr (sort_key fst states)"
proof -
  have "load_promotion_state (save_eviction_states L' states) = load_promotion_state L'" for L'
    by (simp add: load_promotion_state_def save_eviction_states_def)
  moreover have "load_eviction_states (save_promotion_state L' st) = load_eviction_states L'" for L'
    by (simp add: load_eviction_states_def save_promotion_state_def)
  ultimately show ?thesis using promotion_roundtrip [OF assms(1)] eviction_roundtrip [OF assms(2,3)] by simp
qed

theorem sl_states_roundtrip_witness:
  "load_promotion_state (save_eviction_states (save_promotion_state empty_ledger
      (cold_start\<lparr>champion := Some ''a'', last_observed := Some 738000\<rparr>)) [(''b'', fresh_state ''b'')])
    = Inr (cold_start\<lparr>champion := Some ''a'', last_observed := Some 738000\<rparr>)"
  using sl_states_roundtrip [of "cold_start\<lparr>champion := Some ''a'', last_observed := Some 738000\<rparr>" "[(''b'', fresh_state ''b'')]" empty_ledger]
  by (simp add: promotion_days_ok_def cold_start_def eviction_days_ok_def fresh_state_def valid_day_def)

text \<open>Compaction of the liveness log changes no verdict: folding a day over the compacted log gives
  the same states and emits the same events as over the full log, and the log it leaves is the
  compacted one, for every day whose strike window the compaction kept.\<close>

theorem sl_compaction_invisible:
  assumes "as_of - (w - 1) \<le> day - (max 1 (cp_window_days P) - 1)"
  shows "cf_observe_day states (load_strike_events (fst (compact_strike_events L as_of w)) None None) day runs P
    = compacted (as_of - (w - 1)) (cf_observe_day states (load_strike_events L None None) day runs P)"
proof -
  have "start_fold states (kept_events c es) = compacted c (start_fold states es)" for c es
    by (simp add: start_fold_def compacted_def)
  then show ?thesis unfolding cf_observe_day_def compact_log by (simp add: compacted_runs [OF assms])
qed

theorem sl_compaction_invisible_witness:
  "df_states (cf_observe_day [] (load_strike_events (fst (compact_strike_events
      (append_strike_events empty_ledger [run_event 737000 ''a'' False None, run_event 738000 ''a'' False None]) 738000 35)) None None)
      738001 [(''a'', True, None)] default_chronic_params)
    = df_states (cf_observe_day [] (load_strike_events
      (append_strike_events empty_ledger [run_event 737000 ''a'' False None, run_event 738000 ''a'' False None]) None None)
      738001 [(''a'', True, None)] default_chronic_params)"
  using sl_compaction_invisible [of 738000 35 738001 default_chronic_params "[]"
      "append_strike_events empty_ledger [run_event 737000 ''a'' False None, run_event 738000 ''a'' False None]" "[(''a'', True, None)]"]
  by (simp add: default_chronic_params_def)

end
