(* ===== verification/WeightCurve.thy ===== *)
theory WeightCurve
  imports Prelude Interfaces PyFloat
begin

text \<open>
  The emission curve (\<open>hope/scoring/weight_curve.py\<close>): standings to a weight vector. The
  \<open>max_earners\<close> best standings at or above the threshold take the published shares, rescaled by
  their sum; everybody else takes exactly 0. Shown: the vector is well formed and sums to 1 up to
  rounding, it pays the better rank no less, and it does not depend on the order in which the
  standings are listed.
\<close>

section \<open>The curve\<close>

record curve_params =
  score_threshold :: float
  top_share :: float
  second_share :: float
  third_share :: float
  tail_decay :: float
  max_earners :: int

definition default_curve_params :: curve_params where
  "default_curve_params = \<lparr>score_threshold = 0, top_share = 1 / 2, second_share = 1 / 4,
     third_share = fl (1 / 10), tail_decay = 1 / 2, max_earners = 20\<rparr>"

text \<open>\<open>xs[:n]\<close>.\<close>

definition py_prefix :: "int \<Rightarrow> 'a list \<Rightarrow> 'a list" where
  "py_prefix n xs = take (nat (if n < 0 then n + int (length xs) else n)) xs"

type_synonym standings = "(hotkey, float option) dict"

definition curve_key :: "(hotkey, int) dict \<Rightarrow> hotkey \<times> float \<Rightarrow> float \<times> int inf_default \<times> hotkey" where
  "curve_key precedence kv = (case kv of (m, s) \<Rightarrow> (- s, get_or_inf precedence m, m))"

definition above_threshold :: "curve_params \<Rightarrow> standings \<Rightarrow> (hotkey \<times> float) list" where
  "above_threshold params standings =
     concat (map (\<lambda>(m, s). case s of None \<Rightarrow> [] | Some x \<Rightarrow> if score_threshold params \<le> x then [(m, x)] else [])
       standings)"

definition eligible :: "curve_params \<Rightarrow> standings \<Rightarrow> (hotkey, int) dict \<Rightarrow> (hotkey \<times> float) list" where
  "eligible params standings precedence =
     py_prefix (max_earners params) (sort_key (curve_key precedence) (above_threshold params standings))"

definition raw_share :: "curve_params \<Rightarrow> float list \<Rightarrow> nat \<Rightarrow> float" where
  "raw_share params shares rank =
     (if rank = 0 then top_share params
      else if rank = 1 then second_share params
      else if rank = 2 then third_share params
      else fmul (last shares) (tail_decay params))"

definition raw_shares :: "curve_params \<Rightarrow> nat \<Rightarrow> float list" where
  "raw_shares params n = foldl (\<lambda>shares rank. shares @ [raw_share params shares rank]) [] [0..<n]"

definition curve_weights ::
    "standings \<Rightarrow> curve_params \<Rightarrow> (hotkey, int) dict \<Rightarrow> py_error + (hotkey, float) dict" where
  "curve_weights standings params precedence =
     (let el = eligible params standings precedence;
          zeros = map (\<lambda>(m, s). (m, 0)) standings
      in if el = [] then Inr zeros
         else
           let shares = raw_shares params (length el);
               total = fsum shares
           in if total = 0 then Inl ZeroDivisionError
              else Inr (foldl (\<lambda>w (e, share). AList.update (fst e) (fdiv share total) w) zeros (zip el shares)))"

definition earning_set :: "standings \<Rightarrow> curve_params \<Rightarrow> py_error + hotkey list" where
  "earning_set standings params =
     map_sum id (\<lambda>w. map fst (filter (\<lambda>(m, v). 0 < v) (sort_key (\<lambda>(m, v). - v) w)))
       (curve_weights standings params [])"

section \<open>Ranking\<close>

interpretation curve: ranking "curve_key precedence" for precedence
  by unfold_locales (auto simp: curve_key_def split: prod.splits)

lemma above_threshold_in:
  "(m, x) \<in> set (above_threshold params standings) \<longleftrightarrow> (m, Some x) \<in> set standings \<and> score_threshold params \<le> x"
  unfolding above_threshold_def by (force split: option.splits if_splits)

lemma above_threshold_keys:
  "dict_ok standings \<Longrightarrow> distinct (map fst (above_threshold params standings))"
proof (induction standings)
  case (Cons p standings)
  obtain m s where p: "p = (m, s)" by (cases p)
  have "m \<notin> fst ` set (above_threshold params standings)"
    using Cons.prems above_threshold_in [of m _ params standings] by (force simp: p)
  moreover have "above_threshold params (p # standings) =
      (case s of None \<Rightarrow> [] | Some x \<Rightarrow> if score_threshold params \<le> x then [(m, x)] else [])
        @ above_threshold params standings"
    by (simp add: above_threshold_def p)
  ultimately show ?case using Cons by (auto split: option.splits)
qed (simp add: above_threshold_def)

lemma mset_above_threshold:
  "mset xs = mset ys \<Longrightarrow> mset (above_threshold params xs) = mset (above_threshold params ys)"
proof -
  have "mset (above_threshold params zs) = \<Sum>\<^sub># (image_mset (\<lambda>(m, s). case s of None \<Rightarrow> {#}
      | Some x \<Rightarrow> if score_threshold params \<le> x then {#(m, x)#} else {#}) (mset zs))" for zs
    by (induction zs) (auto simp: above_threshold_def split: option.splits)
  then show "mset xs = mset ys \<Longrightarrow> ?thesis" by simp
qed

lemma eligible_prefix:
  obtains k where "eligible params standings precedence =
    take k (sort_key (curve_key precedence) (above_threshold params standings))"
  by (auto simp: eligible_def py_prefix_def)

lemma eligible_in:
  "(m, x) \<in> set (eligible params standings precedence) \<Longrightarrow> (m, Some x) \<in> set standings \<and> score_threshold params \<le> x"
  using eligible_prefix [of params standings precedence] set_take_subset above_threshold_in
  by (metis in_set_takeD set_sort)

lemma eligible_distinct:
  assumes "dict_ok standings"
  shows "distinct (map fst (eligible params standings precedence))"
proof -
  obtain k where k: "eligible params standings precedence =
    take k (sort_key (curve_key precedence) (above_threshold params standings))" by (rule eligible_prefix)
  have "distinct (map fst (sort_key (curve_key precedence) (above_threshold params standings)))"
    using assms by (intro dict_ok_sort above_threshold_keys)
  then show ?thesis by (simp add: k take_map [symmetric])
qed

lemma eligible_sorted: "sorted (map (curve_key precedence) (eligible params standings precedence))"
proof -
  obtain k where k: "eligible params standings precedence =
    take k (sort_key (curve_key precedence) (above_threshold params standings))" by (rule eligible_prefix)
  show ?thesis unfolding k take_map [symmetric] by (rule sorted_wrt_take) simp
qed

lemma eligible_length: "0 \<le> max_earners params \<Longrightarrow> int (length (eligible params standings precedence)) \<le> max_earners params"
  by (auto simp: eligible_def py_prefix_def)

text \<open>Whoever qualifies and is not seated ranks behind everybody who is.\<close>

lemma eligible_first:
  assumes "e \<in> set (eligible params standings precedence)" and "(m, x) \<in> set (above_threshold params standings)"
    and "(m, x) \<notin> set (eligible params standings precedence)"
  shows "curve_key precedence e \<le> curve_key precedence (m, x)"
proof -
  obtain k where k: "eligible params standings precedence =
    take k (sort_key (curve_key precedence) (above_threshold params standings))" by (rule eligible_prefix)
  have "(m, x) \<in> set (sort_key (curve_key precedence) (above_threshold params standings))"
    using assms(2) by simp
  then have "(m, x) \<in> set (drop k (sort_key (curve_key precedence) (above_threshold params standings)))"
    using assms(3) unfolding k by (metis Un_iff append_take_drop_id set_append)
  then show ?thesis using curve.top_beats_rest assms(1) unfolding k by blast
qed

section \<open>Shares\<close>

definition curve_ok :: "curve_params \<Rightarrow> bool" where
  "curve_ok params \<longleftrightarrow> is_float (top_share params) \<and> is_float (second_share params) \<and>
     is_float (third_share params) \<and> 0 \<le> third_share params \<and> third_share params \<le> second_share params \<and>
     second_share params \<le> top_share params \<and> 0 < top_share params \<and>
     0 \<le> tail_decay params \<and> tail_decay params \<le> 1 \<and> 0 \<le> max_earners params \<and> max_earners params \<le> 1024"

lemma default_curve_ok [simp]: "curve_ok default_curve_params"
proof -
  have "is_float (1 / 2)" "is_float (1 / 4)" using is_float_div [of 1 1] is_float_div [of 1 2] by simp_all
  moreover have "0 \<le> fl (1 / 10)" by (rule fl.rnd_nonneg) simp
  moreover have "fl (1 / 10) \<le> 1 / 4"
    using fl_mono [of "1 / 10" "1 / 4"] \<open>is_float (1 / 4)\<close> by (simp add: is_float_def)
  ultimately show ?thesis by (simp add: curve_ok_def default_curve_params_def is_float_fl)
qed

lemma raw_shares_Suc: "raw_shares params (Suc n) = raw_shares params n @ [raw_share params (raw_shares params n) n]"
  by (simp add: raw_shares_def)

lemma raw_shares_0 [simp]: "raw_shares params 0 = []"
  by (simp add: raw_shares_def)

lemma raw_shares_length [simp]: "length (raw_shares params n) = n"
  by (induction n) (simp_all add: raw_shares_Suc)

lemma raw_shares_take: "m \<le> n \<Longrightarrow> take m (raw_shares params n) = raw_shares params m"
  by (induction n) (auto simp: raw_shares_Suc le_Suc_eq)

lemma decayed_share: "is_float x \<Longrightarrow> 0 \<le> x \<Longrightarrow> 0 \<le> d \<Longrightarrow> d \<le> 1 \<Longrightarrow> 0 \<le> fmul x d \<and> fmul x d \<le> x"
  using fl.scale_le [of x d] by (auto simp: fmul_def is_float_def intro: fl.rnd_nonneg)

lemma last_least: "sorted_wrt (\<ge>) xs \<Longrightarrow> (s::float) \<in> set xs \<Longrightarrow> last xs \<le> s"
  by (induction xs) auto

lemma raw_shares_ok:
  assumes "curve_ok params"
  shows "(\<forall>s \<in> set (raw_shares params n). is_float s \<and> 0 \<le> s) \<and> sorted_wrt (\<ge>) (raw_shares params n)"
proof (induction n)
  case (Suc n)
  let ?rs = "raw_shares params n"
  have next_le: "is_float (raw_share params ?rs n) \<and> 0 \<le> raw_share params ?rs n \<and>
      (n \<noteq> 0 \<longrightarrow> raw_share params ?rs n \<le> last ?rs)"
  proof -
    consider "n = 0" | "n = 1" | "n = 2" | m where "n = Suc m" "2 \<le> m" by (cases n; force)
    then show ?thesis
    proof cases
      case 4
      then have "?rs \<noteq> []" by (simp add: raw_shares_Suc)
      then have "is_float (last ?rs) \<and> 0 \<le> last ?rs" using Suc last_in_set by blast
      then show ?thesis using 4 assms decayed_share by (simp add: raw_share_def curve_ok_def)
    qed (use assms in \<open>simp_all add: raw_share_def curve_ok_def raw_shares_Suc numeral_2_eq_2\<close>)
  qed
  have "raw_share params ?rs n \<le> s" if s: "s \<in> set ?rs" for s
  proof -
    have "last ?rs \<le> s" using Suc s last_least by blast
    moreover have "n \<noteq> 0" using s by (cases n) auto
    ultimately show ?thesis using next_le by linarith
  qed
  then show ?case using Suc next_le by (auto simp: raw_shares_Suc sorted_wrt_append)
qed simp

lemma raw_shares_total:
  assumes "curve_ok params" and "0 < n" and "n \<le> 1024"
  shows "0 < fsum (raw_shares params n)" and "0 < sum_list (raw_shares params n)"
proof -
  note ok = raw_shares_ok [OF assms(1), of n]
  obtain t rest where rs: "raw_shares params n = t # rest"
    using assms(2) raw_shares_length [of params n] by (cases "raw_shares params n") simp_all
  have "t = top_share params"
    using raw_shares_take [of 1 n params] assms(2) by (simp add: rs raw_shares_Suc raw_share_def)
  moreover have "0 \<le> sum_list rest"
    using ok by (intro sum_list_nonneg) (simp add: rs)
  ultimately have "top_share params \<le> sum_list (raw_shares params n)" by (simp add: rs)
  then show pos: "0 < sum_list (raw_shares params n)" using assms(1) by (simp add: curve_ok_def)
  then show "0 < fsum (raw_shares params n)"
    using ok assms(3) by (intro fsum_positive) simp_all
qed

section \<open>The vector\<close>

definition pay :: "(hotkey \<times> float) list \<Rightarrow> float list \<Rightarrow> float \<Rightarrow> (hotkey, float) dict \<Rightarrow> (hotkey, float) dict" where
  "pay es shares denom w = foldl (\<lambda>w (e, share). AList.update (fst e) (fdiv share denom) w) w (zip es shares)"

lemma pay_Cons: "pay (e # es) (s # ss) denom w = pay es ss denom (AList.update (fst e) (fdiv s denom) w)"
  by (simp add: pay_def)

lemma pay_others: "m \<notin> fst ` set es \<Longrightarrow> map_of (pay es shares denom w) m = map_of w m"
proof (induction es arbitrary: shares w)
  case (Cons e es)
  then show ?case by (cases shares) (simp_all add: pay_Cons map_of_update, simp add: pay_def)
qed (simp add: pay_def)

lemma pay_nth:
  "distinct (map fst es) \<Longrightarrow> length shares = length es \<Longrightarrow> i < length es \<Longrightarrow>
     map_of (pay es shares denom w) (fst (es ! i)) = Some (fdiv (shares ! i) denom)"
proof (induction es arbitrary: shares w i)
  case (Cons e es)
  then obtain s ss where shares: "shares = s # ss" by (cases shares) auto
  show ?case
  proof (cases i)
    case 0
    then show ?thesis using Cons.prems by (simp add: shares pay_Cons pay_others map_of_update)
  next
    case (Suc j)
    then show ?thesis using Cons by (simp add: shares pay_Cons)
  qed
qed simp

lemma pay_keys: "fst ` set es \<subseteq> fst ` set w \<Longrightarrow> keys (pay es shares denom w) = keys w"
proof (induction es arbitrary: shares w)
  case (Cons e es)
  then show ?case
    by (cases shares) (simp_all add: pay_Cons keys_update subset_insertI2, simp add: pay_def)
qed (simp add: pay_def)

lemma sum_update:
  "map_of w k = Some 0 \<Longrightarrow> sum_list (map snd (AList.update k v w)) = v + sum_list (map snd (w :: (hotkey, float) dict))"
  by (induction w) auto

lemma pay_sum:
  "distinct (map fst es) \<Longrightarrow> length shares = length es \<Longrightarrow> \<forall>e \<in> set es. map_of w (fst e) = Some 0 \<Longrightarrow>
     sum_list (map snd (pay es shares denom w)) = sum_list (map (\<lambda>s. fdiv s denom) shares) + sum_list (map snd w)"
proof (induction es arbitrary: shares w)
  case (Cons e es)
  then obtain s ss where shares: "shares = s # ss" "length ss = length es" by (cases shares) auto
  have "\<forall>e' \<in> set es. map_of (AList.update (fst e) (fdiv s denom) w) (fst e') = Some 0"
  proof
    fix e' assume e': "e' \<in> set es"
    then have "fst e' \<noteq> fst e" using Cons.prems(1) by (simp add: image_iff) metis
    then show "map_of (AList.update (fst e) (fdiv s denom) w) (fst e') = Some 0"
      using Cons.prems(3) e' by (simp add: map_of_update)
  qed
  then show ?case using Cons shares sum_update [of w "fst e" "fdiv s denom"] by (simp add: pay_Cons)
qed (simp add: pay_def)

definition zero_weights :: "standings \<Rightarrow> (hotkey, float) dict" where
  "zero_weights standings = map (\<lambda>(m, s). (m, 0)) standings"

lemma zero_weights_map_of: "map_of (zero_weights standings) m = (if m \<in> fst ` set standings then Some 0 else None)"
  unfolding zero_weights_def by (induction standings) auto

lemma zero_weights_keys [simp]: "keys (zero_weights standings) = keys standings"
  by (auto simp: zero_weights_def)

lemma zero_weights_sum [simp]: "sum_list (map snd (zero_weights standings)) = 0"
  by (induction standings) (auto simp: zero_weights_def)

definition curve_total :: "curve_params \<Rightarrow> nat \<Rightarrow> float" where
  "curve_total params n = fsum (raw_shares params n)"

text \<open>The vector, one miner at a time.\<close>

lemma curve_weights_spec:
  fixes precedence :: "(hotkey, int) dict"
  assumes "dict_ok standings" and "curve_ok params"
  defines "el \<equiv> eligible params standings precedence"
  obtains w where "curve_weights standings params precedence = Inr w" and "keys w = keys standings"
    and "\<And>i. i < length el \<Longrightarrow> map_of w (fst (el ! i)) =
      Some (fdiv (raw_shares params (length el) ! i) (curve_total params (length el)))"
    and "\<And>m. m \<in> fst ` set standings \<Longrightarrow> m \<notin> fst ` set el \<Longrightarrow> map_of w m = Some 0"
    and "sum_list (map snd w) =
      (if el = [] then 0
       else sum_list (map (\<lambda>s. fdiv s (curve_total params (length el))) (raw_shares params (length el))))"
proof (cases "el = []")
  case True
  have "curve_weights standings params precedence = Inr (zero_weights standings)"
    using True by (simp add: curve_weights_def el_def zero_weights_def)
  then show thesis using that True by (simp add: zero_weights_map_of)
next
  case False
  let ?n = "length el" and ?T = "curve_total params (length el)"
  let ?w = "pay el (raw_shares params ?n) ?T (zero_weights standings)"
  have n: "0 < ?n" "?n \<le> 1024"
    using False eligible_length [of params standings precedence] assms(2) by (auto simp: el_def curve_ok_def)
  then have "0 < ?T" using raw_shares_total(1) assms(2) by (simp add: curve_total_def)
  then have w: "curve_weights standings params precedence = Inr ?w"
    using False by (simp add: curve_weights_def el_def [symmetric] Let_def pay_def curve_total_def zero_weights_def)
  have dist: "distinct (map fst el)" using assms(1) eligible_distinct by (simp add: el_def)
  have sub: "fst ` set el \<subseteq> fst ` set standings" using eligible_in by (force simp: el_def)
  show thesis
  proof (rule that [OF w])
    show "keys ?w = keys standings"
      using pay_keys [of el "zero_weights standings"] sub
      by (metis zero_weights_keys list.set_map)
    show "map_of ?w (fst (el ! i)) = Some (fdiv (raw_shares params ?n ! i) ?T)" if "i < ?n" for i
      using pay_nth [OF dist _ that] by simp
    show "map_of ?w m = Some 0" if "m \<in> fst ` set standings" "m \<notin> fst ` set el" for m
      using pay_others that by (simp add: zero_weights_map_of)
    have "\<forall>e \<in> set el. map_of (zero_weights standings) (fst e) = Some 0"
      using sub by (auto simp: zero_weights_map_of)
    then show "sum_list (map snd ?w) =
      (if el = [] then 0 else sum_list (map (\<lambda>s. fdiv s ?T) (raw_shares params ?n)))"
      using pay_sum [OF dist, of "raw_shares params ?n"] False by simp
  qed
qed

section \<open>Normalisation\<close>

lemma curve_total_error:
  assumes "curve_ok params" and "n \<le> 1024"
  shows "\<bar>curve_total params n - sum_list (raw_shares params n)\<bar> \<le> 1 / 2 ^ 39 * sum_list (raw_shares params n)"
proof -
  note ok = raw_shares_ok [OF assms(1), of n]
  have n: "(of_nat n :: rat) \<le> 1024" using assms(2) by (metis of_nat_le_iff of_nat_numeral)
  then have "12 * u53 * of_nat n \<le> 12 * u53 * 1024" by (intro mult_left_mono) simp_all
  also have "\<dots> \<le> 1 / 2 ^ 39" by (simp add: u53_def)
  finally have "12 * u53 * of_nat n * sum_list (raw_shares params n) \<le> 1 / 2 ^ 39 * sum_list (raw_shares params n)"
    using ok by (intro mult_right_mono sum_list_nonneg) simp_all
  moreover have "\<bar>fsum (raw_shares params n) - sum_list (raw_shares params n)\<bar>
      \<le> 12 * u53 * of_nat n * sum_list (raw_shares params n)"
    using fsum_error [of "raw_shares params n"] ok assms(2) by simp
  ultimately show ?thesis by (simp add: curve_total_def)
qed

lemma near_one:
  assumes "\<bar>t - s\<bar> \<le> e * s" and "0 < s" and "0 \<le> e" "e \<le> 1 / 2"
  shows "\<bar>s / t - 1\<bar> \<le> 2 * (e :: rat)" and "s / 2 \<le> t"
proof -
  have "e * s \<le> 1 / 2 * s" using assms by (intro mult_right_mono) simp_all
  then show t: "s / 2 \<le> t" using abs_le_D2 [OF assms(1)] by simp
  then have "0 < t" using assms(2) by linarith
  then have "s / t - 1 = (s - t) / t" by (simp add: diff_divide_distrib)
  then have "\<bar>s / t - 1\<bar> = \<bar>t - s\<bar> / t"
    using \<open>0 < t\<close> by (simp only: abs_divide abs_minus_commute [of s t] abs_of_pos)
  also have "\<dots> \<le> e * s / t" using assms(1) \<open>0 < t\<close> by (intro divide_right_mono) simp_all
  also have "\<dots> \<le> e * (2 * t) / t" using t assms(3) \<open>0 < t\<close> by (intro divide_right_mono mult_left_mono) simp_all
  finally show "\<bar>s / t - 1\<bar> \<le> 2 * e" using \<open>0 < t\<close> by simp
qed

lemma sum_fdiv_error:
  assumes "\<forall>x \<in> set xs. 0 \<le> x" and "0 < t"
  shows "\<bar>sum_list (map (\<lambda>x. fdiv x t) xs) - sum_list xs / t\<bar>
    \<le> u53 * (sum_list xs / t) + of_nat (length xs) * pow2 (- 1075)"
  using assms(1)
proof (induction xs)
  case (Cons x xs)
  have "0 \<le> x / t" using Cons.prems assms(2) by simp
  then have "\<bar>fdiv x t - x / t\<bar> \<le> u53 * (x / t) + pow2 (- 1075)"
    using fl_error [of "x / t"] unfolding fdiv_def abs_of_nonneg [OF \<open>0 \<le> x / t\<close>] by blast
  moreover have "\<bar>sum_list (map (\<lambda>x. fdiv x t) xs) - sum_list xs / t\<bar>
      \<le> u53 * (sum_list xs / t) + of_nat (length xs) * pow2 (- 1075)"
    using Cons by simp
  moreover have "\<bar>(fdiv x t - x / t) + (sum_list (map (\<lambda>x. fdiv x t) xs) - sum_list xs / t)\<bar>
      \<le> \<bar>fdiv x t - x / t\<bar> + \<bar>sum_list (map (\<lambda>x. fdiv x t) xs) - sum_list xs / t\<bar>"
    by (rule abs_triangle_ineq)
  ultimately show ?case by (simp add: add_divide_distrib distrib_left distrib_right algebra_simps)
qed simp

lemma sum_weights_near_one:
  assumes "curve_ok params" and "0 < n" and "n \<le> 1024"
  shows "\<bar>sum_list (map (\<lambda>s. fdiv s (curve_total params n)) (raw_shares params n)) - 1\<bar> \<le> 1 / 2 ^ 37"
proof -
  let ?xs = "raw_shares params n" and ?T = "curve_total params n"
  have pos: "0 < sum_list ?xs" "0 < ?T" using raw_shares_total [OF assms] by (simp_all add: curve_total_def)
  have near: "\<bar>sum_list ?xs / ?T - 1\<bar> \<le> 2 * (1 / 2 ^ 39)"
    using near_one(1) [OF curve_total_error [OF assms(1,3)] pos(1)] by simp
  then have "\<bar>sum_list ?xs / ?T - 1\<bar> \<le> 1" by (rule order_trans) simp
  then have "sum_list ?xs / ?T \<le> 2" using abs_le_D1 by fastforce
  then have "u53 * (sum_list ?xs / ?T) \<le> u53 * 2" by (intro mult_left_mono) simp_all
  also have "\<dots> \<le> 1 / 2 ^ 40" by (simp add: u53_def)
  finally have r: "u53 * (sum_list ?xs / ?T) \<le> 1 / 2 ^ 40" .
  have "of_nat n * pow2 (- 1075) \<le> 1024 * pow2 (- 1075)"
    using assms(3) by (intro mult_right_mono) (metis of_nat_le_iff of_nat_numeral, simp)
  also have "pow2 (- 1075) \<le> pow2 (- 60)" by (rule pow2_mono) simp
  then have "1024 * pow2 (- 1075) \<le> 1 / 2 ^ 40" by (simp add: pow2_def [of "- 60"])
  finally have tiny: "of_nat n * pow2 (- 1075) \<le> 1 / 2 ^ 40" .
  have err: "\<bar>sum_list (map (\<lambda>s. fdiv s ?T) ?xs) - sum_list ?xs / ?T\<bar>
      \<le> u53 * (sum_list ?xs / ?T) + of_nat n * pow2 (- 1075)"
    using sum_fdiv_error [of ?xs ?T] raw_shares_ok [OF assms(1), of n] pos(2) by simp
  have "\<bar>sum_list (map (\<lambda>s. fdiv s ?T) ?xs) - 1\<bar>
      \<le> \<bar>sum_list (map (\<lambda>s. fdiv s ?T) ?xs) - sum_list ?xs / ?T\<bar> + \<bar>sum_list ?xs / ?T - 1\<bar>"
    by (rule order_trans [OF _ abs_triangle_ineq]) simp
  also have "\<dots> \<le> (1 / 2 ^ 40 + 1 / 2 ^ 40) + 2 * (1 / 2 ^ 39)"
    by (intro add_mono order_trans [OF err] r tiny near)
  also have "\<dots> \<le> 1 / 2 ^ 37" by simp
  finally show ?thesis .
qed

lemma share_weights:
  assumes "curve_ok params" and "n \<le> 1024" and "i \<le> j" and "j < n"
  shows "0 \<le> fdiv (raw_shares params n ! j) (curve_total params n)"
    and "fdiv (raw_shares params n ! j) (curve_total params n) \<le> fdiv (raw_shares params n ! i) (curve_total params n)"
proof -
  note ok = raw_shares_ok [OF assms(1), of n]
  have "\<forall>x \<in> set (raw_shares params n). 0 \<le> x" using ok by simp
  then have nonneg: "0 \<le> raw_shares params n ! j" using assms(4) by simp
  have pos: "0 < curve_total params n" using raw_shares_total(1) assms by (simp add: curve_total_def)
  show "0 \<le> fdiv (raw_shares params n ! j) (curve_total params n)"
    unfolding fdiv_def using nonneg pos by (intro fl.rnd_nonneg) simp
  have "raw_shares params n ! j \<le> raw_shares params n ! i"
    using ok assms(3,4) by (cases "i = j") (auto simp: sorted_wrt_iff_nth_less)
  then show "fdiv (raw_shares params n ! j) (curve_total params n) \<le> fdiv (raw_shares params n ! i) (curve_total params n)"
    unfolding fdiv_def using pos by (intro fl_mono divide_right_mono) simp_all
qed

lemma eligible_at_most: "curve_ok params \<Longrightarrow> length (eligible params standings precedence) \<le> 1024"
  using eligible_length [of params standings precedence] by (auto simp: curve_ok_def)

lemma weight_cases:
  assumes "dict_ok standings" and "curve_ok params" and "curve_weights standings params precedence = Inr w"
    and "map_of w m = Some x"
  obtains (unpaid) "x = 0" "m \<in> fst ` set standings" "m \<notin> fst ` set (eligible params standings precedence)"
  | (paid) i where "i < length (eligible params standings precedence)"
      "fst (eligible params standings precedence ! i) = m"
      "x = fdiv (raw_shares params (length (eligible params standings precedence)) ! i)
             (curve_total params (length (eligible params standings precedence)))"
proof -
  let ?el = "eligible params standings precedence"
  obtain w' where "curve_weights standings params precedence = Inr w'" and k: "keys w' = keys standings"
    and nth: "\<And>i. i < length ?el \<Longrightarrow> map_of w' (fst (?el ! i)) =
      Some (fdiv (raw_shares params (length ?el) ! i) (curve_total params (length ?el)))"
    and out: "\<And>m. m \<in> fst ` set standings \<Longrightarrow> m \<notin> fst ` set ?el \<Longrightarrow> map_of w' m = Some 0"
    using curve_weights_spec [OF assms(1,2), of precedence] by metis
  then have w': "w' = w" using assms(3) by simp
  have m: "m \<in> fst ` set standings" using map_of_in_keys [OF assms(4)] k w' by (metis list.set_map)
  show thesis
  proof (cases "m \<in> fst ` set ?el")
    case True
    then obtain i where "i < length ?el" "fst (?el ! i) = m" by (auto simp: in_set_conv_nth)
    then show thesis using nth assms(4) w' paid by force
  next
    case False
    then show thesis using out [OF m] assms(4) w' m unpaid by simp
  qed
qed

lemma weights_keys:
  "dict_ok standings \<Longrightarrow> curve_ok params \<Longrightarrow> curve_weights standings params precedence = Inr w \<Longrightarrow> keys w = keys standings"
  using curve_weights_spec [of standings params precedence] by (metis Inr_inject)

section \<open>Properties\<close>

text \<open>C10. The curve is a normalised vector: it never raises, it has an entry for every miner of the
  standings and nobody else, every weight is non-negative, a miner without a standing or below the
  threshold gets exactly 0, at most \<open>max_earners\<close> miners get more, and when anybody qualifies the
  weights add up to 1 within \<open>2 ^ -37\<close> (the exact sum of the rounded weights).\<close>

theorem wc_normalised:
  assumes "dict_ok standings" and "curve_ok params"
  shows "\<exists>w. curve_weights standings params precedence = Inr w \<and> keys w = keys standings \<and>
    (\<forall>m x. map_of w m = Some x \<longrightarrow> 0 \<le> x \<and>
       (x \<noteq> 0 \<longrightarrow> (\<exists>s. map_of standings m = Some (Some s) \<and> score_threshold params \<le> s))) \<and>
    int (card {m. \<exists>x. map_of w m = Some x \<and> x \<noteq> 0}) \<le> max_earners params \<and>
    (eligible params standings precedence \<noteq> [] \<longrightarrow> \<bar>sum_list (map snd w) - 1\<bar> \<le> 1 / 2 ^ 37)"
proof -
  let ?el = "eligible params standings precedence"
  obtain w where w: "curve_weights standings params precedence = Inr w" "keys w = keys standings"
    and sum: "sum_list (map snd w) = (if ?el = [] then 0
       else sum_list (map (\<lambda>s. fdiv s (curve_total params (length ?el))) (raw_shares params (length ?el))))"
    using curve_weights_spec [OF assms, of precedence] by metis
  have each: "0 \<le> x \<and> (x \<noteq> 0 \<longrightarrow> m \<in> fst ` set ?el \<and>
      (\<exists>s. map_of standings m = Some (Some s) \<and> score_threshold params \<le> s))"
    if "map_of w m = Some x" for m x
  proof (rule weight_cases [OF assms w(1) that])
    fix i assume i: "i < length ?el" "fst (?el ! i) = m"
      and x: "x = fdiv (raw_shares params (length ?el) ! i) (curve_total params (length ?el))"
    have "(m, snd (?el ! i)) \<in> set ?el" using i by (metis nth_mem prod.collapse)
    then have "map_of standings m = Some (Some (snd (?el ! i)))" "score_threshold params \<le> snd (?el ! i)"
      and "m \<in> fst ` set ?el"
      using eligible_in assms(1) by (force simp: image_iff)+
    moreover have "0 \<le> x" using share_weights(1) [OF assms(2) eligible_at_most order_refl i(1)] assms(2) x by simp
    ultimately show ?thesis by blast
  qed simp
  have "{m. \<exists>x. map_of w m = Some x \<and> x \<noteq> 0} \<subseteq> fst ` set ?el" using each by blast
  then have "card {m. \<exists>x. map_of w m = Some x \<and> x \<noteq> 0} \<le> length ?el"
    using card_mono [of "fst ` set ?el"] card_image_le [of "set ?el" fst] card_length [of ?el]
    by (meson List.finite_set finite_imageI le_trans)
  then have count: "int (card {m. \<exists>x. map_of w m = Some x \<and> x \<noteq> 0}) \<le> max_earners params"
    using eligible_length [of params standings precedence] assms(2) by (simp add: curve_ok_def)
  have "\<bar>sum_list (map snd w) - 1\<bar> \<le> 1 / 2 ^ 37" if "?el \<noteq> []"
    using sum_weights_near_one [OF assms(2), of "length ?el"] eligible_at_most [OF assms(2)] that by (simp add: sum)
  then show ?thesis using w each count by blast
qed

lemma wc_normalised_witness:
  "\<exists>w. curve_weights [(''a'', Some (1/2)), (''b'', None), (''c'', Some (1/4))] default_curve_params [] = Inr w \<and>
    \<bar>sum_list (map snd w) - 1\<bar> \<le> 1 / 2 ^ 37"
proof -
  have "eligible default_curve_params [(''a'', Some (1/2)), (''b'', None), (''c'', Some (1/4))] [] \<noteq> []"
    by code_simp
  then show ?thesis
    using wc_normalised [of "[(''a'', Some (1/2)), (''b'', None), (''c'', Some (1/4))]" default_curve_params "[]"]
    by auto
qed

text \<open>A miner who ranks ahead of one in the earning set is in it, further up.\<close>

lemma ranked_ahead:
  assumes "dict_ok standings" and "map_of standings m = Some (Some s)" and "map_of standings m' = Some (Some s')"
    and less: "curve_key precedence (m, s) < curve_key precedence (m', s')"
    and j: "j < length (eligible params standings precedence)" "fst (eligible params standings precedence ! j) = m'"
  obtains i where "i < j" and "eligible params standings precedence ! i = (m, s)"
proof -
  let ?el = "eligible params standings precedence"
  have el_j: "?el ! j = (m', s')"
    using eligible_in [of m' "snd (?el ! j)" params standings precedence] j assms(1,3)
    by (metis map_of_is_SomeI nth_mem option.inject prod.collapse)
  have "score_threshold params \<le> s'" using eligible_in j el_j by (metis nth_mem)
  moreover have "s' \<le> s" using less by (auto simp: curve_key_def less_prod_def split: if_splits)
  ultimately have above: "(m, s) \<in> set (above_threshold params standings)"
    using assms(1,2) by (auto simp: above_threshold_in)
  have "(m, s) \<in> set ?el"
  proof (rule ccontr)
    assume "(m, s) \<notin> set ?el"
    then have "curve_key precedence (m', s') \<le> curve_key precedence (m, s)"
      using eligible_first [OF _ above] j el_j by (metis nth_mem)
    then show False using less by simp
  qed
  then obtain i where i: "i < length ?el" "?el ! i = (m, s)" by (auto simp: in_set_conv_nth)
  have "i < j"
  proof (rule ccontr)
    assume "\<not> i < j"
    then have "curve_key precedence (?el ! j) \<le> curve_key precedence (?el ! i)"
      using eligible_sorted [of precedence params standings] i(1) by (auto simp: sorted_iff_nth_mono)
    then show False using less by (simp add: i(2) el_j)
  qed
  then show thesis using i(2) that by blast
qed

text \<open>The curve respects the ranking: of two miners with standings, the one with the better rank key
  (standing, then precedence, then hotkey) is paid at least as much.\<close>

theorem wc_rank_monotone:
  assumes "dict_ok standings" and "curve_ok params" and "curve_weights standings params precedence = Inr w"
    and "map_of standings m = Some (Some s)" and "map_of standings m' = Some (Some s')"
    and "curve_key precedence (m, s) < curve_key precedence (m', s')"
  shows "\<exists>x x'. map_of w m = Some x \<and> map_of w m' = Some x' \<and> x' \<le> x"
proof -
  let ?el = "eligible params standings precedence"
  have k: "keys w = keys standings"
    using weights_keys assms(1-3) by blast
  then obtain x x' where x: "map_of w m = Some x" "map_of w m' = Some x'"
    by (metis assms(4,5) list.set_map map_of_in_keys map_of_keys_iff)
  have x0: "0 \<le> x" 
    by (rule weight_cases [OF assms(1-3) x(1)])
      (use share_weights(1) [OF assms(2) eligible_at_most [OF assms(2)] order_refl] in auto)
  have "x' \<le> x"
  proof (rule weight_cases [OF assms(1-3) x(2)])
    fix j assume j: "j < length ?el" "fst (?el ! j) = m'"
      and x': "x' = fdiv (raw_shares params (length ?el) ! j) (curve_total params (length ?el))"
    obtain i where "i < j" and i: "?el ! i = (m, s)" by (rule ranked_ahead [OF assms(1,4-6) j])
    then have "i < length ?el" using j(1) by simp
    then have "(m, s) \<in> set ?el" using i by (metis nth_mem)
    then have mem: "m \<in> fst ` set ?el" by force
    have dist: "distinct (map fst ?el)" using assms(1) by (rule eligible_distinct)
    have "x = fdiv (raw_shares params (length ?el) ! i) (curve_total params (length ?el))"
    proof (rule weight_cases [OF assms(1-3) x(1)])
      fix i' assume i': "i' < length ?el" "fst (?el ! i') = m"
        and "x = fdiv (raw_shares params (length ?el) ! i') (curve_total params (length ?el))"
      moreover have "map fst ?el ! i' = map fst ?el ! i" using i \<open>i < length ?el\<close> i' by simp
      then have "i' = i" using dist \<open>i < length ?el\<close> i' by (simp add: nth_eq_iff_index_eq del: nth_map)
      ultimately show ?thesis by simp
    qed (use mem in simp)
    then show "x' \<le> x"
      using share_weights(2) [OF assms(2) eligible_at_most [OF assms(2)] _ j(1)] \<open>i < j\<close> by (simp add: x')
  qed (use x0 in simp)
  then show ?thesis using x by blast
qed

lemma wc_rank_monotone_witness:
  "\<exists>w x x'. curve_weights [(''a'', Some (1/2)), (''b'', Some (1/2))] default_curve_params [(''b'', 7)] = Inr w \<and>
    map_of w ''b'' = Some x \<and> map_of w ''a'' = Some x' \<and> x' \<le> x"
proof -
  let ?st = "[(''a'', Some (1/2)), (''b'', Some (1/2))]"
  obtain w where w: "curve_weights ?st default_curve_params [(''b'', 7)] = Inr w"
    by (rule curve_weights_spec [of ?st default_curve_params "[(''b'', 7)]"]) simp_all
  have "curve_key [(''b'', 7)] (''b'', 1/2) < curve_key [(''b'', 7)] (''a'', 1/2)" by code_simp
  from wc_rank_monotone [OF _ _ w _ _ this] w show ?thesis by auto
qed

text \<open>The vector does not depend on the order in which the standings are listed: equal standings cannot
  produce different weight vectors on two validators.\<close>

theorem wc_order_free:
  assumes "dict_ok standings" and "mset standings = mset standings'" and "curve_ok params"
  shows "\<exists>w w'. curve_weights standings params precedence = Inr w \<and>
    curve_weights standings' params precedence = Inr w' \<and> map_of w = map_of w'"
proof -
  have ok': "dict_ok standings'"
    using assms(1,2) mset_eq_imp_distinct_iff [of "map fst standings" "map fst standings'"] by (metis mset_map)
  have el: "eligible params standings' precedence = eligible params standings precedence"
    using curve.sort_order_free [OF mset_above_threshold [OF assms(2)]] by (simp add: eligible_def)
  have ks: "fst ` set standings' = fst ` set standings" using assms(2) mset_eq_setD by blast
  obtain w where w: "curve_weights standings params precedence = Inr w" "keys w = keys standings"
    using curve_weights_spec [OF assms(1,3), of precedence] by metis
  obtain w' where w': "curve_weights standings' params precedence = Inr w'" "keys w' = keys standings'"
    using curve_weights_spec [OF ok' assms(3), of precedence] by metis
  have dom: "map_of w m = None \<longleftrightarrow> map_of w' m = None" for m
    unfolding map_of_None_iff using w(2) w'(2) ks by (metis list.set_map)
  have "map_of w m = map_of w' m" for m
  proof (cases "map_of w m")
    case (Some x)
    then have "map_of w' m \<noteq> None" using dom by (metis option.distinct(1))
    then obtain x' where x': "map_of w' m = Some x'" by blast
    have dist: "distinct (map fst (eligible params standings precedence))" using assms(1) by (rule eligible_distinct)
    have mem: "fst (eligible params standings precedence ! i) \<in> fst ` set (eligible params standings precedence)"
      if "i < length (eligible params standings precedence)" for i
      using that by simp
    have same: "i = j" if "i < length (eligible params standings precedence)"
      "j < length (eligible params standings precedence)"
      "fst (eligible params standings precedence ! i) = fst (eligible params standings precedence ! j)" for i j
      using that dist by (metis distinct_conv_nth length_map nth_map)
    have "x = x'"
      by (rule weight_cases [OF assms(1,3) w(1) Some]; rule weight_cases [OF ok' assms(3) w'(1) x'];
          unfold el) (use mem same in metis)+
    then show ?thesis using Some x' by simp
  qed (use dom in simp)
  then show ?thesis using w w' by blast
qed

lemma wc_order_free_witness:
  "\<exists>w w'. curve_weights [(''a'', Some 1), (''b'', Some (1/2))] default_curve_params [] = Inr w \<and>
    curve_weights [(''b'', Some (1/2)), (''a'', Some 1)] default_curve_params [] = Inr w' \<and> map_of w = map_of w'"
  by (rule wc_order_free) (simp_all add: add_mset_commute)

end
