(* ===== verification/StandingMethod.thy ===== *)
theory StandingMethod
  imports ModelEpoch StandingLedger WeightCurve
begin

text \<open>
  The entries a standing is computed from (\<open>hope/scoring/standing_method.py\<close>): the ledger's own under the
  absolute mode; under the episode-relative mode the published receipts, each score measured against
  the mean of the field on the same episode and horizon, with the absence penalties from their log
  net of cancellations.

  A receipt is an object whose document and metrics are objects and whose episode ids and miners are
  strings; a file carries the stamp of its size and time. The standing index is a cache of the seven
  fields of each entry that a standing reads. The memo of the last result is left out: it returns
  what the computation would. Reports for operators (\<open>standing_preview\<close>) and releasing memory are not
  modelled.
\<close>

section \<open>Parameters\<close>

definition standing_effective_from :: "environ \<Rightarrow> date option" where
  "standing_effective_from environ = date_env environ ''SN21_STANDING_EFFECTIVE_FROM''"

definition penalty_floor_score :: float where "penalty_floor_score = 0"
definition penalty_floor_weight :: float where "penalty_floor_weight = 1"
definition relative_curve_threshold :: float where "relative_curve_threshold = - 1"
definition published_tail_decay :: float where "published_tail_decay = 1 / 2"

definition curve_tail_effective_from :: "environ \<Rightarrow> date option" where
  "curve_tail_effective_from environ = date_env environ ''SN21_CURVE_TAIL_EFFECTIVE_FROM''"

definition curve_tail_configured :: "environ \<Rightarrow> float option" where
  "curve_tail_configured environ = (let raw = env_raw environ ''SN21_CURVE_TAIL_DECAY'' in
     if raw = [] then None
     else case py_float raw of None \<Rightarrow> None | Some v \<Rightarrow> if 0 < v \<and> v \<le> 1 then Some v else None)"

definition curve_tail_decay :: "environ \<Rightarrow> date \<Rightarrow> float" where
  "curve_tail_decay environ day =
     (case curve_tail_configured environ of
        None \<Rightarrow> published_tail_decay
      | Some v \<Rightarrow> (case curve_tail_effective_from environ of
          Some start \<Rightarrow> if day < start then published_tail_decay else v
        | None \<Rightarrow> v))"

definition standing_mode :: "environ \<Rightarrow> date \<Rightarrow> string" where
  "standing_mode environ day = (if amendment_in_force environ day then ''episode_relative'' else ''absolute'')"

definition relative_enabled :: "environ \<Rightarrow> date \<Rightarrow> bool" where
  "relative_enabled environ day \<longleftrightarrow> standing_mode environ day = ''episode_relative''"

definition curve_score_threshold :: "environ \<Rightarrow> date \<Rightarrow> float" where
  "curve_score_threshold environ day =
     (case py_float (env_raw environ ''SN21_CURVE_SCORE_THRESHOLD'') of
        Some v \<Rightarrow> v
      | None \<Rightarrow> if relative_enabled environ day then relative_curve_threshold else 0)"

definition curve_params_in_force :: "environ \<Rightarrow> date \<Rightarrow> curve_params" where
  "curve_params_in_force environ day =
     default_curve_params\<lparr>score_threshold := curve_score_threshold environ day, tail_decay := curve_tail_decay environ day\<rparr>"

definition promotion_margin_abs :: "environ \<Rightarrow> date \<Rightarrow> float option" where
  "promotion_margin_abs environ day =
     (if \<not> relative_enabled environ day then None
      else case py_float (env_raw environ ''SN21_PROMOTION_MARGIN_ABS'') of
        None \<Rightarrow> None | Some v \<Rightarrow> if 0 < v then Some v else None)"

definition age_basis_in_force :: "environ \<Rightarrow> date \<Rightarrow> string" where
  "age_basis_in_force environ day = (if prediction_basis_in_force environ day then ''prediction_day'' else ''settle_day'')"

definition method_params :: "environ \<Rightarrow> date \<Rightarrow> json" where
  "method_params environ day =
     (let iso = jopt (\<lambda>d. JStr (isoformat d));
          configured = lower (env_raw environ ''SN21_STANDING_MODE'');
          on = (\<lambda>c x. if c then JNum x else JNull)
      in JDict
        [(''mode'', JStr (standing_mode environ day)),
         (''configured_mode'', JStr (if configured = [] then ''absolute'' else configured)),
         (''effective_from'', iso (standing_effective_from environ)),
         (''half_life_days'', JNum (half_life_in_force environ day)),
         (''prior_mass'', JNum (prior_mass_in_force environ day)),
         (''window_days'', jint (window_in_force environ day)),
         (''promotion_margin_abs'', jopt JNum (promotion_margin_abs environ day)),
         (''curve_score_threshold'', JNum (curve_score_threshold environ day)),
         (''curve_tail_decay'', JNum (curve_tail_decay environ day)),
         (''curve_tail_configured'', jopt JNum (curve_tail_configured environ)),
         (''curve_tail_effective_from'', iso (curve_tail_effective_from environ)),
         (''age_basis'', JStr (age_basis_in_force environ day)),
         (''age_basis_effective_from'', iso (age_basis_effective_from environ)),
         (''previous_model_weight'', on (prediction_basis_in_force environ day) (previous_model_weight environ)),
         (''previous_model_threshold'', on (prediction_basis_in_force environ day) (previous_model_threshold environ)),
         (''field_mean'', JStr (if model_epoch_in_force environ day \<or> prediction_basis_in_force environ day
            then ''one_per_copy_group'' else ''every_scored_hotkey'')),
         (''model_epoch'', JDict
           [(''in_force'', JBool (model_epoch_in_force environ day)),
            (''effective_from'', iso (model_epoch_effective_from environ)),
            (''previous_model_weight'', on (model_epoch_in_force environ day) (previous_model_weight environ)),
            (''previous_model_threshold'', on (model_epoch_in_force environ day) (previous_model_threshold environ)),
            (''boundary'', JStr ''latest model change, minimum gap between counted changes''),
            (''min_gap_days'', jint (model_change_min_gap_days environ))])])"

section \<open>Receipts and their index\<close>

type_synonym stamp = "int \<times> int"

record standing_index =
  si_source :: stamp
  si_fields :: "string list"
  si_rows :: "json list list"

record standing_store =
  receipts :: "(string, stamp \<times> json) dict"
  indexes :: "(string, standing_index) dict"
  tkeys :: "(string, json) dict"
  model_since_doc :: "json option"

definition standing_fields :: "string list" where
  "standing_fields = [''episode_id'', ''horizon_days'', ''score'', ''miner'', ''finalized_on'', ''predicted_on'', ''weight'']"

definition is_receipt_name :: "string \<Rightarrow> bool" where
  "is_receipt_name fn \<longleftrightarrow> drop (length fn - 5) fn = ''.json'' \<and> \<not> startswith fn ''_''"

definition receipt_files :: "standing_store \<Rightarrow> date \<Rightarrow> int \<Rightarrow> (date \<times> string) list" where
  "receipt_files R as_of window_days = concat (map (\<lambda>fn.
     if \<not> is_receipt_name fn then []
     else case fromisoformat (take (length fn - 5) fn) of
       None \<Rightarrow> []
     | Some day \<Rightarrow> if as_of - window_days \<le> day \<and> day \<le> as_of then [(day, fn)] else []) (sort (keys (receipts R))))"

definition json_items :: "json \<Rightarrow> json list" where
  "json_items j = (case j of JList xs \<Rightarrow> xs | _ \<Rightarrow> [])"

text \<open>\<open>env.get("document", env)\<close>, then \<open>["metrics"]["entries"]\<close>.\<close>

definition parse_receipt_entries :: "json \<Rightarrow> json list" where
  "parse_receipt_entries env =
     (let doc = (case map_of (json_fields env) ''document'' of None \<Rightarrow> env | Some d \<Rightarrow> d)
      in json_items (jget (jget doc ''metrics'') ''entries''))"

definition is_object :: "json \<Rightarrow> bool" where
  "is_object j \<longleftrightarrow> (case j of JDict _ \<Rightarrow> True | _ \<Rightarrow> False)"

definition rows_of :: "json \<Rightarrow> json list list" where
  "rows_of env = map (\<lambda>e. map (jget e) standing_fields) (filter is_object (parse_receipt_entries env))"

definition build_standing_index :: "standing_store \<Rightarrow> string \<Rightarrow> standing_store" where
  "build_standing_index R fn = (case map_of (receipts R) fn of
     None \<Rightarrow> R
   | Some (st, env) \<Rightarrow> R\<lparr>indexes := AList.update fn \<lparr>si_source = st, si_fields = standing_fields, si_rows = rows_of env\<rparr> (indexes R)\<rparr>)"

text \<open>The entries of a receipt, from its index when that is one of this very file.\<close>

definition entries_of_receipt :: "standing_store \<Rightarrow> string \<Rightarrow> json list" where
  "entries_of_receipt R fn = (case map_of (receipts R) fn of
     None \<Rightarrow> []
   | Some (st, env) \<Rightarrow>
       (let rows = (case map_of (indexes R) fn of
              Some idx \<Rightarrow> if si_source idx = st \<and> si_fields idx = standing_fields then si_rows idx else rows_of env
            | None \<Rightarrow> rows_of env)
        in map (\<lambda>r. JDict (zip standing_fields r)) rows))"

definition ensure_step :: "standing_store \<times> nat \<Rightarrow> string \<Rightarrow> standing_store \<times> nat" where
  "ensure_step acc fn = (case acc of (R, built) \<Rightarrow>
     if \<not> is_receipt_name fn then (R, built)
     else if (case (map_of (indexes R) fn, map_of (receipts R) fn) of
         (Some idx, Some (st, _)) \<Rightarrow> si_source idx = st | _ \<Rightarrow> False) then (R, built)
     else (build_standing_index R fn, built + 1))"

definition ensure_standing_indexes :: "standing_store \<Rightarrow> standing_store \<times> nat" where
  "ensure_standing_indexes R = foldl ensure_step (R, 0) (sort (keys (receipts R)))"

section \<open>The field\<close>

type_synonym cell = "string \<times> int"

text \<open>\<open>str(x)\<close> of a string or a null.\<close>

definition text_of :: "json \<Rightarrow> string" where
  "text_of j = (case opt_string j of None \<Rightarrow> ''None'' | Some s \<Rightarrow> s)"

definition cell_of :: "json \<Rightarrow> cell option" where
  "cell_of e = (case int_of (jget e ''horizon_days'') of Inr h \<Rightarrow> Some (text_of (jget e ''episode_id''), h) | Inl _ \<Rightarrow> None)"

definition scored_cell :: "json \<Rightarrow> (cell \<times> float) option" where
  "scored_cell e = (case (cell_of e, num_of (jget e ''score'')) of (Some k, Inr x) \<Rightarrow> Some (k, x) | _ \<Rightarrow> None)"

definition miner_of :: "json \<Rightarrow> hotkey" where
  "miner_of e = text_of (jget e ''miner'')"

definition add_to :: "'k \<Rightarrow> 'v \<Rightarrow> ('k, 'v list) dict \<Rightarrow> ('k, 'v list) dict" where
  "add_to k v d = AList.update k ((case map_of d k of None \<Rightarrow> [] | Some vs \<Rightarrow> vs) @ [v]) d"

definition cell_scores :: "(json \<Rightarrow> bool) \<Rightarrow> json list \<Rightarrow> (cell, float list) dict" where
  "cell_scores keep entries = foldl (\<lambda>acc e. case scored_cell e of
     None \<Rightarrow> acc | Some (k, x) \<Rightarrow> if keep e then add_to k x acc else acc) [] entries"

definition mean_of :: "float list \<Rightarrow> float" where
  "mean_of xs = fdiv (fsum xs) (of_nat (length xs))"

definition field_means :: "json list \<Rightarrow> hotkey set \<Rightarrow> (cell, float) dict" where
  "field_means entries exclude =
     (let acc = cell_scores (\<lambda>e. miner_of e \<notin> exclude) entries;
          all_acc = cell_scores (\<lambda>_. True) entries;
          out = map (\<lambda>(k, v). (k, mean_of v)) acc
      in out @ map (\<lambda>(k, v). (k, mean_of v)) (filter (\<lambda>(k, _). map_of out k = None) all_acc))"

definition basket_days_from_tkeys :: "standing_store \<Rightarrow> (string, date) dict" where
  "basket_days_from_tkeys R = foldl (\<lambda>out (fn, m).
     if \<not> (startswith fn ''BD-'' \<and> drop (length fn - 5) fn = ''.json'') then out
     else case fromisoformat (drop 3 (take (length fn - 5) fn)) of
       None \<Rightarrow> out
     | Some day \<Rightarrow> foldl (\<lambda>out eid. AList.update eid day out) out (keys (json_fields m))) [] (sort_key fst (tkeys R))"

definition predicted_on_of :: "json \<Rightarrow> date \<Rightarrow> (string, date) dict \<Rightarrow> environ \<Rightarrow> date" where
  "predicted_on_of entry settled basket_days environ =
     (case Option.bind (opt_string (jget entry ''predicted_on'')) (\<lambda>raw. fromisoformat (take 10 raw)) of
        Some d \<Rightarrow> d
      | None \<Rightarrow>
          (case map_of basket_days (text_of (jget entry ''episode_id'')) of
             Some d \<Rightarrow> d
           | None \<Rightarrow> settled - ((case int_or_zero (jget entry ''horizon_days'') of Inl _ \<Rightarrow> 0 | Inr h \<Rightarrow> h) + settle_lag_days environ)))"

section \<open>Penalties, net of cancellations\<close>

definition cancelled_of :: "cancellation list \<Rightarrow> string \<times> hotkey \<Rightarrow> int" where
  "cancelled_of cs k = sum_list (map cn_missed (filter (\<lambda>c. (cn_day c, cn_hotkey c) = k) cs))"

definition net_step ::
    "date \<Rightarrow> int \<Rightarrow> ((string \<times> hotkey) \<Rightarrow> int) \<times> (hotkey \<times> date \<times> int) list \<Rightarrow> penalty
      \<Rightarrow> ((string \<times> hotkey) \<Rightarrow> int) \<times> (hotkey \<times> date \<times> int) list" where
  "net_step as_of window_days acc p = (case acc of (cancelled, out) \<Rightarrow>
     (case fromisoformat (pe_day p) of
        None \<Rightarrow> acc
      | Some day \<Rightarrow>
          if day < as_of - window_days \<or> as_of < day then acc
          else
            (let k = (isoformat day, pe_hotkey p);
                 taken = min (pe_missed p) (cancelled k);
                 missed = pe_missed p - taken
             in (cancelled(k := cancelled k - taken), if 0 < missed then out @ [(pe_hotkey p, day, missed)] else out))))"

definition net_penalties :: "ledger \<Rightarrow> date \<Rightarrow> int \<Rightarrow> (hotkey \<times> date \<times> int) list" where
  "net_penalties L as_of window_days =
     snd (foldl (net_step as_of window_days) (cancelled_of (load_cancellations L), []) (penalty_file L))"

section \<open>The relative standing\<close>

text \<open>The published weight of an entry, or the plain share of its horizon.\<close>

definition published_weight :: "json \<Rightarrow> int \<Rightarrow> py_error + float" where
  "published_weight e horizon =
     (let w = (case num_of (jget e ''weight'') of Inl _ \<Rightarrow> 0 | Inr x \<Rightarrow> x)
      in if 0 < w then Inr w else horizon_entry_weight horizon ''high'')"

definition settled_on :: "json \<Rightarrow> date \<Rightarrow> date" where
  "settled_on e day = (case Option.bind (opt_string (jget e ''finalized_on'')) (\<lambda>raw. fromisoformat (take 10 raw)) of
     None \<Rightarrow> day | Some d \<Rightarrow> d)"

record relative_rules =
  ru_by_prediction_day :: bool
  ru_by_model_epoch :: bool
  ru_relative :: bool
  ru_exclude :: "hotkey set"
  ru_basket_days :: "(string, date) dict"

text \<open>One entry of a receipt: skipped when it does not parse or is outside the window.\<close>

definition episode_of_row ::
    "relative_rules \<Rightarrow> environ \<Rightarrow> date \<Rightarrow> int \<Rightarrow> date \<Rightarrow> (cell, float) dict \<Rightarrow> json \<Rightarrow> py_error + (hotkey \<times> scored_episode) option" where
  "episode_of_row ru environ as_of window_days day means e =
     (case scored_cell e of
        None \<Rightarrow> Inr None
      | Some (k, x) \<Rightarrow>
          (let settled = settled_on e day;
               pred = (if ru_by_model_epoch ru then Some (predicted_on_of e settled (ru_basket_days ru) environ) else None);
               aged = (if ru_by_prediction_day ru then pred else None);
               dated = (case aged of None \<Rightarrow> settled | Some d \<Rightarrow> d);
               mean = (case map_of means k of None \<Rightarrow> 0 | Some m \<Rightarrow> m)
           in if dated < as_of - window_days \<or> as_of < dated then Inr None
              else map_sum id (\<lambda>w. Some (miner_of e, \<lparr>score = (if ru_relative ru then fsub x mean else x), scored_on = settled,
                     weight = w, predicted_on = pred, discount = Some 1, aged_from = aged, penalty = False\<rparr>))
                     (published_weight e (snd k))))"

definition note_row ::
    "relative_rules \<Rightarrow> environ \<Rightarrow> date \<Rightarrow> int \<Rightarrow> date \<Rightarrow> (cell, float) dict \<Rightarrow> (hotkey, scored_episode list) dict \<Rightarrow> json
      \<Rightarrow> py_error + (hotkey, scored_episode list) dict" where
  "note_row ru environ as_of window_days day means out e =
     map_sum id (\<lambda>r. case r of None \<Rightarrow> out | Some (m, ep) \<Rightarrow> add_to m ep out) (episode_of_row ru environ as_of window_days day means e)"

definition receipt_means :: "relative_rules \<Rightarrow> standing_store \<Rightarrow> string \<Rightarrow> (cell, float) dict" where
  "receipt_means ru R fn = field_means (entries_of_receipt R fn) (if ru_by_model_epoch ru then ru_exclude ru else {})"

definition read_receipt ::
    "relative_rules \<Rightarrow> standing_store \<Rightarrow> environ \<Rightarrow> date \<Rightarrow> int \<Rightarrow> (hotkey, scored_episode list) dict \<Rightarrow> date \<times> string
      \<Rightarrow> py_error + (hotkey, scored_episode list) dict" where
  "read_receipt ru R environ as_of window_days out item = (case item of (day, fn) \<Rightarrow>
     fold_sum (note_row ru environ as_of window_days day (receipt_means ru R fn)) out (entries_of_receipt R fn))"

text \<open>The level of the field: the mean of all cell means.\<close>

definition field_level :: "relative_rules \<Rightarrow> standing_store \<Rightarrow> (date \<times> string) list \<Rightarrow> float" where
  "field_level ru R files =
     (let all_means = concat (map (\<lambda>(_, fn). map snd (receipt_means ru R fn)) files)
      in if all_means = [] then 0 else mean_of all_means)"

definition penalty_episode :: "relative_rules \<Rightarrow> float \<Rightarrow> date \<Rightarrow> scored_episode" where
  "penalty_episode ru x day = \<lparr>score = x, scored_on = day, weight = penalty_floor_weight,
     predicted_on = (if ru_by_model_epoch ru then Some day else None), discount = Some 1,
     aged_from = (if ru_by_prediction_day ru then Some day else None), penalty = True\<rparr>"

definition note_penalty ::
    "relative_rules \<Rightarrow> float \<Rightarrow> (hotkey, scored_episode list) dict \<Rightarrow> hotkey \<times> date \<times> int \<Rightarrow> (hotkey, scored_episode list) dict" where
  "note_penalty ru x out item = (case item of (hk, day, missed) \<Rightarrow>
     AList.update hk ((case map_of out hk of None \<Rightarrow> [] | Some es \<Rightarrow> es) @ replicate (nat missed) (penalty_episode ru x day)) out)"

record standing_stats =
  ss_age_basis :: string
  ss_model_epoch :: bool
  ss_field_excluded :: nat
  ss_previous_model :: "discount_stats option"

definition rules_in_force :: "standing_store \<Rightarrow> date \<Rightarrow> environ \<Rightarrow> bool \<Rightarrow> (string, date) dict option \<Rightarrow> hotkey set \<Rightarrow> relative_rules" where
  "rules_in_force R as_of environ relative basket_days exclude =
     (let by_pred = prediction_basis_in_force environ as_of;
          by_epoch = model_epoch_in_force environ as_of \<or> by_pred
      in \<lparr>ru_by_prediction_day = by_pred, ru_by_model_epoch = by_epoch, ru_relative = relative, ru_exclude = exclude,
          ru_basket_days = (case basket_days of Some m \<Rightarrow> m | None \<Rightarrow> if by_epoch then basket_days_from_tkeys R else [])\<rparr>)"

definition load_relative_entries ::
    "standing_store \<Rightarrow> ledger \<Rightarrow> date \<Rightarrow> int \<Rightarrow> environ \<Rightarrow> (hotkey, date) dict \<Rightarrow> bool \<Rightarrow> (string, date) dict option \<Rightarrow> hotkey set
      \<Rightarrow> py_error + (hotkey, scored_episode list) dict \<times> standing_stats" where
  "load_relative_entries R L as_of window_days environ model_since relative basket_days field_exclude =
     (let ru = rules_in_force R as_of environ relative basket_days field_exclude;
          files = receipt_files R as_of window_days;
          absence = (if relative then fsub penalty_floor_score (field_level ru R files) else penalty_floor_score)
      in map_sum id (\<lambda>out.
           let entries = filter (\<lambda>(_, v). v \<noteq> []) (foldl (note_penalty ru absence) out (net_penalties L as_of window_days));
               stats = \<lparr>ss_age_basis = age_basis_in_force environ as_of, ss_model_epoch = ru_by_model_epoch ru,
                 ss_field_excluded = (if ru_by_model_epoch ru then card field_exclude else 0), ss_previous_model = None\<rparr>
           in if ru_by_model_epoch ru \<and> model_since \<noteq> []
              then (case apply_previous_model_discount entries model_since as_of window_days (previous_model_weight environ)
                      (previous_model_threshold environ) (ramp_counts_real_entries_only environ as_of) of
                  (result, dst) \<Rightarrow> (result, stats\<lparr>ss_previous_model := Some dst\<rparr>))
              else (entries, stats))
         (fold_sum (read_receipt ru R environ as_of window_days) [] files))"

definition load_standing_entries ::
    "standing_store \<Rightarrow> ledger \<Rightarrow> date \<Rightarrow> environ \<Rightarrow> int option \<Rightarrow> (hotkey, date) dict option \<Rightarrow> hotkey set
      \<Rightarrow> py_error + (hotkey, scored_episode list) dict" where
  "load_standing_entries R L as_of environ window_days model_since field_exclude =
     (let window = default_to window_days (window_in_force environ as_of)
      in if relative_enabled environ as_of then
           (let since = (case model_since of
                  Some m \<Rightarrow> m
                | None \<Rightarrow> if model_epoch_in_force environ as_of \<or> prediction_basis_in_force environ as_of
                    then load_model_since (model_since_doc R) else [])
            in map_sum id fst (load_relative_entries R L as_of window environ since True None field_exclude))
         else load_entries L as_of window)"



section \<open>The index is invisible\<close>

definition receipt_entries :: "json \<Rightarrow> json list" where
  "receipt_entries env = map (\<lambda>r. JDict (zip standing_fields r)) (rows_of env)"

text \<open>An index stamped like the receipt holds the receipt's rows. A receipt that is written again has
  a stamp its index does not carry.\<close>

definition index_ok :: "standing_store \<Rightarrow> bool" where
  "index_ok R \<longleftrightarrow> (\<forall>fn idx st env. map_of (indexes R) fn = Some idx \<and> map_of (receipts R) fn = Some (st, env) \<and>
     si_source idx = st \<and> si_fields idx = standing_fields \<longrightarrow> si_rows idx = rows_of env)"

definition write_receipt :: "string \<Rightarrow> stamp \<Rightarrow> json \<Rightarrow> standing_store \<Rightarrow> standing_store" where
  "write_receipt fn st env R = R\<lparr>receipts := AList.update fn (st, env) (receipts R)\<rparr>"

lemma index_ok_build: "index_ok R \<Longrightarrow> index_ok (build_standing_index R fn)"
  by (auto simp: index_ok_def build_standing_index_def map_of_update split: option.splits)

lemma index_ok_write:
  "index_ok R \<Longrightarrow> (\<forall>idx. map_of (indexes R) fn = Some idx \<longrightarrow> si_source idx \<noteq> st) \<Longrightarrow> index_ok (write_receipt fn st env R)"
  by (auto simp: index_ok_def write_receipt_def map_of_update)

lemma entries_via_index:
  assumes "index_ok R" and "map_of (receipts R) fn = Some (st, env)"
  shows "entries_of_receipt R fn = receipt_entries env"
proof (cases "map_of (indexes R) fn")
  case (Some idx)
  then have "si_source idx = st \<Longrightarrow> si_fields idx = standing_fields \<Longrightarrow> si_rows idx = rows_of env"
    using assms unfolding index_ok_def by blast
  then show ?thesis using assms(2) Some by (simp add: entries_of_receipt_def receipt_entries_def)
qed (simp add: entries_of_receipt_def receipt_entries_def assms(2))

text \<open>What a run may do to the store: build an index, build all that are missing, write a receipt again.\<close>

inductive store_step :: "standing_store \<Rightarrow> standing_store \<Rightarrow> bool" where
  build: "store_step R (build_standing_index R fn)"
| ensure: "store_step R (fst (ensure_standing_indexes R))"
| rewrite: "(\<forall>idx. map_of (indexes R) fn = Some idx \<longrightarrow> si_source idx \<noteq> st) \<Longrightarrow> store_step R (write_receipt fn st env R)"

lemma index_ok_ensure: "index_ok R \<Longrightarrow> index_ok (fst (ensure_standing_indexes R))"
proof -
  assume ok: "index_ok R"
  have "index_ok (fst (foldl ensure_step (R, 0) fns))" for fns
  proof (rule foldl_invariant [where Q = "\<lambda>acc. index_ok (fst acc)"])
    fix acc :: "standing_store \<times> nat" and fn assume "index_ok (fst acc)"
    then show "index_ok (fst (ensure_step acc fn))" by (cases acc) (simp add: ensure_step_def index_ok_build)
  qed (simp add: ok)
  then show ?thesis by (simp add: ensure_standing_indexes_def)
qed

lemma index_ok_step: "store_step R R' \<Longrightarrow> index_ok R \<Longrightarrow> index_ok R'"
  by (induction rule: store_step.induct) (simp_all add: index_ok_build index_ok_ensure index_ok_write)

text \<open>C27. The standing index changes no standing: in every store that runs can lead to from one without
  indexes, by building indexes and by writing receipts again, the entries read for a receipt are
  those of the receipt as it stands. A rewritten receipt has a size and time of writing other than those
  its index was made from.\<close>

theorem sm_index_is_invisible:
  assumes "store_step\<^sup>*\<^sup>* R R'" and "indexes R = []" and "map_of (receipts R') fn = Some (st, env)"
  shows "entries_of_receipt R' fn = map (\<lambda>r. JDict (zip standing_fields r)) (rows_of env)"
proof -
  have "index_ok R'" using assms(1)
    by (induction rule: rtranclp_induct) (simp add: index_ok_def assms(2), rule index_ok_step)
  then show ?thesis using entries_via_index [OF _ assms(3)] by (simp add: receipt_entries_def)
qed

section \<open>Parameters\<close>

text \<open>Nothing moves before its date: until the published day of the relative standing, whatever else
  is configured, the standing is the ledger's own entries over the published window, the promotion
  margin is the published one, and the curve's threshold and tail are the published ones unless the
  operator sets them; and the tail is never outside (0, 1].\<close>

theorem sm_nothing_moves_before_its_date:
  assumes "standing_effective_from environ = Some start" and "day < start"
  shows "load_standing_entries R L day environ None since exclude = load_entries L day default_window_days \<and>
    promotion_margin_abs environ day = None \<and> 0 < curve_tail_decay environ day \<and> curve_tail_decay environ day \<le> 1 \<and>
    (py_float (env_raw environ ''SN21_CURVE_SCORE_THRESHOLD'') = None \<longrightarrow> curve_score_threshold environ day = 0) \<and>
    (curve_tail_effective_from environ = Some later \<and> day < later \<longrightarrow> curve_tail_decay environ day = 1 / 2)"
proof -
  have "\<not> amendment_in_force environ day"
    using assms by (auto simp: amendment_in_force_def standing_effective_from_def date_env_def Let_def split: option.splits if_splits)
  then have r: "\<not> relative_enabled environ day" "window_in_force environ day = default_window_days"
    by (simp_all add: relative_enabled_def standing_mode_def window_in_force_def prediction_basis_in_force_def)
  have "0 < curve_tail_decay environ day \<and> curve_tail_decay environ day \<le> 1"
    by (auto simp: curve_tail_decay_def curve_tail_configured_def published_tail_decay_def Let_def split: option.splits if_splits)
  moreover have "curve_tail_effective_from environ = Some later \<and> day < later \<longrightarrow> curve_tail_decay environ day = 1 / 2"
    by (auto simp: curve_tail_decay_def published_tail_decay_def split: option.splits)
  ultimately show ?thesis using r
    by (simp add: load_standing_entries_def promotion_margin_abs_def curve_score_threshold_def default_to_def)
qed

section \<open>The field mean\<close>

lemma add_to_map: "map_of (add_to k v d) k' = (if k' = k then Some ((case map_of d k of None \<Rightarrow> [] | Some vs \<Rightarrow> vs) @ [v]) else map_of d k')"
  by (simp add: add_to_def map_of_update)

definition scores_at :: "(json \<Rightarrow> bool) \<Rightarrow> json list \<Rightarrow> cell \<Rightarrow> float list" where
  "scores_at keep entries k = concat (map (\<lambda>e. case scored_cell e of None \<Rightarrow> [] | Some (k', x) \<Rightarrow> if keep e \<and> k' = k then [x] else []) entries)"

lemma cell_scores_map:
  "map_of (cell_scores keep entries) k = (let xs = scores_at keep entries k in if xs = [] then None else Some xs)"
proof (induction entries rule: rev_induct)
  case (snoc e entries)
  show ?case
  proof (cases "scored_cell e")
    case None
    then show ?thesis using snoc by (simp add: cell_scores_def scores_at_def)
  next
    case (Some kx)
    obtain k' x where kx: "kx = (k', x)" by (cases kx)
    have s: "cell_scores keep (entries @ [e]) = (if keep e then add_to k' x (cell_scores keep entries) else cell_scores keep entries)"
      "scores_at keep (entries @ [e]) k = scores_at keep entries k @ (if keep e \<and> k' = k then [x] else [])"
      by (simp_all add: cell_scores_def scores_at_def Some kx)
    show ?thesis unfolding s Let_def
      by (cases "keep e"; cases "k' = k") (simp_all add: add_to_map snoc Let_def)
  qed
qed (simp add: cell_scores_def scores_at_def)

lemma field_means_map:
  "map_of (field_means entries ex) k =
     (let own = scores_at (\<lambda>e. miner_of e \<notin> ex) entries k; every = scores_at (\<lambda>_. True) entries k
      in if own \<noteq> [] then Some (mean_of own) else if every \<noteq> [] then Some (mean_of every) else None)"
proof -
  let ?out = "map (\<lambda>(k, v). (k, mean_of v)) (cell_scores (\<lambda>e. miner_of e \<notin> ex) entries)"
  have out: "map_of ?out k = (let own = scores_at (\<lambda>e. miner_of e \<notin> ex) entries k in if own = [] then None else Some (mean_of own))" for k
    by (simp add: map_of_map_pair cell_scores_map Let_def)
  have rest: "map_of (map (\<lambda>(k, v). (k, mean_of v)) (filter (\<lambda>(k, _). P k) d)) k = (if P k then map_option mean_of (map_of d k) else None)"
    for P :: "cell \<Rightarrow> bool" and d
    by (induction d) auto
  show ?thesis unfolding field_means_def Let_def map_of_append map_add_def rest out
    by (simp add: cell_scores_map Let_def split: option.splits)
qed

text \<open>C28. Copies do not move the benchmark: the field mean of an episode and horizon on which some
  hotkey outside the excluded ones was scored is the mean over those alone, so that adding or
  removing rows of excluded hotkeys changes nothing; where only excluded hotkeys were scored it is
  the plain mean, and every scored cell has one.\<close>

theorem sm_copies_do_not_move_the_benchmark:
  "(map_of (field_means (filter (\<lambda>e. miner_of e \<notin> ex) entries) {}) k \<noteq> None \<longrightarrow>
      map_of (field_means entries ex) k = map_of (field_means (filter (\<lambda>e. miner_of e \<notin> ex) entries) {}) k) \<and>
   (map_of (field_means (filter (\<lambda>e. miner_of e \<notin> ex) entries) {}) k = None \<longrightarrow>
      map_of (field_means entries ex) k = map_of (field_means entries {}) k) \<and>
   (e \<in> set entries \<and> scored_cell e = Some (k, x) \<longrightarrow> map_of (field_means entries ex) k \<noteq> None)"
proof -
  have f: "scores_at (\<lambda>_. True) (filter (\<lambda>e. miner_of e \<notin> ex) entries) k = scores_at (\<lambda>e. miner_of e \<notin> ex) entries k"
    by (induction entries) (auto simp: scores_at_def split: option.splits)
  have "x \<in> set (scores_at (\<lambda>_. True) entries k)" if "e \<in> set entries" "scored_cell e = Some (k, x)"
    unfolding scores_at_def set_concat set_map using that by (intro UnionI [OF imageI [OF imageI [OF that(1)]]]) simp
  then have "e \<in> set entries \<and> scored_cell e = Some (k, x) \<longrightarrow> scores_at (\<lambda>_. True) entries k \<noteq> []" by fastforce
  then show ?thesis by (simp add: field_means_map f Let_def)
qed

section \<open>Penalties\<close>

definition charged_of :: "penalty list \<Rightarrow> date \<Rightarrow> hotkey \<Rightarrow> int" where
  "charged_of ps d hk = sum_list (map pe_missed (filter (\<lambda>p. pe_day p = isoformat d \<and> pe_hotkey p = hk) ps))"

definition netted_of :: "(hotkey \<times> date \<times> int) list \<Rightarrow> date \<Rightarrow> hotkey \<Rightarrow> int" where
  "netted_of out d hk = sum_list (map (\<lambda>(_, _, n). n) (filter (\<lambda>(h, day, _). h = hk \<and> day = d) out))"

lemma max_steps:
  fixes c m s :: int
  assumes "0 \<le> m" "0 \<le> s" "0 \<le> c"
  shows "max 0 (max 0 (c - m) - s) = max 0 (c - (m + s))" "max 0 (m - c) + max 0 (s - max 0 (c - m)) = max 0 (m + s - c)"
  using assms by (auto simp: max_def)

lemma net_fold:
  assumes "\<forall>p \<in> set ps. 0 \<le> pe_missed p \<and> (\<exists>n. valid_day n \<and> pe_day p = isoformat n)" and "valid_day d"
    and "as_of - w \<le> d" and "d \<le> as_of" and "0 \<le> cancelled (isoformat d, hk)"
  shows "fst (foldl (net_step as_of w) (cancelled, out) ps) (isoformat d, hk) = max 0 (cancelled (isoformat d, hk) - charged_of ps d hk) \<and>
    netted_of (snd (foldl (net_step as_of w) (cancelled, out) ps)) d hk = netted_of out d hk + max 0 (charged_of ps d hk - cancelled (isoformat d, hk))"
  using assms
proof (induction ps arbitrary: cancelled out)
  case (Cons p ps)
  obtain n where n: "valid_day n" "pe_day p = isoformat n" "0 \<le> pe_missed p" using Cons.prems(1) by auto
  obtain c1 out1 where s: "net_step as_of w (cancelled, out) p = (c1, out1)" by fastforce
  let ?hit = "n = d \<and> pe_hotkey p = hk" and ?c = "cancelled (isoformat d, hk)" and ?s = "charged_of ps d hk"
  have same: "isoformat n = isoformat d \<longleftrightarrow> n = d" using isoformat_inj [OF n(1) Cons.prems(2)] .
  have pos: "0 \<le> ?s" unfolding charged_of_def using Cons.prems(1) by (intro sum_list_nonneg) auto
  have step: "c1 (isoformat d, hk) = (if ?hit then max 0 (?c - pe_missed p) else ?c)"
    "netted_of out1 d hk = netted_of out d hk + (if ?hit then max 0 (pe_missed p - ?c) else 0)"
    using s n Cons.prems(3-5) same
    by (auto simp: net_step_def fromisoformat_isoformat Let_def netted_of_def split: if_splits)
  have "0 \<le> c1 (isoformat d, hk)" using step(1) Cons.prems(5) by simp
  moreover have "\<forall>p \<in> set ps. 0 \<le> pe_missed p \<and> (\<exists>n. valid_day n \<and> pe_day p = isoformat n)" using Cons.prems(1) by simp
  ultimately have IH: "fst (foldl (net_step as_of w) (c1, out1) ps) (isoformat d, hk) = max 0 (c1 (isoformat d, hk) - ?s)"
    "netted_of (snd (foldl (net_step as_of w) (c1, out1) ps)) d hk = netted_of out1 d hk + max 0 (?s - c1 (isoformat d, hk))"
    using Cons.IH [of c1 out1] Cons.prems(2-4) by blast+
  have charged: "charged_of (p # ps) d hk = (if ?hit then pe_missed p else 0) + ?s"
    using n(2) same by (simp add: charged_of_def)
  show ?case
  proof (cases ?hit)
    case True
    then show ?thesis using IH step max_steps [OF n(3) pos Cons.prems(5)] by (simp add: s charged)
  next
    case False
    then show ?thesis using IH step by (auto simp: s charged)
  qed
qed (simp add: charged_of_def)

text \<open>C29. Cancellations are netted exactly: the charged entries a relative standing carries for a hotkey and
  a day in the window are the episodes charged in the log less the episodes cancelled, and never less
  than none.\<close>

theorem sm_penalties_net_of_cancellations:
  assumes "\<forall>p \<in> set (penalty_file L). 0 \<le> pe_missed p \<and> (\<exists>n. valid_day n \<and> pe_day p = isoformat n)"
    and "\<forall>c \<in> set (load_cancellations L). 0 \<le> cn_missed c" and "valid_day d" and "as_of - w \<le> d" and "d \<le> as_of"
  shows "sum_list (map (\<lambda>(_, _, n). n) (filter (\<lambda>(h, day, _). h = hk \<and> day = d) (net_penalties L as_of w))) =
    max 0 (sum_list (map pe_missed (filter (\<lambda>p. pe_day p = isoformat d \<and> pe_hotkey p = hk) (penalty_file L)))
         - sum_list (map cn_missed (filter (\<lambda>c. (cn_day c, cn_hotkey c) = (isoformat d, hk)) (load_cancellations L))))"
proof -
  have "0 \<le> cancelled_of (load_cancellations L) (isoformat d, hk)"
    unfolding cancelled_of_def using assms(2) by (intro sum_list_nonneg) auto
  note f = net_fold [where cancelled = "cancelled_of (load_cancellations L)" and hk = hk and out = "[]", OF assms(1,3,4,5) this]
  have "netted_of (net_penalties L as_of w) d hk = max 0 (charged_of (penalty_file L) d hk - cancelled_of (load_cancellations L) (isoformat d, hk))"
    using f by (simp add: net_penalties_def netted_of_def case_prod_beta)
  then show ?thesis by (simp only: netted_of_def charged_of_def cancelled_of_def)
qed

definition charged_ledger :: ledger where
  "charged_ledger = empty_ledger\<lparr>penalty_file := [\<lparr>pe_day = isoformat 739861, pe_hotkey = ''b'', pe_missed = 5, pe_score = 0\<rparr>],
     cancellation_log := [\<lparr>cn_day = isoformat 739861, cn_hotkey = ''b'', cn_missed = 2, cn_score = 0, cn_weight = 1, cn_reason = ''ours''\<rparr>]\<rparr>"

theorem sm_penalties_net_of_cancellations_witness:
  "sum_list (map (\<lambda>(_, _, n). n) (filter (\<lambda>(h, day, _). h = ''b'' \<and> day = 739861) (net_penalties charged_ledger 739870 35))) = 3"
proof -
  have l: "penalty_file charged_ledger = [\<lparr>pe_day = isoformat 739861, pe_hotkey = ''b'', pe_missed = 5, pe_score = 0\<rparr>]"
    "load_cancellations charged_ledger = [\<lparr>cn_day = isoformat 739861, cn_hotkey = ''b'', cn_missed = 2, cn_score = 0, cn_weight = 1, cn_reason = ''ours''\<rparr>]"
    by (simp_all add: charged_ledger_def load_cancellations_def empty_ledger_def)
  have v: "valid_day 739861" by (simp add: valid_day_def)
  have "\<forall>p \<in> set (penalty_file charged_ledger). 0 \<le> pe_missed p \<and> (\<exists>n. valid_day n \<and> pe_day p = isoformat n)"
    unfolding l using v by auto
  from sm_penalties_net_of_cancellations [OF this _ v, of 739870 35 "''b''"] show ?thesis by (simp add: l)
qed

section \<open>Entries published without weight\<close>

definition zero_weight_store :: standing_store where
  "zero_weight_store = \<lparr>receipts = [(''2026-09-02.json'', (1, 1), JDict [(''metrics'', JDict [(''entries'', JList [JDict
     [(''episode_id'', JStr ''e''), (''horizon_days'', JNum 7), (''score'', JNum 1), (''miner'', JStr ''a''), (''weight'', JNum 0)]])])])],
     indexes = [], tkeys = [], model_since_doc = None\<rparr>"

text \<open>An entry published with weight zero counts as a full one: the 7-day result of a low-resolution
  episode has weight 0 in the receipt, as the daily flow computes it, and enters the relative standing
  with the weight of a high-resolution one.\<close>

theorem sm_zero_weight_counts_in_full:
  "entry_weight 7 ''low'' = Inr 0 \<and> horizon_entry_weight 7 ''high'' = Inr (fl (1 / 5)) \<and>
   (\<exists>D st. load_relative_entries zero_weight_store empty_ledger 739861 35 (\<lambda>_. None) [] True None {} = Inr (D, st) \<and>
     map weight (entries_of D ''a'') = [fl (1 / 5)])"
proof -
  have w: "entry_weight 7 ''low'' = Inr 0" "horizon_entry_weight 7 ''high'' = Inr (fl (1 / 5))" by code_simp+
  have "load_relative_entries zero_weight_store empty_ledger 739861 35 (\<lambda>_. None) [] True None {} =
      Inr (projr (load_relative_entries zero_weight_store empty_ledger 739861 35 (\<lambda>_. None) [] True None {}))" by code_simp
  moreover have "map weight (entries_of (fst (projr (load_relative_entries zero_weight_store empty_ledger 739861 35 (\<lambda>_. None) [] True None {}))) ''a'') = [fl (1 / 5)]"
    by code_simp
  moreover obtain D st where "projr (load_relative_entries zero_weight_store empty_ledger 739861 35 (\<lambda>_. None) [] True None {}) = (D, st)"
    by fastforce
  ultimately show ?thesis using w by auto
qed

theorem sm_index_is_invisible_witness:
  "entries_of_receipt (build_standing_index zero_weight_store ''2026-09-02.json'') ''2026-09-02.json'' =
    map (\<lambda>r. JDict (zip standing_fields r)) (rows_of (snd (snd (hd (receipts zero_weight_store)))))"
proof (rule sm_index_is_invisible)
  show "store_step\<^sup>*\<^sup>* zero_weight_store (build_standing_index zero_weight_store ''2026-09-02.json'')"
    by (rule r_into_rtranclp) (rule store_step.build)
  show "indexes zero_weight_store = []" by (simp add: zero_weight_store_def)
  show "map_of (receipts (build_standing_index zero_weight_store ''2026-09-02.json'')) ''2026-09-02.json''
      = Some ((1, 1), snd (snd (hd (receipts zero_weight_store))))"
    by (simp add: zero_weight_store_def build_standing_index_def)
qed

definition dated_env :: environ where
  "dated_env name = (if name = ''SN21_STANDING_EFFECTIVE_FROM'' then Some ''2026-09-02'' else None)"

theorem sm_nothing_moves_before_its_date_witness:
  "load_standing_entries zero_weight_store empty_ledger 739860 dated_env None None {} = load_entries empty_ledger 739860 default_window_days"
proof -
  have "standing_effective_from dated_env = Some 739861" by code_simp
  from sm_nothing_moves_before_its_date [OF this, of 739860 zero_weight_store empty_ledger None "{}"] show ?thesis by simp
qed

theorem sm_copies_do_not_move_the_benchmark_witness:
  "map_of (field_means (receipt_entries (snd (snd (hd (receipts zero_weight_store))))) {''a''}) (''e'', 7) = Some 1"
proof -
  let ?es = "receipt_entries (snd (snd (hd (receipts zero_weight_store))))"
  have "map_of (field_means (filter (\<lambda>e. miner_of e \<notin> {''a''}) ?es) {}) (''e'', 7) = None"
    "map_of (field_means ?es {}) (''e'', 7) = Some 1" by code_simp+
  then show ?thesis using sm_copies_do_not_move_the_benchmark [of "{''a''}" ?es "(''e'', 7)"] by simp
qed

end
