(* ===== verification/CopySets.thy ===== *)
theory CopySets
  imports Interfaces
begin

text \<open>
  Which members of fully suppressed copy sets are restored (\<open>orphaned_payees\<close> of
  \<open>hope/validator/daily_stream_weights.py\<close>). The copy groups of all tests are merged with a union-find
  structure: \<open>parent\<close> is a dict, \<open>find\<close> inserts, follows and halves the path, so every call returns
  the changed dict. The \<open>while\<close> loop of \<open>find\<close> is a partial function (\<open>None\<close>: it does not return);
  a missing key would be a \<open>KeyError\<close>. Both are shown impossible.

  Shown: the function returns, and what it returns is the specification that needs no union-find: of
  each connected set of copies whose members are all suppressed, its most senior member.
\<close>

section \<open>Union-find over a dict\<close>

partial_function (option) find_loop :: "(hotkey, hotkey) dict \<Rightarrow> hotkey \<Rightarrow> (py_error + (hotkey, hotkey) dict \<times> hotkey) option" where
  "find_loop parent x =
     (case map_of parent x of
        None \<Rightarrow> Some (Inl KeyError)
      | Some p \<Rightarrow>
          if p = x then Some (Inr (parent, x))
          else case map_of parent p of
            None \<Rightarrow> Some (Inl KeyError)
          | Some g \<Rightarrow> find_loop (AList.update x g parent) g)"

definition uf_find :: "(hotkey, hotkey) dict \<Rightarrow> hotkey \<Rightarrow> (py_error + (hotkey, hotkey) dict \<times> hotkey) option" where
  "uf_find parent x = find_loop (if map_of parent x = None then AList.update x x parent else parent) x"

text \<open>A call that may not return and may raise, followed by another.\<close>

definition andthen :: "(py_error + 'a) option \<Rightarrow> ('a \<Rightarrow> (py_error + 'b) option) \<Rightarrow> (py_error + 'b) option" where
  "andthen m f = (case m of None \<Rightarrow> None | Some (Inl e) \<Rightarrow> Some (Inl e) | Some (Inr a) \<Rightarrow> f a)"

text \<open>\<open>parent[find(m)] = find(members[0])\<close>: the right-hand side is evaluated first.\<close>

definition uf_union :: "hotkey \<Rightarrow> (hotkey, hotkey) dict \<Rightarrow> hotkey \<Rightarrow> (py_error + (hotkey, hotkey) dict) option" where
  "uf_union first parent m =
     andthen (uf_find parent first) (\<lambda>(p1, r0).
       andthen (uf_find p1 m) (\<lambda>(p2, rm). Some (Inr (AList.update rm r0 p2))))"

definition uf_touch :: "(hotkey, hotkey) dict \<Rightarrow> hotkey \<Rightarrow> (py_error + (hotkey, hotkey) dict) option" where
  "uf_touch parent m = andthen (uf_find parent m) (\<lambda>(p, _). Some (Inr p))"

fun fold_calls :: "('s \<Rightarrow> 'a \<Rightarrow> (py_error + 's) option) \<Rightarrow> 's \<Rightarrow> 'a list \<Rightarrow> (py_error + 's) option" where
  "fold_calls f s [] = Some (Inr s)"
| "fold_calls f s (x # xs) = andthen (f s x) (\<lambda>s'. fold_calls f s' xs)"

type_synonym copy_group = "hotkey option \<times> hotkey list"

text \<open>\<open>[m for m in [payee, *excluded] if m]\<close>.\<close>

definition group_members :: "copy_group \<Rightarrow> hotkey list" where
  "group_members g = filter (\<lambda>m. m \<noteq> []) ((case fst g of None \<Rightarrow> [] | Some p \<Rightarrow> [p]) @ snd g)"

definition merge_group :: "(hotkey, hotkey) dict \<Rightarrow> copy_group \<Rightarrow> (py_error + (hotkey, hotkey) dict) option" where
  "merge_group parent g =
     (let members = group_members g
      in andthen (fold_calls (uf_union (hd members)) parent (tl members)) (\<lambda>p. fold_calls uf_touch p members))"

definition collect_member ::
    "(hotkey, hotkey) dict \<times> (hotkey, hotkey list) dict \<Rightarrow> hotkey \<Rightarrow> (py_error + (hotkey, hotkey) dict \<times> (hotkey, hotkey list) dict) option" where
  "collect_member acc m = (case acc of (parent, sets) \<Rightarrow>
     andthen (uf_find parent m) (\<lambda>(p, r).
       Some (Inr (p, AList.update r ((case map_of sets r of None \<Rightarrow> [] | Some ms \<Rightarrow> ms) @ [m]) sets))))"

definition senior_key :: "(hotkey, string) dict \<Rightarrow> hotkey list \<Rightarrow> hotkey \<Rightarrow> string inf_default \<times> nat \<times> hotkey" where
  "senior_key seniority preferred m = (get_or_inf seniority m, if m \<in> set preferred then 0 else 1, m)"

definition senior_of :: "(hotkey, string) dict \<Rightarrow> hotkey list \<Rightarrow> hotkey list \<Rightarrow> hotkey" where
  "senior_of seniority preferred members = hd (sort_key (senior_key seniority preferred) members)"

definition restored_of :: "hotkey set \<Rightarrow> (hotkey, string) dict \<Rightarrow> hotkey list \<Rightarrow> (hotkey, hotkey list) dict \<Rightarrow> hotkey set" where
  "restored_of suppressed seniority preferred sets =
     set (map (senior_of seniority preferred) (filter (\<lambda>ms. list_all (\<lambda>m. m \<in> suppressed) ms) (map snd sets)))"

definition orphaned_payees ::
    "copy_group list \<Rightarrow> hotkey set \<Rightarrow> (hotkey, string) dict \<Rightarrow> hotkey list \<Rightarrow> (py_error + hotkey set) option" where
  "orphaned_payees groups suppressed seniority preferred =
     andthen (fold_calls merge_group [] groups) (\<lambda>parent.
       andthen (fold_calls collect_member (parent, []) (keys parent)) (\<lambda>(_, sets).
         Some (Inr (restored_of suppressed seniority preferred sets))))"

section \<open>Seniority is a ranking\<close>

interpretation senior: ranking "senior_key seniority preferred" for seniority preferred
  by unfold_locales (simp add: senior_key_def)

lemma senior_of_least:
  assumes "ms \<noteq> []"
  shows "senior_of seniority preferred ms \<in> set ms"
    and "m \<in> set ms \<Longrightarrow> senior_key seniority preferred (senior_of seniority preferred ms) \<le> senior_key seniority preferred m"
proof -
  let ?k = "senior_key seniority preferred"
  have ne: "sort_key ?k ms \<noteq> []" using assms by (metis set_empty set_sort)
  then show "senior_of seniority preferred ms \<in> set ms"
    unfolding senior_of_def using hd_in_set [of "sort_key ?k ms"] by simp
  obtain x xs where s: "sort_key ?k ms = x # xs" using ne by (cases "sort_key ?k ms") auto
  have "sorted (map ?k (x # xs))" using sorted_sort_key [of ?k ms] by (simp add: s)
  moreover assume "m \<in> set ms"
  then have "m \<in> set (x # xs)" using s by (metis set_sort)
  ultimately show "?k (senior_of seniority preferred ms) \<le> ?k m" by (auto simp: senior_of_def s)
qed

section \<open>Representatives\<close>

text \<open>Parents lead downwards in a rank, so every chain ends in a root.\<close>

definition ranked :: "(hotkey \<Rightarrow> nat) \<Rightarrow> (hotkey \<Rightarrow> hotkey option) \<Rightarrow> bool" where
  "ranked rank f \<longleftrightarrow> (\<forall>x p. f x = Some p \<longrightarrow> p \<in> dom f \<and> (p \<noteq> x \<longrightarrow> rank p < rank x))"

inductive rep :: "(hotkey \<Rightarrow> hotkey option) \<Rightarrow> hotkey \<Rightarrow> hotkey \<Rightarrow> bool" for f where
  rep_root: "f r = Some r \<Longrightarrow> rep f r r"
| rep_step: "f x = Some p \<Longrightarrow> p \<noteq> x \<Longrightarrow> rep f p r \<Longrightarrow> rep f x r"

inductive_simps rep_iff: "rep f x r"

lemma rep_is_root: "rep f x r \<Longrightarrow> f r = Some r"
  by (induction rule: rep.induct) auto

lemma rep_root_only: "f x = Some x \<Longrightarrow> rep f x r \<longleftrightarrow> r = x"
  by (subst rep_iff) auto

lemma rep_unique: "rep f x r \<Longrightarrow> rep f x s \<Longrightarrow> s = r"
proof (induction rule: rep.induct)
  case (rep_step x p r)
  then show ?case by (subst (asm) (2) rep_iff) auto
qed (simp add: rep_root_only)

lemma rep_dom: "rep f x r \<Longrightarrow> x \<in> dom f"
  by (auto elim: rep.cases)

lemma rep_exists: "ranked rank f \<Longrightarrow> x \<in> dom f \<Longrightarrow> \<exists>r. rep f x r"
proof (induction "rank x" arbitrary: x rule: less_induct)
  case less
  then obtain p where p: "f x = Some p" by auto
  show ?case
  proof (cases "p = x")
    case True
    then show ?thesis using p rep_root by blast
  next
    case False
    then have "p \<in> dom f" "rank p < rank x" using less.prems p by (auto simp: ranked_def)
    then show ?thesis using less p False rep_step by blast
  qed
qed

lemma rep_next: "f x = Some p \<Longrightarrow> rep f p r \<longleftrightarrow> rep f x r"
  by (cases "p = x") (auto intro: rep_step elim: rep.cases)

text \<open>Two structures with the same representatives on the same keys.\<close>

definition same_reps :: "(hotkey \<Rightarrow> hotkey option) \<Rightarrow> (hotkey \<Rightarrow> hotkey option) \<Rightarrow> bool" where
  "same_reps f g \<longleftrightarrow> dom f = dom g \<and> (\<forall>y r. rep f y r \<longleftrightarrow> rep g y r)"

lemma same_reps_refl: "same_reps f f"
  and same_reps_trans: "same_reps f g \<Longrightarrow> same_reps g h \<Longrightarrow> same_reps f h"
  by (auto simp: same_reps_def)

lemma halve:
  assumes "ranked rank f" and "f x = Some p" and "p \<noteq> x" and "f p = Some g"
  shows "ranked rank (f(x \<mapsto> g))" and "same_reps f (f(x \<mapsto> g))"
proof -
  have g: "g \<in> dom f" "rank p < rank x" "g \<noteq> p \<Longrightarrow> rank g < rank p" using assms by (auto simp: ranked_def)
  then have lt: "rank g < rank x" by (cases "g = p") auto
  then show ok: "ranked rank (f(x \<mapsto> g))" using assms(1) g(1) by (auto simp: ranked_def)
  have dom: "dom (f(x \<mapsto> g)) = dom f" using assms(2) by auto
  have fwd: "rep f y r \<Longrightarrow> rep (f(x \<mapsto> g)) y r" for y r
  proof (induction rule: rep.induct)
    case (rep_root r)
    then show ?case using assms(2,3) by (intro rep.rep_root) auto
  next
    case (rep_step y q r)
    show ?case
    proof (cases "y = x")
      case True
      then have "q = p" using rep_step.hyps(1) assms(2) by simp
      then have "rep (f(x \<mapsto> g)) p r" using rep_step.IH by (simp only:)
      moreover have "(f(x \<mapsto> g)) p = Some g" using assms(3,4) by simp
      ultimately have "rep (f(x \<mapsto> g)) g r" by (simp add: rep_next)
      moreover have "(f(x \<mapsto> g)) y = Some g" using True by simp
      ultimately show ?thesis by (simp only: rep_next)
    next
      case False
      then show ?thesis using rep_step by (intro rep.rep_step [of _ y q]) auto
    qed
  qed
  have "rep (f(x \<mapsto> g)) y r \<Longrightarrow> rep f y r" for y r
    using rep_exists [OF assms(1), of y] fwd [of y] rep_unique rep_dom dom by metis
  then show "same_reps f (f(x \<mapsto> g))" using fwd dom by (auto simp: same_reps_def)
qed

lemma find_loop_ok:
  assumes "ranked rank (map_of parent)" and "x \<in> dom (map_of parent)"
  shows "\<exists>parent' r. find_loop parent x = Some (Inr (parent', r)) \<and> ranked rank (map_of parent') \<and>
    same_reps (map_of parent) (map_of parent') \<and> rep (map_of parent) x r \<and> keys parent' = keys parent"
  using assms
proof (induction "rank x" arbitrary: parent x rule: less_induct)
  case less
  obtain p where p: "map_of parent x = Some p" using less.prems(2) by auto
  show ?case
  proof (cases "p = x")
    case True
    then show ?thesis using p less.prems(1)
      by (subst find_loop.simps) (auto intro: same_reps_refl rep_root)
  next
    case False
    obtain g where g: "map_of parent p = Some g" using less.prems(1) p by (fastforce simp: ranked_def)
    let ?P = "AList.update x g parent"
    have m: "map_of ?P = (map_of parent)(x \<mapsto> g)" by (simp add: update_conv')
    have h: "ranked rank (map_of ?P)" "same_reps (map_of parent) (map_of ?P)"
      using halve [OF less.prems(1) p False g] by (simp_all add: m)
    have "rank p < rank x" "g \<noteq> p \<Longrightarrow> rank g < rank p" using less.prems(1) p g False by (auto simp: ranked_def)
    then have "rank g < rank x" by (cases "g = p") auto
    moreover have "g \<in> dom (map_of ?P)" using less.prems(1) g h(2) by (auto simp: ranked_def same_reps_def)
    ultimately obtain parent' r where r: "find_loop ?P g = Some (Inr (parent', r))" "ranked rank (map_of parent')"
      "same_reps (map_of ?P) (map_of parent')" "rep (map_of ?P) g r" "keys parent' = keys ?P" using less.hyps h(1) by blast
    have "rep (map_of parent) g r" using r(4) h(2) by (simp add: same_reps_def)
    then have "rep (map_of parent) x r" using rep_next [where f = "map_of parent", OF p] rep_next [where f = "map_of parent", OF g] by simp
    moreover have "keys ?P = keys parent" using p by (auto simp: keys_update dest: map_of_in_keys)
    moreover have "find_loop parent x = find_loop ?P g" by (subst find_loop.simps) (simp add: p g False)
    moreover have "same_reps (map_of parent) (map_of parent')" using h(2) r(3) by (rule same_reps_trans)
    ultimately show ?thesis using r(1,2,5) by auto
  qed
qed

text \<open>What the merging keeps: the chains are ranked, and copies stay together.\<close>

definition forest :: "(hotkey, hotkey) dict \<Rightarrow> bool" where
  "forest parent \<longleftrightarrow> (\<exists>rank. ranked rank (map_of parent)) \<and> dict_ok parent"

definition together :: "(hotkey, hotkey) dict \<Rightarrow> hotkey \<Rightarrow> hotkey \<Rightarrow> bool" where
  "together parent y z \<longleftrightarrow> (\<exists>r. rep (map_of parent) y r \<and> rep (map_of parent) z r)"

lemma together_sym: "together P y z \<Longrightarrow> together P z y"
  by (auto simp: together_def)

lemma together_trans: "together P x y \<Longrightarrow> together P y z \<Longrightarrow> together P x z"
  unfolding together_def using rep_unique by metis

lemma together_refl: "forest P \<Longrightarrow> x \<in> set (keys P) \<Longrightarrow> together P x x"
  using rep_exists [of _ "map_of P" x] by (auto simp: forest_def together_def dom_map_of_conv_image_fst)

lemma together_keys: "together P x y \<Longrightarrow> x \<in> set (keys P)"
  using rep_dom [of "map_of P" x] by (auto simp: together_def dom_map_of_conv_image_fst)


lemma uf_find_ok:
  assumes "forest parent"
  shows "\<exists>parent' r. uf_find parent x = Some (Inr (parent', r)) \<and> forest parent' \<and>
    keys parent' = (if x \<in> set (keys parent) then keys parent else keys parent @ [x]) \<and>
    rep (map_of parent') x r \<and>
    (\<forall>y s. y \<in> set (keys parent) \<longrightarrow> rep (map_of parent') y s = rep (map_of parent) y s) \<and>
    (\<forall>y. together parent' x y \<longrightarrow> y = x \<or> together parent x y)"
proof -
  let ?P = "if map_of parent x = None then AList.update x x parent else parent"
  obtain rank where rank: "ranked rank (map_of parent)" and ok: "dict_ok parent" using assms by (auto simp: forest_def)
  have new: "map_of ?P = (if map_of parent x = None then (map_of parent)(x \<mapsto> x) else map_of parent)"
    by (simp add: update_conv')
  have keysP: "keys ?P = (if x \<in> set (keys parent) then keys parent else keys parent @ [x])"
    by (auto simp: keys_update map_of_None_iff)
  have "ranked rank (map_of ?P)" using rank by (auto simp: new ranked_def)
  moreover have "x \<in> dom (map_of ?P)" by (auto simp: new)
  ultimately obtain parent' r where f: "find_loop ?P x = Some (Inr (parent', r))" "ranked rank (map_of parent')"
    "same_reps (map_of ?P) (map_of parent')" "rep (map_of ?P) x r" "keys parent' = keys ?P"
    using find_loop_ok by blast
  have old: "rep (map_of ?P) y s = rep (map_of parent) y s" if y: "y \<in> set (keys parent)" for y s
  proof (cases "map_of parent x = None")
    case True
    have 1: "rep (map_of parent) z s \<Longrightarrow> rep (map_of ?P) z s" for z s
    proof (induction rule: rep.induct)
      case (rep_step z p s)
      then have "map_of ?P z = Some p" using True by (auto simp: map_of_update)
      then show ?case using rep_step.IH by (simp only: rep_next)
    qed (use True in \<open>auto simp: map_of_update intro!: rep.rep_root\<close>)
    have "\<exists>s. rep (map_of parent) y s" using rank y by (intro rep_exists) (auto simp: dom_map_of_conv_image_fst)
    then show ?thesis using 1 rep_unique by metis
  next
    case False
    then show ?thesis by (simp only: if_False)
  qed
  have "dict_ok ?P" using ok by (auto intro: dict_ok_update)
  then have forest: "forest parent'" using f(2,5) by (auto simp: forest_def)
  have reps: "rep (map_of parent') y s = rep (map_of ?P) y s" for y s using f(3) by (simp add: same_reps_def)
  have "y = x \<or> together parent x y" if t: "together parent' x y" for y
  proof (cases "x \<in> set (keys parent)")
    case True
    then have "map_of ?P = map_of parent" using map_of_None_iff [of parent x] by auto
    then show ?thesis using t by (simp add: together_def reps)
  next
    case False
    then have none: "map_of parent x = None" by (simp add: map_of_None_iff)
    have rx: "rep (map_of ?P) x s \<longleftrightarrow> s = x" for s by (rule rep_root_only) (simp add: none map_of_update)
    have "rep (map_of ?P) y x" using t by (auto simp: together_def reps rx)
    moreover have "y \<in> set (keys ?P)" using together_keys [OF together_sym [OF t]] f(5) by simp
    ultimately have "y = x \<or> rep (map_of parent) y x" using keysP old False by auto
    moreover have "\<not> rep (map_of parent) y x" using rep_is_root [of "map_of parent" y x] none by auto
    ultimately show ?thesis by simp
  qed
  then show ?thesis using f(1,4,5) forest keysP old reps by (auto simp: uf_find_def)
qed

text \<open>Linking the root of \<open>m\<close> below the root of \<open>first\<close>.\<close>

lemma link_roots:
  assumes "ranked rank f" and "f rm = Some rm" and "f r0 = Some r0"
  shows "\<exists>rank'. ranked rank' (f(rm \<mapsto> r0))"
    and "rep f y r \<Longrightarrow> rep (f(rm \<mapsto> r0)) y (if r = rm then r0 else r)"
proof -
  let ?rank = "\<lambda>y. if rep f y rm \<and> rm \<noteq> r0 then rank y + rank r0 + 1 else rank y"
  have sep: "\<not> rep f r0 rm \<or> rm = r0" using rep_root_only [of f r0] assms(3) by blast
  have self: "rep f rm rm" using assms(2) by (rule rep_root)
  have "ranked ?rank (f(rm \<mapsto> r0))"
    unfolding ranked_def
  proof (intro allI impI)
    fix x p assume "(f(rm \<mapsto> r0)) x = Some p"
    then consider "x = rm" "p = r0" | "x \<noteq> rm" "f x = Some p" by (auto split: if_splits)
    then show "p \<in> dom (f(rm \<mapsto> r0)) \<and> (p \<noteq> x \<longrightarrow> ?rank p < ?rank x)"
    proof cases
      case 1
      then show ?thesis using sep self assms(3) by auto
    next
      case 2
      then have "p \<in> dom f \<and> (p \<noteq> x \<longrightarrow> rank p < rank x)" "rep f p rm \<longleftrightarrow> rep f x rm"
        using assms(1) rep_next [of f x p rm] by (simp_all add: ranked_def)
      then show ?thesis by auto
    qed
  qed
  then show "\<exists>rank'. ranked rank' (f(rm \<mapsto> r0))" by (rule exI [of _ ?rank])
  have r0: "rep (f(rm \<mapsto> r0)) r0 r0" using assms(3) by (intro rep_root) simp
  show "rep f y r \<Longrightarrow> rep (f(rm \<mapsto> r0)) y (if r = rm then r0 else r)"
  proof (induction rule: rep.induct)
    case (rep_root r)
    have "(f(rm \<mapsto> r0)) rm = Some r0" by simp
    then have "rep (f(rm \<mapsto> r0)) rm r0" using r0 by (simp only: rep_next)
    moreover have "r \<noteq> rm \<Longrightarrow> (f(rm \<mapsto> r0)) r = Some r" using rep_root by simp
    then have "r \<noteq> rm \<Longrightarrow> rep (f(rm \<mapsto> r0)) r r" by (rule rep.rep_root)
    ultimately show ?case by (simp del: fun_upd_apply)
  next
    case (rep_step y p r)
    have "y \<noteq> rm" using rep_step assms(2) by auto
    then have "(f(rm \<mapsto> r0)) y = Some p" using rep_step by simp
    then show ?case using rep_step.IH by (simp only: rep_next)
  qed
qed

text \<open>
  The two halves of the refinement: a merge puts together only what \<open>C\<close> relates (\<open>inside\<close>), and never
  takes anything apart (\<open>grows\<close>).
\<close>

definition inside :: "(hotkey \<Rightarrow> hotkey \<Rightarrow> bool) \<Rightarrow> (hotkey, hotkey) dict \<Rightarrow> bool" where
  "inside C P \<longleftrightarrow> forest P \<and> (\<forall>y z. together P y z \<longrightarrow> C y z)"

definition grows :: "(hotkey, hotkey) dict \<Rightarrow> (hotkey, hotkey) dict \<Rightarrow> bool" where
  "grows P P' \<longleftrightarrow> (\<forall>y z. together P y z \<longrightarrow> together P' y z)"

lemma grows_refl: "grows P P" and grows_trans: "grows P Q \<Longrightarrow> grows Q R \<Longrightarrow> grows P R"
  by (auto simp: grows_def)

lemma find_within:
  assumes "inside C P" and "C x x"
  shows "\<exists>P' r. uf_find P x = Some (Inr (P', r)) \<and> inside C P' \<and> grows P P' \<and> rep (map_of P') x r \<and>
    keys P' = (if x \<in> set (keys P) then keys P else keys P @ [x]) \<and>
    (\<forall>y s. rep (map_of P) y s \<longrightarrow> rep (map_of P') y s)"
proof -
  obtain P' r where f: "uf_find P x = Some (Inr (P', r))" "forest P'" "rep (map_of P') x r"
    "keys P' = (if x \<in> set (keys P) then keys P else keys P @ [x])"
    and old: "\<forall>y s. y \<in> set (keys P) \<longrightarrow> rep (map_of P') y s = rep (map_of P) y s"
    and x: "\<forall>y. together P' x y \<longrightarrow> y = x \<or> together P x y"
    using uf_find_ok [of P x] assms(1) unfolding inside_def by blast
  have C: "together P y z \<Longrightarrow> C y z" for y z using assms(1) by (simp add: inside_def)
  have sub: "rep (map_of P) y s \<longrightarrow> rep (map_of P') y s" for y s
    using old rep_dom [of "map_of P" y s] by (auto simp: dom_map_of_conv_image_fst)
  have "C y z" if t: "together P' y z" for y z
  proof -
    have k: "y \<in> set (keys P) \<or> y = x" "z \<in> set (keys P) \<or> z = x"
      using together_keys [OF t] together_keys [OF together_sym [OF t]] f(4) by (auto split: if_splits)
    show ?thesis
    proof (cases "y \<in> set (keys P) \<and> z \<in> set (keys P)")
      case True
      then have "together P y z" using t old by (auto simp: together_def)
      then show ?thesis by (rule C)
    next
      case False
      then have "y = x \<or> z = x" using k by blast
      then show ?thesis using x t together_sym C assms(2) by blast
    qed
  qed
  moreover have "grows P P'" using sub by (auto simp: grows_def together_def)
  ultimately show ?thesis using f sub by (auto simp: inside_def)
qed

lemma keys_after: "keys P' = (if x \<in> set (keys P) then keys P else keys P @ [x]) \<Longrightarrow> set (keys P') = insert x (set (keys P))"
  by (simp only: split: if_splits) auto

text \<open>Linking two roots puts their classes together and nothing else.\<close>

lemma link_within:
  assumes "inside C P" and x: "rep (map_of P) x rx" and y: "rep (map_of P) y ry" and "C x y"
    and sym: "\<And>y z. C y z \<Longrightarrow> C z y" and trans: "\<And>x y z. C x y \<Longrightarrow> C y z \<Longrightarrow> C x z"
  shows "inside C (AList.update rx ry P) \<and> grows P (AList.update rx ry P) \<and> together (AList.update rx ry P) x y \<and>
    keys (AList.update rx ry P) = keys P"
proof -
  let ?P = "AList.update rx ry P"
  have m: "map_of ?P = (map_of P)(rx \<mapsto> ry)" by (simp add: update_conv')
  obtain rank where "ranked rank (map_of P)" "dict_ok P" using assms(1) by (auto simp: inside_def forest_def)
  note link = link_roots [OF this(1) rep_is_root [OF x] rep_is_root [OF y], folded m]
  have keys: "keys ?P = keys P" using rep_is_root [OF x] by (auto simp: keys_update dest: map_of_in_keys)
  have forest: "forest ?P" using link(1) \<open>dict_ok P\<close> by (auto simp: forest_def intro: dict_ok_update)
  have "C v w" if t: "together ?P v w" for v w
  proof -
    have "v \<in> set (keys P)" "w \<in> set (keys P)"
      using together_keys [OF t] together_keys [OF together_sym [OF t]] keys by simp_all
    then obtain rv rw where r: "rep (map_of P) v rv" "rep (map_of P) w rw"
      using rep_exists [OF \<open>ranked rank (map_of P)\<close>, of v] rep_exists [OF \<open>ranked rank (map_of P)\<close>, of w]
      by (auto simp: dom_map_of_conv_image_fst)
    have "(if rv = rx then ry else rv) = (if rw = rx then ry else rw)"
      using t link(2) [OF r(1)] link(2) [OF r(2)] rep_unique unfolding together_def by metis
    then have "rv = rw \<or> rv = rx \<and> rw = ry \<or> rv = ry \<and> rw = rx" by (auto split: if_splits)
    then have "together P v w \<or> together P v x \<and> together P w y \<or> together P v y \<and> together P w x"
      using r x y by (auto simp: together_def)
    then show ?thesis using assms(1,4) sym trans unfolding inside_def by metis
  qed
  moreover have "grows P ?P" using link(2) by (auto simp: grows_def together_def)
  moreover have "together ?P x y" using link(2) [OF x] link(2) [OF y] by (auto simp: together_def split: if_splits)
  ultimately show ?thesis using forest keys unfolding inside_def by blast
qed

lemma union_within:
  assumes "inside C P" and "C first first" "C m m" "C first m"
    and sym: "\<And>y z. C y z \<Longrightarrow> C z y" and trans: "\<And>x y z. C x y \<Longrightarrow> C y z \<Longrightarrow> C x z"
  shows "\<exists>P'. uf_union first P m = Some (Inr P') \<and> inside C P' \<and> grows P P' \<and> together P' first m \<and>
    set (keys P') = set (keys P) \<union> {first, m}"
proof -
  obtain P1 r0 where f1: "uf_find P first = Some (Inr (P1, r0))" "inside C P1" "grows P P1" "rep (map_of P1) first r0"
    "keys P1 = (if first \<in> set (keys P) then keys P else keys P @ [first])"
    using find_within [OF assms(1,2)] by blast
  obtain P2 rm where f2: "uf_find P1 m = Some (Inr (P2, rm))" "inside C P2" "grows P1 P2" "rep (map_of P2) m rm"
    "keys P2 = (if m \<in> set (keys P1) then keys P1 else keys P1 @ [m])" "rep (map_of P2) first r0"
    using find_within [OF f1(2) assms(3)] f1(4) by blast
  have link: "inside C (AList.update rm r0 P2)" "grows P2 (AList.update rm r0 P2)"
    "together (AList.update rm r0 P2) m first" "keys (AList.update rm r0 P2) = keys P2"
    using link_within [where C = C, OF f2(2) f2(4) f2(6) sym [OF assms(4)]] sym trans by blast+
  moreover have "uf_union first P m = Some (Inr (AList.update rm r0 P2))" by (simp add: uf_union_def andthen_def f1(1) f2(1))
  moreover have "set (keys (AList.update rm r0 P2)) = set (keys P) \<union> {first, m}"
    using keys_after [OF f1(5)] keys_after [OF f2(5)] by (simp only: link(4)) blast
  ultimately show ?thesis using f1(3) f2(3) grows_trans together_sym by blast
qed

section \<open>Merging the groups\<close>

lemma fold_calls_inv:
  assumes "I s" and step: "\<And>s x. x \<in> set xs \<Longrightarrow> I s \<Longrightarrow> \<exists>s'. f s x = Some (Inr s') \<and> I s' \<and> G s s' \<and> R x s'"
    and refl: "\<And>s. G s s" and trans: "\<And>s t u. G s t \<Longrightarrow> G t u \<Longrightarrow> G s u" and stable: "\<And>x s t. R x s \<Longrightarrow> G s t \<Longrightarrow> R x t"
  shows "\<exists>s'. fold_calls f s xs = Some (Inr s') \<and> I s' \<and> G s s' \<and> (\<forall>x \<in> set xs. R x s')"
  using assms(1) step
proof (induction xs arbitrary: s)
  case Nil
  then show ?case using refl by auto
next
  case (Cons x xs)
  obtain s1 where s1: "f s x = Some (Inr s1)" "I s1" "G s s1" "R x s1" using Cons.prems by (metis list.set_intros(1))
  obtain s2 where s2: "fold_calls f s1 xs = Some (Inr s2)" "I s2" "G s1 s2" "\<forall>y \<in> set xs. R y s2"
    using Cons.IH [OF s1(2)] Cons.prems(2) by (metis list.set_intros(2))
  have "R x s2" "G s s2" using stable [OF s1(4) s2(3)] trans [OF s1(3) s2(3)] .
  then show ?case using s1(1) s2 by (simp add: andthen_def)
qed

definition extends :: "(hotkey, hotkey) dict \<Rightarrow> (hotkey, hotkey) dict \<Rightarrow> bool" where
  "extends P P' \<longleftrightarrow> grows P P' \<and> set (keys P) \<subseteq> set (keys P')"

lemma extends_refl: "extends P P" and extends_trans: "extends P Q \<Longrightarrow> extends Q R \<Longrightarrow> extends P R"
  unfolding extends_def grows_def by blast+

lemma extends_together: "together P x y \<Longrightarrow> extends P Q \<Longrightarrow> together Q x y"
  and extends_keys: "x \<in> set (keys P) \<Longrightarrow> extends P Q \<Longrightarrow> x \<in> set (keys Q)"
  unfolding extends_def grows_def by blast+

definition merged :: "(hotkey \<Rightarrow> hotkey \<Rightarrow> bool) \<Rightarrow> hotkey set \<Rightarrow> (hotkey, hotkey) dict \<Rightarrow> bool" where
  "merged C K P \<longleftrightarrow> inside C P \<and> set (keys P) \<subseteq> K"

definition same_group :: "copy_group list \<Rightarrow> hotkey \<Rightarrow> hotkey \<Rightarrow> bool" where
  "same_group groups x y \<longleftrightarrow> (\<exists>g \<in> set groups. x \<in> set (group_members g) \<and> y \<in> set (group_members g))"

text \<open>Copies of copies: the connected sets.\<close>

definition connected_copies :: "copy_group list \<Rightarrow> hotkey \<Rightarrow> hotkey \<Rightarrow> bool" where
  "connected_copies groups = rtranclp (same_group groups)"

definition mentioned :: "copy_group list \<Rightarrow> hotkey set" where
  "mentioned groups = (\<Union>g \<in> set groups. set (group_members g))"

lemma connected_refl: "connected_copies groups x x"
  and connected_trans: "connected_copies groups x y \<Longrightarrow> connected_copies groups y z \<Longrightarrow> connected_copies groups x z"
  by (auto simp: connected_copies_def)

lemma connected_sym: "connected_copies groups x y \<Longrightarrow> connected_copies groups y x"
  unfolding connected_copies_def
  by (induction rule: rtranclp_induct) (auto simp: same_group_def intro: converse_rtranclp_into_rtranclp)

lemma connected_group: "g \<in> set groups \<Longrightarrow> x \<in> set (group_members g) \<Longrightarrow> y \<in> set (group_members g) \<Longrightarrow> connected_copies groups x y"
  unfolding connected_copies_def by (rule r_into_rtranclp) (auto simp: same_group_def)

lemma merge_group_ok:
  assumes "merged (connected_copies groups) (mentioned groups) P" and g: "g \<in> set groups"
  shows "\<exists>P'. merge_group P g = Some (Inr P') \<and> merged (connected_copies groups) (mentioned groups) P' \<and> extends P P' \<and>
    (\<forall>x \<in> set (group_members g). \<forall>y \<in> set (group_members g). together P' x y)"
proof -
  let ?C = "connected_copies groups" and ?ms = "group_members g"
  let ?I = "merged ?C (mentioned groups)"
  have K: "m \<in> set ?ms \<Longrightarrow> m \<in> mentioned groups" for m using g by (auto simp: mentioned_def)
  have "\<exists>P1. fold_calls (uf_union (hd ?ms)) P (tl ?ms) = Some (Inr P1) \<and> ?I P1 \<and> extends P P1 \<and>
      (\<forall>m \<in> set (tl ?ms). together P1 (hd ?ms) m)"
  proof (rule fold_calls_inv [where R = "\<lambda>m Q. together Q (hd ?ms) m" and G = extends and I = ?I,
      OF assms(1) _ extends_refl extends_trans extends_together])
    fix Q m assume m: "m \<in> set (tl ?ms)" and Q: "?I Q"
    then have ms: "m \<in> set ?ms" "hd ?ms \<in> set ?ms" by (cases ?ms; simp)+
    have "inside ?C Q" using Q by (simp add: merged_def)
    then have "\<exists>Q'. uf_union (hd ?ms) Q m = Some (Inr Q') \<and> inside ?C Q' \<and> grows Q Q' \<and> together Q' (hd ?ms) m \<and>
        set (keys Q') = set (keys Q) \<union> {hd ?ms, m}"
      by (rule union_within) (rule connected_refl, rule connected_refl, rule connected_group [OF g ms(2,1)],
        erule connected_sym, erule (1) connected_trans)
    then obtain Q' where "uf_union (hd ?ms) Q m = Some (Inr Q')" "inside ?C Q'" "grows Q Q'" "together Q' (hd ?ms) m"
      "set (keys Q') = set (keys Q) \<union> {hd ?ms, m}" by blast
    then show "\<exists>Q'. uf_union (hd ?ms) Q m = Some (Inr Q') \<and> ?I Q' \<and> extends Q Q' \<and> together Q' (hd ?ms) m"
      using Q K ms by (auto simp: merged_def extends_def)
  qed
  then obtain P1 where P1: "fold_calls (uf_union (hd ?ms)) P (tl ?ms) = Some (Inr P1)" "?I P1" "extends P P1"
    "\<forall>m \<in> set (tl ?ms). together P1 (hd ?ms) m" by blast
  have "\<exists>P2. fold_calls uf_touch P1 ?ms = Some (Inr P2) \<and> ?I P2 \<and> extends P1 P2 \<and> (\<forall>m \<in> set ?ms. m \<in> set (keys P2))"
  proof (rule fold_calls_inv [where R = "\<lambda>m Q. m \<in> set (keys Q)" and G = extends and I = ?I,
      OF P1(2) _ extends_refl extends_trans extends_keys])
    fix Q m assume m: "m \<in> set ?ms" and Q: "?I Q"
    obtain Q' r where f: "uf_find Q m = Some (Inr (Q', r))" "inside ?C Q'" "grows Q Q'"
      "keys Q' = (if m \<in> set (keys Q) then keys Q else keys Q @ [m])"
      using find_within [of ?C Q m] Q connected_refl unfolding merged_def by blast
    have "set (keys Q') = insert m (set (keys Q))" using f(4) by (rule keys_after)
    then show "\<exists>Q'. uf_touch Q m = Some (Inr Q') \<and> ?I Q' \<and> extends Q Q' \<and> m \<in> set (keys Q')"
      using f(1-3) Q K [OF m] by (auto simp: uf_touch_def andthen_def merged_def extends_def)
  qed
  then obtain P2 where P2: "fold_calls uf_touch P1 ?ms = Some (Inr P2)" "?I P2" "extends P1 P2"
    "\<forall>m \<in> set ?ms. m \<in> set (keys P2)" by blast
  have "forest P2" using P2(2) by (simp add: merged_def inside_def)
  have hd: "together P2 (hd ?ms) m" if m: "m \<in> set ?ms" for m
  proof (cases "m = hd ?ms")
    case True
    then show ?thesis using together_refl [OF \<open>forest P2\<close>] P2(4) m by blast
  next
    case False
    then have "m \<in> set (tl ?ms)" using m by (cases ?ms) auto
    then show ?thesis using P1(4) extends_together P2(3) by blast
  qed
  have "merge_group P g = Some (Inr P2)" using P1(1) P2(1) by (simp add: merge_group_def andthen_def Let_def)
  moreover have "extends P P2" using P1(3) P2(3) by (rule extends_trans)
  ultimately show ?thesis using P2(2) hd together_sym together_trans by blast
qed

lemma merge_groups_ok:
  "\<exists>P. fold_calls merge_group [] groups = Some (Inr P) \<and> forest P \<and> set (keys P) = mentioned groups \<and>
    (\<forall>x y. together P x y \<longleftrightarrow> x \<in> mentioned groups \<and> y \<in> mentioned groups \<and> connected_copies groups x y)"
proof -
  let ?C = "connected_copies groups"
  have "\<not> together [] y z" for y z using together_keys [of "[]" y z] by auto
  then have start: "merged ?C (mentioned groups) []" by (auto simp: merged_def inside_def forest_def ranked_def)
  have "\<exists>P. fold_calls merge_group [] groups = Some (Inr P) \<and> merged ?C (mentioned groups) P \<and> extends [] P \<and>
      (\<forall>g \<in> set groups. \<forall>x \<in> set (group_members g). \<forall>y \<in> set (group_members g). together P x y)"
    by (rule fold_calls_inv [where G = extends and I = "merged ?C (mentioned groups)"
          and R = "\<lambda>g P. \<forall>x \<in> set (group_members g). \<forall>y \<in> set (group_members g). together P x y",
        OF start merge_group_ok extends_refl extends_trans]) (blast intro: extends_together)+
  then obtain P where P: "fold_calls merge_group [] groups = Some (Inr P)" "forest P" "set (keys P) \<subseteq> mentioned groups"
    and sound: "\<And>x y. together P x y \<Longrightarrow> ?C x y"
    and pairs: "\<And>g x y. g \<in> set groups \<Longrightarrow> x \<in> set (group_members g) \<Longrightarrow> y \<in> set (group_members g) \<Longrightarrow> together P x y"
    unfolding merged_def inside_def by blast
  have "x \<in> set (keys P)" if "x \<in> mentioned groups" for x
    using that pairs [of _ x x] together_keys [of P x x] unfolding mentioned_def by blast
  then have keys: "set (keys P) = mentioned groups" using P(3) by blast
  have "together P x y" if c: "?C x y" and x: "x \<in> mentioned groups" for x y
    using c unfolding connected_copies_def
  proof (induction rule: rtranclp_induct)
    case base
    then show ?case using together_refl [OF P(2)] x keys by simp
  next
    case (step y z)
    then have "together P y z" using pairs by (auto simp: same_group_def)
    then show ?case using step.IH together_trans by blast
  qed
  then show ?thesis using P(1,2) keys sound together_keys together_sym by blast
qed

section \<open>Collecting the sets\<close>

definition members_of :: "(hotkey, hotkey) dict \<Rightarrow> hotkey list \<Rightarrow> hotkey \<Rightarrow> hotkey list" where
  "members_of P ms r = filter (\<lambda>m. rep (map_of P) m r) ms"

definition collected :: "(hotkey, hotkey) dict \<Rightarrow> hotkey list \<Rightarrow> (hotkey, hotkey) dict \<times> (hotkey, hotkey list) dict \<Rightarrow> bool" where
  "collected P ms acc \<longleftrightarrow> forest (fst acc) \<and> keys (fst acc) = keys P \<and>
     (\<forall>y s. rep (map_of (fst acc)) y s \<longleftrightarrow> rep (map_of P) y s) \<and> dict_ok (snd acc) \<and>
     (\<forall>r. map_of (snd acc) r = (if members_of P ms r = [] then None else Some (members_of P ms r)))"

lemma collect_member_ok:
  assumes "collected P ms acc" and m: "m \<in> set (keys P)"
  shows "\<exists>acc'. collect_member acc m = Some (Inr acc') \<and> collected P (ms @ [m]) acc'"
proof -
  obtain Q sets where acc: "acc = (Q, sets)" by fastforce
  have Q: "forest Q" "keys Q = keys P" "\<And>y s. rep (map_of Q) y s \<longleftrightarrow> rep (map_of P) y s" "dict_ok sets"
    and sets: "\<And>r. map_of sets r = (if members_of P ms r = [] then None else Some (members_of P ms r))"
    using assms(1) by (simp_all add: collected_def acc)
  obtain Q' r where f: "uf_find Q m = Some (Inr (Q', r))" "forest Q'" "rep (map_of Q') m r" "keys Q' = keys Q"
    and old: "\<forall>y s. y \<in> set (keys Q) \<longrightarrow> rep (map_of Q') y s = rep (map_of Q) y s"
    using uf_find_ok [OF Q(1), of m] m unfolding Q(2) by (simp only: if_True) blast
  have reps: "rep (map_of Q') y s \<longleftrightarrow> rep (map_of P) y s" for y s
  proof (cases "y \<in> set (keys Q)")
    case False
    then have "\<not> rep (map_of Q') y s" "\<not> rep (map_of Q) y s"
      using rep_dom [of "map_of Q'" y s] rep_dom [of "map_of Q" y s] f(4) by (auto simp: dom_map_of_conv_image_fst simp flip: set_map)
    then show ?thesis using Q(3) by simp
  qed (use old Q(3) in simp)
  let ?L = "case map_of sets r of None \<Rightarrow> [] | Some ms \<Rightarrow> ms"
  have L: "?L = members_of P ms r" by (simp add: sets)
  have mr: "rep (map_of P) m s \<longleftrightarrow> s = r" for s using f(3) reps [of m r] rep_unique [of "map_of P" m r s] by blast
  have grown: "members_of P (ms @ [m]) s = (if s = r then members_of P ms r @ [m] else members_of P ms s)" for s
    by (simp add: members_of_def mr)
  have "map_of (AList.update r (?L @ [m]) sets) s
      = (if members_of P (ms @ [m]) s = [] then None else Some (members_of P (ms @ [m]) s))" for s
    unfolding L grown update_conv' by (simp add: sets)
  moreover have "dict_ok (AList.update r (?L @ [m]) sets)" using Q(4) by (rule dict_ok_update)
  ultimately have "collected P (ms @ [m]) (Q', AList.update r (?L @ [m]) sets)"
    unfolding collected_def fst_conv snd_conv using f(2,4) Q(2) reps by simp
  then show ?thesis using f(1) by (simp add: collect_member_def acc andthen_def)
qed

lemma collect_all_ok:
  "collected P ms acc \<Longrightarrow> set ns \<subseteq> set (keys P) \<Longrightarrow>
    \<exists>acc'. fold_calls collect_member acc ns = Some (Inr acc') \<and> collected P (ms @ ns) acc'"
proof (induction ns arbitrary: ms acc)
  case (Cons n ns)
  then obtain acc1 where a: "collect_member acc n = Some (Inr acc1)" "collected P (ms @ [n]) acc1"
    using collect_member_ok [OF Cons.prems(1), of n] by auto
  then show ?case using Cons.IH [OF a(2)] Cons.prems(2) by (simp add: andthen_def)
qed simp

text \<open>The least member of a list under seniority.\<close>

lemma senior_of_iff:
  assumes "x \<in> set ms"
  shows "x = senior_of seniority preferred ms \<longleftrightarrow>
    (\<forall>m \<in> set ms. senior_key seniority preferred x \<le> senior_key seniority preferred m)"
proof -
  have ne: "ms \<noteq> []" using assms by auto
  show ?thesis
  proof
    assume "\<forall>m \<in> set ms. senior_key seniority preferred x \<le> senior_key seniority preferred m"
    then have "senior_key seniority preferred x = senior_key seniority preferred (senior_of seniority preferred ms)"
      using senior_of_least [OF ne] assms by (intro antisym) auto
    then show "x = senior_of seniority preferred ms" by (rule senior.key_inj)
  qed (use senior_of_least [OF ne] in blast)
qed

lemma restored_of_collected:
  assumes "collected P (keys P) acc" and "forest P"
  shows "x \<in> restored_of suppressed seniority preferred (snd acc) \<longleftrightarrow> x \<in> set (keys P) \<and>
    (\<forall>y. together P x y \<longrightarrow> y \<in> suppressed \<and> senior_key seniority preferred x \<le> senior_key seniority preferred y)"
proof -
  let ?L = "\<lambda>r. members_of P (keys P) r"
  have mem: "y \<in> set (?L r) \<longleftrightarrow> rep (map_of P) y r" for y r
    using rep_dom [of "map_of P" y r] by (auto simp: members_of_def dom_map_of_conv_image_fst)
  have sets: "ms \<in> set (map snd (snd acc)) \<longleftrightarrow> (\<exists>r. ms = ?L r \<and> ?L r \<noteq> [])" for ms
  proof -
    have d: "distinct (map fst (snd acc))" and m: "\<And>r. map_of (snd acc) r = (if ?L r = [] then None else Some (?L r))"
      using assms(1) by (simp_all add: collected_def)
    have "ms \<in> set (map snd (snd acc)) \<longleftrightarrow> (\<exists>r. (r, ms) \<in> set (snd acc))" unfolding set_map by force
    also have "\<dots> \<longleftrightarrow> (\<exists>r. map_of (snd acc) r = Some ms)" by (simp add: map_of_eq_Some_iff [OF d])
    also have "\<dots> \<longleftrightarrow> (\<exists>r. ms = ?L r \<and> ?L r \<noteq> [])" by (auto simp: m)
    finally show ?thesis .
  qed
  let ?le = "\<lambda>y. y \<in> suppressed \<and> senior_key seniority preferred x \<le> senior_key seniority preferred y"
  have one: "rep (map_of P) x r \<and> (\<forall>m \<in> set (?L r). ?le m) \<longleftrightarrow>
      ?L r \<noteq> [] \<and> (\<forall>m \<in> set (?L r). m \<in> suppressed) \<and> x = senior_of seniority preferred (?L r)" for r
  proof
    assume "rep (map_of P) x r \<and> (\<forall>m \<in> set (?L r). ?le m)"
    then have "x \<in> set (?L r)" "\<forall>m \<in> set (?L r). ?le m" by (simp_all add: mem)
    then show "?L r \<noteq> [] \<and> (\<forall>m \<in> set (?L r). m \<in> suppressed) \<and> x = senior_of seniority preferred (?L r)"
      using senior_of_iff by (metis empty_iff list.set(1))
  next
    assume r: "?L r \<noteq> [] \<and> (\<forall>m \<in> set (?L r). m \<in> suppressed) \<and> x = senior_of seniority preferred (?L r)"
    then have "x \<in> set (?L r)" using senior_of_least(1) by blast
    then show "rep (map_of P) x r \<and> (\<forall>m \<in> set (?L r). ?le m)" using r mem senior_of_least(2) by blast
  qed
  have "x \<in> restored_of suppressed seniority preferred (snd acc) \<longleftrightarrow>
      (\<exists>ms \<in> set (map snd (snd acc)). (\<forall>m \<in> set ms. m \<in> suppressed) \<and> x = senior_of seniority preferred ms)"
    unfolding restored_of_def by (auto simp: list_all_iff)
  also have "\<dots> \<longleftrightarrow> (\<exists>r. rep (map_of P) x r \<and> (\<forall>m \<in> set (?L r). ?le m))" unfolding Bex_def sets one by blast
  also have "\<dots> \<longleftrightarrow> x \<in> set (keys P) \<and> (\<forall>y. together P x y \<longrightarrow> ?le y)"
  proof
    assume "\<exists>r. rep (map_of P) x r \<and> (\<forall>m \<in> set (?L r). ?le m)"
    then obtain r where r: "rep (map_of P) x r" "\<And>m. rep (map_of P) m r \<Longrightarrow> ?le m" using mem by blast
    have "x \<in> set (keys P)" using rep_dom [OF r(1)] by (simp add: dom_map_of_conv_image_fst)
    moreover have "?le y" if "together P x y" for y using that r rep_unique unfolding together_def by blast
    ultimately show "x \<in> set (keys P) \<and> (\<forall>y. together P x y \<longrightarrow> ?le y)" by blast
  next
    assume r: "x \<in> set (keys P) \<and> (\<forall>y. together P x y \<longrightarrow> ?le y)"
    then obtain s where s: "rep (map_of P) x s" using together_refl [OF assms(2), of x] by (auto simp: together_def)
    have "?le m" if "m \<in> set (?L s)" for m
      using r s that unfolding mem together_def by blast
    then show "\<exists>r. rep (map_of P) x r \<and> (\<forall>m \<in> set (?L r). ?le m)" using s by blast
  qed
  finally show ?thesis .
qed

lemma restored_spec:
  "\<exists>restored. orphaned_payees groups suppressed seniority preferred = Some (Inr restored) \<and>
    (\<forall>x. x \<in> restored \<longleftrightarrow> x \<in> mentioned groups \<and>
      (\<forall>y. connected_copies groups x y \<longrightarrow>
         y \<in> suppressed \<and> senior_key seniority preferred x \<le> senior_key seniority preferred y))"
proof -
  obtain P where P: "fold_calls merge_group [] groups = Some (Inr P)" "forest P" "set (keys P) = mentioned groups"
    and same: "\<And>x y. together P x y \<longleftrightarrow> x \<in> mentioned groups \<and> y \<in> mentioned groups \<and> connected_copies groups x y"
    using merge_groups_ok [of groups] by blast
  have "collected P [] (P, [])" using P(2) by (simp add: collected_def members_of_def)
  from collect_all_ok [OF this subset_refl] obtain acc where
    acc: "fold_calls collect_member (P, []) (keys P) = Some (Inr acc)" "collected P (keys P) acc" by auto
  have closed: "connected_copies groups x y \<Longrightarrow> x \<in> mentioned groups \<Longrightarrow> y \<in> mentioned groups" for x y
    unfolding connected_copies_def by (induction rule: rtranclp_induct) (auto simp: same_group_def mentioned_def)
  have "orphaned_payees groups suppressed seniority preferred
      = Some (Inr (restored_of suppressed seniority preferred (snd acc)))"
    using P(1) acc(1) by (simp add: orphaned_payees_def andthen_def split: prod.splits)
  moreover have "x \<in> restored_of suppressed seniority preferred (snd acc) \<longleftrightarrow> x \<in> mentioned groups \<and>
      (\<forall>y. connected_copies groups x y \<longrightarrow>
         y \<in> suppressed \<and> senior_key seniority preferred x \<le> senior_key seniority preferred y)" for x
    unfolding restored_of_collected [OF acc(2) P(2)] P(3) same using closed by blast
  ultimately show ?thesis by blast
qed

section \<open>Properties\<close>

text \<open>C23. One payer per model means exactly one, never none, and which one does not depend on how the
  tests group: restoring payees returns (the union-find terminates and raises nothing), and it
  restores exactly the hotkeys that belong to some copy group, whose every copy, directly or through
  other copies, is suppressed, and that rank first among those copies (earliest receipt, then
  lineage payees, then the hotkey).\<close>

theorem cs_restored_spec:
  "\<exists>restored. orphaned_payees groups suppressed seniority preferred = Some (Inr restored) \<and>
    (\<forall>x. x \<in> restored \<longleftrightarrow> x \<in> mentioned groups \<and>
      (\<forall>y. connected_copies groups x y \<longrightarrow>
         y \<in> suppressed \<and> senior_key seniority preferred x \<le> senior_key seniority preferred y))"
  by (rule restored_spec)

text \<open>Two suppressed copies: the one with the earlier receipt is restored.\<close>

theorem cs_restored_spec_witness:
  "\<exists>restored. orphaned_payees [(Some ''a'', [''b''])] {''a'', ''b''} [(''b'', ''2026-01-01'')] [] = Some (Inr restored) \<and>
     ''b'' \<in> restored \<and> ''a'' \<notin> restored"
proof -
  let ?g = "[(Some ''a'', [''b''])] :: copy_group list" and ?k = "senior_key [(''b'', ''2026-01-01'')] []"
  obtain restored where r: "orphaned_payees ?g {''a'', ''b''} [(''b'', ''2026-01-01'')] [] = Some (Inr restored)"
    and spec: "\<And>x. x \<in> restored \<longleftrightarrow> x \<in> mentioned ?g \<and>
      (\<forall>y. connected_copies ?g x y \<longrightarrow> y \<in> {''a'', ''b''} \<and> ?k x \<le> ?k y)"
    using cs_restored_spec [of ?g "{''a'', ''b''}" "[(''b'', ''2026-01-01'')]" "[]"] by blast
  have m: "mentioned ?g = {''a'', ''b''}" by (auto simp: mentioned_def group_members_def)
  have "connected_copies ?g ''a'' ''b''" by (rule connected_group [of "(Some ''a'', [''b''])"]) (simp_all add: group_members_def)
  have closed: "connected_copies ?g ''b'' y \<Longrightarrow> y \<in> {''a'', ''b''}" for y
    unfolding connected_copies_def by (induction rule: rtranclp_induct) (auto simp: same_group_def group_members_def)
  have le: "?k ''b'' \<le> ?k ''a''" and nle: "\<not> ?k ''a'' \<le> ?k ''b''"
    by (simp_all add: senior_key_def get_or_inf_def less_eq_prod_def less_inf_default_def)
  have "''b'' \<in> restored" using closed le unfolding spec m by blast
  moreover have "''a'' \<notin> restored" using \<open>connected_copies ?g ''a'' ''b''\<close> nle unfolding spec by blast
  ultimately show ?thesis using r by blast
qed

end
