(* ===== verification/CopyDetection.thy ===== *)
theory CopyDetection
  imports CopySets PyJson Hashing
begin

text \<open>
  Copied models and who came first (\<open>hope/scoring/duplication.py\<close>): the two exact tests (one digest, one
  behaviour), the one-payer policy over their groups, and the four-signal lineage test.

  The fingerprint of a miner is the SHA-256 of the canonical text of its predictions. Both are
  parameters: \<open>H\<close>, the hash, and \<open>dumps\<close>, the text \<open>json.dumps\<close> writes for a document (its sorting of
  keys is modelled, the text of a number is not). Evidence texts are the source's, the ellipsis in
  them written as three dots.
\<close>

unbundle bit_operations_syntax

section \<open>Texts\<close>

fun digits_of :: "nat \<Rightarrow> string" where
  "digits_of n = (if n < 10 then [digit_char (int n)] else digits_of (n div 10) @ [digit_char (int (n mod 10))])"

declare digits_of.simps [simp del]

text \<open>\<open>str(n)\<close> and \<open>f"{x:.4f}"\<close>.\<close>

definition int_text :: "int \<Rightarrow> string" where
  "int_text n = (if n < 0 then ''-'' else []) @ digits_of (nat \<bar>n\<bar>)"

definition fixed4 :: "float \<Rightarrow> string" where
  "fixed4 x = (let n = nat \<bar>rhe (x * 10000)\<bar> in (if x < 0 then ''-'' else []) @ digits_of (n div 10000) @ ''.'' @ four_digits (int (n mod 10000)))"

text \<open>\<open>str(x)\<close> of an identifier read from a document.\<close>

definition id_text :: "(json \<Rightarrow> string) \<Rightarrow> json \<Rightarrow> string" where
  "id_text dumps j = (case j of JStr s \<Rightarrow> s | JNull \<Rightarrow> ''None'' | JBool b \<Rightarrow> if b then ''True'' else ''False'' | _ \<Rightarrow> dumps j)"

text \<open>\<open>raw.split(sep)\<close> for one character.\<close>

fun split_all :: "char \<Rightarrow> string \<Rightarrow> string list" where
  "split_all sep [] = [[]]"
| "split_all sep (c # cs) = (if c = sep then [] # split_all sep cs
     else case split_all sep cs of [] \<Rightarrow> [[c]] | w # ws \<Rightarrow> (c # w) # ws)"

section \<open>Submissions and groups\<close>

record submission =
  sub_hotkey :: hotkey
  sub_digest :: string
  first_seen_block :: int

datatype copy_kind = SameDigest | SamePredictions | SameLineage

record model_group =
  group_kind :: copy_kind
  original :: hotkey
  copies :: "hotkey list"
  evidence :: string
  group_digest :: "string option"

definition group_all :: "model_group \<Rightarrow> hotkey list" where
  "group_all g = original g # copies g"

text \<open>\<open>d.setdefault(k, []).append(v)\<close>.\<close>

definition append_at :: "'k \<Rightarrow> 'v \<Rightarrow> ('k, 'v list) dict \<Rightarrow> ('k, 'v list) dict" where
  "append_at k v d = AList.update k ((case map_of d k of None \<Rightarrow> [] | Some vs \<Rightarrow> vs) @ [v]) d"

definition by_digest :: "submission list \<Rightarrow> (string, submission list) dict" where
  "by_digest subs = foldl (\<lambda>d s. append_at (sub_digest s) s d) [] subs"

definition submission_key :: "submission \<Rightarrow> int \<times> hotkey" where
  "submission_key s = (first_seen_block s, sub_hotkey s)"

definition digest_group :: "string \<Rightarrow> submission list \<Rightarrow> model_group" where
  "digest_group dg subs =
     (let ordered = sort_key submission_key subs
      in \<lparr>group_kind = SameDigest, original = sub_hotkey (hd ordered), copies = map sub_hotkey (tl ordered),
          evidence = int_text (int (length subs)) @ '' hotkeys committed '' @ dg @ ''; earliest at block ''
            @ int_text (first_seen_block (hd ordered)), group_digest = Some dg\<rparr>)"

definition digest_collisions :: "submission list \<Rightarrow> model_group list" where
  "digest_collisions subs =
     map (\<lambda>(dg, ss). digest_group dg ss) (filter (\<lambda>(dg, ss). 2 \<le> length ss) (sort_key fst (by_digest subs)))"

section \<open>Fingerprints\<close>

definition point_fingerprints_enabled :: "environ \<Rightarrow> bool" where
  "point_fingerprints_enabled environ \<longleftrightarrow> flag_on environ ''SN21_ONE_PAYER_POINT_ESTIMATES''"

definition point_key :: string where "point_key = ''p50''"
definition interval_keys :: "string set" where "interval_keys = {''p10'', ''p90''}"
definition min_distinct_points :: nat where "min_distinct_points = 8"

lemma json_smaller [termination_simp]:
  "(k, v) \<in> set d \<Longrightarrow> size v < Suc (size_list (size_prod (\<lambda>_. 0) size) d)"
  by (induction d) auto

lemma json_item_smaller [termination_simp]: "v \<in> set xs \<Longrightarrow> size v < Suc (size_list size xs)"
  by (induction xs) auto

text \<open>A prediction reduced to what it asserts: of an object with a \<open>p50\<close> that value, else the object
  without its interval bounds.\<close>

fun point_estimates :: "json \<Rightarrow> json" where
  "point_estimates (JDict d) =
     (case map_of d point_key of
        Some v \<Rightarrow> v
      | None \<Rightarrow> JDict (map (\<lambda>(k, v). (k, point_estimates v)) (filter (\<lambda>(k, v). k \<notin> interval_keys) d)))"
| "point_estimates (JList xs) = JList (map point_estimates xs)"
| "point_estimates j = j"

text \<open>The scalars of a document, as a set tells them apart (\<open>True\<close> is \<open>1\<close>).\<close>

fun scalars_of :: "json \<Rightarrow> json list" where
  "scalars_of (JDict d) = concat (map (\<lambda>(k, v). scalars_of v) d)"
| "scalars_of (JList xs) = concat (map scalars_of xs)"
| "scalars_of (JBool b) = [JNum (if b then 1 else 0)]"
| "scalars_of j = [j]"

definition distinct_point_values :: "json \<Rightarrow> nat" where
  "distinct_point_values j = card (set (scalars_of j))"

text \<open>\<open>sort_keys=True\<close>.\<close>

fun sorted_keys :: "json \<Rightarrow> json" where
  "sorted_keys (JDict d) = JDict (sort_key fst (map (\<lambda>(k, v). (k, sorted_keys v)) d))"
| "sorted_keys (JList xs) = JList (map sorted_keys xs)"
| "sorted_keys j = j"

definition prediction_fingerprint :: "(bytes \<Rightarrow> 256 word) \<Rightarrow> (json \<Rightarrow> string) \<Rightarrow> json \<Rightarrow> string" where
  "prediction_fingerprint H dumps predictions = hexdigest (hash_bytes H (encode (dumps (sorted_keys predictions))))"

type_synonym basket = "(string, (string, json) dict) dict"

definition setdefault_get :: "'k \<Rightarrow> ('k, 'v list) dict \<Rightarrow> 'v list" where
  "setdefault_get k d = (case map_of d k of None \<Rightarrow> [] | Some v \<Rightarrow> v)"

text \<open>\<open>per.setdefault(miner, {}).setdefault(episode, {})[horizon] = value\<close>.\<close>

definition put_prediction :: "hotkey \<Rightarrow> string \<Rightarrow> string \<Rightarrow> json \<Rightarrow> (hotkey, basket) dict \<Rightarrow> (hotkey, basket) dict" where
  "put_prediction miner episode horizon v per =
     (let eps = setdefault_get miner per
      in AList.update miner (AList.update episode (AList.update horizon v (setdefault_get episode eps)) eps) per)"

definition basket_doc :: "basket \<Rightarrow> json" where
  "basket_doc b = JDict (map (\<lambda>(e, hs). (e, JDict hs)) b)"

definition fingerprint_row :: "(json \<Rightarrow> string) \<Rightarrow> (json \<Rightarrow> json) \<Rightarrow> (hotkey, basket) dict \<Rightarrow> json \<Rightarrow> (hotkey, basket) dict" where
  "fingerprint_row dumps view per e =
     (if \<not> truthy (jget e ''miner'') \<or> jget e ''prediction'' = JNull then per
      else put_prediction (id_text dumps (jget e ''miner'')) (id_text dumps (jget e ''episode_id''))
             (id_text dumps (jget e ''horizon_days'')) (view (jget e ''prediction'')) per)"

definition fingerprints :: "(bytes \<Rightarrow> 256 word) \<Rightarrow> (json \<Rightarrow> string) \<Rightarrow> json list \<Rightarrow> bool \<Rightarrow> (hotkey, string) dict" where
  "fingerprints H dumps entries reduced =
     (let per = foldl (fingerprint_row dumps (if reduced then point_estimates else id)) [] entries
      in map (\<lambda>(m, b). (m, prediction_fingerprint H dumps (basket_doc b)))
           (filter (\<lambda>(m, b). b \<noteq> [] \<and> \<not> (reduced \<and> distinct_point_values (basket_doc b) < min_distinct_points)) per))"

definition fingerprints_from_receipt :: "(bytes \<Rightarrow> 256 word) \<Rightarrow> (json \<Rightarrow> string) \<Rightarrow> json list \<Rightarrow> (hotkey, string) dict" where
  "fingerprints_from_receipt H dumps entries = fingerprints H dumps entries False"

definition point_fingerprints_from_receipt :: "(bytes \<Rightarrow> 256 word) \<Rightarrow> (json \<Rightarrow> string) \<Rightarrow> json list \<Rightarrow> (hotkey, string) dict" where
  "point_fingerprints_from_receipt H dumps entries = fingerprints H dumps entries True"


section \<open>Behaviour groups and precedence\<close>

definition note_seen :: "string \<Rightarrow> (string \<times> hotkey, string) dict \<Rightarrow> hotkey \<times> string \<Rightarrow> (string \<times> hotkey, string) dict" where
  "note_seen marker first item = (case item of (hk, fp) \<Rightarrow>
     if fp = [] then first
     else case map_of first (fp, hk) of
         None \<Rightarrow> AList.update (fp, hk) marker first
       | Some held \<Rightarrow> if marker < held then AList.update (fp, hk) marker first else first)"

definition first_seen_fingerprints :: "(string \<times> (hotkey, string) dict) list \<Rightarrow> (string \<times> hotkey, string) dict" where
  "first_seen_fingerprints days = foldl (\<lambda>first (marker, prints). foldl (note_seen marker) first prints) [] days"

definition by_print :: "(hotkey, string) dict \<Rightarrow> (string, hotkey list) dict" where
  "by_print prints = foldl (\<lambda>d (hk, fp). if fp = [] then d else append_at fp hk d) [] prints"

definition member_key ::
    "(hotkey, 'b) dict \<Rightarrow> (string \<times> hotkey, string) dict \<Rightarrow> string \<Rightarrow> hotkey \<Rightarrow> string inf_default \<times> 'b inf_default \<times> hotkey" where
  "member_key precedence history fp hk = (get_or_inf history (fp, hk), get_or_inf precedence hk, hk)"

definition behaviour_group ::
    "(hotkey, 'b::linorder) dict \<Rightarrow> (string \<times> hotkey, string) dict \<Rightarrow> string \<Rightarrow> hotkey list \<Rightarrow> model_group" where
  "behaviour_group precedence history fp hks =
     (let ordered = sort_key (member_key precedence history fp) hks
      in \<lparr>group_kind = SamePredictions, original = hd ordered, copies = tl ordered,
          evidence = int_text (int (length hks)) @ '' miners produced byte-identical predictions (fingerprint ''
            @ take 16 fp @ ''...)'', group_digest = None\<rparr>)"

definition prediction_collisions ::
    "(hotkey, string) dict \<Rightarrow> (hotkey, 'b::linorder) dict \<Rightarrow> (string \<times> hotkey, string) dict \<Rightarrow> model_group list" where
  "prediction_collisions prints precedence history =
     map (\<lambda>(fp, hks). behaviour_group precedence history fp hks)
       (filter (\<lambda>(fp, hks). 2 \<le> length hks) (sort_key fst (by_print prints)))"

definition note_active :: "(hotkey, submission) dict \<Rightarrow> submission \<Rightarrow> (hotkey, submission) dict" where
  "note_active latest sub = (case map_of latest (sub_hotkey sub) of
     None \<Rightarrow> AList.update (sub_hotkey sub) sub latest
   | Some held \<Rightarrow> if first_seen_block held < first_seen_block sub then AList.update (sub_hotkey sub) sub latest else latest)"

definition active_submission :: "submission list \<Rightarrow> (hotkey, submission) dict" where
  "active_submission subs = foldl note_active [] subs"

definition note_first :: "(hotkey \<times> string, int) dict \<Rightarrow> submission \<Rightarrow> (hotkey \<times> string, int) dict" where
  "note_first first sub = (let k = (sub_hotkey sub, sub_digest sub) in case map_of first k of
     None \<Rightarrow> AList.update k (first_seen_block sub) first
   | Some held \<Rightarrow> if first_seen_block sub < held then AList.update k (first_seen_block sub) first else first)"

definition first_for_pair :: "submission list \<Rightarrow> (hotkey \<times> string, int) dict" where
  "first_for_pair subs = foldl note_first [] subs"

text \<open>\<open>first_for_pair[(hotkey, digest)]\<close> raises on a missing key.\<close>

definition precedence_step :: "submission list \<Rightarrow> (hotkey, int) dict \<Rightarrow> hotkey \<times> submission \<Rightarrow> py_error + (hotkey, int) dict" where
  "precedence_step subs out item = (case item of (hk, sub) \<Rightarrow>
     (case map_of (first_for_pair subs) (hk, sub_digest sub) of
        None \<Rightarrow> Inl KeyError | Some b \<Rightarrow> Inr (out @ [(hk, b)])))"

definition precedence_map :: "submission list \<Rightarrow> py_error + (hotkey, int) dict" where
  "precedence_map subs = fold_sum (precedence_step subs) [] (active_submission subs)"

definition find_duplicates ::
    "submission list \<Rightarrow> (hotkey, string) dict \<Rightarrow> (string \<times> hotkey, string) dict \<Rightarrow> py_error + model_group list" where
  "find_duplicates subs prints history =
     (if prints = [] then Inr (digest_collisions subs)
      else map_sum id (\<lambda>prec. digest_collisions subs @ prediction_collisions prints prec history) (precedence_map subs))"

definition copied_hotkeys :: "model_group list \<Rightarrow> hotkey set" where
  "copied_hotkeys gs = set (concat (map copies gs))"

definition kind_text :: "copy_kind \<Rightarrow> string" where
  "kind_text k = (case k of SameDigest \<Rightarrow> ''same_digest'' | SamePredictions \<Rightarrow> ''same_predictions'' | SameLineage \<Rightarrow> ''same_lineage'')"

definition report_dict :: "model_group list \<Rightarrow> json" where
  "report_dict gs = JDict
     [(''groups'', JList (map (\<lambda>g. JDict [(''kind'', JStr (kind_text (group_kind g))), (''original'', JStr (original g)),
         (''copies'', jstrs (copies g)), (''evidence'', JStr (evidence g)), (''digest'', jopt JStr (group_digest g))]) gs)),
      (''copied_hotkeys'', jstrs (sorted_list_of_set (copied_hotkeys gs))),
      (''total_groups'', jnat (length gs))]"

section \<open>One payer per model\<close>

definition one_payer_enabled :: "environ \<Rightarrow> bool" where
  "one_payer_enabled environ \<longleftrightarrow> flag_on environ ''SN21_ONE_PAYER_PER_MODEL''"

definition name_list :: "environ \<Rightarrow> string \<Rightarrow> string set" where
  "name_list environ name = set (filter (\<lambda>s. s \<noteq> []) (map strip (split_all (CHR '','') (env_raw environ name))))"

definition exempt_digests_from :: "environ \<Rightarrow> string set" where
  "exempt_digests_from environ = name_list environ ''SN21_COPY_EXEMPT_DIGESTS''"

definition exempt_hotkeys_from :: "environ \<Rightarrow> hotkey set" where
  "exempt_hotkeys_from environ = name_list environ ''SN21_COPY_EXEMPT_HOTKEYS''"

definition stood_down :: "string set \<Rightarrow> (hotkey, string) dict \<Rightarrow> hotkey set \<Rightarrow> model_group \<Rightarrow> bool" where
  "stood_down exempt_digests active_digests exempt_hotkeys g \<longleftrightarrow>
     (case group_digest g of None \<Rightarrow> False | Some d \<Rightarrow> d \<noteq> [] \<and> d \<in> exempt_digests) \<or>
     list_ex (\<lambda>hk. hk \<in> exempt_hotkeys) (group_all g) \<or>
     group_kind g = SamePredictions \<and>
       list_ex (\<lambda>hk. case map_of active_digests hk of None \<Rightarrow> False | Some d \<Rightarrow> d \<in> exempt_digests) (group_all g)"

definition suppressed_copies :: "model_group list \<Rightarrow> string set \<Rightarrow> (hotkey, string) dict \<Rightarrow> hotkey set \<Rightarrow> hotkey set" where
  "suppressed_copies gs exempt_digests active_digests exempt_hotkeys =
     foldl (\<lambda>out g. if stood_down exempt_digests active_digests exempt_hotkeys g then out else out \<union> set (copies g)) {} gs"

section \<open>The four signals\<close>

type_synonym row_key = "string \<times> string \<times> string"

definition min_overlap_rows :: nat where "min_overlap_rows = 30"

text \<open>The values of one prediction that count: those of its metrics whose \<open>p50\<close> is a number.\<close>

definition p50_of :: "json \<Rightarrow> float option" where
  "p50_of q = (case q of JDict d \<Rightarrow> (case map_of d ''p50'' of
       Some (JNum x) \<Rightarrow> Some x | Some (JBool b) \<Rightarrow> Some (if b then 1 else 0) | _ \<Rightarrow> None) | _ \<Rightarrow> None)"

definition note_metric :: "string \<Rightarrow> string \<Rightarrow> (row_key, float) dict \<Rightarrow> string \<times> json \<Rightarrow> (row_key, float) dict" where
  "note_metric e h rows item = (case item of (m, q) \<Rightarrow>
     (case p50_of q of None \<Rightarrow> rows | Some x \<Rightarrow> AList.update (e, h, m) x rows))"

text \<open>\<open>(metrics or {}).items()\<close>: a prediction that is true and no object has no \<open>items\<close>.\<close>

definition note_horizon :: "string \<Rightarrow> (row_key, float) dict \<Rightarrow> string \<times> json \<Rightarrow> py_error + (row_key, float) dict" where
  "note_horizon e rows item = (case item of (h, metrics) \<Rightarrow>
     (case metrics of JDict d \<Rightarrow> Inr (foldl (note_metric e h) rows d)
      | _ \<Rightarrow> if truthy metrics then Inl AttributeError else Inr rows))"

definition p50_rows :: "basket \<Rightarrow> py_error + (row_key, float) dict" where
  "p50_rows b = fold_sum (\<lambda>rows (e, hs). fold_sum (note_horizon e) rows hs) [] b"

text \<open>\<open>sorted(rows_a.keys() & rows_b.keys())\<close>.\<close>

definition shared_rows :: "(row_key, float) dict \<Rightarrow> (row_key, float) dict \<Rightarrow> row_key list" where
  "shared_rows a b = sort (filter (\<lambda>k. map_of b k \<noteq> None) (keys a))"

definition row_of :: "(row_key, float) dict \<Rightarrow> row_key \<Rightarrow> float" where
  "row_of rows k = (case map_of rows k of None \<Rightarrow> 0 | Some x \<Rightarrow> x)"

definition scale_of :: "(row_key, float) dict \<Rightarrow> row_key \<Rightarrow> float" where
  "scale_of actuals k = (case map_of actuals k of None \<Rightarrow> 1 | Some x \<Rightarrow> max \<bar>x\<bar> 1)"

definition scaled_gap :: "(row_key, float) dict \<Rightarrow> (row_key, float) dict \<Rightarrow> (row_key, float) dict \<Rightarrow> row_key \<Rightarrow> float" where
  "scaled_gap actuals a b k = fdiv \<bar>fsub (row_of a k) (row_of b k)\<bar> (scale_of actuals k)"

text \<open>The running total of the loop; a set is iterated in the order of \<open>order\<close>, which Python does not fix.\<close>

definition behavioural_distance ::
    "(row_key list \<Rightarrow> row_key list) \<Rightarrow> basket \<Rightarrow> basket \<Rightarrow> (row_key, float) dict \<Rightarrow> nat \<Rightarrow> py_error + float option" where
  "behavioural_distance order pa pb actuals min_overlap =
     and_then (p50_rows pa) (\<lambda>a. and_then (p50_rows pb) (\<lambda>b.
       let shared = shared_rows a b
       in if length shared < min_overlap then Inr None
          else map_sum id Some (fdiv_checked (foldl (\<lambda>total k. fadd total (scaled_gap actuals a b k)) 0 (order shared))
                                  (of_nat (length shared)))))"

record lineage_params =
  corr_min :: "float option"
  sign_agree_min :: "float option"
  distance_max :: "float option"
  disagree_max :: "float option"
  disagree_delta :: float
  params_version :: string

definition default_lineage_params :: lineage_params where
  "default_lineage_params = \<lparr>corr_min = None, sign_agree_min = None, distance_max = None, disagree_max = None,
     disagree_delta = fl (1 / 20), params_version = ''unset''\<rparr>"

definition configured :: "lineage_params \<Rightarrow> bool" where
  "configured p \<longleftrightarrow> corr_min p \<noteq> None \<and> sign_agree_min p \<noteq> None \<and> distance_max p \<noteq> None \<and> disagree_max p \<noteq> None"

record pair_signals =
  overlap :: nat
  correlation :: float
  sign_agreement :: float
  distance :: float
  disagreement :: float

definition signals_dict :: "pair_signals \<Rightarrow> json" where
  "signals_dict s = JDict [(''overlap'', jnat (overlap s)), (''correlation'', JNum (fround 6 (correlation s))),
     (''sign_agreement'', JNum (fround 6 (sign_agreement s))), (''distance'', JNum (fround 6 (distance s))),
     (''disagreement'', JNum (fround 6 (disagreement s)))]"

definition pearson :: "(float \<Rightarrow> float \<Rightarrow> float) \<Rightarrow> float list \<Rightarrow> float list \<Rightarrow> py_error + float" where
  "pearson powf xs ys =
     (let n = length xs in
      if n < 2 then Inr 1
      else let mx = fdiv (fsum xs) (of_nat n); my = fdiv (fsum ys) (of_nat n);
               dx = map (\<lambda>x. fsub x mx) xs; dy = map (\<lambda>y. fsub y my) ys;
               num = fsum (map2 fmul dx dy);
               denx = powf (fsum (map2 fmul dx dx)) (1 / 2); deny = powf (fsum (map2 fmul dy dy)) (1 / 2)
           in if denx = 0 \<and> deny = 0 then Inr 1
              else if denx = 0 \<or> deny = 0 then Inr 0
              else fdiv_checked num (fmul denx deny))"

definition agrees :: "float \<times> float \<Rightarrow> bool" where
  "agrees p = (case p of (x, y) \<Rightarrow> ((0 < x) = (0 < y)) \<or> (x = 0 \<and> y = 0))"

definition signals_of ::
    "(float \<Rightarrow> float \<Rightarrow> float) \<Rightarrow> basket \<Rightarrow> basket \<Rightarrow> (row_key, float) dict \<Rightarrow> float \<Rightarrow> nat \<Rightarrow> py_error + pair_signals option" where
  "signals_of powf pa pb actuals delta min_overlap =
     and_then (p50_rows pa) (\<lambda>a. and_then (p50_rows pb) (\<lambda>b.
     let shared = shared_rows a b;
         xs = map (row_of a) shared; ys = map (row_of b) shared;
         scaled = map (scaled_gap actuals a b) shared; n = of_nat (length shared)
     in if length shared < min_overlap then Inr None
        else and_then (pearson powf xs ys) (\<lambda>corr.
          and_then (fdiv_checked (of_nat (length (filter agrees (zip xs ys)))) n) (\<lambda>sign.
          and_then (fdiv_checked (fsum scaled) n) (\<lambda>dist.
          and_then (fdiv_checked (of_nat (length (filter (\<lambda>d. delta < d) scaled))) n) (\<lambda>dis.
            Inr (Some \<lparr>overlap = length shared, correlation = corr, sign_agreement = sign,
                       distance = dist, disagreement = dis\<rparr>)))))))"

definition same_lineage :: "pair_signals option \<Rightarrow> lineage_params \<Rightarrow> bool" where
  "same_lineage s p = (case (s, corr_min p, sign_agree_min p, distance_max p, disagree_max p) of
     (Some s, Some c, Some g, Some d, Some r) \<Rightarrow>
       c \<le> correlation s \<and> g \<le> sign_agreement s \<and> distance s \<le> d \<and> disagreement s \<le> r
   | _ \<Rightarrow> False)"


section \<open>Lineage groups\<close>

text \<open>The union-find of \<open>_components\<close>: every member is its own root at first; the loop of its \<open>find\<close> is
  \<open>find_loop\<close>.\<close>

definition link_pair ::
    "(hotkey \<Rightarrow> hotkey \<Rightarrow> bool) \<Rightarrow> (hotkey, hotkey) dict \<Rightarrow> hotkey \<times> hotkey \<Rightarrow> (py_error + (hotkey, hotkey) dict) option" where
  "link_pair linked parent pair = (case pair of (a, b) \<Rightarrow>
     if linked a b then andthen (find_loop parent a) (\<lambda>(p1, ra). andthen (find_loop p1 b) (\<lambda>(p2, rb).
       Some (Inr (if ra \<noteq> rb then AList.update ra rb p2 else p2))))
     else Some (Inr parent))"

text \<open>The pairs of the nested loops, in their order.\<close>

fun pairs_of :: "'a list \<Rightarrow> ('a \<times> 'a) list" where
  "pairs_of [] = []"
| "pairs_of (x # xs) = map (Pair x) xs @ pairs_of xs"

definition component_member ::
    "(hotkey, hotkey) dict \<times> (hotkey, hotkey list) dict \<Rightarrow> hotkey \<Rightarrow> (py_error + (hotkey, hotkey) dict \<times> (hotkey, hotkey list) dict) option" where
  "component_member acc m = (case acc of (parent, out) \<Rightarrow>
     andthen (find_loop parent m) (\<lambda>(p, r). Some (Inr (p, append_at r m out))))"

definition components :: "hotkey list \<Rightarrow> (hotkey \<Rightarrow> hotkey \<Rightarrow> bool) \<Rightarrow> (py_error + hotkey list list) option" where
  "components members linked =
     andthen (fold_calls (link_pair linked) (map (\<lambda>m. (m, m)) members) (pairs_of members)) (\<lambda>parent.
       andthen (fold_calls component_member (parent, []) members) (\<lambda>(_, out).
         Some (Inr (map sort (filter (\<lambda>c. 1 < length c) (map snd out))))))"

text \<open>The cache of pair signals. The loop over the pairs fills it completely, in the order of the pairs,
  and everything later is looked up.\<close>

type_synonym signal_cache = "(hotkey \<times> hotkey, pair_signals option) dict"

definition cache_pair ::
    "(float \<Rightarrow> float \<Rightarrow> float) \<Rightarrow> (hotkey, basket) dict \<Rightarrow> (row_key, float) dict \<Rightarrow> lineage_params \<Rightarrow> nat
      \<Rightarrow> signal_cache \<Rightarrow> hotkey \<times> hotkey \<Rightarrow> py_error + signal_cache" where
  "cache_pair powf predictions actuals params min_overlap cache pair = (case pair of (a, b) \<Rightarrow>
     map_sum id (\<lambda>s. cache @ [((a, b), s)])
       (signals_of powf (setdefault_get a predictions) (setdefault_get b predictions) actuals (disagree_delta params) min_overlap))"

definition cached :: "signal_cache \<Rightarrow> hotkey \<Rightarrow> hotkey \<Rightarrow> pair_signals option" where
  "cached cache a b = (case map_of cache (if a < b then (a, b) else (b, a)) of None \<Rightarrow> None | Some s \<Rightarrow> s)"

definition linked_by :: "signal_cache \<Rightarrow> lineage_params \<Rightarrow> hotkey \<Rightarrow> hotkey \<Rightarrow> bool" where
  "linked_by cache params a b = same_lineage (cached cache a b) params"

text \<open>The mean correlation of a member with the rest of its component.\<close>

definition affinity :: "signal_cache \<Rightarrow> hotkey list \<Rightarrow> hotkey \<Rightarrow> float" where
  "affinity cache pool m =
     (let vals = concat (map (\<lambda>oth. if oth = m then [] else case cached cache m oth of None \<Rightarrow> [] | Some s \<Rightarrow> [correlation s]) pool)
      in if vals = [] then - 1 else fdiv (fsum vals) (of_nat (length vals)))"

text \<open>\<open>max(members, key=affinity)\<close>: the first of the greatest.\<close>

definition medoid :: "signal_cache \<Rightarrow> hotkey list \<Rightarrow> hotkey" where
  "medoid cache members = hd (sort_key (\<lambda>m. - affinity cache members m) members)"

definition kept_members :: "signal_cache \<Rightarrow> lineage_params \<Rightarrow> bool \<Rightarrow> hotkey list \<Rightarrow> hotkey list" where
  "kept_members cache params require_medoid_edge component =
     (if require_medoid_edge \<and> 2 < length component
      then let c = medoid cache component in c # filter (\<lambda>m. m \<noteq> c \<and> linked_by cache params m c) component
      else component)"

definition lineage_key :: "(hotkey, 'b) dict \<Rightarrow> hotkey \<Rightarrow> 'b inf_default \<times> hotkey" where
  "lineage_key precedence hk = (get_or_inf precedence hk, hk)"

definition widest :: "signal_cache \<Rightarrow> hotkey list \<Rightarrow> float" where
  "widest cache members =
     (let ds = concat (map (\<lambda>a. concat (map (\<lambda>b. if a < b then case cached cache a b of None \<Rightarrow> [] | Some s \<Rightarrow> [distance s] else []) members)) members)
      in if ds = [] then 0 else Max (set ds))"

definition lineage_group :: "signal_cache \<Rightarrow> lineage_params \<Rightarrow> (hotkey, 'b::linorder) dict \<Rightarrow> hotkey list \<Rightarrow> model_group" where
  "lineage_group cache params precedence members =
     (let ordered = sort_key (lineage_key precedence) members
      in \<lparr>group_kind = SameLineage, original = hd ordered, copies = tl ordered,
          evidence = int_text (int (length members)) @ '' hotkeys of one lineage under params@'' @ params_version params
            @ '' (widest scaled distance '' @ fixed4 (widest cache members)
            @ ''); every pair signal recomputable from the day's receipt'', group_digest = None\<rparr>)"

definition pairwise_audit :: "signal_cache \<Rightarrow> (string, json) dict" where
  "pairwise_audit cache = concat (map (\<lambda>((a, b), s). case s of None \<Rightarrow> [] | Some x \<Rightarrow> [(a @ ''|'' @ b, signals_dict x)]) cache)"

definition lineage_collisions ::
    "(float \<Rightarrow> float \<Rightarrow> float) \<Rightarrow> (hotkey, basket) dict \<Rightarrow> (row_key, float) dict \<Rightarrow> lineage_params
      \<Rightarrow> (hotkey, 'b::linorder) dict \<Rightarrow> bool \<Rightarrow> nat \<Rightarrow> (py_error + model_group list \<times> (string, json) dict) option" where
  "lineage_collisions powf predictions actuals params precedence require_medoid_edge min_overlap =
     (let miners = sort (keys predictions) in
      if \<not> configured params \<or> length miners < 2 then Some (Inr ([], []))
      else case fold_sum (cache_pair powf predictions actuals params min_overlap) [] (pairs_of miners) of
          Inl e \<Rightarrow> Some (Inl e)
        | Inr cache \<Rightarrow> andthen (components miners (linked_by cache params)) (\<lambda>cs.
            Some (Inr (map (lineage_group cache params precedence)
                         (filter (\<lambda>ms. 2 \<le> length ms) (map (kept_members cache params require_medoid_edge) cs)),
                       pairwise_audit cache))))"


section \<open>Grouping by a key\<close>

definition grouped :: "('a \<Rightarrow> 'k option) \<Rightarrow> ('a \<Rightarrow> 'v) \<Rightarrow> 'a list \<Rightarrow> ('k, 'v list) dict" where
  "grouped f g xs = foldl (\<lambda>d x. case f x of None \<Rightarrow> d | Some k \<Rightarrow> append_at k (g x) d) [] xs"

definition at_key :: "('a \<Rightarrow> 'k option) \<Rightarrow> ('a \<Rightarrow> 'v) \<Rightarrow> 'a list \<Rightarrow> 'k \<Rightarrow> 'v list" where
  "at_key f g xs k = map g (filter (\<lambda>x. f x = Some k) xs)"

lemma map_of_append_at: "map_of (append_at k v d) j = (if j = k then Some (setdefault_get k d @ [v]) else map_of d j)"
  by (simp add: append_at_def setdefault_get_def map_of_update split: option.split)

lemma dict_ok_append_at: "dict_ok d \<Longrightarrow> dict_ok (append_at k v d)"
  unfolding append_at_def by (rule dict_ok_update)

lemma grouped_lookup:
  "dict_ok (grouped f g xs) \<and> map_of (grouped f g xs) k = (if at_key f g xs k = [] then None else Some (at_key f g xs k))"
proof (induction xs rule: rev_induct)
  case Nil
  show ?case by (simp add: grouped_def at_key_def)
next
  case (snoc x xs)
  show ?case
  proof (cases "f x")
    case None
    then show ?thesis using snoc by (simp add: grouped_def at_key_def)
  next
    case (Some j)
    then have g: "grouped f g (xs @ [x]) = append_at j (g x) (grouped f g xs)" by (simp add: grouped_def)
    show ?thesis unfolding g
      using snoc Some by (auto simp: map_of_append_at dict_ok_append_at at_key_def setdefault_get_def)
  qed
qed

lemmas grouped_ok = grouped_lookup [THEN conjunct1] and grouped_map = grouped_lookup [THEN conjunct2]

text \<open>The entries of a grouped dict, whatever the order they are visited in.\<close>

lemma grouped_items:
  "(k, ys) \<in> set (sort_key h (grouped f g xs)) \<longleftrightarrow> ys = at_key f g xs k \<and> ys \<noteq> []"
proof -
  have "(k, ys) \<in> set (grouped f g xs) \<longleftrightarrow> map_of (grouped f g xs) k = Some ys"
    using grouped_ok [where f = f and g = g and xs = xs] by (metis map_of_eq_Some_iff map_of_SomeD map_of_is_SomeI)
  then show ?thesis by (auto simp: grouped_map)
qed

lemma by_print_grouped: "by_print prints = grouped (\<lambda>(hk, fp). if fp = [] then None else Some fp) fst prints"
  by (auto simp: by_print_def grouped_def intro!: foldl_cong)

lemma by_digest_grouped: "by_digest subs = grouped (\<lambda>s. Some (sub_digest s)) id subs"
  by (auto simp: by_digest_def grouped_def intro!: foldl_cong)

section \<open>One payer per behaviour\<close>

interpretation member_rank: ranking "member_key precedence history fp"
  for precedence :: "(hotkey, 'b::linorder) dict" and history fp
  by unfold_locales (simp add: member_key_def)

text \<open>Sorting by a ranking: who is not first has somebody before it.\<close>

lemma not_first_iff:
  fixes key :: "'a \<Rightarrow> 'k::linorder"
  assumes "inj key" and "distinct xs"
  shows "x \<in> set (tl (sort_key key xs)) \<longleftrightarrow> x \<in> set xs \<and> (\<exists>y \<in> set xs. key y < key x)"
proof (cases "sort_key key xs")
  case Nil
  then have "xs = []" by (metis set_empty set_sort)
  then show ?thesis by simp
next
  case (Cons z zs)
  have "sorted (map key (z # zs))" "distinct (z # zs)" "set (z # zs) = set xs"
    using Cons assms(2) by (metis sorted_sort_key, metis distinct_sort, metis set_sort)
  then have le: "\<forall>y \<in> set zs. key z \<le> key y" and z: "z \<notin> set zs" "set xs = insert z (set zs)" by auto
  have less: "\<forall>y \<in> set zs. key z < key y" using le z(1) assms(1) by (metis injD order_le_imp_less_or_eq)
  then show ?thesis using z Cons by (auto dest: order.asym)
qed

lemma first_of_sort: "xs \<noteq> [] \<Longrightarrow> hd (sort_key key xs) \<in> set xs"
  by (metis hd_in_set set_empty set_sort)

lemma group_all_sorted: "xs \<noteq> [] \<Longrightarrow> set (hd (sort_key key xs) # tl (sort_key key xs)) = set xs"
  by (metis hd_Cons_tl set_empty set_sort)


lemma suppressed_iff:
  "hk \<in> suppressed_copies gs D A E \<longleftrightarrow> (\<exists>g \<in> set gs. \<not> stood_down D A E g \<and> hk \<in> set (copies g))"
proof -
  have "hk \<in> foldl (\<lambda>out g. if stood_down D A E g then out else out \<union> set (copies g)) S gs \<longleftrightarrow>
      hk \<in> S \<or> (\<exists>g \<in> set gs. \<not> stood_down D A E g \<and> hk \<in> set (copies g))" for S
    by (induction gs arbitrary: S) auto
  then show ?thesis by (simp add: suppressed_copies_def)
qed

text \<open>The hotkeys that produced a behaviour.\<close>

definition producers :: "(hotkey, string) dict \<Rightarrow> string \<Rightarrow> hotkey list" where
  "producers prints fp = map fst (filter (\<lambda>(hk, f). f = fp) prints)"

lemma producers_iff: "dict_ok prints \<Longrightarrow> hk \<in> set (producers prints fp) \<longleftrightarrow> map_of prints hk = Some fp"
  by (auto simp: producers_def image_iff)

lemma distinct_producers: "dict_ok prints \<Longrightarrow> distinct (producers prints fp)"
  unfolding producers_def by (induction prints) (auto simp: image_iff)

lemma collisions_iff:
  fixes precedence :: "(hotkey, 'b::linorder) dict"
  shows "g \<in> set (prediction_collisions prints precedence history) \<longleftrightarrow>
    (\<exists>fp. fp \<noteq> [] \<and> 2 \<le> length (producers prints fp) \<and> g = behaviour_group precedence history fp (producers prints fp))"
proof -
  have at: "at_key (\<lambda>(hk, fp). if fp = [] then None else Some fp) fst prints k = (if k = [] then [] else producers prints k)" for k
    by (auto simp: at_key_def producers_def filter_empty_conv intro!: arg_cong [where f = "map fst"] filter_cong split: if_splits)
  have items: "(fp, hks) \<in> set (sort_key fst (by_print prints)) \<longleftrightarrow> fp \<noteq> [] \<and> hks = producers prints fp \<and> hks \<noteq> []" for fp hks
    unfolding by_print_grouped grouped_items at by auto
  show ?thesis unfolding prediction_collisions_def set_map set_filter using items by (auto simp: image_iff)
qed

lemma behaviour_copies:
  fixes precedence :: "(hotkey, 'b::linorder) dict"
  assumes "dict_ok prints"
  shows "hk \<in> set (copies (behaviour_group precedence history fp (producers prints fp))) \<longleftrightarrow> map_of prints hk = Some fp \<and>
    (\<exists>oth. map_of prints oth = Some fp \<and> member_key precedence history fp oth < member_key precedence history fp hk)"
  unfolding behaviour_group_def Let_def
  using not_first_iff [OF member_rank.inj_key [of precedence history fp] distinct_producers [OF assms, of fp], of hk]
  by (auto simp: producers_iff [OF assms])

lemma member_key_less:
  "member_key precedence history fp a < member_key precedence history fp b \<longleftrightarrow>
     get_or_inf history (fp, a) < get_or_inf history (fp, b) \<or> get_or_inf history (fp, a) = get_or_inf history (fp, b) \<and>
     (get_or_inf precedence a < get_or_inf precedence b \<or> get_or_inf precedence a = get_or_inf precedence b \<and> a < b)"
  by (auto simp: member_key_def less_prod_def order.order_iff_strict)

lemma copies_excluded:
  fixes precedence :: "(hotkey, 'b::linorder) dict"
  assumes "dict_ok prints"
  shows "hk \<in> suppressed_copies (prediction_collisions prints precedence history) {} [] exempt \<longleftrightarrow>
    (\<exists>fp oth. fp \<noteq> [] \<and> map_of prints hk = Some fp \<and> map_of prints oth = Some fp \<and>
      member_key precedence history fp oth < member_key precedence history fp hk \<and>
      (\<forall>x. map_of prints x = Some fp \<longrightarrow> x \<notin> exempt))"
proof -
  let ?g = "\<lambda>fp. behaviour_group precedence history fp (producers prints fp)"
  have all: "set (group_all (?g fp)) = set (producers prints fp)" if "producers prints fp \<noteq> []" for fp
    using group_all_sorted [OF that] by (simp add: group_all_def behaviour_group_def Let_def)
  have down: "stood_down {} [] exempt (?g fp) \<longleftrightarrow> (\<exists>x. map_of prints x = Some fp \<and> x \<in> exempt)" if "producers prints fp \<noteq> []" for fp
  proof -
    have "stood_down {} [] exempt (?g fp) \<longleftrightarrow> (\<exists>x \<in> set (group_all (?g fp)). x \<in> exempt)"
      by (simp add: stood_down_def behaviour_group_def Let_def list_ex_iff split: option.split)
    then show ?thesis unfolding all [OF that] by (auto simp: producers_iff [OF assms])
  qed
  have two: "2 \<le> length (producers prints fp)" if "map_of prints a = Some fp" "map_of prints b = Some fp" "a \<noteq> b" for a b fp
  proof -
    have "card {a, b} \<le> card (set (producers prints fp))"
      using that by (intro card_mono) (simp_all add: producers_iff [OF assms])
    then show ?thesis using card_length [of "producers prints fp"] that(3) by simp
  qed
  show ?thesis unfolding suppressed_iff Bex_def collisions_iff
  proof (intro iffI; elim bexE exE conjE)
    fix g fp
    assume "g = ?g fp" and "fp \<noteq> []" and l: "2 \<le> length (producers prints fp)" and g: "\<not> stood_down {} [] exempt g" "hk \<in> set (copies g)"
    moreover have "producers prints fp \<noteq> []" using l by auto
    ultimately show "\<exists>fp oth. fp \<noteq> [] \<and> map_of prints hk = Some fp \<and> map_of prints oth = Some fp \<and>
      member_key precedence history fp oth < member_key precedence history fp hk \<and>
      (\<forall>x. map_of prints x = Some fp \<longrightarrow> x \<notin> exempt)"
      using behaviour_copies [OF assms, of hk precedence history fp] down by blast
  next
    fix fp oth
    assume a: "fp \<noteq> []" "map_of prints hk = Some fp" "map_of prints oth = Some fp"
      "member_key precedence history fp oth < member_key precedence history fp hk" "\<forall>x. map_of prints x = Some fp \<longrightarrow> x \<notin> exempt"
    then have l: "2 \<le> length (producers prints fp)" using two [of oth fp hk] by auto
    then have "\<not> stood_down {} [] exempt (?g fp)" using down [of fp] a(5) by force
    moreover have "hk \<in> set (copies (?g fp))" using behaviour_copies [OF assms, of hk precedence history fp] a(2-4) by blast
    ultimately show "\<exists>x. (\<exists>fp. fp \<noteq> [] \<and> 2 \<le> length (producers prints fp) \<and> x = ?g fp) \<and> \<not> stood_down {} [] exempt x \<and> hk \<in> set (copies x)"
      using l a(1) by blast
  qed
qed

text \<open>C34. One payer per behaviour, and it is the first to have shown it: under the one-payer policy a
  hotkey is excluded exactly when another hotkey with the same fingerprint ranks before it (recorded
  first, else earlier by precedence, else by hotkey; what is unknown comes last) and no hotkey of that fingerprint is exempt. So
  every group keeps exactly one earner, and an exempt member stands the whole group down.\<close>

theorem cd_first_producer_is_paid:
  fixes precedence :: "(hotkey, 'b::linorder) dict"
  assumes "dict_ok prints"
  shows "hk \<in> suppressed_copies (prediction_collisions prints precedence history) {} [] exempt \<longleftrightarrow>
    (\<exists>fp oth. fp \<noteq> [] \<and> map_of prints hk = Some fp \<and> map_of prints oth = Some fp \<and>
      (let day = (\<lambda>x. get_or_inf history (fp, x)); rank = get_or_inf precedence in
         day oth < day hk \<or> day oth = day hk \<and> (rank oth < rank hk \<or> rank oth = rank hk \<and> oth < hk)) \<and>
      (\<forall>x. map_of prints x = Some fp \<longrightarrow> x \<notin> exempt))"
  unfolding Let_def member_key_less [symmetric] using assms by (rule copies_excluded)

text \<open>Two hotkeys with one behaviour, the later hotkey recorded first; and two recorded on one day, the later
  hotkey ahead by precedence.\<close>

theorem cd_first_producer_is_paid_witness:
  "''a'' \<in> suppressed_copies (prediction_collisions [(''a'', ''f''), (''b'', ''f'')] ([] :: (hotkey, string) dict)
     [((''f'', ''b''), ''2026-08-01'')]) {} [] {} \<and>
   ''a'' \<in> suppressed_copies (prediction_collisions [(''a'', ''f''), (''b'', ''f'')] [(''a'', ''2026-08-02''), (''b'', ''2026-08-01'')]
     [((''f'', ''a''), ''2026-08-03''), ((''f'', ''b''), ''2026-08-03'')]) {} [] {}"
proof
  show "''a'' \<in> suppressed_copies (prediction_collisions [(''a'', ''f''), (''b'', ''f'')] ([] :: (hotkey, string) dict)
     [((''f'', ''b''), ''2026-08-01'')]) {} [] {}"
    by (subst cd_first_producer_is_paid) (auto simp: get_or_inf_def less_inf_default_def intro!: exI [of _ "''f''"] exI [of _ "''b''"])
  show "''a'' \<in> suppressed_copies (prediction_collisions [(''a'', ''f''), (''b'', ''f'')] [(''a'', ''2026-08-02''), (''b'', ''2026-08-01'')]
     [((''f'', ''a''), ''2026-08-03''), ((''f'', ''b''), ''2026-08-03'')]) {} [] {}"
    by (subst cd_first_producer_is_paid) (auto simp: get_or_inf_def less_inf_default_def intro!: exI [of _ "''f''"] exI [of _ "''b''"])
qed

section \<open>Precedence\<close>

lemma active_lookup:
  "dict_ok (active_submission subs) \<and> (case map_of (active_submission subs) hk of
     None \<Rightarrow> \<forall>t \<in> set subs. sub_hotkey t \<noteq> hk
   | Some s \<Rightarrow> s \<in> set subs \<and> sub_hotkey s = hk \<and> (\<forall>t \<in> set subs. sub_hotkey t = hk \<longrightarrow> first_seen_block t \<le> first_seen_block s))"
proof (induction subs rule: rev_induct)
  case (snoc x xs)
  have step: "active_submission (xs @ [x]) = note_active (active_submission xs) x" by (simp add: active_submission_def)
  show ?case
  proof (cases "sub_hotkey x = hk")
    case True
    then show ?thesis using snoc unfolding step
      by (cases "map_of (active_submission xs) hk") (auto simp: note_active_def map_of_update split: option.splits)
  next
    case False
    then have "map_of (active_submission (xs @ [x])) hk = map_of (active_submission xs) hk"
      unfolding step by (auto simp: note_active_def map_of_update split: option.split)
    moreover have "dict_ok (active_submission (xs @ [x]))"
      unfolding step using snoc dict_ok_update by (auto simp: note_active_def split: option.split)
    ultimately show ?thesis using snoc False by (cases "map_of (active_submission xs) hk") simp_all
  qed
qed (simp add: active_submission_def)

lemma active_sub:
  assumes "map_of (active_submission subs) hk = Some s"
  shows "s \<in> set subs" and "sub_hotkey s = hk"
    and "\<forall>t \<in> set subs. sub_hotkey t = hk \<longrightarrow> first_seen_block t \<le> first_seen_block s"
  using active_lookup [of subs hk] unfolding assms by simp_all

lemma first_lookup:
  "case map_of (first_for_pair subs) k of
     None \<Rightarrow> \<forall>t \<in> set subs. (sub_hotkey t, sub_digest t) \<noteq> k
   | Some b \<Rightarrow> (\<exists>t \<in> set subs. (sub_hotkey t, sub_digest t) = k \<and> first_seen_block t = b) \<and>
      (\<forall>t \<in> set subs. (sub_hotkey t, sub_digest t) = k \<longrightarrow> b \<le> first_seen_block t)"
proof (induction subs rule: rev_induct)
  case (snoc x xs)
  have step: "first_for_pair (xs @ [x]) = note_first (first_for_pair xs) x" by (simp add: first_for_pair_def)
  show ?case
  proof (cases "(sub_hotkey x, sub_digest x) = k")
    case True
    then show ?thesis using snoc unfolding step
      by (cases "map_of (first_for_pair xs) k") (auto simp: note_first_def map_of_update Let_def)
  next
    case False
    then have "map_of (first_for_pair (xs @ [x])) k = map_of (first_for_pair xs) k"
      unfolding step by (auto simp: note_first_def map_of_update Let_def split: option.split)
    then show ?thesis using snoc False by (auto split: option.splits)
  qed
qed (simp add: first_for_pair_def)

lemma fold_all_found:
  assumes "\<forall>(k, v) \<in> set xs. \<exists>b. f k v = Some b"
  shows "fold_sum (\<lambda>out (k, v). case f k v of None \<Rightarrow> Inl e | Some b \<Rightarrow> Inr (out @ [(k, b)])) out xs
    = Inr (out @ map (\<lambda>(k, v). (k, the (f k v))) xs)"
  using assms by (induction xs arbitrary: out) (auto split: option.splits)

lemma map_of_mapped: "map_of (map (\<lambda>(k, v). (k, f k v)) d) k = map_option (f k) (map_of d k)"
  by (induction d) auto

lemma precedence_found:
  "precedence_map subs = Inr (map (\<lambda>(hk, s). (hk, the (map_of (first_for_pair subs) (hk, sub_digest s)))) (active_submission subs))"
proof -
  have "\<exists>b. map_of (first_for_pair subs) (hk, sub_digest s) = Some b" if "(hk, s) \<in> set (active_submission subs)" for hk s
  proof -
    have "map_of (active_submission subs) hk = Some s" using that active_lookup by (metis map_of_is_SomeI)
    note active_sub(1,2) [OF this]
    then show ?thesis using first_lookup [of subs "(hk, sub_digest s)"] by (auto split: option.splits)
  qed
  then have all: "\<forall>(hk, s) \<in> set (active_submission subs). \<exists>b. map_of (first_for_pair subs) (hk, sub_digest s) = Some b" by blast
  have "precedence_step subs = (\<lambda>out (hk, s). case map_of (first_for_pair subs) (hk, sub_digest s) of
      None \<Rightarrow> Inl KeyError | Some b \<Rightarrow> Inr (out @ [(hk, b)]))"
    by (simp add: fun_eq_iff precedence_step_def)
  then show ?thesis unfolding precedence_map_def
    using fold_all_found [where f = "\<lambda>hk s. map_of (first_for_pair subs) (hk, sub_digest s)" and out = "[]" and e = KeyError, OF all] by simp
qed

text \<open>C35. Precedence is per model: \<open>precedence_map\<close> returns for every hotkey that ever committed, and
  what it returns is the earliest block at which the hotkey committed the digest of its latest
  submission. Older, other models of the hotkey do not count, and committing the same model again
  does not move its date.\<close>

theorem cd_precedence_of_running_model:
  "\<exists>out. precedence_map subs = Inr out \<and>
    (\<forall>hk. map_of out hk = None \<longleftrightarrow> (\<forall>t \<in> set subs. sub_hotkey t \<noteq> hk)) \<and>
    (\<forall>hk b. map_of out hk = Some b \<longrightarrow> (\<exists>s \<in> set subs. sub_hotkey s = hk \<and>
      (\<forall>t \<in> set subs. sub_hotkey t = hk \<longrightarrow> first_seen_block t \<le> first_seen_block s) \<and>
      (\<exists>t \<in> set subs. sub_hotkey t = hk \<and> sub_digest t = sub_digest s \<and> first_seen_block t = b) \<and>
      (\<forall>t \<in> set subs. sub_hotkey t = hk \<and> sub_digest t = sub_digest s \<longrightarrow> b \<le> first_seen_block t)))"
proof -
  let ?f = "\<lambda>hk s. the (map_of (first_for_pair subs) (hk, sub_digest s))"
  have look: "map_of (map (\<lambda>(hk, s). (hk, ?f hk s)) (active_submission subs)) hk
      = map_option (?f hk) (map_of (active_submission subs) hk)" for hk
    by (rule map_of_mapped)
  show ?thesis
  proof (intro exI conjI allI impI)
    show "precedence_map subs = Inr (map (\<lambda>(hk, s). (hk, ?f hk s)) (active_submission subs))" by (rule precedence_found)
  next
    fix hk
    show "map_of (map (\<lambda>(hk, s). (hk, ?f hk s)) (active_submission subs)) hk = None \<longleftrightarrow> (\<forall>t \<in> set subs. sub_hotkey t \<noteq> hk)"
      unfolding look using active_lookup [of subs hk] by (auto split: option.splits)
  next
    fix hk b
    assume "map_of (map (\<lambda>(hk, s). (hk, ?f hk s)) (active_submission subs)) hk = Some b"
    then obtain s where s: "map_of (active_submission subs) hk = Some s" "b = ?f hk s" unfolding look by auto
    note a = active_sub [OF s(1)]
    obtain c where "map_of (first_for_pair subs) (hk, sub_digest s) = Some c"
      using a first_lookup [of subs "(hk, sub_digest s)"] by (auto split: option.splits)
    then show "\<exists>s \<in> set subs. sub_hotkey s = hk \<and>
      (\<forall>t \<in> set subs. sub_hotkey t = hk \<longrightarrow> first_seen_block t \<le> first_seen_block s) \<and>
      (\<exists>t \<in> set subs. sub_hotkey t = hk \<and> sub_digest t = sub_digest s \<and> first_seen_block t = b) \<and>
      (\<forall>t \<in> set subs. sub_hotkey t = hk \<and> sub_digest t = sub_digest s \<longrightarrow> b \<le> first_seen_block t)"
      using a s(2) first_lookup [of subs "(hk, sub_digest s)"] by (intro bexI [OF _ a(1)]) auto
  qed
qed


text \<open>A hotkey that committed an old model long ago and its running model later.\<close>

theorem cd_precedence_of_running_model_witness:
  "\<exists>out b. precedence_map [\<lparr>sub_hotkey = ''a'', sub_digest = ''old'', first_seen_block = 1\<rparr>,
     \<lparr>sub_hotkey = ''a'', sub_digest = ''new'', first_seen_block = 9\<rparr>] = Inr out \<and> map_of out ''a'' = Some b \<and> b \<noteq> 1"
proof -
  let ?s = "[\<lparr>sub_hotkey = ''a'', sub_digest = ''old'', first_seen_block = 1\<rparr>,
    \<lparr>sub_hotkey = ''a'', sub_digest = ''new'', first_seen_block = 9\<rparr>]"
  obtain out where out: "precedence_map ?s = Inr out" "map_of out ''a'' \<noteq> None"
    and all: "\<forall>b. map_of out ''a'' = Some b \<longrightarrow> (\<exists>s \<in> set ?s. sub_hotkey s = ''a'' \<and>
      (\<forall>t \<in> set ?s. sub_hotkey t = ''a'' \<longrightarrow> first_seen_block t \<le> first_seen_block s) \<and>
      (\<exists>t \<in> set ?s. sub_hotkey t = ''a'' \<and> sub_digest t = sub_digest s \<and> first_seen_block t = b))"
    using cd_precedence_of_running_model [of ?s] by force
  then obtain b where b: "map_of out ''a'' = Some b" by blast
  then have "b \<noteq> 1" using all by force
  then show ?thesis using out(1) b by blast
qed

text \<open>The digest test has no such memory: a hotkey that commits its own model a second time shares a
  digest with itself, so it is listed as a copy of itself and the one-payer policy excludes it, although
  its precedence over the model is still its first commitment.\<close>

theorem cd_repush_is_its_own_copy:
  "hk \<in> suppressed_copies (digest_collisions [\<lparr>sub_hotkey = hk, sub_digest = dg, first_seen_block = b\<rparr>,
       \<lparr>sub_hotkey = hk, sub_digest = dg, first_seen_block = b'\<rparr>]) {} [] {} \<and>
   precedence_map [\<lparr>sub_hotkey = hk, sub_digest = dg, first_seen_block = b\<rparr>,
       \<lparr>sub_hotkey = hk, sub_digest = dg, first_seen_block = b'\<rparr>] = Inr [(hk, min b b')]"
proof -
  let ?s = "\<lparr>sub_hotkey = hk, sub_digest = dg, first_seen_block = b\<rparr>" and ?t = "\<lparr>sub_hotkey = hk, sub_digest = dg, first_seen_block = b'\<rparr>"
  have "digest_collisions [?s, ?t] = [digest_group dg [?s, ?t]]"
    by (simp add: digest_collisions_def by_digest_def append_at_def)
  moreover have "hk \<in> set (copies (digest_group dg [?s, ?t]))"
    by (simp add: digest_group_def Let_def submission_key_def less_eq_prod_def)
  ultimately have "hk \<in> suppressed_copies (digest_collisions [?s, ?t]) {} [] {}"
    unfolding suppressed_iff by (simp add: stood_down_def digest_group_def Let_def list_ex_iff)
  moreover have "precedence_map [?s, ?t] = Inr [(hk, min b b')]"
    by (auto simp: precedence_map_def active_submission_def note_active_def precedence_step_def first_for_pair_def note_first_def Let_def)
  ultimately show ?thesis by blast
qed

section \<open>Fingerprints bind predictions\<close>

text \<open>What a miner shows on a receipt, read off the rows: its value for an episode and a horizon is that of
  its last row with those ids.\<close>

definition row_episode :: "(json \<Rightarrow> string) \<Rightarrow> json \<Rightarrow> string" where
  "row_episode dumps x = id_text dumps (jget x ''episode_id'')"

definition row_horizon :: "(json \<Rightarrow> string) \<Rightarrow> json \<Rightarrow> string" where
  "row_horizon dumps x = id_text dumps (jget x ''horizon_days'')"

definition miner_rows :: "(json \<Rightarrow> string) \<Rightarrow> json list \<Rightarrow> hotkey \<Rightarrow> json list" where
  "miner_rows dumps entries m =
     filter (\<lambda>x. truthy (jget x ''miner'') \<and> jget x ''prediction'' \<noteq> JNull \<and> id_text dumps (jget x ''miner'') = m) entries"

definition shown :: "(json \<Rightarrow> string) \<Rightarrow> (json \<Rightarrow> json) \<Rightarrow> json list \<Rightarrow> hotkey \<Rightarrow> string \<Rightarrow> string \<Rightarrow> json option" where
  "shown dumps view entries m e h =
     (let rows = filter (\<lambda>x. row_episode dumps x = e \<and> row_horizon dumps x = h) (miner_rows dumps entries m)
      in if rows = [] then None else Some (view (jget (last rows) ''prediction'')))"

text \<open>The document of what it shows, episodes and horizons in order.\<close>

definition shown_doc :: "(json \<Rightarrow> string) \<Rightarrow> (json \<Rightarrow> json) \<Rightarrow> json list \<Rightarrow> hotkey \<Rightarrow> json" where
  "shown_doc dumps view entries m =
     (let rows = miner_rows dumps entries m in
      JDict (map (\<lambda>e. (e, JDict (map (\<lambda>h. (h, sorted_keys (the (shown dumps view entries m e h))))
          (sorted_list_of_set (row_horizon dumps ` {x \<in> set rows. row_episode dumps x = e})))))
        (sorted_list_of_set (row_episode dumps ` set rows))))"

lemma shown_snoc:
  "shown dumps view (es @ [x]) m e h =
     (if truthy (jget x ''miner'') \<and> jget x ''prediction'' \<noteq> JNull \<and> id_text dumps (jget x ''miner'') = m \<and>
         row_episode dumps x = e \<and> row_horizon dumps x = h
      then Some (view (jget x ''prediction'')) else shown dumps view es m e h)"
  by (simp add: shown_def miner_rows_def Let_def)

lemma setdefault_get_update: "setdefault_get k (AList.update k' v d) = (if k = k' then v else setdefault_get k d)"
  by (simp add: setdefault_get_def map_of_update)

lemma dict_ok_fingerprint_row: "dict_ok per \<Longrightarrow> dict_ok (fingerprint_row dumps view per e)"
  by (auto simp: fingerprint_row_def put_prediction_def Let_def)

lemma dict_ok_rows: "dict_ok per \<Longrightarrow> dict_ok (foldl (fingerprint_row dumps view) per entries)"
  by (induction entries arbitrary: per) (simp_all add: dict_ok_fingerprint_row)

text \<open>A basket that holds what the rows show.\<close>

definition holds_rows :: "(json \<Rightarrow> string) \<Rightarrow> (json \<Rightarrow> json) \<Rightarrow> json list \<Rightarrow> hotkey \<Rightarrow> basket \<Rightarrow> bool" where
  "holds_rows dumps view es m b \<longleftrightarrow> dict_ok b \<and> set (keys b) = row_episode dumps ` set (miner_rows dumps es m) \<and>
     (\<forall>e. dict_ok (setdefault_get e b) \<and>
        set (keys (setdefault_get e b)) = row_horizon dumps ` {x \<in> set (miner_rows dumps es m). row_episode dumps x = e} \<and>
        (\<forall>h. map_of (setdefault_get e b) h = shown dumps view es m e h))"

lemma holds_rows_put:
  assumes "holds_rows dumps view es m b"
    and x: "truthy (jget x ''miner'')" "jget x ''prediction'' \<noteq> JNull" "id_text dumps (jget x ''miner'') = m"
  shows "holds_rows dumps view (es @ [x]) m (AList.update (row_episode dumps x)
     (AList.update (row_horizon dumps x) (view (jget x ''prediction'')) (setdefault_get (row_episode dumps x) b)) b)"
proof -
  have rows: "miner_rows dumps (es @ [x]) m = miner_rows dumps es m @ [x]" using x by (simp add: miner_rows_def)
  show ?thesis unfolding holds_rows_def setdefault_get_update rows shown_snoc
    using assms(1) x by (auto simp: holds_rows_def map_of_update)
qed

lemma fingerprint_rows:
  "\<forall>m. (map_of (foldl (fingerprint_row dumps view) [] es) m = None \<longleftrightarrow> miner_rows dumps es m = []) \<and>
     holds_rows dumps view es m (setdefault_get m (foldl (fingerprint_row dumps view) [] es))"
proof (induction es rule: rev_induct)
  case Nil
  then show ?case by (simp add: miner_rows_def holds_rows_def setdefault_get_def shown_def)
next
  case (snoc x es)
  let ?per = "foldl (fingerprint_row dumps view) [] es"
  let ?k = "id_text dumps (jget x ''miner'')"
  show ?case
  proof (cases "truthy (jget x ''miner'') \<and> jget x ''prediction'' \<noteq> JNull")
    case False
    then have "foldl (fingerprint_row dumps view) [] (es @ [x]) = ?per" "\<And>m. miner_rows dumps (es @ [x]) m = miner_rows dumps es m"
      by (auto simp: fingerprint_row_def miner_rows_def)
    then show ?thesis using snoc by (simp add: holds_rows_def shown_def)
  next
    case True
    let ?b = "AList.update (row_episode dumps x)
       (AList.update (row_horizon dumps x) (view (jget x ''prediction'')) (setdefault_get (row_episode dumps x) (setdefault_get ?k ?per))) (setdefault_get ?k ?per)"
    have per: "foldl (fingerprint_row dumps view) [] (es @ [x]) = AList.update ?k ?b ?per"
      using True by (simp add: fingerprint_row_def put_prediction_def Let_def row_episode_def row_horizon_def)
    have rows: "miner_rows dumps (es @ [x]) m = (if m = ?k then miner_rows dumps es m @ [x] else miner_rows dumps es m)" for m
      using True by (simp add: miner_rows_def)
    have other: "holds_rows dumps view (es @ [x]) m b = holds_rows dumps view es m b" if "m \<noteq> ?k" for m b
      using that by (simp add: holds_rows_def shown_def rows)
    have "holds_rows dumps view (es @ [x]) ?k ?b" using snoc True by (intro holds_rows_put) simp_all
    then show ?thesis unfolding per setdefault_get_update rows using snoc other by (simp add: map_of_update)
  qed
qed

lemma sort_dict: "dict_ok d \<Longrightarrow> sort_key fst d = map (\<lambda>k. (k, the (map_of d k))) (sorted_list_of_set (set (keys d)))"
proof -
  assume d: "dict_ok d"
  let ?s = "sort_key fst d"
  have s: "dict_ok ?s" using dict_ok_sort [OF d] .
  have "map (\<lambda>k. (k, the (map_of ?s k))) (keys ?s) = ?s"
    using s by (auto simp: comp_def intro!: map_idI)
  moreover have "keys ?s = sorted_list_of_set (set (keys d))"
    using d by (intro sorted_distinct_set_unique) (simp_all add: s [simplified])
  ultimately show ?thesis unfolding map_of_sort [OF d] by simp
qed

lemma sorted_keys_dict:
  "dict_ok d \<Longrightarrow> sorted_keys (JDict d) = JDict (map (\<lambda>k. (k, sorted_keys (the (map_of d k)))) (sorted_list_of_set (set (keys d))))"
proof -
  assume d: "dict_ok d"
  let ?d = "map (\<lambda>(k, v). (k, sorted_keys v)) d"
  have k: "keys ?d = keys d" by (simp add: comp_def case_prod_beta)
  have "sort_key fst ?d = map (\<lambda>k. (k, the (map_of ?d k))) (sorted_list_of_set (set (keys d)))"
    using sort_dict [of ?d] d unfolding k by simp
  also have "\<dots> = map (\<lambda>k. (k, sorted_keys (the (map_of d k)))) (sorted_list_of_set (set (keys d)))"
    by (rule map_cong [OF refl]) (auto simp: map_of_mapped map_of_eq_Some_iff d)
  finally show ?thesis by simp
qed

lemma basket_shown:
  assumes "holds_rows dumps view es m b"
  shows "sorted_keys (basket_doc b) = shown_doc dumps view es m"
proof -
  let ?d = "map (\<lambda>(e, hs). (e, JDict hs)) b"
  have b: "dict_ok b" "set (keys b) = row_episode dumps ` set (miner_rows dumps es m)" using assms by (simp_all add: holds_rows_def)
  have k: "keys ?d = keys b" by (simp add: comp_def case_prod_beta)
  have inner: "sorted_keys (the (map_of ?d e)) = JDict (map (\<lambda>h. (h, sorted_keys (the (shown dumps view es m e h))))
      (sorted_list_of_set (row_horizon dumps ` {x \<in> set (miner_rows dumps es m). row_episode dumps x = e})))" if e: "e \<in> set (keys b)" for e
  proof -
    obtain hs where hs: "map_of b e = Some hs" using e unfolding set_map map_of_keys_iff by blast
    then have "setdefault_get e b = hs" by (simp add: setdefault_get_def)
    then have "dict_ok hs" "set (keys hs) = row_horizon dumps ` {x \<in> set (miner_rows dumps es m). row_episode dumps x = e}"
      "\<And>h. map_of hs h = shown dumps view es m e h" using assms unfolding holds_rows_def by metis+
    moreover have "map_of ?d e = Some (JDict hs)" unfolding map_of_mapped hs by simp
    ultimately show ?thesis using sorted_keys_dict [of hs] by simp
  qed
  have "sorted_keys (basket_doc b) = JDict (map (\<lambda>e. (e, sorted_keys (the (map_of ?d e)))) (sorted_list_of_set (set (keys b))))"
    unfolding basket_doc_def using sorted_keys_dict [of ?d] b(1) unfolding k by blast
  also have "map (\<lambda>e. (e, sorted_keys (the (map_of ?d e)))) (sorted_list_of_set (set (keys b))) =
      map (\<lambda>e. (e, JDict (map (\<lambda>h. (h, sorted_keys (the (shown dumps view es m e h))))
        (sorted_list_of_set (row_horizon dumps ` {x \<in> set (miner_rows dumps es m). row_episode dumps x = e}))))) (sorted_list_of_set (set (keys b)))"
    by (rule map_cong [OF refl]) (simp add: inner)
  finally show ?thesis unfolding shown_doc_def Let_def b(2) .
qed

lemma scalars_of_basket:
  assumes "holds_rows dumps view es m b"
  shows "set (scalars_of (basket_doc b)) = {s. \<exists>e h v. shown dumps view es m e h = Some v \<and> s \<in> set (scalars_of v)}"
proof -
  have b: "dict_ok b" using assms by (simp add: holds_rows_def)
  have at: "map_of (setdefault_get e b) h = shown dumps view es m e h" "dict_ok (setdefault_get e b)" for e h
    using assms by (simp_all add: holds_rows_def)
  have pair: "(e, hs) \<in> set b \<and> (h, v) \<in> set hs \<Longrightarrow> shown dumps view es m e h = Some v" for e hs h v
  proof -
    assume h: "(e, hs) \<in> set b \<and> (h, v) \<in> set hs"
    then have m: "map_of b e = Some hs" using b by simp
    have "setdefault_get e b = hs" unfolding setdefault_get_def m option.case ..
    then show ?thesis using h at [of e] by (metis map_of_eq_Some_iff)
  qed
  have onto: "\<exists>hs. (e, hs) \<in> set b \<and> (h, v) \<in> set hs" if "shown dumps view es m e h = Some v" for e h v
  proof -
    have v: "(h, v) \<in> set (setdefault_get e b)" using that at(1) [of e h] by (metis map_of_SomeD)
    then obtain hs where hs: "map_of b e = Some hs" by (cases "map_of b e") (simp_all add: setdefault_get_def)
    have "(h, v) \<in> set hs" using v unfolding setdefault_get_def hs option.case .
    then show ?thesis using map_of_SomeD [OF hs] by blast
  qed
  have "set (scalars_of (basket_doc b)) = {s. \<exists>e hs h v. (e, hs) \<in> set b \<and> (h, v) \<in> set hs \<and> s \<in> set (scalars_of v)}"
  proof -
    have dict: "set (scalars_of (JDict d)) = (\<Union>x \<in> set d. set (scalars_of (snd x)))" for d by (simp add: case_prod_beta)
    have "set (scalars_of (basket_doc b)) = (\<Union>x \<in> set b. set (scalars_of (JDict (snd x))))"
      unfolding basket_doc_def dict set_map image_image case_prod_beta snd_conv ..
    then show ?thesis unfolding dict by fastforce
  qed
  then show ?thesis using pair onto by blast
qed

lemma shown_doc_value:
  "Option.bind (map_of (json_fields (shown_doc dumps view es m)) e) (\<lambda>j. map_of (json_fields j) h) = map_option sorted_keys (shown dumps view es m e h)"
proof -
  let ?rows = "miner_rows dumps es m"
  have pick: "map_of (map (\<lambda>k. (k, f k)) (sorted_list_of_set K)) k = (if k \<in> K then Some (f k) else None)" if "finite K" for K :: "string set" and f :: "string \<Rightarrow> json" and k
    using that by (simp add: map_of_map_const map_of_None_iff image_image)
  have none: "shown dumps view es m e h = None \<longleftrightarrow> h \<notin> row_horizon dumps ` {x \<in> set ?rows. row_episode dumps x = e}"
    by (auto simp: shown_def Let_def filter_empty_conv)
  show ?thesis
  proof (cases "e \<in> row_episode dumps ` set ?rows")
    case False
    then have "shown dumps view es m e h = None" unfolding none by auto
    then show ?thesis using False by (simp add: shown_doc_def Let_def json_fields_def pick)
  next
    case True
    then show ?thesis using none
      by (cases "shown dumps view es m e h") (auto simp: shown_doc_def Let_def json_fields_def pick)
  qed
qed

lemma same_shown_same_doc:
  assumes "\<forall>e h. shown dumps view es a e h = shown dumps view es b e h"
  shows "shown_doc dumps view es a = shown_doc dumps view es b \<and> (miner_rows dumps es a = [] \<longleftrightarrow> miner_rows dumps es b = [])"
proof -
  have hor: "row_horizon dumps ` {x \<in> set (miner_rows dumps es m). row_episode dumps x = e} = {h. shown dumps view es m e h \<noteq> None}" for m e
    by (auto simp: shown_def Let_def filter_empty_conv)
  have ep: "row_episode dumps ` set (miner_rows dumps es m) = {e. \<exists>h. shown dumps view es m e h \<noteq> None}" for m
    by (force simp: shown_def Let_def filter_empty_conv)
  have "miner_rows dumps es m = [] \<longleftrightarrow> row_episode dumps ` set (miner_rows dumps es m) = {}" for m by simp
  then have "miner_rows dumps es m = [] \<longleftrightarrow> (\<forall>e h. shown dumps view es m e h = None)" for m unfolding ep by simp
  then show ?thesis unfolding shown_doc_def Let_def hor ep using assms by simp
qed

text \<open>What a value counts as: itself, or in the point test its point estimates.\<close>

definition judged_view :: "bool \<Rightarrow> json \<Rightarrow> json" where
  "judged_view reduced = (if reduced then point_estimates else id)"

lemma map_of_filter_values:
  "dict_ok d \<Longrightarrow> map_of (filter (\<lambda>(k, v). P v) d) k = (case map_of d k of None \<Rightarrow> None | Some v \<Rightarrow> if P v then Some v else None)"
proof (induction d)
  case (Cons x d)
  have "map_of d (fst x) = None" using Cons.prems by (simp add: map_of_None_iff)
  then show ?case using Cons.IH Cons.prems by (cases x) (auto simp del: map_of_eq_Some_iff)
qed simp

lemma fingerprint_spec:
  "let view = judged_view reduced in map_of (fingerprints H dumps entries reduced) m =
    (if miner_rows dumps entries m = [] \<or>
        reduced \<and> card {s. \<exists>e h v. shown dumps view entries m e h = Some v \<and> s \<in> set (scalars_of v)} < 8 then None
     else Some (hexdigest (hash_bytes H (encode (dumps (shown_doc dumps view entries m))))))"
proof -
  define view where "view = judged_view reduced"
  let ?per = "foldl (fingerprint_row dumps view) [] entries"
  let ?P = "\<lambda>b. b \<noteq> [] \<and> \<not> (reduced \<and> distinct_point_values (basket_doc b) < min_distinct_points)"
  have "dict_ok ?per" by (rule dict_ok_rows) simp
  then have keep: "map_of (filter (\<lambda>(m, b). ?P b) ?per) m = (case map_of ?per m of None \<Rightarrow> None | Some b \<Rightarrow> if ?P b then Some b else None)"
    by (rule map_of_filter_values)
  have fp: "map_of (fingerprints H dumps entries reduced) m =
      map_option (\<lambda>b. prediction_fingerprint H dumps (basket_doc b)) (map_of (filter (\<lambda>(m, b). ?P b) ?per) m)"
    unfolding fingerprints_def Let_def view_def judged_view_def by (rule map_of_mapped)
  show ?thesis
  proof (cases "map_of ?per m")
    case None
    then have "miner_rows dumps entries m = []" using fingerprint_rows [of dumps view entries] by blast
    then show ?thesis unfolding Let_def view_def [symmetric] fp keep None by simp
  next
    case (Some b)
    then have b: "holds_rows dumps view entries m b" "miner_rows dumps entries m \<noteq> []"
      using fingerprint_rows [of dumps view entries, THEN spec, of m] by (simp_all add: setdefault_get_def)
    have "b \<noteq> []" using b by (auto simp: holds_rows_def)
    then show ?thesis using basket_shown [OF b(1)] scalars_of_basket [OF b(1)] b(2) unfolding Let_def view_def [symmetric] fp keep Some
      by (simp add: distinct_point_values_def min_distinct_points_def prediction_fingerprint_def)
  qed
qed

text \<open>C36. A fingerprint is of what its miner shows, no more and no less: a miner has one exactly when it has a row
  with a prediction (and, in the point test, shows at least eight different values, so flat answers
  never meet), and it is the hash of the canonical text of its last value for every episode and
  horizon. Two miners that show the same values have the same fingerprint or both none; and two that
  have the same fingerprint show, for every episode and horizon, values equal up to the order of keys,
  or their two documents are exhibited as a collision of the text or of the hash.\<close>

theorem cd_same_print_same_predictions:
  "let view = judged_view reduced in
    (\<forall>m. map_of (fingerprints H dumps entries reduced) m =
      (if miner_rows dumps entries m = [] \<or>
          reduced \<and> card {s. \<exists>e h v. shown dumps view entries m e h = Some v \<and> s \<in> set (scalars_of v)} < 8 then None
       else Some (hexdigest (hash_bytes H (encode (dumps (shown_doc dumps view entries m))))))) \<and>
    ((\<forall>e h. shown dumps view entries a e h = shown dumps view entries b e h) \<longrightarrow>
       map_of (fingerprints H dumps entries reduced) a = map_of (fingerprints H dumps entries reduced) b) \<and>
    (\<forall>fp. map_of (fingerprints H dumps entries reduced) a = Some fp \<and> map_of (fingerprints H dumps entries reduced) b = Some fp \<longrightarrow>
       (\<forall>e h. map_option sorted_keys (shown dumps view entries a e h) = map_option sorted_keys (shown dumps view entries b e h)) \<or>
       (let p = shown_doc dumps view entries a; q = shown_doc dumps view entries b in
          p \<noteq> q \<and> (dumps p = dumps q \<or> collides H {encode (dumps p)} {encode (dumps q)})))"
proof -
  define view where "view = judged_view reduced"
  note spec = fingerprint_spec [where reduced = reduced, unfolded Let_def, folded view_def]
  let ?p = "shown_doc dumps view entries a" and ?q = "shown_doc dumps view entries b"
  have onto: "(\<forall>e h. map_option sorted_keys (shown dumps view entries a e h) = map_option sorted_keys (shown dumps view entries b e h)) \<or>
      ?p \<noteq> ?q \<and> (dumps ?p = dumps ?q \<or> collides H {encode (dumps ?p)} {encode (dumps ?q)})"
    if "map_of (fingerprints H dumps entries reduced) a = Some fp" "map_of (fingerprints H dumps entries reduced) b = Some fp" for fp
  proof (cases "?p = ?q")
    case True
    then show ?thesis using shown_doc_value [of dumps view entries a] shown_doc_value [of dumps view entries b] by metis
  next
    case False
    have "H (encode (dumps ?p)) = H (encode (dumps ?q))" using that unfolding spec by (auto split: if_splits)
    then show ?thesis using False encode_inj by (auto simp: collides_def)
  qed
  have same: "map_of (fingerprints H dumps entries reduced) a = map_of (fingerprints H dumps entries reduced) b"
    if "\<forall>e h. shown dumps view entries a e h = shown dumps view entries b e h"
    using same_shown_same_doc [OF that] that unfolding spec by simp
  show ?thesis unfolding Let_def view_def [symmetric] using spec same onto by blast
qed

text \<open>Two miners with ten different point estimates, one of whom also posts bounds and a first answer it
  replaces; and one with a single value.\<close>

definition sample_rows :: "json list" where
  "sample_rows = (let row = \<lambda>m p. JDict [(''miner'', JStr m), (''episode_id'', JStr ''e''), (''horizon_days'', JStr ''7''), (''prediction'', p)];
       points = map (\<lambda>i. JDict [(''p50'', JNum (of_nat i))]) [0..<10] in
     [row ''a'' (JList points), row ''b'' (JNum 1), row ''c'' (JNum 1),
      row ''b'' (JList (map (\<lambda>i. JDict [(''p10'', JNum 0), (''p50'', JNum (of_nat i))]) [0..<10]))])"

definition sample_text :: "json \<Rightarrow> string" where "sample_text j = (case j of JDict d \<Rightarrow> concat (map fst d) | _ \<Rightarrow> [])"


definition ten_points :: json where "ten_points = JList (map (\<lambda>i. JNum (of_nat i)) [0..<10])"

lemma sample_shown:
  "shown sample_text (judged_view True) sample_rows ''a'' e h = (if e = ''e'' \<and> h = ''7'' then Some ten_points else None)"
  "shown sample_text (judged_view True) sample_rows ''b'' e h = (if e = ''e'' \<and> h = ''7'' then Some ten_points else None)"
  "shown sample_text (judged_view True) sample_rows ''c'' e h = (if e = ''e'' \<and> h = ''7'' then Some (JNum 1) else None)"
proof -
  have rows: "\<exists>x. miner_rows sample_text sample_rows ''a'' = [x] \<and> row_episode sample_text x = ''e'' \<and> row_horizon sample_text x = ''7'' \<and>
      judged_view True (jget x ''prediction'') = ten_points"
    "\<exists>x y. miner_rows sample_text sample_rows ''b'' = [x, y] \<and> row_episode sample_text x = ''e'' \<and> row_horizon sample_text x = ''7'' \<and>
      row_episode sample_text y = ''e'' \<and> row_horizon sample_text y = ''7'' \<and> judged_view True (jget y ''prediction'') = ten_points"
    "\<exists>x. miner_rows sample_text sample_rows ''c'' = [x] \<and> row_episode sample_text x = ''e'' \<and> row_horizon sample_text x = ''7'' \<and>
      judged_view True (jget x ''prediction'') = JNum 1"
    by (simp_all add: miner_rows_def sample_rows_def Let_def jget_JDict id_text_def row_episode_def row_horizon_def truthy_def
        judged_view_def ten_points_def point_key_def comp_def)
  then show "shown sample_text (judged_view True) sample_rows ''a'' e h = (if e = ''e'' \<and> h = ''7'' then Some ten_points else None)"
    "shown sample_text (judged_view True) sample_rows ''b'' e h = (if e = ''e'' \<and> h = ''7'' then Some ten_points else None)"
    "shown sample_text (judged_view True) sample_rows ''c'' e h = (if e = ''e'' \<and> h = ''7'' then Some (JNum 1) else None)"
    by (auto simp: shown_def)
qed

lemma sample_counts: "card (set (scalars_of ten_points)) = 10" "card (set (scalars_of (JNum 1))) = 1"
  by code_simp+

theorem cd_same_print_same_predictions_witness:
  "map_of (fingerprints (\<lambda>bs. of_nat (length bs)) sample_text sample_rows True) ''a''
     = map_of (fingerprints (\<lambda>bs. of_nat (length bs)) sample_text sample_rows True) ''b'' \<and>
   map_of (fingerprints (\<lambda>bs. of_nat (length bs)) sample_text sample_rows True) ''a'' \<noteq> None \<and>
   map_of (fingerprints (\<lambda>bs. of_nat (length bs)) sample_text sample_rows True) ''c'' = None"
proof -
  let ?f = "fingerprints (\<lambda>bs. of_nat (length bs)) sample_text sample_rows True"
  note t = cd_same_print_same_predictions [of True "\<lambda>bs. of_nat (length bs)" sample_text sample_rows "''a''" "''b''", unfolded Let_def]
  have spec: "map_of ?f m = (if miner_rows sample_text sample_rows m = [] \<or>
          True \<and> card {s. \<exists>e h v. shown sample_text (judged_view True) sample_rows m e h = Some v \<and> s \<in> set (scalars_of v)} < 8 then None
       else Some (hexdigest (hash_bytes (\<lambda>bs. of_nat (length bs)) (encode (sample_text (shown_doc sample_text (judged_view True) sample_rows m))))))" for m
    using t by blast
  have vals: "{s. \<exists>e h v. shown sample_text (judged_view True) sample_rows ''a'' e h = Some v \<and> s \<in> set (scalars_of v)} = set (scalars_of ten_points)"
    "{s. \<exists>e h v. shown sample_text (judged_view True) sample_rows ''c'' e h = Some v \<and> s \<in> set (scalars_of v)} = set (scalars_of (JNum 1))"
    unfolding sample_shown by (auto split: if_splits)
  have "miner_rows sample_text sample_rows ''a'' \<noteq> []" using sample_shown(1) [of "''e''" "''7''"] by (auto simp: shown_def)
  then have "map_of ?f ''a'' \<noteq> None" unfolding spec vals sample_counts by simp
  moreover have "map_of ?f ''c'' = None" unfolding spec vals sample_counts by simp
  moreover have "\<forall>e h. shown sample_text (judged_view True) sample_rows ''a'' e h = shown sample_text (judged_view True) sample_rows ''b'' e h"
    unfolding sample_shown by simp
  then have "map_of ?f ''a'' = map_of ?f ''b''" using t by blast
  ultimately show ?thesis by blast
qed


section \<open>Components are the classes of the links\<close>

definition bond :: "hotkey list \<Rightarrow> (hotkey \<Rightarrow> hotkey \<Rightarrow> bool) \<Rightarrow> hotkey \<Rightarrow> hotkey \<Rightarrow> bool" where
  "bond members linked a b \<longleftrightarrow> (a, b) \<in> set (pairs_of members) \<and> linked a b \<or> (b, a) \<in> set (pairs_of members) \<and> linked b a"

definition kin :: "hotkey list \<Rightarrow> (hotkey \<Rightarrow> hotkey \<Rightarrow> bool) \<Rightarrow> hotkey \<Rightarrow> hotkey \<Rightarrow> bool" where
  "kin members linked = rtranclp (bond members linked)"

lemma kin_refl: "kin members linked x x"
  and kin_trans: "kin members linked x y \<Longrightarrow> kin members linked y z \<Longrightarrow> kin members linked x z"
  by (simp_all add: kin_def)

lemma kin_sym: "kin members linked x y \<Longrightarrow> kin members linked y x"
proof -
  have "symp (bond members linked)" by (auto simp: symp_def bond_def)
  then show "kin members linked x y \<Longrightarrow> kin members linked y x"
    unfolding kin_def by (metis sympD symp_rtranclp)
qed

lemma pairs_members: "(a, b) \<in> set (pairs_of xs) \<Longrightarrow> a \<in> set xs \<and> b \<in> set xs"
  by (induction xs) auto

lemma kin_member: "kin members linked x y \<Longrightarrow> x \<in> set members \<Longrightarrow> y \<in> set members"
  unfolding kin_def by (induction rule: rtranclp_induct) (auto simp: bond_def dest: pairs_members)

lemma find_present: "x \<in> set (keys P) \<Longrightarrow> find_loop P x = uf_find P x"
  by (auto simp: uf_find_def map_of_None_iff)

lemma link_pair_ok:
  assumes P: "inside (kin members linked) P" "keys P = members" and ab: "(a, b) \<in> set (pairs_of members)"
  shows "\<exists>P'. link_pair linked P (a, b) = Some (Inr P') \<and> (inside (kin members linked) P' \<and> keys P' = members) \<and>
    grows P P' \<and> (linked a b \<longrightarrow> together P' a b)"
proof (cases "linked a b")
  case True
  let ?C = "kin members linked"
  have mem: "a \<in> set members" "b \<in> set members" using pairs_members [OF ab] by simp_all
  obtain P1 ra where f1: "uf_find P a = Some (Inr (P1, ra))" "inside ?C P1" "grows P P1" "rep (map_of P1) a ra" "keys P1 = members"
    using find_within [OF P(1) kin_refl, of a] mem P(2) by auto
  obtain P2 rb where f2: "uf_find P1 b = Some (Inr (P2, rb))" "inside ?C P2" "grows P1 P2" "rep (map_of P2) b rb"
    "keys P2 = members" "rep (map_of P2) a ra"
    using find_within [OF f1(2) kin_refl, of b] f1(4,5) mem by auto
  have ab': "?C a b" unfolding kin_def using True ab by (intro r_into_rtranclp) (simp add: bond_def)
  have link: "inside ?C (AList.update ra rb P2)" "grows P2 (AList.update ra rb P2)" "together (AList.update ra rb P2) a b"
    "keys (AList.update ra rb P2) = members"
    using link_within [where C = ?C, OF f2(2) f2(6) f2(4) ab'] kin_sym kin_trans f2(5) by blast+
  have finds: "find_loop P a = Some (Inr (P1, ra))" "find_loop P1 b = Some (Inr (P2, rb))"
    using f1(1,5) f2(1) mem P(2) by (simp_all add: find_present)
  have call: "link_pair linked P (a, b) = Some (Inr (if ra \<noteq> rb then AList.update ra rb P2 else P2))"
    using True finds by (simp add: link_pair_def andthen_def)
  have "grows P P2" using f1(3) f2(3) grows_trans by blast
  moreover have "together P2 a b" if "ra = rb" using that f2(4,6) by (auto simp: together_def)
  ultimately show ?thesis using call link f2(2,5) grows_trans by (cases "ra = rb") auto
next
  case False
  then show ?thesis using P by (auto simp: link_pair_def grows_refl)
qed

lemma links_ok:
  assumes "distinct members"
  shows "\<exists>P. fold_calls (link_pair linked) (map (\<lambda>m. (m, m)) members) (pairs_of members) = Some (Inr P) \<and>
    forest P \<and> keys P = members \<and> (\<forall>x y. together P x y \<longleftrightarrow> x \<in> set members \<and> kin members linked x y)"
proof -
  let ?C = "kin members linked" and ?P0 = "map (\<lambda>m. (m, m)) members"
  have look: "map_of ?P0 x = (if x \<in> set members then Some x else None)" for x by (induction members) auto
  have "ranked (\<lambda>_. 0) (map_of ?P0)" by (auto simp: ranked_def look split: if_splits)
  moreover have "rep (map_of ?P0) x r \<longleftrightarrow> x \<in> set members \<and> r = x" for x r
    by (subst rep_iff) (auto simp: look split: if_splits)
  ultimately have start: "inside ?C ?P0 \<and> keys ?P0 = members"
    using assms by (auto simp: inside_def forest_def together_def kin_refl o_def)
  have step: "\<exists>s'. link_pair linked s x = Some (Inr s') \<and> (inside ?C s' \<and> keys s' = members) \<and> grows s s' \<and>
      (case x of (a, b) \<Rightarrow> linked a b \<longrightarrow> together s' a b)" if "x \<in> set (pairs_of members)" "inside ?C s \<and> keys s = members" for s x
    using link_pair_ok [of members linked s "fst x" "snd x"] that by (cases x) auto
  have "\<exists>P. fold_calls (link_pair linked) ?P0 (pairs_of members) = Some (Inr P) \<and> (inside ?C P \<and> keys P = members) \<and> grows ?P0 P \<and>
      (\<forall>x \<in> set (pairs_of members). case x of (a, b) \<Rightarrow> linked a b \<longrightarrow> together P a b)"
    by (rule fold_calls_inv [where I = "\<lambda>P. inside ?C P \<and> keys P = members" and G = grows
          and R = "\<lambda>x P. case x of (a, b) \<Rightarrow> linked a b \<longrightarrow> together P a b"])
      (use start step grows_refl grows_trans in \<open>auto simp: grows_def\<close>)
  then obtain P where P: "fold_calls (link_pair linked) ?P0 (pairs_of members) = Some (Inr P)" "inside ?C P" "keys P = members"
    and pairs: "\<And>a b. (a, b) \<in> set (pairs_of members) \<Longrightarrow> linked a b \<Longrightarrow> together P a b" by blast
  have forest: "forest P" using P(2) by (simp add: inside_def)
  have "together P x y" if "?C x y" "x \<in> set members" for x y
    using that(1) unfolding kin_def
  proof (induction rule: rtranclp_induct)
    case base
    then show ?case using together_refl [OF forest] that(2) P(3) by simp
  next
    case (step y z)
    then have "together P y z" using pairs together_sym by (auto simp: bond_def)
    then show ?case using step.IH together_trans by blast
  qed
  moreover have "x \<in> set members \<and> ?C x y" if "together P x y" for x y
    using that P(2) together_keys [OF that] P(3) by (simp add: inside_def)
  ultimately show ?thesis using P(1,3) forest by blast
qed


lemma collect_same:
  assumes "collected P ms acc" and "set ns \<subseteq> set (keys P)"
  shows "fold_calls component_member acc ns = fold_calls collect_member acc ns"
  using assms
proof (induction ns arbitrary: ms acc)
  case (Cons n ns)
  then obtain acc1 where a: "collect_member acc n = Some (Inr acc1)" "collected P (ms @ [n]) acc1"
    using collect_member_ok [OF Cons.prems(1), of n] by auto
  have "n \<in> set (keys (fst acc))" using Cons.prems by (simp add: collected_def)
  then have "component_member acc n = collect_member acc n"
    by (cases acc) (simp add: component_member_def collect_member_def find_present append_at_def)
  then show ?case using Cons.IH [OF a(2)] Cons.prems(2) a(1) by (simp add: andthen_def)
qed simp

lemma distinct_parts:
  assumes "\<And>m r s. R m r \<Longrightarrow> R m s \<Longrightarrow> r = s"
  shows "distinct (map fst out) \<Longrightarrow> \<forall>(r, ms) \<in> set out. distinct ms \<and> (\<forall>m \<in> set ms. R m r) \<Longrightarrow>
    distinct (concat (map sort (filter Q (map snd out))))"
proof (induction out)
  case (Cons item out)
  obtain r ms where item: "item = (r, ms)" by fastforce
  have "m \<notin> set ms'" if "(s, ms') \<in> set out" "m \<in> set ms" for m s ms'
  proof
    assume "m \<in> set ms'"
    then have "R m s" "R m r" using Cons.prems(2) that by (auto simp: item)
    then have "r = s" by (rule assms [symmetric])
    then show False using Cons.prems(1) that(1) by (force simp: item)
  qed
  then show ?case using Cons by (auto simp: item)
qed simp

lemma components_ok:
  assumes "distinct members"
  shows "\<exists>cs. components members linked = Some (Inr cs) \<and> distinct (concat cs) \<and>
    (\<forall>c. c \<in> set cs \<longleftrightarrow> (\<exists>x \<in> set members. c = sort (filter (kin members linked x) members) \<and> 1 < length c))"
proof -
  obtain P where P: "fold_calls (link_pair linked) (map (\<lambda>m. (m, m)) members) (pairs_of members) = Some (Inr P)"
    "forest P" "keys P = members" and same: "\<And>x y. together P x y \<longleftrightarrow> x \<in> set members \<and> kin members linked x y"
    using links_ok [OF assms] by blast
  have start: "collected P [] (P, [])" using P(2) by (simp add: collected_def members_of_def)
  obtain acc where acc: "fold_calls component_member (P, []) members = Some (Inr acc)" "collected P members acc"
    using collect_all_ok [OF start, of members] collect_same [OF start, of members] P(3) by auto
  let ?cs = "map sort (filter (\<lambda>c. 1 < length c) (map snd (snd acc)))"
  have look: "dict_ok (snd acc)" "\<And>r. map_of (snd acc) r = (if members_of P members r = [] then None else Some (members_of P members r))"
    using acc(2) by (simp_all add: collected_def)
  have items: "(r, ms) \<in> set (snd acc) \<longleftrightarrow> ms = members_of P members r \<and> ms \<noteq> []" for r ms
    using map_of_eq_Some_iff [OF look(1), of r ms] by (auto simp: look(2) split: if_splits)
  have "distinct (concat ?cs)"
  proof (rule distinct_parts [where R = "rep (map_of P)", OF _ look(1)])
    show "r = s" if "rep (map_of P) m r" "rep (map_of P) m s" for m r s using rep_unique [OF that] by simp
  qed (auto simp: items members_of_def assms)
  moreover have "c \<in> set ?cs \<longleftrightarrow> (\<exists>x \<in> set members. c = sort (filter (kin members linked x) members) \<and> 1 < length c)" for c
  proof -
    have ms: "members_of P members r = filter (kin members linked x) members" if "rep (map_of P) x r" "x \<in> set members" for x r
    proof -
      have "rep (map_of P) m r \<longleftrightarrow> kin members linked x m" for m
        using that same [of x m] rep_unique unfolding together_def by metis
      then show ?thesis by (simp add: members_of_def)
    qed
    have root: "\<exists>r. rep (map_of P) x r" if "x \<in> set members" for x
      using together_refl [OF P(2), of x] that P(3) by (auto simp: together_def)
    have "c \<in> set ?cs \<longleftrightarrow> (\<exists>r. c = sort (members_of P members r) \<and> members_of P members r \<noteq> [] \<and> 1 < length c)"
      using items by (auto simp: image_iff) (metis length_sort snd_conv)
    also have "\<dots> \<longleftrightarrow> (\<exists>x \<in> set members. c = sort (filter (kin members linked x) members) \<and> 1 < length c)"
    proof
      assume "\<exists>r. c = sort (members_of P members r) \<and> members_of P members r \<noteq> [] \<and> 1 < length c"
      then obtain r x where "c = sort (members_of P members r)" "1 < length c" "x \<in> set (members_of P members r)"
        by (metis list.set_intros(1) neq_Nil_conv)
      then show "\<exists>x \<in> set members. c = sort (filter (kin members linked x) members) \<and> 1 < length c"
        using ms by (auto simp: members_of_def)
    next
      assume "\<exists>x \<in> set members. c = sort (filter (kin members linked x) members) \<and> 1 < length c"
      then obtain x r where "x \<in> set members" "c = sort (filter (kin members linked x) members)" "1 < length c" "rep (map_of P) x r"
        using root by blast
      then show "\<exists>r. c = sort (members_of P members r) \<and> members_of P members r \<noteq> [] \<and> 1 < length c"
        using ms [of x r] by (intro exI [of _ r]) auto
    qed
    finally show ?thesis .
  qed
  moreover have "components members linked = Some (Inr ?cs)"
    using P(1) acc(1) by (simp add: components_def andthen_def split: prod.splits)
  ultimately show ?thesis by blast
qed

text \<open>C37. \<open>_components\<close> is graph connectivity: its union-find returns, and what it returns are the classes of
  the miners under being linked, directly or through others, that have more than one member, each once
  and sorted; no miner is in two.\<close>

theorem cd_components_are_the_classes:
  assumes "distinct members"
  shows "\<exists>cs. components members linked = Some (Inr cs) \<and> distinct (concat cs) \<and>
    (\<forall>c. c \<in> set cs \<longleftrightarrow> (\<exists>x \<in> set members. c = sort (filter (kin members linked x) members) \<and> 1 < length c))"
  by (rule components_ok [OF assms])

theorem cd_components_are_the_classes_witness:
  "\<exists>cs. components [''a'', ''b'', ''c''] (\<lambda>x y. x = ''a'' \<and> y = ''c'') = Some (Inr cs) \<and> distinct (concat cs)"
proof -
  have "distinct [''a'', ''b'', ''c'']" by simp
  from cd_components_are_the_classes [OF this] show ?thesis by blast
qed


section \<open>The signals of a pair do not depend on its order\<close>

lemma fmul_commute: "fmul x y = fmul y x"
  by (simp add: fmul_def mult.commute)

lemma abs_fsub: "\<bar>fsub x y\<bar> = \<bar>fsub y x\<bar>"
proof -
  have "fsub x y = - fsub y x" unfolding fsub_def fl_minus [symmetric] by simp
  then show ?thesis by simp
qed

lemma map2_commute: "(\<And>x y. f x y = g y x) \<Longrightarrow> map2 f xs ys = map2 g ys xs"
  by (induction xs ys rule: list_induct2') auto

lemma pearson_commute:
  assumes "length xs = length ys"
  shows "pearson powf xs ys = pearson powf ys xs"
proof -
  have "map2 fmul as bs = map2 fmul bs as" for as bs by (rule map2_commute) (rule fmul_commute)
  then show ?thesis using assms by (auto simp: pearson_def Let_def fmul_commute)
qed

lemma agree_commute: "length (filter agrees (zip xs ys)) = length (filter agrees (zip ys xs))"
  by (induction xs ys rule: list_induct2') (auto simp: agrees_def)

lemma dict_ok_fold: "(\<And>d x. dict_ok d \<Longrightarrow> dict_ok (f d x)) \<Longrightarrow> dict_ok d \<Longrightarrow> dict_ok (foldl f d xs)"
  by (induction xs arbitrary: d) simp_all

lemma dict_ok_metric: "dict_ok rows \<Longrightarrow> dict_ok (note_metric e h rows item)"
  using dict_ok_update [of rows] by (cases item) (simp add: note_metric_def split: option.split)

lemma horizon_result:
  "note_horizon e rows item = Inr rows' \<Longrightarrow> dict_ok rows \<Longrightarrow> dict_ok rows'"
  "note_horizon e rows item = Inl x \<Longrightarrow> x = AttributeError"
  by (auto simp: note_horizon_def dict_ok_fold dict_ok_metric split: prod.splits json.splits if_splits)

lemma fold_sum_keeps:
  assumes "\<And>d x d'. f d x = Inr d' \<Longrightarrow> P d \<Longrightarrow> P d'"
  shows "fold_sum f d xs = Inr d' \<Longrightarrow> P d \<Longrightarrow> P d'"
  by (induction xs arbitrary: d) (auto split: sum.splits dest: assms)

lemma fold_sum_raises:
  assumes "\<And>d x e. f d x = Inl e \<Longrightarrow> e = err"
  shows "fold_sum f d xs = Inl e \<Longrightarrow> e = err"
  by (induction xs arbitrary: d) (auto split: sum.splits dest: assms)

lemma p50_rows_result: "p50_rows b = Inr rows \<Longrightarrow> dict_ok rows" "p50_rows b = Inl e \<Longrightarrow> e = AttributeError"
proof -
  have inner: "dict_ok d'" if "fold_sum (note_horizon e) d hs = Inr d'" "dict_ok d" for e d hs d'
    using horizon_result(1) that by (rule fold_sum_keeps)
  assume p: "p50_rows b = Inr rows"
  show "dict_ok rows" by (rule fold_sum_keeps [OF _ p [unfolded p50_rows_def]]) (auto intro: inner split: prod.splits)
next
  have raise: "err = AttributeError" if "fold_sum (note_horizon e) d hs = Inl err" for e d hs err
    using horizon_result(2) that by (rule fold_sum_raises)
  assume p: "p50_rows b = Inl e"
  show "e = AttributeError" by (rule fold_sum_raises [OF _ p [unfolded p50_rows_def]]) (auto intro: raise split: prod.splits)
qed

lemma shared_rows_commute: "dict_ok a \<Longrightarrow> dict_ok b \<Longrightarrow> shared_rows a b = shared_rows b a"
  unfolding shared_rows_def
  by (rule sorted_distinct_set_unique) (auto simp: map_of_None_iff distinct_filter)

lemma scaled_gap_commute: "scaled_gap actuals a b k = scaled_gap actuals b a k"
  by (simp add: scaled_gap_def abs_fsub)

lemma signals_commute: "signals_of powf pa pb actuals delta n = signals_of powf pb pa actuals delta n"
proof (cases "p50_rows pa"; cases "p50_rows pb")
  fix a b assume ab: "p50_rows pa = Inr a" "p50_rows pb = Inr b"
  have s: "shared_rows a b = shared_rows b a" using p50_rows_result(1) [OF ab(1)] p50_rows_result(1) [OF ab(2)] by (rule shared_rows_commute)
  have g: "map (scaled_gap actuals a b) ks = map (scaled_gap actuals b a) ks" for ks by (simp add: scaled_gap_commute)
  have call: "and_then (Inr x) f = f x" for x :: "(row_key, float) dict" and f :: "_ \<Rightarrow> py_error + pair_signals option"
    by (simp add: and_then_def)
  show ?thesis unfolding signals_of_def ab call Let_def s g
    using pearson_commute [of "map (row_of a) (shared_rows b a)" "map (row_of b) (shared_rows b a)" powf]
      agree_commute [of "map (row_of a) (shared_rows b a)" "map (row_of b) (shared_rows b a)"] by simp
qed (auto simp: signals_of_def and_then_def dest: p50_rows_result(2))

section \<open>A lineage group has a centre\<close>

lemma cache_sound:
  assumes "fold_sum (cache_pair powf predictions actuals params n) cache0 pairs = Inr cache"
    and "\<forall>((a, b), s) \<in> set cache0. signals_of powf (setdefault_get a predictions) (setdefault_get b predictions) actuals (disagree_delta params) n = Inr s"
  shows "\<forall>((a, b), s) \<in> set cache. signals_of powf (setdefault_get a predictions) (setdefault_get b predictions) actuals (disagree_delta params) n = Inr s"
  using assms
proof (induction pairs arbitrary: cache0)
  case (Cons p pairs)
  obtain a b where p: "p = (a, b)" by fastforce
  show ?case
  proof (cases "signals_of powf (setdefault_get a predictions) (setdefault_get b predictions) actuals (disagree_delta params) n")
    case (Inl e)
    then show ?thesis using Cons.prems(1) by (simp add: p cache_pair_def)
  next
    case (Inr s)
    then show ?thesis using Cons.prems by (intro Cons.IH [of "cache0 @ [((a, b), s)]"]) (simp_all add: p cache_pair_def)
  qed
qed simp

definition one_lineage ::
    "(float \<Rightarrow> float \<Rightarrow> float) \<Rightarrow> (hotkey, basket) dict \<Rightarrow> (row_key, float) dict \<Rightarrow> lineage_params \<Rightarrow> nat \<Rightarrow> hotkey \<Rightarrow> hotkey \<Rightarrow> bool" where
  "one_lineage powf predictions actuals params n a b \<longleftrightarrow>
     (case signals_of powf (setdefault_get a predictions) (setdefault_get b predictions) actuals (disagree_delta params) n of
        Inl e \<Rightarrow> False | Inr s \<Rightarrow> same_lineage s params)"

lemma linked_by_one_lineage:
  assumes "\<forall>((a, b), s) \<in> set cache. signals_of powf (setdefault_get a predictions) (setdefault_get b predictions) actuals (disagree_delta params) n = Inr s"
    and "linked_by cache params a b"
  shows "one_lineage powf predictions actuals params n a b"
proof -
  let ?p = "if a < b then (a, b) else (b, a)"
  obtain s where s: "map_of cache ?p = Some (Some s)" "same_lineage (Some s) params"
    using assms(2) by (cases "map_of cache ?p") (auto simp: linked_by_def cached_def same_lineage_def split: option.splits)
  have "(?p, Some s) \<in> set cache" using s(1) by (rule map_of_SomeD)
  then have "signals_of powf (setdefault_get a predictions) (setdefault_get b predictions) actuals (disagree_delta params) n = Inr (Some s)"
    using assms(1) signals_commute by (cases "a < b") fastforce+
  then show ?thesis using s(2) by (simp add: one_lineage_def)
qed

lemma pairs_distinct: "distinct xs \<Longrightarrow> (a, b) \<in> set (pairs_of xs) \<Longrightarrow> a \<noteq> b"
  by (induction xs) auto

lemma class_of_two:
  assumes "distinct members" and "x \<in> set members" and two: "length (filter (kin members linked x) members) = 2"
    and y: "y \<in> set members" "kin members linked x y" "y \<noteq> x"
  shows "bond members linked x y"
proof -
  have "set (filter (kin members linked x) members) = {x, y}"
  proof (rule card_seteq [symmetric])
    show "card (set (filter (kin members linked x) members)) \<le> card {x, y}" using two y(3) card_length [of "filter (kin members linked x) members"] by simp
  qed (use assms kin_refl in auto)
  then have only: "kin members linked x z \<Longrightarrow> z \<in> set members \<Longrightarrow> z = x \<or> z = y" for z by auto
  from y(2) obtain z where z: "bond members linked x z" "kin members linked z y"
    using y(3) unfolding kin_def by (metis converse_rtranclpE)
  have "kin members linked x z" using z(1) by (auto simp: kin_def)
  moreover have "z \<in> set members" using z(1) by (auto simp: bond_def dest: pairs_members)
  moreover have "z \<noteq> x" using z(1) pairs_distinct [OF assms(1)] by (auto simp: bond_def)
  ultimately show ?thesis using only z(1) by blast
qed


lemma one_lineage_commute:
  "one_lineage powf predictions actuals params n a b = one_lineage powf predictions actuals params n b a"
  unfolding one_lineage_def by (subst signals_commute) (rule refl)

lemma kept_shape:
  assumes "distinct cmp" and "cmp \<noteq> []"
  shows "distinct (kept_members cache params medoid_edge cmp)" and "set (kept_members cache params medoid_edge cmp) \<subseteq> set cmp"
  using first_of_sort [OF assms(2), of "\<lambda>m. - affinity cache cmp m"] assms(1)
  by (auto simp: kept_members_def Let_def medoid_def)

lemma kept_centre:
  assumes cache: "\<forall>((a, b), s) \<in> set cache. signals_of powf (setdefault_get a predictions) (setdefault_get b predictions) actuals (disagree_delta params) n = Inr s"
    and "distinct members" and x: "x \<in> set members" and cmp: "cmp = sort (filter (kin members (linked_by cache params) x) members)" "1 < length cmp"
  shows "\<exists>c \<in> set (kept_members cache params True cmp). \<forall>m \<in> set (kept_members cache params True cmp).
    m \<noteq> c \<longrightarrow> one_lineage powf predictions actuals params n m c"
proof (cases "2 < length cmp")
  case True
  have "one_lineage powf predictions actuals params n m c" if "linked_by cache params m c" for m c
    by (rule linked_by_one_lineage [OF cache that])
  then show ?thesis using True by (auto simp: kept_members_def Let_def)
next
  case False
  let ?k = "kin members (linked_by cache params)"
  have two: "length (filter (?k x) members) = 2" using False cmp by simp
  have "one_lineage powf predictions actuals params n m x" if m: "m \<in> set cmp" "m \<noteq> x" for m
  proof -
    have "bond members (linked_by cache params) x m"
      using class_of_two [OF assms(2) x two] m cmp(1) by simp
    then have "linked_by cache params x m \<or> linked_by cache params m x" by (auto simp: bond_def)
    then show ?thesis
      using linked_by_one_lineage [OF cache, of x m] linked_by_one_lineage [OF cache, of m x]
        one_lineage_commute [of powf predictions actuals params n x m] by blast
  qed
  moreover have "x \<in> set cmp" using x kin_refl by (simp add: cmp(1))
  ultimately show ?thesis using False by (auto simp: kept_members_def)
qed

lemma concat_within:
  assumes "distinct (concat cs)" and "\<And>c. c \<in> set cs \<Longrightarrow> distinct (f c) \<and> set (f c) \<subseteq> set c"
  shows "distinct (concat (map f (filter Q cs)))"
  using assms
proof (induction cs)
  case (Cons c cs)
  have f: "distinct (f c)" "set (f c) \<subseteq> set c" using Cons.prems(2) [of c] by simp_all
  have rest: "distinct (concat (map f (filter Q cs)))" using Cons.prems by (intro Cons.IH) simp_all
  have "set (concat (map f (filter Q cs))) \<subseteq> set (concat cs)" using Cons.prems(2) by fastforce
  moreover have "set c \<inter> set (concat cs) = {}" using Cons.prems(1) by simp
  ultimately have "set (f c) \<inter> set (concat (map f (filter Q cs))) = {}" using f(2) by blast
  then show ?case using f(1) rest by simp
qed simp

lemma group_all_lineage:
  assumes "ms \<noteq> []"
  shows "group_all (lineage_group cache params precedence ms) = sort_key (lineage_key precedence) ms"
proof -
  have "sort_key (lineage_key precedence) ms \<noteq> []" using assms by (metis set_empty set_sort)
  then show ?thesis by (simp add: group_all_def lineage_group_def Let_def)
qed

interpretation lineage_rank: ranking "lineage_key precedence" for precedence :: "(hotkey, 'b::linorder) dict"
  by unfold_locales (simp add: lineage_key_def)

lemma lineage_original_first:
  fixes precedence :: "(hotkey, 'b::linorder) dict"
  assumes "distinct ms" and "2 \<le> length ms" and "m \<in> set (copies (lineage_group cache params precedence ms))"
  shows "lineage_key precedence (original (lineage_group cache params precedence ms)) < lineage_key precedence m"
proof -
  let ?g = "lineage_group cache params precedence ms"
  have a: "group_all ?g = sort_key (lineage_key precedence) ms" using assms(2) by (intro group_all_lineage) auto
  have "m \<in> set (tl (sort_key (lineage_key precedence) ms))" using assms(3) by (simp add: lineage_group_def Let_def)
  then obtain y where y: "y \<in> set ms" "lineage_key precedence y < lineage_key precedence m"
    using not_first_iff [OF lineage_rank.inj_key assms(1), of m] by blast
  have "sorted (map (lineage_key precedence) (original ?g # copies ?g))" using a by (simp add: group_all_def)
  moreover have "y \<in> set (original ?g # copies ?g)" using y(1) a by (metis group_all_def set_sort)
  ultimately have "lineage_key precedence (original ?g) \<le> lineage_key precedence y" by auto
  then show ?thesis using y(2) by (rule order.strict_trans1)
qed

lemma collisions_parts:
  fixes precedence :: "(hotkey, 'b::linorder) dict"
  assumes "lineage_collisions powf predictions actuals params precedence medoid_edge n = Some (Inr (groups, audit))"
    and "dict_ok predictions" and "groups \<noteq> []"
  obtains cache cs where "configured params"
    "\<forall>((a, b), s) \<in> set cache. signals_of powf (setdefault_get a predictions) (setdefault_get b predictions) actuals (disagree_delta params) n = Inr s"
    "distinct (concat cs)"
    "\<And>c. c \<in> set cs \<Longrightarrow> \<exists>x \<in> set (sort (keys predictions)). c = sort (filter (kin (sort (keys predictions)) (linked_by cache params) x) (sort (keys predictions))) \<and> 1 < length c"
    "groups = map (lineage_group cache params precedence) (filter (\<lambda>ms. 2 \<le> length ms) (map (kept_members cache params medoid_edge) cs))"
proof -
  let ?m = "sort (keys predictions)"
  have conf: "configured params" "\<not> length ?m < 2" using assms(1,3) by (auto simp: lineage_collisions_def Let_def split: if_splits)
  obtain cache where cache: "fold_sum (cache_pair powf predictions actuals params n) [] (pairs_of ?m) = Inr cache"
    using assms(1) conf by (auto simp: lineage_collisions_def Let_def split: sum.splits)
  have "distinct ?m" using assms(2) by simp
  then obtain cs where cs: "components ?m (linked_by cache params) = Some (Inr cs)" "distinct (concat cs)"
    "\<And>c. c \<in> set cs \<longleftrightarrow> (\<exists>x \<in> set ?m. c = sort (filter (kin ?m (linked_by cache params) x) ?m) \<and> 1 < length c)"
    using components_ok [of ?m "linked_by cache params"] by blast
  have "groups = map (lineage_group cache params precedence) (filter (\<lambda>ms. 2 \<le> length ms) (map (kept_members cache params medoid_edge) cs))"
    using assms(1) conf cache cs(1) by (simp add: lineage_collisions_def Let_def andthen_def)
  moreover have "\<forall>((a, b), s) \<in> set cache. signals_of powf (setdefault_get a predictions) (setdefault_get b predictions) actuals (disagree_delta params) n = Inr s"
    by (rule cache_sound [OF cache]) simp
  ultimately show thesis using that [OF conf(1) _ cs(2)] cs(3) by blast
qed

lemma lineage_groups_compared:
  fixes precedence :: "(hotkey, 'b::linorder) dict"
  assumes "lineage_collisions powf predictions actuals params precedence True n = Some (Inr (groups, audit))"
    and "dict_ok predictions" and "g \<in> set groups"
  shows "set (group_all g) \<subseteq> set (keys predictions)"
proof -
  let ?k = "sort (keys predictions)"
  have "groups \<noteq> []" using assms(3) by auto
  from collisions_parts [OF assms(1,2) this] obtain cache cs where
    cs: "\<And>c. c \<in> set cs \<Longrightarrow> \<exists>x \<in> set ?k. c = sort (filter (kin ?k (linked_by cache params) x) ?k) \<and> 1 < length c"
    and groups: "groups = map (lineage_group cache params precedence) (filter (\<lambda>ms. 2 \<le> length ms) (map (kept_members cache params True) cs))" by metis
  obtain c where c: "c \<in> set cs" "2 \<le> length (kept_members cache params True c)"
    "g = lineage_group cache params precedence (kept_members cache params True c)" using assms(3) by (auto simp: groups)
  obtain x where x: "c = sort (filter (kin ?k (linked_by cache params) x) ?k)" "1 < length c" using cs [OF c(1)] by blast
  have "distinct c" "c \<noteq> []" "set c \<subseteq> set (keys predictions)"
    using x(2) assms(2) by (auto simp: x(1) simp del: length_sort)
  moreover have "kept_members cache params True c \<noteq> []" using c(2) by auto
  ultimately show ?thesis using kept_shape(2) [of c cache params True] by (auto simp: c(3) group_all_lineage)
qed

lemma lineage_disjoint:
  fixes precedence :: "(hotkey, 'b::linorder) dict"
  assumes "distinct (concat cs)" and comp_ok: "\<And>c. c \<in> set cs \<Longrightarrow> distinct c \<and> c \<noteq> []"
  shows "distinct (concat (map group_all (map (lineage_group cache params precedence)
    (filter (\<lambda>ms. 2 \<le> length ms) (map (kept_members cache params True) cs)))))"
proof -
  let ?K = "kept_members cache params True" and ?G = "lineage_group cache params precedence"
  have all: "group_all (?G ms) = sort_key (lineage_key precedence) ms" if "2 \<le> length ms" for ms
    using group_all_lineage [of ms] that by fastforce
  have "distinct (concat (map (\<lambda>c. group_all (?G (?K c))) (filter (\<lambda>c. 2 \<le> length (?K c)) (filter (\<lambda>c. 2 \<le> length (?K c)) cs))))"
  proof (rule concat_within)
    show "distinct (concat (filter (\<lambda>c. 2 \<le> length (?K c)) cs))" using concat_within [OF assms(1), of "\<lambda>c. c"] comp_ok by simp
    fix c assume "c \<in> set (filter (\<lambda>c. 2 \<le> length (?K c)) cs)"
    then show "distinct (group_all (?G (?K c))) \<and> set (group_all (?G (?K c))) \<subseteq> set c"
      using kept_shape [of c cache params True] comp_ok [of c] all [of "?K c"] by auto
  qed
  then show ?thesis by (simp add: filter_map o_def)
qed

text \<open>C38. Chaining is cut: when the lineage test returns, its groups share no hotkey, each has at least two
  members, all of them compared, and has a centre: one member with which every other member passes all four
  signals directly, whatever steps connected them. The first to appear is the group's payee.\<close>

theorem cd_lineage_group_has_a_centre:
  fixes precedence :: "(hotkey, 'b::linorder) dict"
  assumes "lineage_collisions powf predictions actuals params precedence True n = Some (Inr (groups, audit))"
    and "dict_ok predictions"
  shows "distinct (concat (map group_all groups)) \<and>
    (\<forall>g \<in> set groups. 2 \<le> length (group_all g) \<and> set (group_all g) \<subseteq> set (keys predictions) \<and>
      (\<exists>c \<in> set (group_all g). \<forall>m \<in> set (group_all g). m \<noteq> c \<longrightarrow> one_lineage powf predictions actuals params n m c) \<and>
      (\<forall>m \<in> set (copies g). lineage_key precedence (original g) < lineage_key precedence m))"
proof (cases "groups = []")
  case False
  let ?k = "sort (keys predictions)"
  from collisions_parts [OF assms False] obtain cache cs where
    cache: "\<forall>((a, b), s) \<in> set cache. signals_of powf (setdefault_get a predictions) (setdefault_get b predictions) actuals (disagree_delta params) n = Inr s"
    and cs: "distinct (concat cs)" "\<And>c. c \<in> set cs \<Longrightarrow> \<exists>x \<in> set ?k. c = sort (filter (kin ?k (linked_by cache params) x) ?k) \<and> 1 < length c"
    and groups: "groups = map (lineage_group cache params precedence) (filter (\<lambda>ms. 2 \<le> length ms) (map (kept_members cache params True) cs))" by metis
  let ?K = "kept_members cache params True" and ?G = "lineage_group cache params precedence"
  have dk: "distinct ?k" using assms(2) by simp
  have comp_ok: "distinct c \<and> c \<noteq> [] \<and> set c \<subseteq> set ?k" if t: "c \<in> set cs" for c
  proof -
    obtain x where x: "c = sort (filter (kin ?k (linked_by cache params) x) ?k)" "1 < length c" using cs(2) [OF t] by blast
    have "distinct c" "set c \<subseteq> set ?k" unfolding x(1) using dk by auto
    moreover have "c \<noteq> []" using x(2) by auto
    ultimately show ?thesis by blast
  qed
  have all: "group_all (?G ms) = sort_key (lineage_key precedence) ms" if "2 \<le> length ms" for ms
    using group_all_lineage [of ms] that by fastforce
  have disjoint: "distinct (concat (map group_all groups))" unfolding groups using cs(1) comp_ok by (intro lineage_disjoint) blast+
  have "2 \<le> length (group_all g) \<and> set (group_all g) \<subseteq> set (keys predictions) \<and>
      (\<exists>c \<in> set (group_all g). \<forall>m \<in> set (group_all g). m \<noteq> c \<longrightarrow> one_lineage powf predictions actuals params n m c) \<and>
      (\<forall>m \<in> set (copies g). lineage_key precedence (original g) < lineage_key precedence m)" if g: "g \<in> set groups" for g
  proof -
    obtain c where c: "c \<in> set cs" "2 \<le> length (?K c)" "g = ?G (?K c)" using g by (auto simp: groups)
    obtain x where x: "x \<in> set ?k" "c = sort (filter (kin ?k (linked_by cache params) x) ?k)" "1 < length c" using cs(2) [OF c(1)] by blast
    note shape = kept_shape [of c cache params True] and a = all [OF c(2)]
    have s: "set (group_all g) = set (?K c)" "length (group_all g) = length (?K c)" using a by (simp_all add: c(3))
    have "set (?K c) \<subseteq> set (keys predictions)" using shape(2) comp_ok [OF c(1)] by auto
    moreover have "\<forall>m \<in> set (copies g). lineage_key precedence (original g) < lineage_key precedence m"
      unfolding c(3) using lineage_original_first shape(1) c(2) comp_ok [OF c(1)] by blast
    ultimately show ?thesis using kept_centre [OF cache dk x] c(2) s by auto
  qed
  then show ?thesis using disjoint by blast
qed simp


text \<open>Two miners that agree on their one shared value.\<close>

definition sample_baskets :: "(hotkey, basket) dict" where
  "sample_baskets = map (\<lambda>m. (m, [(''e'', [(''7'', JDict [(''cost'', JDict [(''p50'', JNum 1)])])])])) [''a'', ''b'']"

definition sample_params :: lineage_params where
  "sample_params = \<lparr>corr_min = Some (1 / 2), sign_agree_min = Some (1 / 2), distance_max = Some (1 / 2), disagree_max = Some (1 / 2),
     disagree_delta = 1 / 2, params_version = ''v1''\<rparr>"

definition sample_signals :: pair_signals where
  "sample_signals = \<lparr>overlap = 1, correlation = 1, sign_agreement = 1, distance = 0, disagreement = 0\<rparr>"

lemma sample_p50: "p50_rows [(''e'', [(''7'', JDict [(''cost'', JDict [(''p50'', JNum 1)])])])] = Inr [((''e'', ''7'', ''cost''), 1)]"
  by (simp add: p50_rows_def note_horizon_def note_metric_def p50_of_def)

lemma fl_one: "fl 1 = 1"
  using is_float_1 unfolding is_float_def by simp

lemma sample_pair:
  "signals_of (\<lambda>x y. x) (setdefault_get ''a'' sample_baskets) (setdefault_get ''b'' sample_baskets) [] (1 / 2) 1 = Inr (Some sample_signals)"
  by (simp add: signals_of_def and_then_def sample_baskets_def setdefault_get_def sample_p50 shared_rows_def row_of_def pearson_def agrees_def
      fdiv_checked_def fdiv_def scaled_gap_def scale_of_def fsub_def fsum_def fl_one sample_signals_def)

lemma sample_links: "components [''a'', ''b''] L = Some (Inr [[''a'', ''b'']])" if "L ''a'' ''b''"
  using that by (simp add: components_def link_pair_def component_member_def andthen_def find_loop.simps append_at_def)

theorem cd_lineage_group_has_a_centre_witness:
  "\<exists>groups audit. lineage_collisions (\<lambda>x y. x) sample_baskets [] sample_params [(''b'', 0 :: int)] True 1 = Some (Inr (groups, audit)) \<and>
    map group_all groups = [[''b'', ''a'']] \<and> distinct (concat (map group_all groups))"
proof -
  let ?c = "[((''a'', ''b''), Some sample_signals)]"
  have "cache_pair (\<lambda>x y. x) sample_baskets [] sample_params 1 [] (''a'', ''b'') = Inr ?c"
    using sample_pair by (simp add: cache_pair_def sample_params_def)
  moreover have "linked_by ?c sample_params ''a'' ''b''"
    by (simp add: linked_by_def cached_def same_lineage_def sample_params_def sample_signals_def)
  ultimately have r: "lineage_collisions (\<lambda>x y. x) sample_baskets [] sample_params [(''b'', 0 :: int)] True 1
      = Some (Inr ([lineage_group ?c sample_params [(''b'', 0 :: int)] [''a'', ''b'']], pairwise_audit ?c))"
    by (simp add: lineage_collisions_def sample_baskets_def configured_def sample_params_def andthen_def sample_links kept_members_def)
  have "dict_ok sample_baskets" by (simp add: sample_baskets_def)
  note d = cd_lineage_group_has_a_centre [OF r this, THEN conjunct1]
  have "group_all (lineage_group ?c sample_params [(''b'', 0 :: int)] [''a'', ''b'']) = [''b'', ''a'']"
    by (simp add: group_all_lineage lineage_key_def get_or_inf_def less_eq_prod_def less_inf_default_def)
  then have "map group_all [lineage_group ?c sample_params [(''b'', 0 :: int)] [''a'', ''b'']] = [[''b'', ''a'']]" by (simp only: list.map)
  then show ?thesis using r d by (intro exI conjI)
qed

end
