(* ===== verification/EarningGates.thy ===== *)
theory EarningGates
  imports Prelude Interfaces PyFloat
begin

text \<open>
  The gates between a standing and a payment: the participation multiplier
  (\<open>hope/scoring/participation.py\<close>), the earning-set tenure (\<open>hope/scoring/tenure.py\<close>) and the coldkey
  cap (\<open>hope/scoring/coldkey_cap.py\<close>).
\<close>

section \<open>Participation\<close>

record participation_params =
  min_coverage :: float
  decay_per_miss :: float
  misses_to_zero :: int

definition default_participation_params :: participation_params where
  "default_participation_params = \<lparr>min_coverage = 3 / 4, decay_per_miss = 1 / 2, misses_to_zero = 3\<rparr>"

datatype verdict = Submitted | Missed | SubnetDown

definition num_env :: "environ \<Rightarrow> string \<Rightarrow> 'a \<Rightarrow> (string \<Rightarrow> 'a option) \<Rightarrow> 'a" where
  "num_env environ key fallback cast =
     (let raw = env_raw environ key
      in if raw = [] then fallback else case cast raw of None \<Rightarrow> fallback | Some v \<Rightarrow> v)"

definition participation_params_from_env :: "environ \<Rightarrow> participation_params" where
  "participation_params_from_env environ =
     (let d = default_participation_params;
          mc = num_env environ ''SN21_PARTICIPATION_MIN_COVERAGE'' (min_coverage d) py_float;
          dc = num_env environ ''SN21_PARTICIPATION_DECAY_PER_MISS'' (decay_per_miss d) py_float;
          mz = num_env environ ''SN21_PARTICIPATION_MISSES_TO_ZERO'' (misses_to_zero d) py_int
      in \<lparr>min_coverage = (if \<not> (0 < mc \<and> mc \<le> 1) then min_coverage d else mc),
          decay_per_miss = (if \<not> (0 \<le> dc \<and> dc < 1) then decay_per_miss d else dc),
          misses_to_zero = (if mz < 1 then misses_to_zero d else mz)\<rparr>)"

text \<open>\<open>int(x or 0)\<close> of an optional integer.\<close>

definition int_or_0 :: "int option \<Rightarrow> int" where
  "int_or_0 x = (case x of None \<Rightarrow> 0 | Some n \<Rightarrow> n)"

definition day_verdict :: "int option \<Rightarrow> int option \<Rightarrow> bool \<Rightarrow> participation_params \<Rightarrow> verdict" where
  "day_verdict episodes_in predictions_out subnet_ran params =
     (if \<not> subnet_ran then SubnetDown
      else let denom = int_or_0 episodes_in in
        if denom \<le> 0 then SubnetDown
        else if min_coverage params \<le> fdiv (of_int (int_or_0 predictions_out)) (of_int denom)
        then Submitted else Missed)"

definition trailing_misses :: "verdict list \<Rightarrow> nat" where
  "trailing_misses verdicts =
     length (takeWhile (\<lambda>v. v = Missed) (rev (filter (\<lambda>v. v \<noteq> SubnetDown) verdicts)))"

definition bridge_multiplier :: "(float \<Rightarrow> float \<Rightarrow> float) \<Rightarrow> verdict list \<Rightarrow> participation_params \<Rightarrow> float" where
  "bridge_multiplier powf verdicts params =
     (let consecutive = trailing_misses verdicts
      in if consecutive = 0 then 1
         else if misses_to_zero params \<le> int consecutive then 0
         else powf (decay_per_miss params) (of_nat consecutive))"

section \<open>Tenure\<close>

definition tenure_gate_enabled :: "environ \<Rightarrow> bool" where
  "tenure_gate_enabled environ \<longleftrightarrow> flag_on environ ''SN21_TENURE_GATE''"

definition tenure_min_days :: "environ \<Rightarrow> int" where
  "tenure_min_days environ =
     (let raw = env_raw environ ''SN21_TENURE_MIN_DAYS''
      in if raw = [] then 7
         else case py_int raw of None \<Rightarrow> 7 | Some val \<Rightarrow> if 1 \<le> val then val else 7)"

definition add_scored_day :: "string \<Rightarrow> (hotkey, string set) dict \<Rightarrow> hotkey \<Rightarrow> (hotkey, string set) dict" where
  "add_scored_day day days_of hk =
     AList.update hk (insert day (case map_of days_of hk of None \<Rightarrow> {} | Some s \<Rightarrow> s)) days_of"

definition scored_days_by_hotkey :: "(string \<times> hotkey list) list \<Rightarrow> (hotkey, int) dict" where
  "scored_days_by_hotkey day_entries =
     map (\<lambda>(hk, days). (hk, int (card days)))
       (foldl (\<lambda>acc (day, hks). foldl (add_scored_day day) acc hks) [] day_entries)"

definition short_tenure_hotkeys :: "(hotkey, int) dict \<Rightarrow> hotkey list \<Rightarrow> int \<Rightarrow> hotkey set \<Rightarrow> hotkey set" where
  "short_tenure_hotkeys scored_days candidates min_days exempt_hotkeys =
     foldl (\<lambda>out hk. if hk \<in> exempt_hotkeys then out
       else if (case map_of scored_days hk of None \<Rightarrow> 0 | Some n \<Rightarrow> n) < min_days then insert hk out
       else out) {} candidates"

section \<open>The coldkey cap\<close>

record coldkey_cap_result =
  kept :: "(hotkey, float) dict"
  dropped :: "hotkey list"
  contested :: "(string, hotkey list) dict"

definition seat_key :: "(hotkey, int) dict \<Rightarrow> hotkey \<times> float \<Rightarrow> float \<times> int inf_default \<times> hotkey" where
  "seat_key commit_block kv = (case kv of (hk, s) \<Rightarrow> (- s, get_or_inf commit_block hk, hk))"

definition py_split :: "int \<Rightarrow> 'a list \<Rightarrow> 'a list \<times> 'a list" where
  "py_split k xs = (let n = nat (if k < 0 then k + int (length xs) else k) in (take n xs, drop n xs))"

text \<open>A coldkey that is missing or the empty string is unknown.\<close>

definition known_coldkey :: "(hotkey, string) dict \<Rightarrow> hotkey \<Rightarrow> string option" where
  "known_coldkey coldkey_of hk = (case map_of coldkey_of hk of None \<Rightarrow> None | Some ck \<Rightarrow> if ck = [] then None else Some ck)"

definition group_by_coldkey :: "(hotkey, string) dict \<Rightarrow> (hotkey, float) dict \<Rightarrow> (string, (hotkey \<times> float) list) dict" where
  "group_by_coldkey coldkey_of standings = foldl (\<lambda>acc (hk, s).
     (case known_coldkey coldkey_of hk of
        None \<Rightarrow> acc
      | Some ck \<Rightarrow> AList.update ck ((case map_of acc ck of None \<Rightarrow> [] | Some hks \<Rightarrow> hks) @ [(hk, s)]) acc)) [] standings"

definition seat_coldkey ::
    "int \<Rightarrow> (hotkey, int) dict \<Rightarrow> coldkey_cap_result \<Rightarrow> string \<times> (hotkey \<times> float) list \<Rightarrow> coldkey_cap_result" where
  "seat_coldkey k commit_block acc item = (case item of (ck, hks) \<Rightarrow>
     (case py_split k (sort_key (seat_key commit_block) hks) of (seated, rest) \<Rightarrow>
       \<lparr>kept = foldl (\<lambda>d (hk, s). AList.update hk s d) (kept acc) seated,
        dropped = dropped acc @ map fst rest,
        contested = (if 1 < length hks then AList.update ck (sort (map fst hks)) (contested acc) else contested acc)\<rparr>))"

definition apply_coldkey_cap ::
    "(hotkey, float) dict \<Rightarrow> (hotkey, string) dict \<Rightarrow> int \<Rightarrow> (hotkey, int) dict \<Rightarrow> coldkey_cap_result" where
  "apply_coldkey_cap standings coldkey_of k commit_block =
     (let unknown = filter (\<lambda>(hk, s). known_coldkey coldkey_of hk = None) standings;
          res = foldl (seat_coldkey k commit_block) \<lparr>kept = unknown, dropped = [], contested = []\<rparr>
            (sort_key fst (group_by_coldkey coldkey_of standings))
      in res\<lparr>dropped := sort (dropped res)\<rparr>)"

section \<open>Facts\<close>

lemma trailing_misses_down:
  "trailing_misses (xs @ [SubnetDown]) = trailing_misses xs" "trailing_misses (xs @ [Submitted]) = 0"
  "trailing_misses (xs @ [Missed]) = Suc (trailing_misses xs)"
  by (simp_all add: trailing_misses_def)

lemma participation_env_range:
  "0 < min_coverage (participation_params_from_env environ) \<and> min_coverage (participation_params_from_env environ) \<le> 1 \<and>
   0 \<le> decay_per_miss (participation_params_from_env environ) \<and> decay_per_miss (participation_params_from_env environ) < 1 \<and>
   1 \<le> misses_to_zero (participation_params_from_env environ)"
  by (simp add: participation_params_from_env_def default_participation_params_def Let_def)

lemma short_tenure_spec:
  "short_tenure_hotkeys scored_days candidates min_days exempt =
     {hk \<in> set candidates. hk \<notin> exempt \<and> (case map_of scored_days hk of None \<Rightarrow> 0 | Some n \<Rightarrow> n) < min_days}"
proof -
  have "foldl (\<lambda>out hk. if hk \<in> exempt then out
       else if (case map_of scored_days hk of None \<Rightarrow> 0 | Some n \<Rightarrow> n) < min_days then insert hk out
       else out) acc candidates = acc \<union>
     {hk \<in> set candidates. hk \<notin> exempt \<and> (case map_of scored_days hk of None \<Rightarrow> 0 | Some n \<Rightarrow> n) < min_days}" for acc
    by (induction candidates arbitrary: acc) auto
  then show ?thesis by (simp add: short_tenure_hotkeys_def)
qed

lemma add_days_map_of:
  "map_of (foldl (add_scored_day day) acc hks) hk =
     (if hk \<in> set hks then Some (insert day (case map_of acc hk of None \<Rightarrow> {} | Some s \<Rightarrow> s)) else map_of acc hk)"
  by (induction hks arbitrary: acc) (auto simp: add_scored_day_def map_of_update split: option.splits)

lemma scored_days_spec:
  "map_of (scored_days_by_hotkey day_entries) hk =
     (let days = {day. \<exists>hks. (day, hks) \<in> set day_entries \<and> hk \<in> set hks}
      in if days = {} then None else Some (int (card days)))"
proof -
  let ?days = "\<lambda>es. {day. \<exists>hks. (day, hks) \<in> set es \<and> hk \<in> set hks}"
  have "map_of (foldl (\<lambda>acc (day, hks). foldl (add_scored_day day) acc hks) [] day_entries) hk =
      (if ?days day_entries = {} then None else Some (?days day_entries))"
  proof (induction day_entries rule: rev_induct)
    case (snoc e es)
    obtain day hks where e: "e = (day, hks)" by (cases e)
    define D where "D = ?days es"
    have D: "?days (es @ [e]) = (if hk \<in> set hks then insert day D else D)" by (auto simp: e D_def)
    have "map_of (foldl (\<lambda>acc (day, hks). foldl (add_scored_day day) acc hks) [] es) hk
        = (if D = {} then None else Some D)" using snoc by (simp only: D_def)
    then show ?case unfolding D by (simp add: e add_days_map_of)
  qed simp
  then show ?thesis by (simp add: scored_days_by_hotkey_def map_of_map_pair Let_def)
qed

section \<open>What the cap keeps\<close>

interpretation seat: ranking "seat_key commit_block" for commit_block
  by unfold_locales (auto simp: seat_key_def split: prod.splits)

text \<open>The hotkeys of one coldkey, best first, and those seated.\<close>

definition group_of :: "(hotkey, string) dict \<Rightarrow> (hotkey, float) dict \<Rightarrow> string \<Rightarrow> (hotkey, float) dict" where
  "group_of coldkey_of standings ck = filter (\<lambda>(hk, s). known_coldkey coldkey_of hk = Some ck) standings"

definition ranked_group ::
    "(hotkey, int) dict \<Rightarrow> (hotkey, string) dict \<Rightarrow> (hotkey, float) dict \<Rightarrow> string \<Rightarrow> (hotkey, float) dict" where
  "ranked_group commit_block coldkey_of standings ck = sort_key (seat_key commit_block) (group_of coldkey_of standings ck)"

lemma group_by_coldkey_snoc:
  "group_by_coldkey coldkey_of (standings @ [(hk, s)]) =
     (case known_coldkey coldkey_of hk of
        None \<Rightarrow> group_by_coldkey coldkey_of standings
      | Some ck \<Rightarrow> AList.update ck ((case map_of (group_by_coldkey coldkey_of standings) ck of
            None \<Rightarrow> [] | Some hks \<Rightarrow> hks) @ [(hk, s)]) (group_by_coldkey coldkey_of standings))"
  unfolding group_by_coldkey_def by simp

lemma group_by_coldkey_ok: "dict_ok (group_by_coldkey coldkey_of standings)"
  unfolding group_by_coldkey_def
  by (rule foldl_invariant) (auto simp: keys_update split: option.splits prod.splits)

lemma group_by_coldkey_map_of:
  "map_of (group_by_coldkey coldkey_of standings) ck =
     (if group_of coldkey_of standings ck = [] then None else Some (group_of coldkey_of standings ck))"
proof (induction standings arbitrary: ck rule: rev_induct)
  case Nil
  show ?case by (simp add: group_by_coldkey_def group_of_def)
next
  case (snoc p standings)
  obtain hk s where p: "p = (hk, s)" by (cases p)
  have "group_of coldkey_of (standings @ [p]) ck = group_of coldkey_of standings ck
      @ (if known_coldkey coldkey_of hk = Some ck then [(hk, s)] else [])"
    by (simp add: group_of_def p)
  then show ?case
    by (cases "known_coldkey coldkey_of hk") (simp_all add: p group_by_coldkey_snoc map_of_update snoc.IH)
qed

lemma seat_all_map_of:
  "dict_ok xs \<Longrightarrow> map_of (foldl (\<lambda>d (hk, s). AList.update hk s d) d xs) hk =
     (case map_of xs hk of Some s \<Rightarrow> Some s | None \<Rightarrow> map_of d hk)"
proof (induction xs arbitrary: d)
  case (Cons p xs)
  obtain h s where p: "p = (h, s)" by (cases p)
  have "map_of xs h = None" using Cons.prems by (simp add: p map_of_None_iff)
  then show ?case using Cons by (auto simp: p map_of_update split: option.splits)
qed simp

lemma py_split_nonneg: "0 \<le> k \<Longrightarrow> py_split k xs = (take (nat k) xs, drop (nat k) xs)"
  by (simp add: py_split_def Let_def)

lemma group_of_ok: "dict_ok standings \<Longrightarrow> dict_ok (group_of coldkey_of standings ck)"
  unfolding group_of_def by (rule distinct_map_filter)

lemma ranked_group_ok: "dict_ok standings \<Longrightarrow> dict_ok (ranked_group commit_block coldkey_of standings ck)"
  unfolding ranked_group_def by (intro dict_ok_sort group_of_ok)

lemma ranked_group_in:
  "(hk, s) \<in> set (ranked_group commit_block coldkey_of standings ck) \<longleftrightarrow>
     (hk, s) \<in> set standings \<and> known_coldkey coldkey_of hk = Some ck"
  by (auto simp: ranked_group_def group_of_def)

lemma take_ok: "dict_ok xs \<Longrightarrow> dict_ok (take n xs)"
  by (simp add: take_map [symmetric])

lemma seat_coldkeys_kept:
  assumes "dict_ok standings" and "0 \<le> k" and "distinct (map fst items)"
    and "\<And>ck g. (ck, g) \<in> set items \<Longrightarrow> g = group_of coldkey_of standings ck"
  shows "map_of (kept (foldl (seat_coldkey k commit_block) acc items)) hk =
    (case known_coldkey coldkey_of hk of
       None \<Rightarrow> map_of (kept acc) hk
     | Some ck \<Rightarrow> if ck \<in> fst ` set items
         then (case map_of (take (nat k) (ranked_group commit_block coldkey_of standings ck)) hk of
                 Some s \<Rightarrow> Some s | None \<Rightarrow> map_of (kept acc) hk)
         else map_of (kept acc) hk)"
  using assms(3,4)
proof (induction items arbitrary: acc)
  case (Cons it items)
  obtain c g where it: "it = (c, g)" by (cases it)
  have g: "g = group_of coldkey_of standings c" using Cons.prems(2) by (simp add: it)
  let ?acc = "seat_coldkey k commit_block acc it"
  let ?top = "take (nat k) (ranked_group commit_block coldkey_of standings c)"
  have kept: "map_of (kept ?acc) h = (case map_of ?top h of Some s \<Rightarrow> Some s | None \<Rightarrow> map_of (kept acc) h)" for h
    using seat_all_map_of [OF take_ok [OF ranked_group_ok [OF assms(1)]]]
    by (simp add: it seat_coldkey_def g py_split_nonneg [OF assms(2)] ranked_group_def [symmetric])
  have other: "map_of ?top h = None" if "known_coldkey coldkey_of h \<noteq> Some c" for h
    using that ranked_group_in by (force simp: map_of_None_iff dest: in_set_takeD)
  have IH: "map_of (kept (foldl (seat_coldkey k commit_block) ?acc items)) hk =
    (case known_coldkey coldkey_of hk of
       None \<Rightarrow> map_of (kept ?acc) hk
     | Some ck \<Rightarrow> if ck \<in> fst ` set items
         then (case map_of (take (nat k) (ranked_group commit_block coldkey_of standings ck)) hk of
                 Some s \<Rightarrow> Some s | None \<Rightarrow> map_of (kept ?acc) hk)
         else map_of (kept ?acc) hk)"
    using Cons.prems by (intro Cons.IH) auto
  have fst_it: "fst it = c" by (simp add: it)
  have new: "c \<notin> fst ` set items" using Cons.prems(1) by (simp add: it)
  show ?case
  proof (cases "known_coldkey coldkey_of hk = Some c")
    case True
    then show ?thesis using IH new by (simp add: kept fst_it)
  next
    case False
    then show ?thesis using IH other [OF False] by (auto simp: kept fst_it split: option.splits)
  qed
qed (simp split: option.splits)

text \<open>The standing a hotkey keeps after the cap.\<close>

lemma cap_kept:
  assumes "dict_ok standings" and "0 \<le> k"
  shows "map_of (kept (apply_coldkey_cap standings coldkey_of k commit_block)) hk =
    (case known_coldkey coldkey_of hk of
       None \<Rightarrow> map_of standings hk
     | Some ck \<Rightarrow> map_of (take (nat k) (ranked_group commit_block coldkey_of standings ck)) hk)"
proof -
  let ?items = "sort_key fst (group_by_coldkey coldkey_of standings)"
  let ?unknown = "filter (\<lambda>(hk, s). known_coldkey coldkey_of hk = None) standings"
  have ok: "distinct (map fst ?items)" using group_by_coldkey_ok by (rule dict_ok_sort)
  have items: "g = group_of coldkey_of standings ck" if "(ck, g) \<in> set ?items" for ck g
  proof -
    have "map_of (group_by_coldkey coldkey_of standings) ck = Some g"
      using that group_by_coldkey_ok by simp
    then show ?thesis by (auto simp: group_by_coldkey_map_of split: if_splits)
  qed
  have keys: "ck \<in> fst ` set (group_by_coldkey coldkey_of standings) \<longleftrightarrow> group_of coldkey_of standings ck \<noteq> []" for ck
    using group_by_coldkey_map_of [of coldkey_of standings ck]
    by (simp add: map_of_keys_iff)
  have unknown: "map_of ?unknown hk = (if known_coldkey coldkey_of hk = None then map_of standings hk else None)"
    by (induction standings) auto
  have empty: "map_of (take (nat k) (ranked_group commit_block coldkey_of standings ck)) hk = None"
    if "group_of coldkey_of standings ck = []" for ck
    using that by (simp add: ranked_group_def)
  show ?thesis
    using seat_coldkeys_kept [OF assms ok items, of commit_block "\<lparr>kept = ?unknown, dropped = [], contested = []\<rparr>" hk]
    by (auto simp: apply_coldkey_cap_def Let_def unknown keys empty split: option.splits)
qed

lemma take_1_sorted:
  assumes "x \<in> set xs" and "distinct xs"
  shows "take 1 (sort_key (seat_key cb) xs) = [x] \<longleftrightarrow> (\<forall>y \<in> set xs. y \<noteq> x \<longrightarrow> seat_key cb x < seat_key cb y)"
proof -
  obtain z zs where s: "sort_key (seat_key cb) xs = z # zs"
    using assms(1) by (metis length_sort length_greater_0_conv length_pos_if_in_set neq_Nil_conv)
  have set: "set xs = insert z (set zs)" and dist: "z \<notin> set zs"
    using set_sort [of "seat_key cb" xs] distinct_sort [of "seat_key cb" xs] assms(2)
    unfolding s by simp_all
  have "sorted (map (seat_key cb) (z # zs))" by (metis s sorted_sort_key)
  then have le: "\<forall>y \<in> set zs. seat_key cb z \<le> seat_key cb y" by simp
  have lt: "\<forall>y \<in> set zs. seat_key cb z < seat_key cb y"
    using le dist seat.key_inj [of cb] by (metis order_le_less)
  show ?thesis
  proof
    assume "take 1 (sort_key (seat_key cb) xs) = [x]"
    then show "\<forall>y \<in> set xs. y \<noteq> x \<longrightarrow> seat_key cb x < seat_key cb y" using lt set s by auto
  next
    assume min: "\<forall>y \<in> set xs. y \<noteq> x \<longrightarrow> seat_key cb x < seat_key cb y"
    have "x = z"
    proof (rule ccontr)
      assume "x \<noteq> z"
      then have "seat_key cb x < seat_key cb z" "x \<in> set zs" using min set assms(1) by auto
      then show False using lt by (meson less_asym)
    qed
    then show "take 1 (sort_key (seat_key cb) xs) = [x]" by (simp add: s)
  qed
qed

lemma map_of_single: "length xs \<le> 1 \<Longrightarrow> map_of xs k = Some v \<longleftrightarrow> xs = [(k, v)]"
  by (cases xs) (auto split: if_splits)

section \<open>Properties\<close>

text \<open>C9. One coldkey, one seat, and it is the best one's: under the cap in force (one seat per coldkey) a
  hotkey of unknown coldkey keeps its standing, and a hotkey of a known coldkey keeps its standing
  exactly when it has one and ranks (standing, then earlier commit, then hotkey) ahead of every
  other hotkey of that coldkey.\<close>

theorem eg_one_seat_per_coldkey:
  assumes "dict_ok standings"
  shows "map_of (kept (apply_coldkey_cap standings coldkey_of 1 commit_block)) hk = Some s \<longleftrightarrow>
    map_of standings hk = Some s \<and>
    (\<forall>ck. known_coldkey coldkey_of hk = Some ck \<longrightarrow>
      (\<forall>hk' s'. map_of standings hk' = Some s' \<and> known_coldkey coldkey_of hk' = Some ck \<and> hk' \<noteq> hk \<longrightarrow>
        seat_key commit_block (hk, s) < seat_key commit_block (hk', s')))"
proof (cases "known_coldkey coldkey_of hk")
  case None
  then show ?thesis by (simp add: cap_kept [OF assms])
next
  case (Some ck)
  let ?g = "group_of coldkey_of standings ck"
  let ?top = "take 1 (sort_key (seat_key commit_block) ?g)"
  have kept: "map_of (kept (apply_coldkey_cap standings coldkey_of 1 commit_block)) hk = map_of ?top hk"
    using cap_kept [OF assms, of 1 coldkey_of commit_block hk] by (simp add: Some ranked_group_def)
  have dist: "distinct ?g" using group_of_ok [OF assms] by (simp add: distinct_map)
  have g_in: "(h, x) \<in> set ?g \<longleftrightarrow> map_of standings h = Some x \<and> known_coldkey coldkey_of h = Some ck" for h x
    using assms by (auto simp: group_of_def)
  have short: "length ?top \<le> 1" by simp
  have "map_of ?top hk = Some s \<longleftrightarrow> ?top = [(hk, s)]"
    using short by (rule map_of_single)
  moreover have "?top = [(hk, s)] \<Longrightarrow> (hk, s) \<in> set ?g"
    by (metis in_set_takeD list.set_intros(1) set_sort)
  moreover have "(hk, s) \<in> set ?g \<Longrightarrow> ?top = [(hk, s)] \<longleftrightarrow>
      (\<forall>y \<in> set ?g. y \<noteq> (hk, s) \<longrightarrow> seat_key commit_block (hk, s) < seat_key commit_block y)"
    using take_1_sorted dist by blast
  moreover have "(\<forall>y \<in> set ?g. y \<noteq> (hk, s) \<longrightarrow> seat_key commit_block (hk, s) < seat_key commit_block y) \<longleftrightarrow>
      (\<forall>hk' s'. map_of standings hk' = Some s' \<and> known_coldkey coldkey_of hk' = Some ck \<and> hk' \<noteq> hk \<longrightarrow>
        seat_key commit_block (hk, s) < seat_key commit_block (hk', s'))" if "(hk, s) \<in> set ?g"
    using that by (auto simp: g_in) (metis option.inject)+
  ultimately show ?thesis using Some g_in [of hk s] unfolding kept by auto
qed

lemma eg_one_seat_per_coldkey_witness:
  "map_of (kept (apply_coldkey_cap [(''a'', 1), (''b'', 1), (''c'', 1/2)] [(''a'', ''k''), (''b'', ''k'')] 1 [(''b'', 5)])) ''b'' = Some 1"
proof -
  have "seat_key [(''b'', 5)] (''b'', 1) < seat_key [(''b'', 5)] (''a'', 1)" by code_simp
  then have "map_of [(''a'', 1), (''b'', 1), (''c'', 1/2)] ''b'' = Some (1::float) \<and>
    (\<forall>ck. known_coldkey [(''a'', ''k''), (''b'', ''k'')] ''b'' = Some ck \<longrightarrow>
      (\<forall>hk' s'. map_of [(''a'', 1), (''b'', 1), (''c'', 1/2)] hk' = Some s' \<and>
        known_coldkey [(''a'', ''k''), (''b'', ''k'')] hk' = Some ck \<and> hk' \<noteq> ''b'' \<longrightarrow>
        seat_key [(''b'', 5)] (''b'', 1) < seat_key [(''b'', 5)] (hk', s')))"
    by (auto simp: known_coldkey_def split: if_splits)
  then show ?thesis by (subst eg_one_seat_per_coldkey) simp_all
qed

text \<open>The participation multiplier is a multiplier, whatever the environment says: with the parameters
  read from any environment it lies in [0, 1]; it is 1 unless the miner's last counted day was a
  miss, 0 from \<open>misses_to_zero\<close> consecutive misses on, and a day the subnet did not run changes
  nothing, wherever it falls.\<close>

theorem eg_participation_multiplier:
  assumes "pow_ok powf" and "params = participation_params_from_env environ"
  shows "0 \<le> bridge_multiplier powf verdicts params \<and> bridge_multiplier powf verdicts params \<le> 1 \<and>
    bridge_multiplier powf (verdicts @ [Submitted]) params = 1 \<and>
    (misses_to_zero params \<le> int n \<longrightarrow> bridge_multiplier powf (verdicts @ replicate n Missed) params = 0) \<and>
    bridge_multiplier powf (verdicts @ SubnetDown # rest) params = bridge_multiplier powf (verdicts @ rest) params"
proof -
  have range: "0 \<le> decay_per_miss params" "decay_per_miss params \<le> 1" "1 \<le> misses_to_zero params"
    using participation_env_range [of environ] by (simp_all add: assms(2))
  have pow: "0 \<le> powf (decay_per_miss params) (of_nat n) \<and> powf (decay_per_miss params) (of_nat n) \<le> 1" for n
    using assms(1) range by (simp add: pow_ok_def)
  have misses: "n \<le> trailing_misses (verdicts @ replicate n Missed)"
  proof (induction n)
    case (Suc n)
    have "verdicts @ replicate (Suc n) Missed = (verdicts @ replicate n Missed) @ [Missed]"
      by (simp add: replicate_append_same)
    then show ?case using Suc by (simp only: trailing_misses_down)
  qed simp
  have "bridge_multiplier powf (verdicts @ replicate n Missed) params = 0" if "misses_to_zero params \<le> int n"
    using that misses range(3) by (simp add: bridge_multiplier_def Let_def)
  then show ?thesis
    using pow by (simp add: bridge_multiplier_def Let_def trailing_misses_def)
qed

lemma eg_participation_multiplier_witness:
  "bridge_multiplier flat_pow ([Submitted] @ replicate 3 Missed) (participation_params_from_env (\<lambda>_. None)) = 0"
proof -
  have "misses_to_zero (participation_params_from_env (\<lambda>_. None)) \<le> int 3" by code_simp
  then show ?thesis using eg_participation_multiplier [OF flat_pow_ok refl] by blast
qed

end
