(* ===== verification/CopyReceipts.thy ===== *)
theory CopyReceipts
  imports StandingMethod CopyDetection EarningGates
begin

text \<open>
  The copy verdicts of a day, read from the published receipts (the lower half of
  \<open>hope/validator/daily_stream_weights.py\<close>): fingerprints of a day with their index files, the day that
  stands in for one without a receipt, the one-payer exclusion set, the lineage groups with their
  published working, and the participation multipliers.

  A receipt is the document of its file; the index files hold what was computed from it. Texts and hashes
  are as in \<open>CopyDetection\<close>. The child process that computes the exclusion set may fail in ways the model
  does not enumerate: its outcome is a parameter, the reason of the failure or none.
\<close>

section \<open>Fingerprint indexes\<close>

datatype print_kind = Exact | Point

record copy_store =
  cst_standing :: standing_store
  cst_receipt_dir :: bool
  cst_prints :: "(string \<times> print_kind, (hotkey, string) dict) dict"

text \<open>\<open>(env.get("document") or {}).get("metrics", {})\<close>.\<close>

definition receipt_metrics :: "json \<Rightarrow> json" where
  "receipt_metrics env = jget (jget env ''document'') ''metrics''"

definition receipt_name :: "string \<Rightarrow> string" where "receipt_name day_name = day_name @ ''.json''"

definition receipt_doc :: "copy_store \<Rightarrow> string \<Rightarrow> json option" where
  "receipt_doc S day_name = map_option snd (map_of (receipts (cst_standing S)) (receipt_name day_name))"

definition prints_of_kind :: "(bytes \<Rightarrow> 256 word) \<Rightarrow> (json \<Rightarrow> string) \<Rightarrow> print_kind \<Rightarrow> json list \<Rightarrow> (hotkey, string) dict" where
  "prints_of_kind H dumps kind entries = (case kind of
     Exact \<Rightarrow> fingerprints_from_receipt H dumps entries | Point \<Rightarrow> point_fingerprints_from_receipt H dumps entries)"

definition load_day_fingerprints ::
    "(bytes \<Rightarrow> 256 word) \<Rightarrow> (json \<Rightarrow> string) \<Rightarrow> copy_store \<Rightarrow> string \<Rightarrow> print_kind \<Rightarrow> copy_store \<times> (hotkey, string) dict option" where
  "load_day_fingerprints H dumps S day_name kind =
     (case map_of (cst_prints S) (day_name, kind) of
        Some prints \<Rightarrow> (S, Some prints)
      | None \<Rightarrow> (case receipt_doc S day_name of
          None \<Rightarrow> (S, None)
        | Some env \<Rightarrow>
            (let prints = prints_of_kind H dumps kind (json_items (jget (receipt_metrics env) ''entries''))
             in (S\<lparr>cst_prints := AList.update (day_name, kind) prints (cst_prints S)\<rparr>, Some prints))))"

text \<open>The days that have a receipt: \<open>sorted(name[:-5] ...)\<close> over the file names kept.\<close>

definition receipt_days :: "copy_store \<Rightarrow> string list" where
  "receipt_days S = sort (map (\<lambda>fn. take (length fn - 5) fn) (filter is_receipt_name (keys (receipts (cst_standing S)))))"

definition ensure_day ::
    "(bytes \<Rightarrow> 256 word) \<Rightarrow> (json \<Rightarrow> string) \<Rightarrow> string option \<Rightarrow> copy_store \<times> nat \<Rightarrow> string \<Rightarrow> copy_store \<times> nat" where
  "ensure_day H dumps up_to acc day_name = (case acc of (S, built) \<Rightarrow>
     if (case up_to of None \<Rightarrow> False | Some d \<Rightarrow> d < day_name) then (S, built)
     else if map_of (cst_prints S) (day_name, Exact) \<noteq> None then (S, built)
     else case load_day_fingerprints H dumps S day_name Exact of
         (S', Some _) \<Rightarrow> (S', built + 1) | (S', None) \<Rightarrow> (S', built))"

definition ensure_fingerprint_indexes ::
    "(bytes \<Rightarrow> 256 word) \<Rightarrow> (json \<Rightarrow> string) \<Rightarrow> copy_store \<Rightarrow> string option \<Rightarrow> copy_store \<times> nat" where
  "ensure_fingerprint_indexes H dumps S up_to =
     (if \<not> cst_receipt_dir S then (S, 0) else foldl (ensure_day H dumps up_to) (S, 0) (receipt_days S))"

section \<open>The one-payer exclusion set\<close>

definition receipt_stand_in_max_days :: int where "receipt_stand_in_max_days = 3"

definition receipt_stand_in_day :: "string list \<Rightarrow> date \<Rightarrow> string option" where
  "receipt_stand_in_day history day =
     (let candidates = filter (\<lambda>d. d < isoformat day) history
      in if candidates = [] then None
         else let latest = Max (set candidates) in
           (case fromisoformat latest of
              None \<Rightarrow> None
            | Some d \<Rightarrow> if day - d \<le> receipt_stand_in_max_days then Some latest else None))"

definition copy_exempt_hotkeys :: "environ \<Rightarrow> hotkey set" where
  "copy_exempt_hotkeys environ =
     (case house_hotkey_from environ of None \<Rightarrow> {} | Some h \<Rightarrow> {h}) \<union> exempt_hotkeys_from environ"

record print_scan =
  sn_store :: copy_store
  sn_history :: "print_kind \<Rightarrow> (string \<times> (hotkey, string) dict) list"
  sn_today :: "print_kind \<Rightarrow> (hotkey, string) dict"

definition print_kinds :: "environ \<Rightarrow> print_kind list" where
  "print_kinds environ = (if point_fingerprints_enabled environ then [Exact, Point] else [Exact])"

definition scan_kind ::
    "(bytes \<Rightarrow> 256 word) \<Rightarrow> (json \<Rightarrow> string) \<Rightarrow> date \<Rightarrow> string \<Rightarrow> print_scan \<Rightarrow> print_kind \<Rightarrow> print_scan" where
  "scan_kind H dumps day day_name sn kind =
     (case load_day_fingerprints H dumps (sn_store sn) day_name kind of
        (S', None) \<Rightarrow> sn\<lparr>sn_store := S'\<rparr>
      | (S', Some prints) \<Rightarrow> sn\<lparr>sn_store := S',
          sn_history := (sn_history sn)(kind := sn_history sn kind @ [(day_name, prints)]),
          sn_today := (if day_name = isoformat day then (sn_today sn)(kind := prints) else sn_today sn)\<rparr>)"

definition scan_day ::
    "(bytes \<Rightarrow> 256 word) \<Rightarrow> (json \<Rightarrow> string) \<Rightarrow> print_kind list \<Rightarrow> date \<Rightarrow> print_scan \<Rightarrow> string \<Rightarrow> print_scan" where
  "scan_day H dumps kinds day sn day_name =
     (if isoformat day < day_name then sn else foldl (scan_kind H dumps day day_name) sn kinds)"

definition scan_receipts ::
    "(bytes \<Rightarrow> 256 word) \<Rightarrow> (json \<Rightarrow> string) \<Rightarrow> copy_store \<Rightarrow> date \<Rightarrow> environ \<Rightarrow> print_scan" where
  "scan_receipts H dumps S day environ =
     foldl (scan_day H dumps (print_kinds environ) day) \<lparr>sn_store = S, sn_history = (\<lambda>_. []), sn_today = (\<lambda>_. [])\<rparr> (receipt_days S)"

text \<open>The prints a verdict is read from: the day's own, else those of the day that stands in.\<close>

definition prints_judged :: "print_scan \<Rightarrow> date \<Rightarrow> environ \<Rightarrow> string \<times> (print_kind \<Rightarrow> (hotkey, string) dict)" where
  "prints_judged sn day environ =
     (if sn_today sn Exact = [] \<and> sn_today sn Point = [] then
        (case receipt_stand_in_day (map fst (sn_history sn Exact)) day of
           None \<Rightarrow> (isoformat day, sn_today sn)
         | Some d \<Rightarrow> (d, \<lambda>k. if k \<in> set (print_kinds environ) then (case map_of (sn_history sn k) d of None \<Rightarrow> [] | Some p \<Rightarrow> p) else sn_today sn k))
      else (isoformat day, sn_today sn))"

definition note_senior :: "string \<Rightarrow> (hotkey, string) dict \<Rightarrow> hotkey \<Rightarrow> (hotkey, string) dict" where
  "note_senior day_name seniority hk = (case map_of seniority hk of
     None \<Rightarrow> AList.update hk day_name seniority
   | Some d \<Rightarrow> if day_name < d then AList.update hk day_name seniority else seniority)"

definition seniority_of :: "print_scan \<Rightarrow> environ \<Rightarrow> (hotkey, string) dict" where
  "seniority_of sn environ = foldl (\<lambda>acc kind. foldl (\<lambda>acc (day_name, prints). foldl (note_senior day_name) acc (keys prints)) acc (sn_history sn kind))
     [] (print_kinds environ)"

record one_payer_stats =
  op_ran :: "bool option"
  op_reason :: "string option"
  op_receipts_dir :: "bool option"
  op_days_indexed :: "nat option"
  op_fingerprints_today :: "nat option"
  op_point_estimates_on :: "bool option"
  op_point_fingerprints_today :: "nat option"
  op_receipt_day :: "string option"
  op_groups :: "nat option"
  op_seniority :: "(hotkey, string) dict"
  op_group_detail :: "model_group list"

definition no_stats :: one_payer_stats where
  "no_stats = \<lparr>op_ran = None, op_reason = None, op_receipts_dir = None, op_days_indexed = None, op_fingerprints_today = None,
     op_point_estimates_on = None, op_point_fingerprints_today = None, op_receipt_day = None, op_groups = None,
     op_seniority = [], op_group_detail = []\<rparr>"

definition behaviour_groups :: "print_scan \<Rightarrow> (print_kind \<Rightarrow> (hotkey, string) dict) \<Rightarrow> environ \<Rightarrow> model_group list" where
  "behaviour_groups sn today environ = concat (map (\<lambda>kind.
     if today kind = [] then []
     else prediction_collisions (today kind) (seniority_of sn environ) (first_seen_fingerprints (sn_history sn kind))) (print_kinds environ))"

definition one_payer_suppression_from_receipts ::
    "(bytes \<Rightarrow> 256 word) \<Rightarrow> (json \<Rightarrow> string) \<Rightarrow> copy_store \<Rightarrow> date \<Rightarrow> environ \<Rightarrow> copy_store \<times> hotkey set \<times> one_payer_stats" where
  "one_payer_suppression_from_receipts H dumps S day environ =
     (let st0 = no_stats\<lparr>op_receipts_dir := Some False, op_days_indexed := Some 0, op_fingerprints_today := Some 0, op_groups := Some 0\<rparr>
      in if \<not> cst_receipt_dir S then (S, {}, st0)
         else
           let sn = scan_receipts H dumps S day environ in
           case prints_judged sn day environ of (receipt_day, today) \<Rightarrow>
             let st1 = st0\<lparr>op_receipts_dir := Some True, op_days_indexed := Some (length (sn_history sn Exact)),
                   op_fingerprints_today := Some (length (today Exact)), op_point_estimates_on := Some (Point \<in> set (print_kinds environ)),
                   op_point_fingerprints_today := Some (length (today Point)), op_receipt_day := Some receipt_day\<rparr>
             in if today Exact = [] \<and> today Point = [] then (sn_store sn, {}, st1)
                else
                  let groups = behaviour_groups sn today environ; seniority = seniority_of sn environ;
                      named = filter (\<lambda>hk. map_of seniority hk \<noteq> None) (concat (map group_all groups));
                      st2 = st1\<lparr>op_seniority := foldl (\<lambda>d hk. AList.update hk (the (map_of seniority hk)) d) [] named,
                        op_groups := Some (length groups), op_group_detail := groups\<rparr>
                  in if groups = [] then (sn_store sn, {}, st2)
                     else (sn_store sn, suppressed_copies groups {} [] (copy_exempt_hotkeys environ), st2))"

text \<open>The same behind a process boundary. The child inherits this process's environment and is sent the
  variables of the subnet; when it fails nobody is suppressed.\<close>

definition child_environ :: "environ \<Rightarrow> environ \<Rightarrow> environ" where
  "child_environ inherited environ = (\<lambda>k. if (startswith k ''SN21_'' \<or> startswith k ''HOPE_'') \<and> environ k \<noteq> None then environ k else inherited k)"

definition one_payer_suppression_subprocess ::
    "(bytes \<Rightarrow> 256 word) \<Rightarrow> (json \<Rightarrow> string) \<Rightarrow> environ \<Rightarrow> string option \<Rightarrow> copy_store \<Rightarrow> date \<Rightarrow> environ
      \<Rightarrow> copy_store \<times> hotkey set \<times> one_payer_stats" where
  "one_payer_suppression_subprocess H dumps inherited failure S day environ =
     (case failure of
        Some why \<Rightarrow> (S, {}, no_stats\<lparr>op_ran := Some False, op_reason := Some why\<rparr>)
      | None \<Rightarrow> (case one_payer_suppression_from_receipts H dumps S day (child_environ inherited environ) of
          (S', suppressed, st) \<Rightarrow> (S', suppressed, st\<lparr>op_ran := Some True\<rparr>)))"


section \<open>Rows of a receipt\<close>

definition short_digest :: "string option \<Rightarrow> string" where
  "short_digest value =
     (let text = strip (case value of None \<Rightarrow> [] | Some s \<Rightarrow> s);
          text = (if CHR '':'' \<in> set text then rev (takeWhile (\<lambda>c. c \<noteq> CHR '':'') (rev text)) else text)
      in lower (take 16 text))"

definition kept_row :: "(hotkey, string) dict option \<Rightarrow> hotkey \<Rightarrow> json \<Rightarrow> bool" where
  "kept_row current_digest miner e = (case current_digest of
     None \<Rightarrow> True
   | Some m \<Rightarrow> short_digest (map_of m miner) \<noteq> [] \<and> short_digest (opt_string (jget e ''model'')) = short_digest (map_of m miner))"

definition prediction_row ::
    "(json \<Rightarrow> string) \<Rightarrow> (hotkey, string) dict option \<Rightarrow> (hotkey, basket) dict \<Rightarrow> json \<Rightarrow> (hotkey, basket) dict" where
  "prediction_row dumps current_digest out e =
     (let miner = id_text dumps (jget e ''miner'') in
      if \<not> truthy (jget e ''miner'') \<or> jget e ''prediction'' = JNull then out
      else if \<not> kept_row current_digest miner e then out
      else put_prediction miner (id_text dumps (jget e ''episode_id'')) (id_text dumps (jget e ''horizon_days'')) (jget e ''prediction'') out)"

definition predictions_from_receipt :: "(json \<Rightarrow> string) \<Rightarrow> json list \<Rightarrow> (hotkey, string) dict option \<Rightarrow> (hotkey, basket) dict" where
  "predictions_from_receipt dumps entries current_digest = foldl (prediction_row dumps current_digest) [] entries"

definition actual_metrics :: "string list" where
  "actual_metrics = [''cost_delta_pct'', ''conversions_delta_pct'', ''efficiency_delta_pct'']"

definition number_of :: "json \<Rightarrow> float option" where
  "number_of j = (case j of JNum x \<Rightarrow> Some x | JBool b \<Rightarrow> Some (if b then 1 else 0) | _ \<Rightarrow> None)"

definition note_actual :: "(json \<Rightarrow> string) \<Rightarrow> json \<Rightarrow> (row_key, float) dict \<Rightarrow> string \<Rightarrow> (row_key, float) dict" where
  "note_actual dumps row out metric = (case number_of (jget row metric) of
     None \<Rightarrow> out
   | Some x \<Rightarrow> AList.update (id_text dumps (jget row ''episode_id''), id_text dumps (jget row ''horizon_days''), metric) x out)"

definition actuals_from_receipt :: "(json \<Rightarrow> string) \<Rightarrow> json list \<Rightarrow> (row_key, float) dict" where
  "actuals_from_receipt dumps outcomes = foldl (\<lambda>out row. foldl (note_actual dumps row) out actual_metrics) [] outcomes"

section \<open>Participation\<close>

definition participation_gate_enabled :: "environ \<Rightarrow> bool" where
  "participation_gate_enabled environ \<longleftrightarrow> flag_on environ ''SN21_PARTICIPATION_GATE''"

definition participation_window_days :: nat where "participation_window_days = 7"

definition note_verdict ::
    "participation_params \<Rightarrow> (hotkey, verdict list) dict \<Rightarrow> hotkey \<times> (int \<times> int) \<Rightarrow> (hotkey, verdict list) dict" where
  "note_verdict params verdicts item = (case item of (hk, (episodes, predictions)) \<Rightarrow>
     append_at hk (day_verdict (Some episodes) (Some predictions) True params) verdicts)"

definition verdicts_of_day ::
    "shadow \<Rightarrow> participation_params \<Rightarrow> (hotkey, verdict list) dict \<Rightarrow> string \<Rightarrow> py_error + (hotkey, verdict list) dict" where
  "verdicts_of_day Sh params verdicts d =
     (if subnet_ran Sh d then map_sum id (\<lambda>coverage. foldl (note_verdict params) verdicts coverage) (day_coverage Sh d)
      else Inr verdicts)"

definition participation_multipliers ::
    "(float \<Rightarrow> float \<Rightarrow> float) \<Rightarrow> shadow \<Rightarrow> date \<Rightarrow> environ \<Rightarrow> nat \<Rightarrow> py_error + (hotkey, float) dict" where
  "participation_multipliers powf Sh day environ window_days =
     (let params = participation_params_from_env environ;
          days = map (\<lambda>n. isoformat (day - int n)) (rev [0..<window_days])
      in map_sum id (\<lambda>verdicts. map (\<lambda>(hk, v). (hk, bridge_multiplier powf v params)) verdicts)
           (fold_sum (verdicts_of_day Sh params) [] days))"

section \<open>Lineage from the receipts\<close>

text \<open>A value that is not a number leaves every threshold unset; a malformed delta is the default one.\<close>

definition lineage_field :: "environ \<Rightarrow> string \<Rightarrow> unit + float option" where
  "lineage_field environ name =
     (let raw = env_raw environ name in if raw = [] then Inr None else case py_float raw of None \<Rightarrow> Inl () | Some x \<Rightarrow> Inr (Some x))"

definition lineage_params_from_env :: "environ \<Rightarrow> lineage_params" where
  "lineage_params_from_env environ =
     (let fields = map (lineage_field environ)
            [''SN21_LINEAGE_CORR_MIN'', ''SN21_LINEAGE_SIGN_MIN'', ''SN21_LINEAGE_DISTANCE_MAX'', ''SN21_LINEAGE_DISAGREE_MAX''];
          version = env_raw environ ''SN21_LINEAGE_PARAMS_VERSION''
      in case fields of
           [Inr c, Inr s, Inr d, Inr r] \<Rightarrow>
             \<lparr>corr_min = c, sign_agree_min = s, distance_max = d, disagree_max = r,
              disagree_delta = (case py_float (env_raw environ ''SN21_LINEAGE_DISAGREE_DELTA'') of
                  None \<Rightarrow> disagree_delta default_lineage_params | Some x \<Rightarrow> x),
              params_version = (if version = [] then ''unset'' else version)\<rparr>
         | _ \<Rightarrow> default_lineage_params)"

text \<open>The receipt days of the lineage test keep names that start with an underscore.\<close>

definition lineage_days :: "copy_store \<Rightarrow> date \<Rightarrow> string list" where
  "lineage_days S day = filter (\<lambda>d. d \<le> isoformat day) (sort (map (\<lambda>fn. take (length fn - 5) fn)
     (filter (\<lambda>fn. drop (length fn - 5) fn = ''.json'') (keys (receipts (cst_standing S))))))"

definition lineage_receipt_day :: "copy_store \<Rightarrow> date \<Rightarrow> string option" where
  "lineage_receipt_day S day =
     (let days = lineage_days S day in if isoformat day \<in> set days then Some (isoformat day) else receipt_stand_in_day days day)"

definition entries_of_day :: "copy_store \<Rightarrow> date \<Rightarrow> string \<Rightarrow> json list" where
  "entries_of_day S day day_name =
     (if Some day_name = lineage_receipt_day S day
      then (case receipt_doc S day_name of None \<Rightarrow> [] | Some env \<Rightarrow> json_items (jget (receipt_metrics env) ''entries''))
      else entries_of_receipt (cst_standing S) (receipt_name day_name))"

definition note_first_seen :: "(json \<Rightarrow> string) \<Rightarrow> nat \<Rightarrow> (hotkey, nat) dict \<Rightarrow> json \<Rightarrow> (hotkey, nat) dict" where
  "note_first_seen dumps rank first_seen e =
     (if truthy (jget e ''miner'') \<and> map_of first_seen (id_text dumps (jget e ''miner'')) = None
      then AList.update (id_text dumps (jget e ''miner'')) rank first_seen else first_seen)"

definition first_seen_ranks :: "(json \<Rightarrow> string) \<Rightarrow> copy_store \<Rightarrow> date \<Rightarrow> (hotkey, nat) dict" where
  "first_seen_ranks dumps S day = foldl (\<lambda>acc (rank, day_name). foldl (note_first_seen dumps rank) acc (entries_of_day S day day_name))
     [] (enumerate 0 (lineage_days S day))"

definition current_digests :: "json option \<Rightarrow> (hotkey, string) dict" where
  "current_digests doc = (case doc of None \<Rightarrow> [] | Some raw \<Rightarrow>
     concat (map (\<lambda>(hk, rec). case opt_string (jget rec ''digest'') of None \<Rightarrow> [] | Some d \<Rightarrow> if d = [] then [] else [(hk, d)]) (json_fields raw)))"

definition lineage_exempt :: "environ \<Rightarrow> model_group \<Rightarrow> bool" where
  "lineage_exempt environ g \<longleftrightarrow> list_ex (\<lambda>hk. hk \<in> copy_exempt_hotkeys environ) (group_all g)"

definition exempt_row :: "model_group \<Rightarrow> json" where
  "exempt_row g = JDict [(''payee'', JStr (original g)), (''stood_down'', jstrs (copies g)),
     (''reason'', JStr ''contains an exempt hotkey (reference model)'')]"

text \<open>What the run compared, published beside the pair signals.\<close>

definition lineage_audit ::
    "lineage_params \<Rightarrow> string option \<Rightarrow> (hotkey, string) dict \<Rightarrow> (hotkey, basket) dict \<Rightarrow> environ \<Rightarrow> model_group list
      \<Rightarrow> (string, json) dict \<Rightarrow> (string, json) dict" where
  "lineage_audit params receipt_day current predictions environ groups signals =
     (let scoped = (current \<noteq> []); exempted = filter (lineage_exempt environ) groups
      in dict_update signals
          ([(''params_version'', JStr (params_version params)), (''receipt_day'', jopt JStr receipt_day),
            (''rows'', JStr (if scoped then ''each hotkey's current model only'' else ''every row on the receipt (no current-model map)'')),
            (''comparable_hotkeys'', jnat (length predictions))]
           @ (if scoped then [(''current_model'', JDict (map (\<lambda>hk. (hk, JStr (short_digest (map_of current hk)))) (sort (keys predictions))))] else [])
           @ (if groups \<noteq> [] then [(''exemption_configured'', JBool (copy_exempt_hotkeys environ \<noteq> {}))] else [])
           @ (if groups \<noteq> [] \<and> exempted \<noteq> [] then [(''exempt_groups'', JList (map exempt_row exempted))] else [])))"

definition lineage_from_receipts ::
    "(float \<Rightarrow> float \<Rightarrow> float) \<Rightarrow> (json \<Rightarrow> string) \<Rightarrow> copy_store \<Rightarrow> date \<Rightarrow> environ
      \<Rightarrow> (py_error + model_group list \<times> (string, json) dict) option" where
  "lineage_from_receipts powf dumps S day environ =
     (let params = lineage_params_from_env environ in
      if \<not> configured params \<or> \<not> cst_receipt_dir S then Some (Inr ([], []))
      else
        let receipt_day = lineage_receipt_day S day;
            judged = (case receipt_day of None \<Rightarrow> [] | Some d \<Rightarrow> entries_of_day S day d);
            outcomes = (case Option.bind receipt_day (receipt_doc S) of None \<Rightarrow> [] | Some env \<Rightarrow> json_items (jget (receipt_metrics env) ''outcomes''));
            current = current_digests (model_since_doc (cst_standing S));
            predictions = predictions_from_receipt dumps judged (if current = [] then None else Some current)
        in if predictions = [] then Some (Inr ([], []))
           else andthen (lineage_collisions powf predictions (actuals_from_receipt dumps outcomes) params (first_seen_ranks dumps S day) True min_overlap_rows)
             (\<lambda>(groups, signals). Some (Inr (filter (\<lambda>g. \<not> lineage_exempt environ g) groups,
                lineage_audit params receipt_day current predictions environ groups signals))))"


section \<open>What the verdicts rest on\<close>

lemma keys_put_prediction: "set (keys (put_prediction m e h v per)) = insert m (set (keys per))"
  by (simp add: put_prediction_def Let_def)

lemma dict_ok_put_prediction: "dict_ok per \<Longrightarrow> dict_ok (put_prediction m e h v per)"
  by (auto simp: put_prediction_def Let_def)

definition judged_row :: "(json \<Rightarrow> string) \<Rightarrow> (hotkey, string) dict option \<Rightarrow> hotkey \<Rightarrow> json \<Rightarrow> bool" where
  "judged_row dumps current miner e \<longleftrightarrow> truthy (jget e ''miner'') \<and> jget e ''prediction'' \<noteq> JNull \<and>
     id_text dumps (jget e ''miner'') = miner \<and> kept_row current miner e"

lemma prediction_rows:
  "dict_ok (predictions_from_receipt dumps entries current) \<and>
   (m \<in> set (keys (predictions_from_receipt dumps entries current)) \<longleftrightarrow> (\<exists>e \<in> set entries. judged_row dumps current m e))"
proof (induction entries rule: rev_induct)
  case (snoc e es)
  have "predictions_from_receipt dumps (es @ [e]) current = prediction_row dumps current (predictions_from_receipt dumps es current) e"
    by (simp add: predictions_from_receipt_def)
  then show ?case using snoc keys_put_prediction dict_ok_put_prediction
    by (auto simp: prediction_row_def Let_def judged_row_def)
qed (simp add: predictions_from_receipt_def)

lemma lineage_parts:
  assumes "lineage_from_receipts powf dumps S day environ = Some (Inr (groups, audit))" and "g \<in> set groups"
  obtains d all signals where "lineage_receipt_day S day = Some d"
    "lineage_collisions powf (predictions_from_receipt dumps (entries_of_day S day d)
        (if current_digests (model_since_doc (cst_standing S)) = [] then None else Some (current_digests (model_since_doc (cst_standing S)))))
      (actuals_from_receipt dumps (case receipt_doc S d of None \<Rightarrow> [] | Some env \<Rightarrow> json_items (jget (receipt_metrics env) ''outcomes'')))
      (lineage_params_from_env environ) (first_seen_ranks dumps S day) True min_overlap_rows = Some (Inr (all, signals))"
    "g \<in> set all" "\<not> lineage_exempt environ g"
proof (cases "lineage_receipt_day S day")
  case None
  then show ?thesis using assms by (auto simp: lineage_from_receipts_def Let_def predictions_from_receipt_def split: if_splits)
next
  case (Some d)
  then show ?thesis using assms that [of d]
    by (auto simp: lineage_from_receipts_def Let_def andthen_def split: if_splits option.splits sum.splits)
qed

text \<open>The day the verdict is read from.\<close>

lemma judged_day:
  assumes d: "lineage_receipt_day S day = Some d"
  shows "d \<le> isoformat day \<and> (d = isoformat day \<or> (\<exists>n. fromisoformat d = Some n \<and> day - n \<le> 3))"
proof (cases "d = isoformat day")
  case False
  let ?c = "filter (\<lambda>x. x < isoformat day) (lineage_days S day)"
  have s: "receipt_stand_in_day (lineage_days S day) day = Some d" using d False by (auto simp: lineage_receipt_day_def Let_def split: if_splits)
  then have m: "?c \<noteq> []" "d = Max (set ?c)" "\<exists>n. fromisoformat d = Some n \<and> day - n \<le> 3"
    by (auto simp: receipt_stand_in_day_def Let_def receipt_stand_in_max_days_def split: if_splits option.splits)
  have "Max (set ?c) \<in> set ?c" by (rule Max_in) (simp, simp only: set_empty m(1) not_False_eq_True)
  then have "d < isoformat day" unfolding m(2) by simp
  then show ?thesis using m(3) by simp
qed simp

text \<open>A row of a model its miner does not run, or of a miner whose running model is not known.\<close>

definition replaced_row :: "(json \<Rightarrow> string) \<Rightarrow> (hotkey, string) dict \<Rightarrow> json \<Rightarrow> bool" where
  "replaced_row dumps current x \<longleftrightarrow> (let running = short_digest (map_of current (id_text dumps (jget x ''miner'')))
     in running = [] \<or> short_digest (opt_string (jget x ''model'')) \<noteq> running)"

definition receipt_rows :: "json \<Rightarrow> string \<Rightarrow> json list" where
  "receipt_rows env part = json_items (jget (receipt_metrics env) part)"

text \<open>The receipt is written again; its index files stay.\<close>

definition rewrite_receipt :: "string \<Rightarrow> stamp \<Rightarrow> json \<Rightarrow> copy_store \<Rightarrow> copy_store" where
  "rewrite_receipt day_name st env S = S\<lparr>cst_standing := write_receipt (receipt_name day_name) st env (cst_standing S)\<rparr>"

lemma kept_row_iff: "kept_row (Some current) (id_text dumps (jget x ''miner'')) x \<longleftrightarrow> \<not> replaced_row dumps current x"
  by (auto simp: kept_row_def replaced_row_def Let_def)

lemma predictions_kept:
  "predictions_from_receipt dumps es (Some current) = foldl (fingerprint_row dumps id) [] (filter (\<lambda>x. \<not> replaced_row dumps current x) es)"
proof -
  have step: "prediction_row dumps (Some current) out x = (if \<not> replaced_row dumps current x then fingerprint_row dumps id out x else out)" for out x
    by (simp add: prediction_row_def Let_def kept_row_iff fingerprint_row_def)
  have "foldl (prediction_row dumps (Some current)) out es = foldl (fingerprint_row dumps id) out (filter (\<lambda>x. \<not> replaced_row dumps current x) es)" for out
    by (induction es arbitrary: out) (simp_all add: step)
  then show ?thesis by (simp add: predictions_from_receipt_def)
qed

lemma rewrite_reads:
  assumes "receipt_doc S d = Some env"
  shows "keys (receipts (cst_standing (rewrite_receipt d st env' S))) = keys (receipts (cst_standing S))"
    "receipt_doc (rewrite_receipt d st env' S) d' = (if d' = d then Some env' else receipt_doc S d')"
    "d' \<noteq> d \<Longrightarrow> entries_of_receipt (cst_standing (rewrite_receipt d st env' S)) (receipt_name d') = entries_of_receipt (cst_standing S) (receipt_name d')"
    "cst_receipt_dir (rewrite_receipt d st env' S) = cst_receipt_dir S" "cst_prints (rewrite_receipt d st env' S) = cst_prints S"
    "model_since_doc (cst_standing (rewrite_receipt d st env' S)) = model_since_doc (cst_standing S)"
proof -
  have "receipt_name d \<in> fst ` set (receipts (cst_standing S))" using assms by (auto simp: receipt_doc_def map_of_keys_iff)
  then show "keys (receipts (cst_standing (rewrite_receipt d st env' S))) = keys (receipts (cst_standing S))"
    by (simp add: rewrite_receipt_def write_receipt_def keys_update)
qed (simp_all add: rewrite_receipt_def write_receipt_def receipt_doc_def receipt_name_def map_of_update entries_of_receipt_def split: option.split)

lemma first_seen_same:
  "list_all2 (\<lambda>x y. jget x ''miner'' = jget y ''miner'') xs ys \<Longrightarrow> foldl (note_first_seen dumps rank) acc xs = foldl (note_first_seen dumps rank) acc ys"
  by (induction xs ys arbitrary: acc rule: list_all2_induct) (simp_all add: note_first_seen_def)

text \<open>Other rows of replaced models leave everything the verdict reads as it was.\<close>

lemma rewritten_reads:
  fixes st :: stamp
  assumes "lineage_receipt_day S day = Some d" and env: "receipt_doc S d = Some env"
    and rows: "list_all2 (\<lambda>x y. x = y \<or> jget x ''miner'' = jget y ''miner'' \<and> replaced_row dumps current x \<and> replaced_row dumps current y)
      (receipt_rows env ''entries'') (receipt_rows env' ''entries'')"
  defines "S' \<equiv> rewrite_receipt d st env' S"
  shows "lineage_receipt_day S' day = Some d" "receipt_doc S' d = Some env'"
    "predictions_from_receipt dumps (entries_of_day S' day d) (Some current) = predictions_from_receipt dumps (entries_of_day S day d) (Some current)"
    "first_seen_ranks dumps S' day = first_seen_ranks dumps S day"
proof -
  note r = rewrite_reads [OF env, where st = st and env' = env', folded S'_def]
  have days: "lineage_days S' day = lineage_days S day" by (simp add: lineage_days_def r(1))
  show judged: "lineage_receipt_day S' day = Some d" using assms(1) unfolding lineage_receipt_day_def days .
  show "receipt_doc S' d = Some env'" by (simp add: r(2))
  have es: "entries_of_day S' day d = receipt_rows env' ''entries''" "entries_of_day S day d = receipt_rows env ''entries''"
    by (simp_all add: entries_of_day_def judged assms(1) env r(2) receipt_rows_def)
  have kept: "filter (\<lambda>x. \<not> replaced_row dumps current x) xs = filter (\<lambda>x. \<not> replaced_row dumps current x) ys"
    if "list_all2 (\<lambda>x y. x = y \<or> jget x ''miner'' = jget y ''miner'' \<and> replaced_row dumps current x \<and> replaced_row dumps current y) xs ys" for xs ys
    using that by (induction rule: list_all2_induct) auto
  show "predictions_from_receipt dumps (entries_of_day S' day d) (Some current) = predictions_from_receipt dumps (entries_of_day S day d) (Some current)"
    unfolding predictions_kept es kept [OF rows] ..
  have miners: "list_all2 (\<lambda>x y. jget x ''miner'' = jget y ''miner'') (receipt_rows env ''entries'') (receipt_rows env' ''entries'')"
    using rows by (rule list_all2_mono) auto
  have other: "entries_of_day S' day d' = entries_of_day S day d'" if "d' \<noteq> d" for d'
    using that by (simp add: entries_of_day_def judged assms(1) r(3))
  have same: "foldl (note_first_seen dumps rank) acc (entries_of_day S' day d') = foldl (note_first_seen dumps rank) acc (entries_of_day S day d')" for rank acc d'
    using first_seen_same [OF miners] by (cases "d' = d") (simp_all add: es other)
  show "first_seen_ranks dumps S' day = first_seen_ranks dumps S day" unfolding first_seen_ranks_def days same ..
qed

text \<open>C39. Nobody is grouped on behaviour of a model it no longer runs. Once the map of running models is known,
  rows of replaced models make no difference: whatever else they had predicted or whatever replaced
  model they had named, the run would return the same groups and publish the same working. And every
  member of a group that is enforced has, on the receipt the verdict is read from, at least one
  prediction of its running model, and is not exempt. That receipt is the day's own, else one of the
  three days before it.\<close>

theorem cr_lineage_judges_running_models:
  assumes d: "lineage_receipt_day S day = Some d" and env: "receipt_doc S d = Some env"
    and current: "current_digests (model_since_doc (cst_standing S)) = current" "current \<noteq> []"
  shows "(\<forall>st env'. list_all2 (\<lambda>x y. x = y \<or> jget x ''miner'' = jget y ''miner'' \<and> replaced_row dumps current x \<and> replaced_row dumps current y)
        (receipt_rows env ''entries'') (receipt_rows env' ''entries'') \<and> receipt_rows env' ''outcomes'' = receipt_rows env ''outcomes'' \<longrightarrow>
      lineage_from_receipts powf dumps (rewrite_receipt d st env' S) day environ = lineage_from_receipts powf dumps S day environ) \<and>
    (\<forall>groups audit g hk. lineage_from_receipts powf dumps S day environ = Some (Inr (groups, audit)) \<and> g \<in> set groups \<and> hk \<in> set (group_all g) \<longrightarrow>
      hk \<notin> copy_exempt_hotkeys environ \<and>
      (\<exists>x \<in> set (receipt_rows env ''entries''). truthy (jget x ''miner'') \<and> id_text dumps (jget x ''miner'') = hk \<and>
         jget x ''prediction'' \<noteq> JNull \<and> \<not> replaced_row dumps current x)) \<and>
    d \<le> isoformat day \<and> (d = isoformat day \<or> (\<exists>n. fromisoformat d = Some n \<and> day - n \<le> 3))"
proof -
  have es: "entries_of_day S day d = receipt_rows env ''entries''" by (simp add: entries_of_day_def d env receipt_rows_def)
  have same: "lineage_from_receipts powf dumps (rewrite_receipt d st env' S) day environ = lineage_from_receipts powf dumps S day environ"
    if rows: "list_all2 (\<lambda>x y. x = y \<or> jget x ''miner'' = jget y ''miner'' \<and> replaced_row dumps current x \<and> replaced_row dumps current y)
        (receipt_rows env ''entries'') (receipt_rows env' ''entries'')"
      and out: "receipt_rows env' ''outcomes'' = receipt_rows env ''outcomes''" for st env'
  proof -
    note r = rewritten_reads [OF d env rows, where st = st] and k = rewrite_reads [OF env, where st = st and env' = env']
    show ?thesis unfolding lineage_from_receipts_def Let_def r k(4,6) d current(1) option.case if_not_P [OF current(2)]
        bind.bind_lunit env r(2) out [unfolded receipt_rows_def] ..
  qed
  have member: "hk \<notin> copy_exempt_hotkeys environ \<and> (\<exists>x \<in> set (receipt_rows env ''entries''). truthy (jget x ''miner'') \<and>
      id_text dumps (jget x ''miner'') = hk \<and> jget x ''prediction'' \<noteq> JNull \<and> \<not> replaced_row dumps current x)"
    if l: "lineage_from_receipts powf dumps S day environ = Some (Inr (groups, audit))" "g \<in> set groups" "hk \<in> set (group_all g)" for groups audit g hk
  proof -
    from lineage_parts [OF l(1,2)] obtain all signals where
      c: "lineage_collisions powf (predictions_from_receipt dumps (entries_of_day S day d)
          (if current_digests (model_since_doc (cst_standing S)) = [] then None else Some (current_digests (model_since_doc (cst_standing S)))))
        (actuals_from_receipt dumps (case receipt_doc S d of None \<Rightarrow> [] | Some env \<Rightarrow> json_items (jget (receipt_metrics env) ''outcomes'')))
        (lineage_params_from_env environ) (first_seen_ranks dumps S day) True min_overlap_rows = Some (Inr (all, signals))"
      and g: "g \<in> set all" "\<not> lineage_exempt environ g"
      using d by (metis option.inject)
    let ?p = "predictions_from_receipt dumps (receipt_rows env ''entries'') (Some current)"
    have "dict_ok ?p" using prediction_rows by blast
    from lineage_groups_compared [OF c [unfolded current(1) if_not_P [OF current(2)] es] this g(1)] have "hk \<in> set (keys ?p)" using l(3) by blast
    then obtain x where x: "x \<in> set (receipt_rows env ''entries'')" "judged_row dumps (Some current) hk x" using prediction_rows by blast
    have "hk \<notin> copy_exempt_hotkeys environ" using g(2) l(3) by (auto simp: lineage_exempt_def list_ex_iff)
    then show ?thesis using x kept_row_iff [of current dumps x] by (auto simp: judged_row_def)
  qed
  have "d \<le> isoformat day \<and> (d = isoformat day \<or> (\<exists>n. fromisoformat d = Some n \<and> day - n \<le> 3))" using judged_day [OF d] .
  then show ?thesis using same member by blast
qed


text \<open>Two miners whose running models agree on thirty values of one receipt, one of whom has a row of a
  replaced model beside them.\<close>

definition sample_metrics :: "(string \<times> json) list" where
  "sample_metrics = map (\<lambda>i. (replicate i CHR ''m'', JDict [(''p50'', JNum 0)])) [0..<30]"

definition sample_basket :: basket where
  "sample_basket = [(''e'', [(''7'', JDict sample_metrics)])]"

definition sample_row :: "hotkey \<Rightarrow> json" where
  "sample_row m = JDict [(''miner'', JStr m), (''episode_id'', JStr ''e''), (''horizon_days'', JStr ''7''),
     (''prediction'', JDict sample_metrics), (''model'', JStr ''d'')]"

definition old_row :: "json \<Rightarrow> json" where
  "old_row p = JDict [(''miner'', JStr ''b''), (''episode_id'', JStr ''e''), (''horizon_days'', JStr ''7''), (''prediction'', p), (''model'', JStr ''x'')]"

definition sample_receipt :: "json list \<Rightarrow> json" where
  "sample_receipt rows = JDict [(''document'', JDict [(''metrics'', JDict [(''entries'', JList rows)])])]"

definition store_with :: "json list \<Rightarrow> copy_store" where
  "store_with rows = \<lparr>cst_standing = \<lparr>receipts = [(''2026-10-01.json'', ((0, 0), sample_receipt rows))], indexes = [], tkeys = [],
     model_since_doc = Some (JDict [(''a'', JDict [(''digest'', JStr ''d'')]), (''b'', JDict [(''digest'', JStr ''d'')])])\<rparr>,
     cst_receipt_dir = True, cst_prints = []\<rparr>"

definition sample_store :: copy_store where
  "sample_store = store_with [sample_row ''a'', sample_row ''b'', old_row (JNum 5)]"

definition sample_environ :: environ where
  "sample_environ = map_of [(''SN21_LINEAGE_CORR_MIN'', ''0.5''), (''SN21_LINEAGE_SIGN_MIN'', ''0.5''),
     (''SN21_LINEAGE_DISTANCE_MAX'', ''0.5''), (''SN21_LINEAGE_DISAGREE_MAX'', ''0.5''), (''SN21_LINEAGE_DISAGREE_DELTA'', ''0.5'')]"

definition sample_lineage_params :: lineage_params where
  "sample_lineage_params = \<lparr>corr_min = Some (1 / 2), sign_agree_min = Some (1 / 2), distance_max = Some (1 / 2),
     disagree_max = Some (1 / 2), disagree_delta = 1 / 2, params_version = ''unset''\<rparr>"

definition sample_alike :: pair_signals where
  "sample_alike = \<lparr>overlap = 30, correlation = 1, sign_agreement = 1, distance = 0, disagreement = 0\<rparr>"

lemma sample_reads:
  "lineage_params_from_env sample_environ = sample_lineage_params"
  "lineage_receipt_day sample_store 739890 = Some ''2026-10-01''"
  "current_digests (model_since_doc (cst_standing sample_store)) = [(''a'', ''d''), (''b'', ''d'')]"
  "copy_exempt_hotkeys sample_environ = {}"
  "entries_of_day sample_store 739890 ''2026-10-01'' = [sample_row ''a'', sample_row ''b'', old_row (JNum 5)]"
  by code_simp+

lemma sample_predictions:
  "predictions_from_receipt (\<lambda>_. []) [sample_row ''a'', sample_row ''b'', old_row (JNum 5)] (Some [(''a'', ''d''), (''b'', ''d'')])
    = [(''a'', sample_basket), (''b'', sample_basket)]"
  by code_simp

lemma sample_outcomes: "(case receipt_doc sample_store ''2026-10-01'' of None \<Rightarrow> [] | Some env \<Rightarrow> json_items (jget (receipt_metrics env) ''outcomes'')) = []"
  by code_simp

lemma sample_signals:
  "signals_of (\<lambda>x y. x) sample_basket sample_basket [] (1 / 2) 30 = Inr (Some sample_alike)"
proof -
  have rows: "p50_rows sample_basket = Inr (map (\<lambda>i. ((''e'', ''7'', replicate i CHR ''m''), 0)) [0..<30])" by code_simp
  have call: "and_then (Inr x) f = f x" for x :: "(row_key, float) dict" and f :: "_ \<Rightarrow> py_error + pair_signals option"
    by (simp add: and_then_def)
  show ?thesis unfolding signals_of_def rows call by code_simp
qed

lemma sample_collisions:
  "lineage_collisions (\<lambda>x y. x) [(''a'', sample_basket), (''b'', sample_basket)] [] sample_lineage_params first True min_overlap_rows
    = Some (Inr ([lineage_group [((''a'', ''b''), Some sample_alike)] sample_lineage_params first [''a'', ''b'']],
        pairwise_audit [((''a'', ''b''), Some sample_alike)]))"
proof -
  have "cache_pair (\<lambda>x y. x) [(''a'', sample_basket), (''b'', sample_basket)] [] sample_lineage_params min_overlap_rows [] (''a'', ''b'')
      = Inr [((''a'', ''b''), Some sample_alike)]"
    using sample_signals by (simp add: cache_pair_def sample_lineage_params_def min_overlap_rows_def setdefault_get_def)
  moreover have "linked_by [((''a'', ''b''), Some sample_alike)] sample_lineage_params ''a'' ''b''"
    by (simp add: linked_by_def cached_def same_lineage_def sample_lineage_params_def sample_alike_def)
  moreover have "configured sample_lineage_params" by (simp add: configured_def sample_lineage_params_def)
  ultimately show ?thesis by (simp add: lineage_collisions_def andthen_def sample_links kept_members_def)
qed

lemma sample_rewritten:
  "receipt_doc sample_store ''2026-10-01'' = Some (sample_receipt [sample_row ''a'', sample_row ''b'', old_row (JNum 5)])"
  "receipt_rows (sample_receipt rows) ''entries'' = rows" "receipt_rows (sample_receipt rows) ''outcomes'' = []"
  "replaced_row (\<lambda>_. []) [(''a'', ''d''), (''b'', ''d'')] (old_row p)" "jget (old_row p) ''miner'' = JStr ''b''"
  by (simp_all add: receipt_doc_def receipt_name_def sample_store_def store_with_def receipt_rows_def sample_receipt_def receipt_metrics_def
      jget_JDict json_items_def replaced_row_def old_row_def id_text_def opt_string_def short_digest_def strip_def lower_def lower_char_def is_space_def Let_def)

theorem cr_lineage_judges_running_models_witness:
  "\<exists>groups audit g. lineage_from_receipts (\<lambda>x y. x) (\<lambda>_. []) sample_store 739890 sample_environ = Some (Inr (groups, audit)) \<and>
    lineage_from_receipts (\<lambda>x y. x) (\<lambda>_. []) (rewrite_receipt ''2026-10-01'' (1, 1) (sample_receipt [sample_row ''a'', sample_row ''b'', old_row (JNum 6)]) sample_store)
      739890 sample_environ = Some (Inr (groups, audit)) \<and>
    g \<in> set groups \<and> ''a'' \<in> set (group_all g) \<and> ''a'' \<notin> copy_exempt_hotkeys sample_environ"
proof -
  let ?first = "first_seen_ranks (\<lambda>_. []) sample_store 739890"
  let ?g = "lineage_group [((''a'', ''b''), Some sample_alike)] sample_lineage_params ?first [''a'', ''b'']"
  have conf: "configured (lineage_params_from_env sample_environ)" "cst_receipt_dir sample_store"
    by (simp_all add: sample_reads configured_def sample_lineage_params_def sample_store_def store_with_def)
  have free: "\<not> lineage_exempt sample_environ ?g" by (simp add: lineage_exempt_def sample_reads list_ex_iff)
  have "actuals_from_receipt (\<lambda>_. []) [] = []" by (simp add: actuals_from_receipt_def)
  then have "\<exists>audit. lineage_from_receipts (\<lambda>x y. x) (\<lambda>_. []) sample_store 739890 sample_environ = Some (Inr ([?g], audit))"
    using conf free sample_collisions [of ?first] sample_outcomes
    by (simp add: lineage_from_receipts_def Let_def sample_reads sample_predictions andthen_def)
  then obtain audit where r: "lineage_from_receipts (\<lambda>x y. x) (\<lambda>_. []) sample_store 739890 sample_environ = Some (Inr ([?g], audit))" by blast
  have m: "''a'' \<in> set (group_all ?g)" by (simp add: group_all_lineage)
  note t = cr_lineage_judges_running_models [OF sample_reads(2) sample_rewritten(1) sample_reads(3) list.distinct(2),
      of "\<lambda>_. []" "\<lambda>x y. x" sample_environ]
  have "''a'' \<notin> copy_exempt_hotkeys sample_environ" using t [THEN conjunct2, THEN conjunct1, rule_format, of "[?g]" audit ?g "''a''"] r m by simp
  moreover have "lineage_from_receipts (\<lambda>x y. x) (\<lambda>_. []) (rewrite_receipt ''2026-10-01'' (1, 1)
      (sample_receipt [sample_row ''a'', sample_row ''b'', old_row (JNum 6)]) sample_store) 739890 sample_environ = Some (Inr ([?g], audit))"
    using t [THEN conjunct1, rule_format, of "sample_receipt [sample_row ''a'', sample_row ''b'', old_row (JNum 6)]" "(1, 1)"] r
    by (simp add: sample_rewritten)
  ultimately show ?thesis using r m by (intro exI [of _ "[?g]"] exI [of _ audit] exI [of _ ?g]) simp
qed


section \<open>The exclusion set\<close>

lemma suppression_result:
  "fst (snd (one_payer_suppression_from_receipts H dumps S day environ)) =
     (if \<not> cst_receipt_dir S then {} else
        suppressed_copies (op_group_detail (snd (snd (one_payer_suppression_from_receipts H dumps S day environ)))) {} []
          (copy_exempt_hotkeys environ))"
proof (cases "cst_receipt_dir S")
  case True
  obtain d today where j: "prints_judged (scan_receipts H dumps S day environ) day environ = (d, today)" by fastforce
  have none: "suppressed_copies [] {} [] ex = {}" for ex by (simp add: suppressed_copies_def)
  show ?thesis
    by (simp only: one_payer_suppression_from_receipts_def Let_def True j case_prod_conv if_False not_True_eq_False if_distrib [of fst] if_distrib [of snd])
       (simp add: none no_stats_def)
qed (simp add: one_payer_suppression_from_receipts_def Let_def)

text \<open>An exclusion is published with its group: whoever the one-payer test excludes is listed, in the
  group detail that goes into the audit, as a copy in a group that names its payee and contains no exempt
  hotkey; and when the child process fails, nobody is excluded.\<close>

theorem cr_exclusion_names_its_payee:
  assumes "one_payer_suppression_subprocess H dumps inherited failure S day environ = (S', excluded, st)"
    and "hk \<in> excluded"
  shows "failure = None \<and> op_ran st = Some True \<and>
    (\<exists>g \<in> set (op_group_detail st). hk \<in> set (copies g) \<and>
      set (group_all g) \<inter> copy_exempt_hotkeys (child_environ inherited environ) = {})"
proof -
  let ?e = "child_environ inherited environ"
  have f: "failure = None" using assms by (auto simp: one_payer_suppression_subprocess_def split: option.splits)
  obtain st' where r: "one_payer_suppression_from_receipts H dumps S day ?e = (S', excluded, st')" "st = st'\<lparr>op_ran := Some True\<rparr>"
    using assms(1) f by (auto simp: one_payer_suppression_subprocess_def split: prod.splits)
  have "excluded = (if \<not> cst_receipt_dir S then {} else suppressed_copies (op_group_detail st') {} [] (copy_exempt_hotkeys ?e))"
    using suppression_result [of H dumps S day ?e] unfolding r(1) by (simp only: fst_conv snd_conv)
  then have "hk \<in> suppressed_copies (op_group_detail st') {} [] (copy_exempt_hotkeys ?e)"
    using assms(2) by (cases "cst_receipt_dir S") simp_all
  then obtain g where "g \<in> set (op_group_detail st')" "\<not> stood_down {} [] (copy_exempt_hotkeys ?e) g" "hk \<in> set (copies g)"
    unfolding suppressed_iff by blast
  then show ?thesis using f r(2) by (auto simp: stood_down_def list_ex_iff)
qed

section \<open>An index is never renewed\<close>

definition prints_within :: "copy_store \<Rightarrow> copy_store \<Rightarrow> bool" where
  "prints_within S T \<longleftrightarrow> (\<forall>x p. map_of (cst_prints S) x = Some p \<longrightarrow> map_of (cst_prints T) x = Some p)"

text \<open>A step that only adds prints, and that does the same to any directory whose prints include those it
  leaves, whatever the receipts say there.\<close>

definition replays :: "(print_scan \<Rightarrow> print_scan) \<Rightarrow> print_scan \<Rightarrow> bool" where
  "replays f sn \<longleftrightarrow> prints_within (sn_store sn) (sn_store (f sn)) \<and> cst_standing (sn_store (f sn)) = cst_standing (sn_store sn) \<and>
     cst_receipt_dir (sn_store (f sn)) = cst_receipt_dir (sn_store sn) \<and>
     (\<forall>T. prints_within (sn_store (f sn)) T \<longrightarrow> f (sn\<lparr>sn_store := T\<rparr>) = (f sn)\<lparr>sn_store := T\<rparr>)"

lemma replays_id: "replays (\<lambda>sn. sn) sn"
  by (simp add: replays_def prints_within_def)

lemma replays_fold:
  assumes "\<And>x sn. x \<in> set xs \<Longrightarrow> cst_standing (sn_store sn) = R \<Longrightarrow> replays (\<lambda>sn. f sn x) sn" and "cst_standing (sn_store sn) = R"
  shows "replays (\<lambda>sn. foldl f sn xs) sn"
  using assms
proof (induction xs arbitrary: sn)
  case (Cons x xs)
  have one: "replays (\<lambda>sn. f sn x) sn" using Cons.prems by simp
  then have "cst_standing (sn_store (f sn x)) = R" using Cons.prems(2) by (simp add: replays_def)
  then have rest: "replays (\<lambda>sn. foldl f sn xs) (f sn x)" using Cons.prems(1) by (intro Cons.IH) simp_all
  have within: "prints_within (sn_store (f sn x)) T" if "prints_within (sn_store (foldl f (f sn x) xs)) T" for T
    using rest that by (simp add: replays_def prints_within_def)
  show ?case using one rest within by (simp add: replays_def) (auto simp: prints_within_def)
qed (simp add: replays_id)

lemma scan_kind_replays:
  assumes "receipt_doc (sn_store sn) d \<noteq> None"
  shows "replays (\<lambda>sn. scan_kind H dumps day d sn kind) sn"
proof -
  obtain S' prints where l: "load_day_fingerprints H dumps (sn_store sn) d kind = (S', Some prints)"
    "map_of (cst_prints S') (d, kind) = Some prints" "prints_within (sn_store sn) S'"
    "cst_standing S' = cst_standing (sn_store sn)" "cst_receipt_dir S' = cst_receipt_dir (sn_store sn)"
  proof (cases "map_of (cst_prints (sn_store sn)) (d, kind)")
    case (Some prints)
    then show ?thesis using that [of "sn_store sn" prints] by (simp add: load_day_fingerprints_def prints_within_def)
  next
    case None
    obtain env where env: "receipt_doc (sn_store sn) d = Some env" using assms by blast
    let ?p = "prints_of_kind H dumps kind (json_items (jget (receipt_metrics env) ''entries''))"
    show ?thesis
      by (rule that [of "(sn_store sn)\<lparr>cst_prints := AList.update (d, kind) ?p (cst_prints (sn_store sn))\<rparr>" ?p])
        (use None env in \<open>auto simp: load_day_fingerprints_def Let_def prints_within_def map_of_update\<close>)
  qed
  have hit: "load_day_fingerprints H dumps T d kind = (T, Some prints)" if "prints_within S' T" for T
    using that l(2) by (simp add: load_day_fingerprints_def prints_within_def)
  show ?thesis unfolding replays_def scan_kind_def using l hit by simp
qed

lemma receipt_day_doc: "d \<in> set (receipt_days S) \<Longrightarrow> receipt_doc S d \<noteq> None"
proof -
  assume "d \<in> set (receipt_days S)"
  then obtain fn where fn: "fn \<in> set (keys (receipts (cst_standing S)))" "d = take (length fn - 5) fn" "drop (length fn - 5) fn = ''.json''"
    by (auto simp: receipt_days_def is_receipt_name_def)
  have "receipt_name d = fn" unfolding receipt_name_def fn(2) fn(3) [symmetric] by (rule append_take_drop_id)
  then show ?thesis using fn(1) by (auto simp: receipt_doc_def map_of_None_iff)
qed

lemma scan_replays: "replays (\<lambda>sn. foldl (scan_day H dumps kinds day) sn (receipt_days S)) \<lparr>sn_store = S, sn_history = h, sn_today = t\<rparr>"
proof (rule replays_fold [where R = "cst_standing S"])
  fix d and sn :: print_scan assume d: "d \<in> set (receipt_days S)" and sn: "cst_standing (sn_store sn) = cst_standing S"
  show "replays (\<lambda>sn. scan_day H dumps kinds day sn d) sn"
  proof (cases "isoformat day < d")
    case False
    have "receipt_doc (sn_store sn') d \<noteq> None" if "cst_standing (sn_store sn') = cst_standing S" for sn'
      using receipt_day_doc [OF d] that by (simp add: receipt_doc_def)
    then have "replays (\<lambda>sn. foldl (scan_kind H dumps day d) sn kinds) sn"
      using sn by (intro replays_fold [where R = "cst_standing S"] scan_kind_replays) simp_all
    then show ?thesis using False by (simp add: scan_day_def)
  qed (simp add: scan_day_def replays_id)
qed simp

lemma verdict_replays:
  assumes "one_payer_suppression_from_receipts H dumps S day environ = (S1, excluded, st)"
    and T: "cst_prints T = cst_prints S1" "cst_receipt_dir T = cst_receipt_dir S1" "receipt_days T = receipt_days S"
  shows "one_payer_suppression_from_receipts H dumps T day environ = (T, excluded, st) \<and> cst_standing S1 = cst_standing S"
proof (cases "cst_receipt_dir S")
  case False
  then show ?thesis using assms by (simp add: one_payer_suppression_from_receipts_def Let_def)
next
  case True
  let ?sn = "scan_receipts H dumps S day environ"
  have rep: "replays (\<lambda>sn. foldl (scan_day H dumps (print_kinds environ) day) sn (receipt_days S)) \<lparr>sn_store = S, sn_history = \<lambda>_. [], sn_today = \<lambda>_. []\<rparr>"
    by (rule scan_replays)
  have parts: "one_payer_suppression_from_receipts H dumps U day environ = (sn_store (scan_receipts H dumps U day environ),
      snd (one_payer_suppression_from_receipts H dumps U day environ))" if "cst_receipt_dir U" for U
    using that by (simp add: one_payer_suppression_from_receipts_def Let_def split: prod.split)
  have S1: "S1 = sn_store ?sn" using parts [OF True] assms(1) by simp
  have kept: "cst_standing S1 = cst_standing S" "cst_receipt_dir S1" using rep True unfolding S1 scan_receipts_def by (simp_all add: replays_def)
  have "prints_within S1 T" by (simp add: prints_within_def T(1))
  then have scan: "scan_receipts H dumps T day environ = ?sn\<lparr>sn_store := T\<rparr>"
    using rep unfolding S1 scan_receipts_def T(3) by (simp add: replays_def)
  have dir: "cst_receipt_dir T" using kept(2) T(2) by simp
  have fields: "sn_history (sn\<lparr>sn_store := T\<rparr>) = sn_history sn" "sn_today (sn\<lparr>sn_store := T\<rparr>) = sn_today sn" for sn :: print_scan
    by simp_all
  have judged: "prints_judged (sn\<lparr>sn_store := T\<rparr>) day environ = prints_judged sn day environ" for sn :: print_scan
    unfolding prints_judged_def fields ..
  have sen: "seniority_of (?sn\<lparr>sn_store := T\<rparr>) environ = seniority_of ?sn environ" unfolding seniority_of_def fields ..
  have groups: "behaviour_groups (?sn\<lparr>sn_store := T\<rparr>) today environ = behaviour_groups ?sn today environ" for today
    unfolding behaviour_groups_def sen fields ..
  have "snd (one_payer_suppression_from_receipts H dumps T day environ) = snd (one_payer_suppression_from_receipts H dumps S day environ)"
    using True dir by (simp add: one_payer_suppression_from_receipts_def Let_def scan judged sen groups split: prod.split)
  then show ?thesis using parts [OF dir] kept(1) assms(1) by (simp add: scan)
qed

text \<open>C40. A fingerprint index, unlike the standing index, carries no stamp of the receipt it was made from: once
  the one-payer verdict of a day has been computed, receipts can be written again any number of times,
  with whatever predictions, and computing the verdict again gives the same exclusion set, the same
  groups and the same published statistics.\<close>

theorem cr_rewritten_receipt_keeps_old_prints:
  assumes "one_payer_suppression_from_receipts H dumps S day environ = (S1, excluded, st)"
    and "\<forall>(d, stmp, env) \<in> set rewrites. receipt_doc S d \<noteq> None"
    and "S2 = foldl (\<lambda>S (d, stmp, env). rewrite_receipt d stmp env S) S1 rewrites"
  shows "one_payer_suppression_from_receipts H dumps S2 day environ = (S2, excluded, st)"
proof -
  have S1: "cst_standing S1 = cst_standing S"
    using verdict_replays [OF assms(1), of "S1\<lparr>cst_standing := cst_standing S\<rparr>"] by (simp add: receipt_days_def)
  have "cst_prints S2 = cst_prints S1 \<and> cst_receipt_dir S2 = cst_receipt_dir S1 \<and>
      keys (receipts (cst_standing S2)) = keys (receipts (cst_standing S))" unfolding assms(3)
  proof (rule foldl_invariant [where Q = "\<lambda>U. cst_prints U = cst_prints S1 \<and> cst_receipt_dir U = cst_receipt_dir S1 \<and>
      keys (receipts (cst_standing U)) = keys (receipts (cst_standing S))"])
    fix U :: copy_store and x assume x: "x \<in> set rewrites" and U: "cst_prints U = cst_prints S1 \<and> cst_receipt_dir U = cst_receipt_dir S1 \<and>
      keys (receipts (cst_standing U)) = keys (receipts (cst_standing S))"
    obtain d stmp env where e: "x = (d, stmp, env)" by (cases x)
    have "receipt_doc S d \<noteq> None" using assms(2) x e by auto
    then have "receipt_name d \<in> fst ` set (receipts (cst_standing S))" by (auto simp: receipt_doc_def map_of_keys_iff)
    then have "receipt_name d \<in> fst ` set (receipts (cst_standing U))" using U by (metis list.set_map)
    then have "receipt_doc U d \<noteq> None" by (auto simp: receipt_doc_def map_of_keys_iff)
    then obtain old where "receipt_doc U d = Some old" by blast
    from rewrite_reads [OF this, where st = stmp and env' = env] U
    show "cst_prints ((\<lambda>S (d, stmp, env). rewrite_receipt d stmp env S) U x) = cst_prints S1 \<and>
      cst_receipt_dir ((\<lambda>S (d, stmp, env). rewrite_receipt d stmp env S) U x) = cst_receipt_dir S1 \<and>
      keys (receipts (cst_standing ((\<lambda>S (d, stmp, env). rewrite_receipt d stmp env S) U x))) = keys (receipts (cst_standing S))"
      by (simp add: e)
  qed (simp add: S1)
  then show ?thesis using verdict_replays [OF assms(1), of S2] by (simp add: receipt_days_def)
qed

text \<open>Two miners with the same predictions on the day's receipt: the second is excluded, and stays excluded when
  the receipt is written again without it; from that receipt alone nobody would be.\<close>

definition twin_store :: copy_store where "twin_store = store_with [sample_row ''a'', sample_row ''b'']"
definition lone_store :: copy_store where "lone_store = rewrite_receipt ''2026-10-01'' (1, 1) (sample_receipt [sample_row ''a'']) twin_store"

definition twin_print :: string where "twin_print = prediction_fingerprint (\<lambda>_. 0) (\<lambda>_. []) (basket_doc sample_basket)"

lemma twin_prints:
  "fingerprints_from_receipt (\<lambda>_. 0) (\<lambda>_. []) [sample_row ''a'', sample_row ''b''] = [(''a'', twin_print), (''b'', twin_print)]"
  "fingerprints_from_receipt (\<lambda>_. 0) (\<lambda>_. []) [sample_row ''a''] = [(''a'', twin_print)]" "twin_print \<noteq> []"
proof -
  have "foldl (fingerprint_row (\<lambda>_. []) id) [] [sample_row ''a'', sample_row ''b''] = [(''a'', sample_basket), (''b'', sample_basket)]"
    "foldl (fingerprint_row (\<lambda>_. []) id) [] [sample_row ''a''] = [(''a'', sample_basket)]" by code_simp+
  then show "fingerprints_from_receipt (\<lambda>_. 0) (\<lambda>_. []) [sample_row ''a'', sample_row ''b''] = [(''a'', twin_print), (''b'', twin_print)]"
    "fingerprints_from_receipt (\<lambda>_. 0) (\<lambda>_. []) [sample_row ''a''] = [(''a'', twin_print)]"
    by (simp_all add: fingerprints_from_receipt_def fingerprints_def Let_def twin_print_def) (simp_all add: sample_basket_def)
  have "hash_bytes H bs \<noteq> []" for H bs using length_hash_bytes [of H bs] by (metis list.size(3) zero_neq_numeral)
  then show "twin_print \<noteq> []" by (simp add: twin_print_def prediction_fingerprint_def)
qed

lemma twin_reads:
  "receipt_days twin_store = [''2026-10-01'']" "receipt_days lone_store = [''2026-10-01'']" "isoformat 739890 = ''2026-10-01''"
  "receipt_doc twin_store ''2026-10-01'' = Some (sample_receipt [sample_row ''a'', sample_row ''b''])"
  "receipt_doc lone_store ''2026-10-01'' = Some (sample_receipt [sample_row ''a''])"
  "json_items (jget (receipt_metrics (sample_receipt rows)) ''entries'') = rows"
  "cst_prints twin_store = []" "cst_prints lone_store = []" "cst_receipt_dir twin_store" "cst_receipt_dir lone_store"
  "print_kinds (\<lambda>_. None) = [Exact]" "copy_exempt_hotkeys (\<lambda>_. None) = {}"
proof -
  show "isoformat 739890 = ''2026-10-01''" "print_kinds (\<lambda>_. None) = [Exact]" "copy_exempt_hotkeys (\<lambda>_. None) = {}" by code_simp+
qed (simp_all add: twin_store_def lone_store_def store_with_def rewrite_receipt_def write_receipt_def receipt_days_def is_receipt_name_def
    startswith_def receipt_doc_def receipt_name_def sample_receipt_def receipt_metrics_def jget_JDict json_items_def)

lemma twin_verdict:
  "fst (snd (one_payer_suppression_from_receipts (\<lambda>_. 0) (\<lambda>_. []) twin_store 739890 (\<lambda>_. None))) = {''b''}"
  "fst (snd (one_payer_suppression_from_receipts (\<lambda>_. 0) (\<lambda>_. []) lone_store 739890 (\<lambda>_. None))) = {}"
proof -
  have scan: "scan_receipts (\<lambda>_. 0) (\<lambda>_. []) U 739890 (\<lambda>_. None) = \<lparr>sn_store = U\<lparr>cst_prints := [((''2026-10-01'', Exact), p)]\<rparr>,
      sn_history = (\<lambda>_. [])(Exact := [(''2026-10-01'', p)]), sn_today = (\<lambda>_. [])(Exact := p)\<rparr>"
    if "receipt_days U = [''2026-10-01'']" "receipt_doc U ''2026-10-01'' = Some (sample_receipt rows)" "cst_prints U = []"
      "fingerprints_from_receipt (\<lambda>_. 0) (\<lambda>_. []) rows = p" for U rows p
    using that by (simp add: scan_receipts_def twin_reads scan_day_def scan_kind_def load_day_fingerprints_def Let_def prints_of_kind_def)
  have groups: "behaviour_groups \<lparr>sn_store = U, sn_history = (\<lambda>_. [])(Exact := [(''2026-10-01'', p)]), sn_today = t\<rparr> ((\<lambda>_. [])(Exact := p)) (\<lambda>_. None)
      = prediction_collisions p sen (first_seen_fingerprints [(''2026-10-01'', p)])"
    if "p \<noteq> []" "sen = seniority_of \<lparr>sn_store = U, sn_history = (\<lambda>_. [])(Exact := [(''2026-10-01'', p)]), sn_today = t\<rparr> (\<lambda>_. None)" for U p t sen
    using that by (simp add: behaviour_groups_def twin_reads)
  have one: "prediction_collisions [(''a'', twin_print)] sen first = []" for sen :: "(hotkey, string) dict" and first
    using twin_prints(3) by (simp add: prediction_collisions_def by_print_def append_at_def)
  have two: "suppressed_copies (prediction_collisions [(''a'', twin_print), (''b'', twin_print)] [(''a'', d), (''b'', d)]
      (first_seen_fingerprints [(d, [(''a'', twin_print), (''b'', twin_print)])])) {} [] {} = {''b''}" for d :: string
  proof -
    let ?h = "first_seen_fingerprints [(d, [(''a'', twin_print), (''b'', twin_print)])]"
    let ?g = "behaviour_group [(''a'', d), (''b'', d)] ?h twin_print [''a'', ''b'']"
    have g: "prediction_collisions [(''a'', twin_print), (''b'', twin_print)] [(''a'', d), (''b'', d)] ?h = [?g]"
      using twin_prints(3) by (simp add: prediction_collisions_def by_print_def append_at_def)
    have "?h = [((twin_print, ''a''), d), ((twin_print, ''b''), d)]" using twin_prints(3) by (simp add: first_seen_fingerprints_def note_seen_def)
    then have "copies ?g = [''b'']"
      by (simp add: behaviour_group_def Let_def member_key_def get_or_inf_def less_eq_prod_def less_inf_default_def)
    moreover have "\<not> stood_down {} [] {} g" for g by (simp add: stood_down_def list_ex_iff split: option.split)
    ultimately have "hk \<in> suppressed_copies [?g] {} [] {} \<longleftrightarrow> hk = ''b''" for hk unfolding suppressed_iff by simp
    then show ?thesis unfolding g by blast
  qed
  have sen: "seniority_of \<lparr>sn_store = U, sn_history = (\<lambda>_. [])(Exact := [(''2026-10-01'', [(''a'', x), (''b'', y)])]), sn_today = t\<rparr> (\<lambda>_. None)
      = [(''a'', ''2026-10-01''), (''b'', ''2026-10-01'')]" for U t x y
    by (simp add: seniority_of_def twin_reads note_senior_def)
  have lone: "fst (snd (one_payer_suppression_from_receipts (\<lambda>_. 0) (\<lambda>_. []) lone_store 739890 (\<lambda>_. None))) = {}"
    unfolding one_payer_suppression_from_receipts_def Let_def
    by (simp add: twin_reads scan [OF twin_reads(2,5,8) twin_prints(2)] prints_judged_def groups one)
  have twin: "fst (snd (one_payer_suppression_from_receipts (\<lambda>_. 0) (\<lambda>_. []) twin_store 739890 (\<lambda>_. None))) = {''b''}"
    unfolding suppression_result
    unfolding one_payer_suppression_from_receipts_def Let_def using two [of "''2026-10-01''"]
    by (simp add: twin_reads scan [OF twin_reads(1,4,7) twin_prints(1)] prints_judged_def groups sen no_stats_def) metis
  show "fst (snd (one_payer_suppression_from_receipts (\<lambda>_. 0) (\<lambda>_. []) twin_store 739890 (\<lambda>_. None))) = {''b''}"
    "fst (snd (one_payer_suppression_from_receipts (\<lambda>_. 0) (\<lambda>_. []) lone_store 739890 (\<lambda>_. None))) = {}" by (fact twin lone)+
qed

theorem cr_rewritten_receipt_keeps_old_prints_witness:
  "fst (snd (one_payer_suppression_from_receipts (\<lambda>_. 0) (\<lambda>_. []) (rewrite_receipt ''2026-10-01'' (1, 1) (sample_receipt [sample_row ''a''])
      (fst (one_payer_suppression_from_receipts (\<lambda>_. 0) (\<lambda>_. []) twin_store 739890 (\<lambda>_. None)))) 739890 (\<lambda>_. None))) = {''b''} \<and>
   fst (snd (one_payer_suppression_from_receipts (\<lambda>_. 0) (\<lambda>_. []) lone_store 739890 (\<lambda>_. None))) = {}"
proof -
  obtain S1 excluded st where r: "one_payer_suppression_from_receipts (\<lambda>_. 0) (\<lambda>_. []) twin_store 739890 (\<lambda>_. None) = (S1, excluded, st)"
    by (cases "one_payer_suppression_from_receipts (\<lambda>_. 0) (\<lambda>_. []) twin_store 739890 (\<lambda>_. None)") blast
  let ?w = "[(''2026-10-01'', (1 :: int, 1 :: int), sample_receipt [sample_row ''a''])]"
  have "\<forall>(d, stmp, env) \<in> set ?w. receipt_doc twin_store d \<noteq> None" by (simp add: twin_reads)
  from cr_rewritten_receipt_keeps_old_prints [OF r this refl] show ?thesis using twin_verdict r by simp
qed

end
