(* ===== verification/AbsencePenalty.thy ===== *)
theory AbsencePenalty
  imports StandingLedger UnchangedModels
begin

text \<open>
  Absence penalties (\<open>hope/scoring/absence_penalty.py\<close>): for every day the subnet ran, every hotkey that
  is on the board or playing is charged one entry at the floor score for each episode it did not
  return a prediction for. A charge is two writes, the entries and the line of the penalty log; the
  log is what makes a charge happen once.

  The step reads the shadow ledger, the standing ledger and the record of removed models. The list of
  ten charges in the report is cut to the first sixteen characters of each hotkey, as in the code.
\<close>

definition default_penalty_score :: float where "default_penalty_score = 0"
definition penalty_entry_weight :: float where "penalty_entry_weight = 1"
definition active_lookback_days :: nat where "active_lookback_days = 7"
definition catchup_days :: nat where "catchup_days = 3"
definition effective_from :: date where "effective_from = mk_date 2026 8 24"
definition published_run_budget_s :: int where "published_run_budget_s = 15 * 60"

definition absence_penalty_enabled :: "environ \<Rightarrow> bool" where
  "absence_penalty_enabled environ = flag_on environ ''SN21_ABSENCE_PENALTY''"

definition penalty_score :: "environ \<Rightarrow> float" where
  "penalty_score environ = (case environ ''SN21_ABSENCE_PENALTY_SCORE'' of
     None \<Rightarrow> default_penalty_score
   | Some s \<Rightarrow> if s = [] then default_penalty_score else (case py_float s of None \<Rightarrow> default_penalty_score | Some x \<Rightarrow> x))"

definition penalty_log :: "ledger \<Rightarrow> penalty list" where
  "penalty_log L = penalty_file L"

definition applied :: "ledger \<Rightarrow> (string \<times> hotkey) set" where
  "applied L = set (map (\<lambda>p. (pe_day p, pe_hotkey p)) (penalty_log L))"

definition needs_real_entries :: "date \<Rightarrow> environ \<Rightarrow> bool" where
  "needs_real_entries day environ =
     (let raw = env_raw environ ''SN21_ABSENCE_NEEDS_REAL_ENTRIES_FROM''
      in raw \<noteq> [] \<and> (case fromisoformat raw of None \<Rightarrow> False | Some d \<Rightarrow> d \<le> day))"

definition is_penalty_entry :: "scored_episode \<Rightarrow> float \<Rightarrow> bool" where
  "is_penalty_entry entry scr \<longleftrightarrow> weight entry = penalty_entry_weight \<and> score entry = scr"

text \<open>Hotkeys with coverage on one of the last \<open>lookback\<close> days.\<close>

definition active_on :: "shadow \<Rightarrow> date \<Rightarrow> hotkey set \<Rightarrow> nat \<Rightarrow> py_error + hotkey set" where
  "active_on S day active n =
     (let d = isoformat (day - int n)
      in if subnet_ran S d then map_sum id (\<lambda>cov. active \<union> set (keys cov)) (day_coverage S d) else Inr active)"

definition ranked_hotkeys :: "date \<Rightarrow> environ \<Rightarrow> (hotkey, scored_episode list) dict \<Rightarrow> hotkey set" where
  "ranked_hotkeys day environ entries =
     (if needs_real_entries day environ
      then set (keys (filter (\<lambda>(hk, eps). \<exists>e \<in> set eps. \<not> is_penalty_entry e (penalty_score environ)) entries))
      else set (keys entries))"

definition chargeable_hotkeys :: "shadow \<Rightarrow> ledger \<Rightarrow> date \<Rightarrow> nat \<Rightarrow> environ \<Rightarrow> py_error + hotkey set" where
  "chargeable_hotkeys S L day lookback environ =
     and_then (load_entries L day default_window_days) (\<lambda>entries.
     map_sum id (\<lambda>active. ranked_hotkeys day environ entries \<union> active) (fold_sum (active_on S day) {} [0..<lookback]))"

text \<open>A failure that is ours: the model never got a fair chance to run.\<close>

definition operator_fault :: "json \<Rightarrow> int option \<Rightarrow> bool" where
  "operator_fault error wall_budget_s =
     (case opt_string error of
        None \<Rightarrow> False
      | Some err \<Rightarrow>
          (\<exists>marker \<in> set [''pull_failed'', ''pull timeout>'', ''disk_low'', ''sandbox_not_available'']. startswith err marker) \<or>
          (case wall_budget_s of
             None \<Rightarrow> False
           | Some budget \<Rightarrow> budget \<noteq> 0 \<and> startswith err ''timeout>'' \<and>
               (case digits_from (filter is_digit (drop 8 err)) 0 False of None \<Rightarrow> False | Some n \<Rightarrow> n < budget)))"

record charge =
  ch_day :: string
  ch_hotkey :: hotkey
  ch_missed :: int

text \<open>What one hotkey owes for a day: the conditions of the loop, in order.\<close>

definition cut_off :: "shadow \<Rightarrow> string \<Rightarrow> (hotkey, int \<times> int) dict \<Rightarrow> hotkey \<Rightarrow> bool" where
  "cut_off S d coverage hk \<longleftrightarrow> map_of coverage hk = None \<and> \<not> run_complete S d \<and>
     (case day_plan S d of None \<Rightarrow> True | Some plan \<Rightarrow> hk \<in> plan)"

definition missed_of :: "(hotkey, int \<times> int) dict \<Rightarrow> int \<Rightarrow> hotkey \<Rightarrow> int" where
  "missed_of coverage day_episodes hk =
     (case map_of coverage hk of None \<Rightarrow> day_episodes | Some (eps_in, preds_out) \<Rightarrow> max 0 (eps_in - preds_out))"

definition charge_of ::
    "shadow \<Rightarrow> ledger \<Rightarrow> unchanged_record option \<Rightarrow> string \<Rightarrow> int option \<Rightarrow> (hotkey, int \<times> int) dict \<Rightarrow> int \<Rightarrow> hotkey \<Rightarrow> charge list" where
  "charge_of S L U d published_budget_s coverage day_episodes hk =
     (if (d, hk) \<in> applied L \<or> hk \<in> removed_hotkeys U d then []
      else if (case map_of (day_run_status S d) hk of None \<Rightarrow> False | Some (ok, error) \<Rightarrow> \<not> ok \<and> operator_fault error published_budget_s) then []
      else if cut_off S d coverage hk then []
      else if 0 < missed_of coverage day_episodes hk
      then [\<lparr>ch_day = d, ch_hotkey = hk, ch_missed = missed_of coverage day_episodes hk\<rparr>] else [])"

definition compute_penalties ::
    "shadow \<Rightarrow> ledger \<Rightarrow> unchanged_record option \<Rightarrow> date \<Rightarrow> int option \<Rightarrow> environ \<Rightarrow> py_error + charge list" where
  "compute_penalties S L U day published_budget_s environ =
     (let d = isoformat day in
      if day < effective_from \<or> \<not> subnet_ran S d then Inr []
      else and_then (day_coverage S d) (\<lambda>coverage.
        if coverage = [] then Inr []
        else let day_episodes = Max (set (map (\<lambda>(hk, eps, preds). eps) coverage)) in
          if day_episodes \<le> 0 then Inr []
          else map_sum id (\<lambda>hks. concat (map (charge_of S L U d published_budget_s coverage day_episodes) (sorted_list_of_set hks)))
                 (chargeable_hotkeys S L day active_lookback_days environ)))"

definition cut_off_reason :: string where
  "cut_off_reason = ''the day's run was cut off on our side before this model ran''"

definition cut_off_charges :: "shadow \<Rightarrow> ledger \<Rightarrow> string \<Rightarrow> penalty list" where
  "cut_off_charges S L day =
     (if run_complete S day then []
      else filter (\<lambda>p. pe_day p = day \<and> pe_hotkey p \<notin> day_models S day
             \<and> (pe_day p, pe_hotkey p) \<notin> set (map (\<lambda>c. (cn_day c, cn_hotkey c)) (load_cancellations L))
             \<and> (case day_plan S day of None \<Rightarrow> True | Some plan \<Rightarrow> pe_hotkey p \<in> plan)) (penalty_log L))"

definition cancel_cut_off_charges :: "shadow \<Rightarrow> ledger \<Rightarrow> string \<Rightarrow> bool \<Rightarrow> ledger \<times> penalty list" where
  "cancel_cut_off_charges S L day do_apply =
     (let out = cut_off_charges S L day
      in (if do_apply then foldl (\<lambda>L p. record_cancellation L (pe_day p) (pe_hotkey p) (pe_missed p) (pe_score p)
             penalty_entry_weight cut_off_reason) L out else L, out))"

section \<open>Applying\<close>

definition penalty_entries :: "float \<Rightarrow> date \<Rightarrow> charge \<Rightarrow> weighted_entry list" where
  "penalty_entries scr d p = replicate (nat (ch_missed p))
     \<lparr>we_miner = ch_hotkey p, we_score = scr, we_weight = penalty_entry_weight, we_entered_on = d,
        we_episode_id = [], we_horizon_days = 0\<rparr>"

text \<open>One charge: the entries, then the line of the log.\<close>

definition write_charge ::
    "float \<Rightarrow> date \<Rightarrow> ledger \<times> nat \<times> charge list \<Rightarrow> charge \<Rightarrow> py_error \<times> ledger + ledger \<times> nat \<times> charge list" where
  "write_charge scr d acc p = (case acc of (L, written, charged) \<Rightarrow>
     map_sum id (\<lambda>(L', n). (L'\<lparr>penalty_file := penalty_file L' @
          [\<lparr>pe_day = ch_day p, pe_hotkey = ch_hotkey p, pe_missed = ch_missed p, pe_score = scr\<rparr>]\<rparr>, written + n, charged @ [p]))
       (append_entries L (penalty_entries scr d p)))"

definition penalty_day ::
    "shadow \<Rightarrow> unchanged_record option \<Rightarrow> environ \<Rightarrow> ledger \<times> nat \<times> charge list \<Rightarrow> date \<Rightarrow> py_error \<times> ledger + ledger \<times> nat \<times> charge list" where
  "penalty_day S U environ acc d =
     (case compute_penalties S (fst acc) U d (Some published_run_budget_s) environ of
        Inl e \<Rightarrow> Inl (e, fst acc)
      | Inr ps \<Rightarrow> fold_sum (write_charge (penalty_score environ) d) acc ps)"

record penalty_report =
  pr_penalised_miners :: nat
  pr_penalty_entries :: nat
  pr_penalty_score :: float
  pr_days_checked :: nat
  pr_detail :: "(string \<times> string \<times> int) list"

definition apply_penalties ::
    "shadow \<Rightarrow> ledger \<Rightarrow> unchanged_record option \<Rightarrow> date \<Rightarrow> environ \<Rightarrow> py_error \<times> ledger + ledger \<times> penalty_report" where
  "apply_penalties S L U day environ =
     map_sum id (\<lambda>(L', written, charged). (L',
        \<lparr>pr_penalised_miners = card (set (map ch_hotkey charged)), pr_penalty_entries = written,
          pr_penalty_score = penalty_score environ, pr_days_checked = catchup_days,
          pr_detail = map (\<lambda>p. (take 16 (ch_hotkey p), ch_day p, ch_missed p)) (take 10 charged)\<rparr>))
       (fold_sum (penalty_day S U environ) (L, 0, []) (map (\<lambda>n. day - int n) (rev [0..<catchup_days])))"



section \<open>One charge per day and hotkey\<close>

abbreviation charge_key :: "charge \<Rightarrow> string \<times> hotkey" where "charge_key p \<equiv> (ch_day p, ch_hotkey p)"
abbreviation penalty_key :: "penalty \<Rightarrow> string \<times> hotkey" where "penalty_key p \<equiv> (pe_day p, pe_hotkey p)"

definition logged :: "float \<Rightarrow> charge \<Rightarrow> penalty" where
  "logged scr p = \<lparr>pe_day = ch_day p, pe_hotkey = ch_hotkey p, pe_missed = ch_missed p, pe_score = scr\<rparr>"

lemma penalty_key_logged: "penalty_key (logged scr p) = charge_key p"
  by (simp add: logged_def)

text \<open>The directory a step leaves, whether it returns or raises.\<close>

definition left_by :: "py_error \<times> ledger + ledger \<times> 'a \<Rightarrow> ledger" where
  "left_by r = (case r of Inl (_, L) \<Rightarrow> L | Inr (L, _) \<Rightarrow> L)"

lemma group_one: "0 < n \<Longrightarrow> group_by_miner (replicate n e) = [(we_miner e, replicate n e)]"
proof (induction n)
  case (Suc n)
  show ?case
  proof (cases "n = 0")
    case False
    then have "group_by_miner (replicate n e) = [(we_miner e, replicate n e)]" using Suc.IH by simp
    moreover have "group_by_miner (replicate n e @ [e]) = AList.update (we_miner e)
       ((case map_of (group_by_miner (replicate n e)) (we_miner e) of None \<Rightarrow> [] | Some es \<Rightarrow> es) @ [e]) (group_by_miner (replicate n e))"
      by (simp add: group_by_miner_def)
    ultimately show ?thesis by (simp add: replicate_append_same [symmetric])
  qed (simp add: group_by_miner_def)
qed simp

lemma append_one:
  assumes "0 < n" and "safe_hotkey (we_miner e)"
  shows "append_entries L (replicate n e) = Inr (L\<lparr>made := True, entry_files := AList.update (we_miner e @ ''.jsonl'')
    ((case map_of (entry_files L) (we_miner e @ ''.jsonl'') of None \<Rightarrow> [] | Some ls \<Rightarrow> ls) @ replicate n (entry_line e)) (entry_files L)\<rparr>, n)"
  using assms by (simp add: append_entries_lines group_one append_miner_ok)

text \<open>The lines of a hotkey's file, and the lines a list of logged charges stands for: one of the floor
  score and the penalty's weight per missed episode, on the day charged.\<close>

definition lines_at :: "ledger \<Rightarrow> hotkey \<Rightarrow> json list" where
  "lines_at L hk = (case map_of (entry_files L) (hk @ ''.jsonl'') of None \<Rightarrow> [] | Some ls \<Rightarrow> ls)"

definition charged_lines :: "hotkey \<Rightarrow> penalty list \<Rightarrow> json list" where
  "charged_lines hk ps = concat (map (\<lambda>p. replicate (nat (pe_missed p))
     (JDict [(''score'', JNum (pe_score p)), (''weight'', JNum 1), (''day'', JStr (pe_day p))])) (filter (\<lambda>p. pe_hotkey p = hk) ps))"

text \<open>The directory after charges: the log has their lines, the files of the hotkeys their entries, and
  nothing else has changed.\<close>

definition charged_by :: "ledger \<Rightarrow> penalty list \<Rightarrow> ledger \<Rightarrow> bool" where
  "charged_by L new L' \<longleftrightarrow> penalty_file L' = penalty_file L @ new \<and> (\<forall>hk. lines_at L' hk = lines_at L hk @ charged_lines hk new) \<and>
     L'\<lparr>made := made L, entry_files := entry_files L, penalty_file := penalty_file L\<rparr> = L"

lemma charged_by_refl: "charged_by L [] L"
  by (simp add: charged_by_def charged_lines_def)

lemma charged_by_trans: "charged_by a xs b \<Longrightarrow> charged_by b ys c \<Longrightarrow> charged_by a (xs @ ys) c"
  by (auto simp: charged_by_def charged_lines_def) (cases a; cases b; cases c; simp)

lemma write_charge_step:
  assumes "ch_day p = isoformat d"
  shows "case write_charge scr d (L, w, cs) p of
     Inl (e, L') \<Rightarrow> charged_by L [] L'
   | Inr (L', w', cs') \<Rightarrow> charged_by L [logged scr p] L' \<and> w' = w + nat (ch_missed p) \<and> cs' = cs @ [p]"
proof -
  define e where "e = \<lparr>we_miner = ch_hotkey p, we_score = scr, we_weight = penalty_entry_weight, we_entered_on = d,
      we_episode_id = [], we_horizon_days = 0\<rparr>"
  have es: "penalty_entries scr d p = replicate (nat (ch_missed p)) e" by (simp add: penalty_entries_def e_def)
  consider "nat (ch_missed p) = 0" | "0 < nat (ch_missed p)" "safe_hotkey (ch_hotkey p)" | "0 < nat (ch_missed p)" "\<not> safe_hotkey (ch_hotkey p)"
    using gr_zeroI by blast
  then show ?thesis
  proof cases
    case 1
    have "append_entries L [] = Inr (L\<lparr>made := True\<rparr>, 0)" by (simp add: append_entries_lines group_by_miner_def)
    moreover have "ch_missed p \<le> 0" using 1 by simp
    ultimately show ?thesis unfolding write_charge_def es
      by (simp add: charged_by_def charged_lines_def lines_at_def logged_def)
  next
    case 2
    have "append_entries L (replicate (nat (ch_missed p)) e) = Inr (L\<lparr>made := True, entry_files := AList.update (ch_hotkey p @ ''.jsonl'')
        (lines_at L (ch_hotkey p) @ replicate (nat (ch_missed p)) (entry_line e)) (entry_files L)\<rparr>, nat (ch_missed p))"
      using append_one [of "nat (ch_missed p)" e L] 2 by (simp add: e_def lines_at_def)
    then show ?thesis unfolding write_charge_def es
      using assms by (auto simp: charged_by_def charged_lines_def lines_at_def logged_def map_of_update e_def entry_line_def penalty_entry_weight_def)
  next
    case 3
    have "append_entries L (replicate (nat (ch_missed p)) e) = Inl (ValueError, L\<lparr>made := True\<rparr>)"
      using 3 by (simp add: append_entries_lines group_one append_miner_def entry_path_def e_def)
    then show ?thesis unfolding write_charge_def es by (simp add: charged_by_def charged_lines_def lines_at_def)
  qed
qed

lemma write_charges_steps:
  assumes "\<forall>p \<in> set ps. ch_day p = isoformat d"
  shows "case fold_sum (write_charge scr d) (L, w, cs) ps of
     Inl (e, L') \<Rightarrow> (\<exists>k. charged_by L (map (logged scr) (take k ps)) L')
   | Inr (L', w', cs') \<Rightarrow> charged_by L (map (logged scr) ps) L' \<and>
       w' = w + sum_list (map (\<lambda>p. nat (ch_missed p)) ps) \<and> cs' = cs @ ps"
  using assms
proof (induction ps arbitrary: L w cs)
  case (Cons p ps)
  have step: "case write_charge scr d (L, w, cs) p of
     Inl (e, L') \<Rightarrow> charged_by L [] L'
   | Inr (L', w', cs') \<Rightarrow> charged_by L [logged scr p] L' \<and> w' = w + nat (ch_missed p) \<and> cs' = cs @ [p]"
    using Cons.prems by (intro write_charge_step) simp
  show ?case
  proof (cases "write_charge scr d (L, w, cs) p")
    case (Inl x)
    then show ?thesis using step by (cases x) (auto intro: exI [of _ 0])
  next
    case (Inr x)
    then obtain L1 w1 cs1 where x: "write_charge scr d (L, w, cs) p = Inr (L1, w1, cs1)" by (cases x) simp
    then have one: "charged_by L [logged scr p] L1" "w1 = w + nat (ch_missed p)" "cs1 = cs @ [p]" using step by simp_all
    have onwards: "charged_by L (map (logged scr) (p # qs)) L2" if "charged_by L1 (map (logged scr) qs) L2" for qs L2
      using charged_by_trans [OF one(1) that] by simp
    have take: "\<exists>k. charged_by L (map (logged scr) (take k (p # ps))) L2" if "charged_by L1 (map (logged scr) (take j ps)) L2" for j L2
      using onwards [OF that] by (intro exI [of _ "Suc j"]) simp
    show ?thesis
    proof (cases "fold_sum (write_charge scr d) (L1, w1, cs1) ps")
      case (Inl y)
      obtain e L2 where y: "y = (e, L2)" by (cases y)
      have "\<exists>k. charged_by L1 (map (logged scr) (take k ps)) L2"
        using Cons.IH [of L1 w1 cs1] Cons.prems Inl by (simp add: y)
      then show ?thesis using take x Inl by (auto simp: y)
    next
      case r: (Inr y)
      obtain L2 w2 cs2 where y: "y = (L2, w2, cs2)" by (cases y)
      have "charged_by L1 (map (logged scr) ps) L2 \<and> w2 = w1 + sum_list (map (\<lambda>p. nat (ch_missed p)) ps) \<and> cs2 = cs1 @ ps"
        using Cons.IH [of L1 w1 cs1] Cons.prems r by (simp add: y)
      then show ?thesis using onwards x one(2,3) r by (simp add: y)
    qed
  qed
qed (simp add: charged_by_refl)

lemma concat_distinct:
  assumes "distinct xs" and "\<And>x c. c \<in> set (g x) \<Longrightarrow> key c = k x" and "\<And>x. length (g x) \<le> 1" and "inj k"
  shows "distinct (map key (concat (map g xs)))"
  using assms(1)
proof (induction xs)
  case (Cons x xs)
  have "distinct (map key (g x))" using assms(3) [of x] by (cases "g x") auto
  moreover have "key c \<noteq> key c'" if c: "c \<in> set (g x)" and c': "c' \<in> set (concat (map g xs))" for c c'
  proof -
    obtain y where "y \<in> set xs" "c' \<in> set (g y)" using c' by auto
    then show ?thesis using assms(2) c Cons.prems assms(4) by (metis distinct.simps(2) injD)
  qed
  ultimately show ?case using Cons by (auto simp del: concat_map_singleton)
qed simp

lemma charge_of_charge:
  assumes "c \<in> set (charge_of S L U d b coverage n hk)"
  shows "charge_key c = (d, hk)" "(d, hk) \<notin> applied L" "0 < ch_missed c"
  using assms by (auto simp: charge_of_def split: if_splits)

lemma charge_of_single: "length (charge_of S L U d b coverage n hk) \<le> 1"
  by (simp add: charge_of_def)

lemma charges_new:
  assumes "compute_penalties S L U day b environ = Inr ps"
  shows "distinct (map charge_key ps)" "\<forall>p \<in> set ps. charge_key p \<notin> applied L \<and> ch_day p = isoformat day \<and> 0 < ch_missed p"
proof -
  consider "ps = []" | coverage n hks where "ps = concat (map (charge_of S L U (isoformat day) b coverage n) (sorted_list_of_set hks))"
    using assms by (auto simp: compute_penalties_def Let_def and_then_Inr split: if_splits)
  then have "distinct (map charge_key ps) \<and> (\<forall>p \<in> set ps. charge_key p \<notin> applied L \<and> ch_day p = isoformat day \<and> 0 < ch_missed p)"
  proof cases
    case 2
    let ?g = "charge_of S L U (isoformat day) b coverage n"
    have "distinct (map charge_key (concat (map ?g (sorted_list_of_set hks))))"
      by (rule concat_distinct [where k = "\<lambda>hk. (isoformat day, hk)"])
        (simp_all add: charge_of_charge(1) charge_of_single [simplified] inj_def)
    moreover have "\<forall>p \<in> set ps. charge_key p \<notin> applied L \<and> ch_day p = isoformat day \<and> 0 < ch_missed p"
      using charge_of_charge unfolding 2 by fastforce
    ultimately show ?thesis using 2 by blast
  qed simp
  then show "distinct (map charge_key ps)" "\<forall>p \<in> set ps. charge_key p \<notin> applied L \<and> ch_day p = isoformat day \<and> 0 < ch_missed p"
    by blast+
qed

text \<open>New charges: none was made before, none is made twice, and each is of missed episodes at the floor score
  on one of the days of the step.\<close>

lemma keys_disjoint: "(\<And>p. p \<in> set ys \<Longrightarrow> penalty_key p \<notin> K) \<Longrightarrow> K \<inter> set (map penalty_key ys) = {}"
  unfolding set_map by blast

definition charges_once :: "date set \<Rightarrow> float \<Rightarrow> ledger \<Rightarrow> penalty list \<Rightarrow> ledger \<Rightarrow> bool" where
  "charges_once ds scr L new L' \<longleftrightarrow> charged_by L new L' \<and> distinct (map penalty_key new) \<and>
     (\<forall>p \<in> set new. penalty_key p \<notin> applied L \<and> 0 < pe_missed p \<and> pe_score p = scr \<and> pe_day p \<in> isoformat ` ds)"

lemma charges_once_refl: "charges_once ds scr L [] L"
  by (simp add: charges_once_def charged_by_refl)

lemma charges_once_trans:
  assumes "charges_once ds scr a xs b" and "charges_once ds scr b ys c"
  shows "charges_once ds scr a (xs @ ys) c"
proof -
  have "applied b = applied a \<union> set (map penalty_key xs)"
    using assms(1) by (auto simp: charges_once_def charged_by_def applied_def penalty_log_def)
  then have new: "penalty_key p \<notin> set (map penalty_key xs) \<and> penalty_key p \<notin> applied a" if "p \<in> set ys" for p
    using assms(2) that unfolding charges_once_def by blast
  have "set (map penalty_key xs) \<inter> set (map penalty_key ys) = {}" by (rule keys_disjoint) (use new in blast)
  then have "distinct (map penalty_key (xs @ ys))" using assms by (simp only: charges_once_def map_append distinct_append)
  moreover have "charged_by a (xs @ ys) c" using assms charged_by_trans unfolding charges_once_def by blast
  ultimately show ?thesis using assms new unfolding charges_once_def set_append ball_Un by blast
qed

lemma charges_once_mono: "charges_once ds scr L new L' \<Longrightarrow> ds \<subseteq> ds' \<Longrightarrow> charges_once ds' scr L new L'"
  unfolding charges_once_def by (meson image_mono subsetD)

lemma charges_once_computed:
  assumes "compute_penalties S L U day b environ = Inr ps" and "charged_by L (map (logged scr) (take k ps)) L'"
  shows "charges_once {day} scr L (map (logged scr) (take k ps)) L'"
proof -
  have keys: "map penalty_key (map (logged scr) (take k ps)) = map charge_key (take k ps)" by (simp add: penalty_key_logged)
  have "distinct (map charge_key (take k ps))" using charges_new(1) [OF assms(1)] by (simp add: take_map [symmetric])
  moreover have "penalty_key p \<notin> applied L \<and> 0 < pe_missed p \<and> pe_score p = scr \<and> pe_day p \<in> isoformat ` {day}"
    if "p \<in> set (map (logged scr) (take k ps))" for p
  proof -
    obtain q where q: "q \<in> set (take k ps)" "p = logged scr q" using \<open>p \<in> set _\<close> unfolding set_map by blast
    have "charge_key q \<notin> applied L" "ch_day q = isoformat day" "0 < ch_missed q"
      using charges_new(2) [OF assms(1)] in_set_takeD [OF q(1)] by blast+
    then show ?thesis unfolding q(2) by (simp add: logged_def)
  qed
  ultimately show ?thesis using assms(2) unfolding charges_once_def keys by blast
qed

text \<open>What a day, and then the days of the step, leave: \<open>new\<close> is the charges logged.\<close>

definition day_result ::
    "date set \<Rightarrow> float \<Rightarrow> ledger \<times> nat \<times> charge list \<Rightarrow> py_error \<times> ledger + ledger \<times> nat \<times> charge list \<Rightarrow> bool" where
  "day_result ds scr acc r \<longleftrightarrow> (case (acc, r) of
     ((L, w, cs), Inl (e, L')) \<Rightarrow> (\<exists>new. charges_once ds scr L new L')
   | ((L, w, cs), Inr (L', w', cs')) \<Rightarrow> (\<exists>ps. charges_once ds scr L (map (logged scr) ps) L' \<and>
       w' = w + sum_list (map (\<lambda>p. nat (ch_missed p)) ps) \<and> cs' = cs @ ps))"

lemma penalty_day_result: "day_result {d} (penalty_score environ) (L, w, cs) (penalty_day S U environ (L, w, cs) d)"
proof (cases "compute_penalties S L U d (Some published_run_budget_s) environ")
  case (Inl e)
  then show ?thesis using charges_once_refl by (auto simp: penalty_day_def day_result_def)
next
  case (Inr ps)
  let ?r = "fold_sum (write_charge (penalty_score environ) d) (L, w, cs) ps"
  have "\<forall>p \<in> set ps. ch_day p = isoformat d" using charges_new(2) [OF Inr] by blast
  note log = write_charges_steps [where scr = "penalty_score environ" and L = L and w = w and cs = cs, OF this]
  have r: "penalty_day S U environ (L, w, cs) d = ?r" by (simp add: penalty_day_def Inr)
  show ?thesis
  proof (cases ?r)
    case (Inl x)
    obtain e L' where x: "x = (e, L')" by (cases x)
    then obtain k where "charged_by L (map (logged (penalty_score environ)) (take k ps)) L'" using log Inl by auto
    from charges_once_computed [OF Inr this] show ?thesis unfolding r Inl x day_result_def by auto
  next
    case (Inr x)
    obtain L' w' cs' where x: "x = (L', w', cs')" by (cases x)
    then have "charged_by L (map (logged (penalty_score environ)) (take (length ps) ps)) L'" using log Inr by simp
    from charges_once_computed [OF \<open>compute_penalties S L U d (Some published_run_budget_s) environ = Inr ps\<close> this]
    have "charges_once {d} (penalty_score environ) L (map (logged (penalty_score environ)) ps) L'" by simp
    then show ?thesis using log unfolding r Inr x day_result_def by auto
  qed
qed

lemma penalty_days_result: "day_result (set ds) (penalty_score environ) (L, w, cs) (fold_sum (penalty_day S U environ) (L, w, cs) ds)"
proof (induction ds arbitrary: L w cs)
  case (Cons d ds)
  let ?scr = "penalty_score environ"
  note day = penalty_day_result [where S = S and U = U and environ = environ and L = L and w = w and cs = cs and d = d]
  have up: "charges_once (set (d # ds)) ?scr a new b" if "charges_once {d} ?scr a new b \<or> charges_once (set ds) ?scr a new b" for a new b
    using that by (auto intro: charges_once_mono)
  show ?case
  proof (cases "penalty_day S U environ (L, w, cs) d")
    case (Inl x)
    then show ?thesis using day up by (cases x) (auto simp: day_result_def)
  next
    case (Inr x)
    then obtain L1 w1 cs1 where x: "x = (L1, w1, cs1)" by (cases x)
    then obtain ps where one: "charges_once (set (d # ds)) ?scr L (map (logged ?scr) ps) L1"
      "w1 = w + sum_list (map (\<lambda>p. nat (ch_missed p)) ps)" "cs1 = cs @ ps" using day Inr up by (auto simp: day_result_def)
    have r: "fold_sum (penalty_day S U environ) (L, w, cs) (d # ds) = fold_sum (penalty_day S U environ) (L1, w1, cs1) ds"
      using Inr by (simp add: x)
    show ?thesis
    proof (cases "fold_sum (penalty_day S U environ) (L1, w1, cs1) ds")
      case (Inl y)
      obtain e L2 where y: "y = (e, L2)" by (cases y)
      obtain new where "charges_once (set (d # ds)) ?scr L1 new L2" using Cons.IH [of L1 w1 cs1] Inl up by (auto simp: y day_result_def)
      from charges_once_trans [OF one(1) this] show ?thesis unfolding r Inl y day_result_def by auto
    next
      case (Inr y)
      obtain L2 w2 cs2 where y: "y = (L2, w2, cs2)" by (cases y)
      obtain qs where two: "charges_once (set (d # ds)) ?scr L1 (map (logged ?scr) qs) L2"
        "w2 = w1 + sum_list (map (\<lambda>p. nat (ch_missed p)) qs)" "cs2 = cs1 @ qs"
        using Cons.IH [of L1 w1 cs1] Inr up by (auto simp: y day_result_def)
      have "charges_once (set (d # ds)) ?scr L (map (logged ?scr) (ps @ qs)) L2" using charges_once_trans [OF one(1) two(1)] by simp
      then show ?thesis using one(2,3) two(2,3) unfolding r Inr y day_result_def
        by (auto intro!: exI [of _ "ps @ qs"])
    qed
  qed
qed (simp add: day_result_def charges_once_refl)

lemma penalty_days: "map (\<lambda>n. day - int n) (rev [0..<catchup_days]) = [day - 2, day - 1, day]"
  by (simp add: catchup_days_def upt_rec numeral_3_eq_3 numeral_2_eq_2)

lemma charges_once_log:
  assumes "charges_once (set [day - 2, day - 1, day]) scr L new L'"
  shows "penalty_log L' = penalty_log L @ new \<and> distinct (map penalty_key new) \<and>
      (\<forall>p \<in> set new. penalty_key p \<notin> applied L \<and> 0 < pe_missed p \<and> pe_score p = scr \<and> pe_day p \<in> {isoformat (day - 2), isoformat (day - 1), isoformat day}) \<and>
      (distinct (map penalty_key (penalty_log L)) \<longrightarrow> distinct (map penalty_key (penalty_log L'))) \<and>
      (\<forall>hk. lines_at L' hk = lines_at L hk @ charged_lines hk new) \<and>
      L'\<lparr>made := made L, entry_files := entry_files L, penalty_file := penalty_file L\<rparr> = L"
proof -
  have f: "penalty_log L' = penalty_log L @ new" using assms by (simp add: charges_once_def charged_by_def penalty_log_def)
  have "applied L \<inter> set (map penalty_key new) = {}" by (rule keys_disjoint) (use assms in \<open>simp add: charges_once_def\<close>)
  then show ?thesis using assms unfolding f charges_once_def charged_by_def map_append distinct_append applied_def by simp
qed

text \<open>C25. A hotkey is charged at most once for a day, and exactly what it missed: whatever the ledgers hold and
  whether the step returns or raises on the way, the log of charges gains lines for days and hotkeys it
  had none for, no two for the same, each for one of the last three days; every hotkey's entry file gains
  exactly one line at the floor score and weight one per missed episode of its new charges, in their
  order, and nothing else of the directory changes; so a log without two lines for one day and hotkey has
  none afterwards. When the step returns, its report counts those lines and the hotkeys charged and
  details the first ten charges.\<close>

theorem ap_charged_once:
  "\<exists>new. let r = apply_penalties S L U day environ; L' = left_by r in
     penalty_log L' = penalty_log L @ new \<and>
     distinct (map (\<lambda>p. (pe_day p, pe_hotkey p)) new) \<and>
     (\<forall>p \<in> set new. (pe_day p, pe_hotkey p) \<notin> applied L \<and> 0 < pe_missed p \<and> pe_score p = penalty_score environ \<and>
        pe_day p \<in> {isoformat (day - 2), isoformat (day - 1), isoformat day}) \<and>
     (distinct (map (\<lambda>p. (pe_day p, pe_hotkey p)) (penalty_log L)) \<longrightarrow> distinct (map (\<lambda>p. (pe_day p, pe_hotkey p)) (penalty_log L'))) \<and>
     (\<forall>hk. lines_at L' hk = lines_at L hk @ charged_lines hk new) \<and>
     L'\<lparr>made := made L, entry_files := entry_files L, penalty_file := penalty_file L\<rparr> = L \<and>
     (case r of Inl _ \<Rightarrow> True | Inr (_, rep) \<Rightarrow>
        pr_penalty_entries rep = sum_list (map (\<lambda>p. nat (pe_missed p)) new) \<and>
        pr_penalised_miners rep = card (set (map pe_hotkey new)) \<and>
        pr_detail rep = map (\<lambda>p. (take 16 (pe_hotkey p), pe_day p, pe_missed p)) (take 10 new))"
proof -
  let ?scr = "penalty_score environ"
  let ?f = "fold_sum (penalty_day S U environ) (L, 0, []) [day - 2, day - 1, day]"
  note days = penalty_days_result [where S = S and U = U and environ = environ and L = L and w = 0 and cs = "[]" and ds = "[day - 2, day - 1, day]"]
  note log = charges_once_log [where day = day and L = L]
  show ?thesis
  proof (cases ?f)
    case (Inl x)
    obtain e L' where x: "x = (e, L')" by (cases x)
    obtain new where "charges_once (set [day - 2, day - 1, day]) ?scr L new L'" using days unfolding Inl x day_result_def by auto
    note new = log [OF this]
    have a: "apply_penalties S L U day environ = Inl (e, L')" by (simp only: apply_penalties_def penalty_days Inl x map_sum.simps id_apply)
    show ?thesis unfolding a Let_def left_by_def sum.case prod.case using new by blast
  next
    case (Inr x)
    obtain L' w cs where x: "x = (L', w, cs)" by (cases x)
    have new: "charges_once (set [day - 2, day - 1, day]) ?scr L (map (logged ?scr) cs) L'" "w = sum_list (map (\<lambda>p. nat (ch_missed p)) cs)"
      using days unfolding Inr x day_result_def by auto
    obtain rep where rep: "apply_penalties S L U day environ = Inr (L', rep)" "pr_penalty_entries rep = w"
      "pr_penalised_miners rep = card (set (map ch_hotkey cs))" "pr_detail rep = map (\<lambda>p. (take 16 (ch_hotkey p), ch_day p, ch_missed p)) (take 10 cs)"
      unfolding apply_penalties_def penalty_days Inr x by simp
    have same: "sum_list (map (\<lambda>p. nat (pe_missed p)) (map (logged ?scr) cs)) = w" "map pe_hotkey (map (logged ?scr) cs) = map ch_hotkey cs"
      "map (\<lambda>p. (take 16 (pe_hotkey p), pe_day p, pe_missed p)) (take 10 (map (logged ?scr) cs)) = map (\<lambda>p. (take 16 (ch_hotkey p), ch_day p, ch_missed p)) (take 10 cs)"
      unfolding new(2) by (simp_all add: logged_def comp_def take_map)
    have "pr_penalty_entries rep = sum_list (map (\<lambda>p. nat (pe_missed p)) (map (logged ?scr) cs)) \<and>
        pr_penalised_miners rep = card (set (map pe_hotkey (map (logged ?scr) cs))) \<and>
        pr_detail rep = map (\<lambda>p. (take 16 (pe_hotkey p), pe_day p, pe_missed p)) (take 10 (map (logged ?scr) cs))"
      unfolding same rep(2-4) by simp
    then show ?thesis unfolding rep(1) Let_def left_by_def sum.case prod.case using log [OF new(1)] by blast
  qed
qed

section \<open>A charge is for an absence of the miner's own\<close>

lemma coverage_models: "day_coverage S d = Inr cov \<Longrightarrow> set (keys cov) \<subseteq> day_models S d"
proof -
  let ?f = "\<lambda>out (hk, ls). case last_with ''episodes_in'' ls of
     None \<Rightarrow> Inr out | Some rec \<Rightarrow> map_sum id (\<lambda>c. out @ [(hk, c)]) (line_coverage rec)"
  have step: "set (keys out') \<subseteq> insert hk (set (keys out))" if "?f out (hk, ls) = Inr out'" for out hk ls out'
    using that by (auto split: option.splits)
  have "set (keys cov) \<subseteq> set (keys out) \<union> set (keys files)" if "fold_sum ?f out files = Inr cov" for out files
    using that
  proof (induction files arbitrary: out)
    case (Cons x files)
    obtain hk ls where x: "x = (hk, ls)" by (cases x)
    obtain out' where o: "?f out (hk, ls) = Inr out'" "fold_sum ?f out' files = Inr cov"
      using Cons.prems by (auto simp only: x fold_sum.simps split: sum.splits)
    show ?case using Cons.IH [OF o(2)] step [OF o(1)] by (auto simp: x)
  qed simp
  moreover assume "day_coverage S d = Inr cov"
  ultimately have "set (keys cov) \<subseteq> set (keys ([] :: (hotkey, int \<times> int) dict)) \<union> set (keys (day_files S d))"
    unfolding day_coverage_def by blast
  then show ?thesis by (simp add: day_models_def day_files_def)
qed

text \<open>C26. A charge is for an absence of the miner's own: a hotkey is charged for a day only if the rule was
  in force and the subnet ran that day, the hotkey was on the board or playing, it was not charged for
  that day before and its model was not removed; and either its own record shows the missed episodes
  and its run did not fail on our side, or it has no record and the day's run ended, or was cut off
  without a plan to run it.\<close>

theorem ap_charge_is_own_absence:
  assumes "compute_penalties S L U day b environ = Inr out" and "c \<in> set out"
  shows "effective_from \<le> day \<and> subnet_ran S (isoformat day) \<and> ch_day c = isoformat day \<and> 0 < ch_missed c \<and>
    (\<exists>hks. chargeable_hotkeys S L day active_lookback_days environ = Inr hks \<and> ch_hotkey c \<in> hks) \<and>
    (ch_day c, ch_hotkey c) \<notin> applied L \<and> ch_hotkey c \<notin> removed_hotkeys U (isoformat day) \<and>
    \<not> (\<exists>error. map_of (day_run_status S (isoformat day)) (ch_hotkey c) = Some (False, error) \<and> operator_fault error b) \<and>
    (\<exists>cov. day_coverage S (isoformat day) = Inr cov \<and>
      (case map_of cov (ch_hotkey c) of
         Some (eps_in, preds_out) \<Rightarrow> ch_missed c = eps_in - preds_out
       | None \<Rightarrow> (run_complete S (isoformat day) \<or> (\<exists>plan. day_plan S (isoformat day) = Some plan \<and> ch_hotkey c \<notin> plan)) \<and>
           ch_missed c = Max (set (map (\<lambda>(hk, eps, preds). eps) cov))))"
proof -
  let ?d = "isoformat day"
  obtain cov hks where o: "effective_from \<le> day" "subnet_ran S ?d" "day_coverage S ?d = Inr cov"
    "chargeable_hotkeys S L day active_lookback_days environ = Inr hks"
    "out = concat (map (charge_of S L U ?d b cov (Max (set (map (\<lambda>(hk, eps, preds). eps) cov)))) (sorted_list_of_set hks))"
    using assms by (auto simp: compute_penalties_def Let_def and_then_Inr split: if_splits)
  have "finite hks \<or> sorted_list_of_set hks = []" by (cases "finite hks") simp_all
  then obtain hk where hk: "hk \<in> hks" "c \<in> set (charge_of S L U ?d b cov (Max (set (map (\<lambda>(hk, eps, preds). eps) cov))) hk)"
    using assms(2) unfolding o(5) by auto
  note own = charge_of_charge [OF hk(2)]
  have c: "ch_hotkey c = hk" "ch_day c = ?d" using own(1) by simp_all
  have u: "hk \<notin> removed_hotkeys U ?d"
    "\<not> (\<exists>error. map_of (day_run_status S ?d) hk = Some (False, error) \<and> operator_fault error b)"
    "\<not> cut_off S ?d cov hk" "ch_missed c = missed_of cov (Max (set (map (\<lambda>(hk, eps, preds). eps) cov))) hk"
    using hk(2) by (auto simp: charge_of_def split: if_splits)
  have "case map_of cov hk of
         Some (eps_in, preds_out) \<Rightarrow> ch_missed c = eps_in - preds_out
       | None \<Rightarrow> (run_complete S ?d \<or> (\<exists>plan. day_plan S ?d = Some plan \<and> hk \<notin> plan)) \<and>
           ch_missed c = Max (set (map (\<lambda>(hk, eps, preds). eps) cov))"
    using u(3,4) own(3) by (auto simp: cut_off_def missed_of_def max_def split: option.splits if_splits)
  then show ?thesis unfolding c using u(1,2) o(1-4) own(2,3) hk(1) by blast
qed

text \<open>A run that is cut off charges nobody it never reached: whatever prefix of the day's run was
  executed before the cut, a model of that run that was not reached and had no earlier record that day
  is not charged for the day, however long it is chargeable and whatever the ledger holds.\<close>

theorem ap_cut_run_spares_the_unreached:
  assumes "shadow_ok S" and "distinct (map sm_hotkey models)" and "1 \<le> n" and "n \<le> Suc (length models)"
    and "\<not> run_complete S (isoformat day)" and "m \<in> set (drop (n - 1) models)" and "sm_hotkey m \<notin> day_models S (isoformat day)"
    and "compute_penalties (foldl (do_step (isoformat day)) S (take n (run_steps eps models runner))) L U day b environ = Inr out"
  shows "sm_hotkey m \<notin> ch_hotkey ` set out"
proof
  let ?d = "isoformat day" and ?S' = "foldl (do_step (isoformat day)) S (take n (run_steps eps models runner))"
  assume "sm_hotkey m \<in> ch_hotkey ` set out"
  then obtain c where c: "c \<in> set out" "ch_hotkey c = sm_hotkey m" by auto
  note cut = cut_run [OF assms(1-4), of ?d eps runner, unfolded Let_def]
  have "m \<in> set models" using assms(6) by (meson in_set_dropD)
  then obtain plan where plan: "day_plan ?S' ?d = Some plan" "sm_hotkey m \<in> plan" using cut by blast
  have "map sm_hotkey (take (n - 1) models) @ map sm_hotkey (drop (n - 1) models) = map sm_hotkey models"
    by (simp flip: map_append)
  then have "sm_hotkey m \<notin> sm_hotkey ` set (take (n - 1) models)"
    using assms(2,6) by (metis IntI distinct_append empty_iff image_eqI list.set_map)
  then have "sm_hotkey m \<notin> day_models ?S' ?d" using cut assms(7) by blast
  moreover obtain cov where cov: "day_coverage ?S' ?d = Inr cov"
    using assms(8) c(1) by (auto simp: compute_penalties_def Let_def and_then_Inr split: if_splits)
  ultimately have none: "map_of cov (sm_hotkey m) = None" using coverage_models [OF cov] by (auto simp: map_of_None_iff)
  have "\<not> run_complete ?S' ?d" using cut assms(5) by blast
  then have "cut_off ?S' ?d cov (sm_hotkey m)" using none plan by (simp add: cut_off_def)
  moreover obtain k hks where "out = concat (map (charge_of ?S' L U ?d b cov k) (sorted_list_of_set hks))"
    using assms(8) c(1) cov by (auto simp: compute_penalties_def Let_def and_then_Inr split: if_splits)
  then obtain hk where hk: "c \<in> set (charge_of ?S' L U ?d b cov k hk)" using c(1) by auto
  moreover have "hk = sm_hotkey m" using charge_of_charge(1) [OF hk] c(2) by simp
  ultimately show False by (auto simp: charge_of_def split: if_splits)
qed

definition newcomer_shadow :: shadow where
  "newcomer_shadow =
     (let line = \<lambda>hk n p. (hk, [JDict [(''ok'', JBool True), (''episodes_in'', JNum n), (''predictions_out'', JNum p)]]);
          day = \<lambda>files. \<lparr>sd_marker = Some (JDict []), sd_plan = None, sd_files = files\<rparr>
      in [(''2026-09-01'', day [line ''a'' 4 4]), (''2026-09-02'', day [line ''a'' 4 4, line ''b'' 4 3])])"

text \<open>The directory after one and after two runs of the step.\<close>

definition newcomer_charge :: "string \<Rightarrow> int \<Rightarrow> charge" where
  "newcomer_charge day n = \<lparr>ch_day = day, ch_hotkey = ''b'', ch_missed = n\<rparr>"

definition newcomer_ledger :: "(string \<times> int) list \<Rightarrow> ledger" where
  "newcomer_ledger charges = empty_ledger\<lparr>made := charges \<noteq> [],
     entry_files := (if charges = [] then [] else [(''b.jsonl'', concat (map (\<lambda>(d, n). replicate (nat n) (JDict
        [(''score'', JNum 0), (''weight'', JNum 1), (''day'', JStr d)])) charges))]),
     penalty_file := map (\<lambda>(d, n). \<lparr>pe_day = d, pe_hotkey = ''b'', pe_missed = n, pe_score = 0\<rparr>) charges\<rparr>"

lemma newcomer_first:
  "compute_penalties newcomer_shadow (newcomer_ledger []) None 739859 (Some published_run_budget_s) (\<lambda>_. None) = Inr []"
  "compute_penalties newcomer_shadow (newcomer_ledger []) None 739860 (Some published_run_budget_s) (\<lambda>_. None) = Inr []"
  "compute_penalties newcomer_shadow (newcomer_ledger []) None 739861 (Some published_run_budget_s) (\<lambda>_. None)
     = Inr [newcomer_charge ''2026-09-02'' 1]"
  by code_simp+

lemma newcomer_second:
  "compute_penalties newcomer_shadow (newcomer_ledger [(''2026-09-02'', 1)]) None 739859 (Some published_run_budget_s) (\<lambda>_. None) = Inr []"
  "compute_penalties newcomer_shadow (newcomer_ledger [(''2026-09-02'', 1)]) None 739860 (Some published_run_budget_s) (\<lambda>_. None)
     = Inr [newcomer_charge ''2026-09-01'' 4]"
  "compute_penalties newcomer_shadow (newcomer_ledger [(''2026-09-02'', 1), (''2026-09-01'', 4)]) None 739861 (Some published_run_budget_s) (\<lambda>_. None)
     = Inr []"
  by code_simp+

lemma newcomer_iso: "isoformat 739860 = ''2026-09-01''" "isoformat 739861 = ''2026-09-02''"
  by code_simp+

lemma newcomer_writes:
  "write_charge 0 739861 (newcomer_ledger [], 0, []) (newcomer_charge ''2026-09-02'' 1)
     = Inr (newcomer_ledger [(''2026-09-02'', 1)], 1, [newcomer_charge ''2026-09-02'' 1])"
  "write_charge 0 739860 (newcomer_ledger [(''2026-09-02'', 1)], 0, []) (newcomer_charge ''2026-09-01'' 4)
     = Inr (newcomer_ledger [(''2026-09-02'', 1), (''2026-09-01'', 4)], 4, [newcomer_charge ''2026-09-01'' 4])"
  by (simp_all add: write_charge_def append_entries_lines penalty_entries_def penalty_entry_weight_def group_by_miner_def append_miner_def entry_path_def
      safe_hotkey_def safe_char_def entry_line_def newcomer_ledger_def newcomer_charge_def empty_ledger_def newcomer_iso eval_nat_numeral)

text \<open>Catch-up charges reach back before a hotkey joined: a hotkey whose first run is on 2 September and
  misses one episode is charged for it; running the step for the same day again, with nothing else
  changed, charges it for all of 1 September, a day on which it had no model to run, because the
  entries of its first charge put it on the board of every earlier day.\<close>

theorem ap_newcomer_charged_before_joining:
  "\<exists>L1 r1 L2 r2. apply_penalties newcomer_shadow empty_ledger None 739861 (\<lambda>_. None) = Inr (L1, r1) \<and>
     pr_detail r1 = [(''b'', ''2026-09-02'', 1)] \<and>
     apply_penalties newcomer_shadow L1 None 739861 (\<lambda>_. None) = Inr (L2, r2) \<and>
     pr_detail r2 = [(''b'', ''2026-09-01'', 4)] \<and> ''b'' \<notin> day_models newcomer_shadow ''2026-09-01''"
proof -
  have e: "empty_ledger = newcomer_ledger []" by (simp add: newcomer_ledger_def empty_ledger_def)
  have sc: "penalty_score (\<lambda>_. None) = 0" by (simp add: penalty_score_def default_penalty_score_def)
  have "''b'' \<notin> day_models newcomer_shadow ''2026-09-01''" by (simp add: day_models_def day_of_def newcomer_shadow_def Let_def)
  then show ?thesis unfolding e
    by (simp add: apply_penalties_def penalty_days penalty_day_def sc newcomer_first newcomer_second newcomer_writes)
      (simp add: newcomer_charge_def)
qed



theorem ap_charged_once_witness:
  "\<exists>L2 rep. apply_penalties newcomer_shadow (newcomer_ledger [(''2026-09-02'', 1)]) None 739861 (\<lambda>_. None) = Inr (L2, rep) \<and>
     pr_penalty_entries rep = 4 \<and> distinct (map (\<lambda>p. (pe_day p, pe_hotkey p)) (penalty_log L2)) \<and> length (penalty_log L2) = 2 \<and>
     length (lines_at L2 ''b'') = 1 + 4 \<and> set (drop 1 (lines_at L2 ''b'')) = {JDict [(''score'', JNum 0), (''weight'', JNum 1), (''day'', JStr ''2026-09-01'')]}"
proof -
  let ?L = "newcomer_ledger [(''2026-09-02'', 1)]"
  have sc: "penalty_score (\<lambda>_. None) = 0" by (simp add: penalty_score_def default_penalty_score_def)
  have two: "apply_penalties newcomer_shadow ?L None 739861 (\<lambda>_. None)
      = Inr (newcomer_ledger [(''2026-09-02'', 1), (''2026-09-01'', 4)], \<lparr>pr_penalised_miners = 1, pr_penalty_entries = 4,
          pr_penalty_score = 0, pr_days_checked = 3, pr_detail = [(''b'', ''2026-09-01'', 4)]\<rparr>)"
    by (simp add: apply_penalties_def penalty_days penalty_day_def sc newcomer_second newcomer_writes)
      (simp add: newcomer_charge_def catchup_days_def)
  have old: "penalty_log ?L = [\<lparr>pe_day = ''2026-09-02'', pe_hotkey = ''b'', pe_missed = 1, pe_score = 0\<rparr>]" "length (lines_at ?L ''b'') = 1"
    by (simp_all add: newcomer_ledger_def penalty_log_def lines_at_def)
  have log: "penalty_log (newcomer_ledger [(''2026-09-02'', 1), (''2026-09-01'', 4)]) = penalty_log ?L @
      [\<lparr>pe_day = ''2026-09-01'', pe_hotkey = ''b'', pe_missed = 4, pe_score = 0\<rparr>]" by (simp add: newcomer_ledger_def penalty_log_def)
  obtain new where new: "penalty_log (newcomer_ledger [(''2026-09-02'', 1), (''2026-09-01'', 4)]) = penalty_log ?L @ new"
    "distinct (map penalty_key (penalty_log ?L)) \<longrightarrow> distinct (map penalty_key (penalty_log (newcomer_ledger [(''2026-09-02'', 1), (''2026-09-01'', 4)])))"
    "\<forall>hk. lines_at (newcomer_ledger [(''2026-09-02'', 1), (''2026-09-01'', 4)]) hk = lines_at ?L hk @ charged_lines hk new"
    using ap_charged_once [of newcomer_shadow ?L None 739861 "\<lambda>_. None"]
    unfolding two Let_def left_by_def sum.case case_prod_conv by blast
  have "new = [\<lparr>pe_day = ''2026-09-01'', pe_hotkey = ''b'', pe_missed = 4, pe_score = 0\<rparr>]" using new(1) unfolding log by simp
  then have "lines_at (newcomer_ledger [(''2026-09-02'', 1), (''2026-09-01'', 4)]) ''b'' = lines_at ?L ''b'' @
      replicate 4 (JDict [(''score'', JNum 0), (''weight'', JNum 1), (''day'', JStr ''2026-09-01'')])"
    using new(3) by (simp add: charged_lines_def)
  moreover have "distinct (map penalty_key (penalty_log (newcomer_ledger [(''2026-09-02'', 1), (''2026-09-01'', 4)])))"
    using new(2) by (simp add: old)
  ultimately show ?thesis using two old(2) by (simp add: log old(1))
qed



section \<open>A cancelled charge leaves no trace\<close>

lemma use_cancellation_snoc:
  "\<not> matches_line c j a b \<Longrightarrow> use_cancellation (cs @ [c]) j a b = map_option (\<lambda>cs'. cs' @ [c]) (use_cancellation cs j a b)"
  by (induction cs) (auto simp: option.map_comp comp_def)

lemma use_cancellation_last:
  "use_cancellation cs j a b = None \<Longrightarrow> matches_line c j a b \<Longrightarrow> use_cancellation (cs @ [c]) j a b = Some (cs @ [c\<lparr>cn_missed := cn_missed c - 1\<rparr>])"
  by (induction cs) (auto split: if_splits)

definition signature_of :: "cancellation \<Rightarrow> json \<Rightarrow> bool" where
  "signature_of c j \<longleftrightarrow> jget j ''day'' = JStr (cn_day c) \<and> line_score j = Inr (cn_score c) \<and> line_weight j = Inr (cn_weight c)"

lemma read_line_snoc:
  assumes "\<not> signature_of c j"
  shows "read_line cutoff (cs @ [c], eps) j = map_sum id (\<lambda>(cs', eps'). (cs' @ [c], eps')) (read_line cutoff (cs, eps) j)"
proof (cases "line_day j")
  case day: (Inr d)
  show ?thesis
  proof (cases "line_score j"; cases "line_weight j")
    fix a b assume ab: "line_score j = Inr a" "line_weight j = Inr b"
    then have "\<not> matches_line c j a b" using assms by (auto simp: signature_of_def matches_line_def)
    then show ?thesis using ab day
      by (cases "use_cancellation cs j a b") (simp_all add: read_line_def use_cancellation_snoc)
  qed (simp_all add: read_line_def day)
qed (simp add: read_line_def)

lemma read_lines_snoc:
  assumes "\<forall>j \<in> set js. \<not> signature_of c j"
  shows "fold_sum (read_line cutoff) (cs @ [c], eps) js =
    map_sum id (\<lambda>(cs', eps'). (cs' @ [c], eps')) (fold_sum (read_line cutoff) (cs, eps) js)"
  using assms
proof (induction js arbitrary: cs eps)
  case (Cons j js)
  have step: "read_line cutoff (cs @ [c], eps) j = map_sum id (\<lambda>(cs', eps'). (cs' @ [c], eps')) (read_line cutoff (cs, eps) j)"
    using Cons.prems by (intro read_line_snoc) simp
  show ?case
  proof (cases "read_line cutoff (cs, eps) j")
    case (Inr x)
    then show ?thesis using Cons.IH [of "fst x" "snd x"] Cons.prems step by (cases x) simp
  qed (use step in simp)
qed simp

text \<open>The charged lines use the cancellation up.\<close>

lemma read_cancelled:
  assumes "valid_day (we_entered_on e)" and "isoformat (we_entered_on e) \<notin> set (map cn_day cs)"
    and "cn_day c = isoformat (we_entered_on e)" and "cn_score c = we_score e" and "cn_weight c = we_weight e" and "cn_missed c = int n"
  shows "\<exists>cs'. fold_sum (read_line cutoff) (cs @ [c], eps) (replicate n (entry_line e)) = Inr (cs', eps)"
  using assms(3-)
proof (induction n arbitrary: c)
  case (Suc n)
  have "use_cancellation cs (entry_line e) (we_score e) (we_weight e) = None"
    using assms(2) by (intro use_cancellation_None) (auto simp: entry_line_read)
  moreover have "matches_line c (entry_line e) (we_score e) (we_weight e)"
    using Suc.prems by (simp add: matches_line_def entry_line_read)
  ultimately have u: "use_cancellation (cs @ [c]) (entry_line e) (we_score e) (we_weight e) = Some (cs @ [c\<lparr>cn_missed := cn_missed c - 1\<rparr>])"
    by (rule use_cancellation_last)
  show ?case
  proof (cases "we_entered_on e < cutoff")
    case True
    have "fold_sum (read_line cutoff) (cs', eps) (replicate k (entry_line e)) = Inr (cs', eps)" for cs' k
      by (induction k) (simp_all add: read_line_def entry_line_read assms(1) True)
    then show ?thesis by blast
  next
    case False
    have "read_line cutoff (cs @ [c], eps) (entry_line e) = Inr (cs @ [c\<lparr>cn_missed := cn_missed c - 1\<rparr>], eps)"
      using False by (simp add: read_line_def entry_line_read assms(1) u)
    moreover have "\<exists>cs'. fold_sum (read_line cutoff) (cs @ [c\<lparr>cn_missed := cn_missed c - 1\<rparr>], eps) (replicate n (entry_line e)) = Inr (cs', eps)"
      by (rule Suc.IH) (use Suc.prems in simp_all)
    ultimately show ?thesis by simp
  qed
qed simp

lemma read_file_cancelled:
  assumes "read_file cutoff cs lines = Inr eps" and "valid_day (we_entered_on e)" and "isoformat (we_entered_on e) \<notin> set (map cn_day cs)"
    and "cn_day c = isoformat (we_entered_on e)" and "cn_score c = we_score e" and "cn_weight c = we_weight e" and "cn_missed c = int n"
    and "\<forall>j \<in> set lines. \<not> signature_of c j"
  shows "read_file cutoff (cs @ [c]) (lines @ replicate n (entry_line e)) = Inr eps"
proof -
  obtain acc where acc: "fold_sum (read_line cutoff) (cs, []) lines = Inr acc" "snd acc = eps"
    using assms(1) by (auto simp: read_file_def)
  have "isoformat (we_entered_on e) \<notin> set (map cn_day (fst acc))" using read_lines_days [OF acc(1)] assms(3) by simp
  from read_cancelled [OF assms(2) this assms(4-7), of cutoff eps] obtain cs'
    where "fold_sum (read_line cutoff) (fst acc @ [c], eps) (replicate n (entry_line e)) = Inr (cs', eps)" by blast
  moreover have "fold_sum (read_line cutoff) (cs @ [c], []) lines = Inr (fst acc @ [c], eps)"
    using read_lines_snoc [OF assms(8), of cutoff cs "[]"] acc by (cases acc) simp
  ultimately show ?thesis by (simp add: read_file_def fold_sum_append)
qed

lemma cancels_record:
  "cancels_of (record_cancellation L day hk n a b reason) hk' = cancels_of L hk' @
     (if hk' = hk then [\<lparr>cn_day = day, cn_hotkey = hk, cn_missed = n, cn_score = a, cn_weight = b, cn_reason = reason\<rparr>] else [])"
  by (simp add: cancels_of_def load_cancellations_def record_cancellation_def)

text \<open>A cancelled charge leaves no trace in the standings: after a hotkey is charged for a day of a run
  that was cut off and the cut-off charges of the day are cancelled, every load gives every hotkey the
  entries it gave before the charge. The hotkey must have had no cancellation on that day and no
  entry with the floor score and the penalty's weight on that day.\<close>

theorem ap_cancelled_charge_leaves_no_trace:
  assumes ok: "ledger_ok L" and old: "load_entries L as_of w = Inr D" and p: "p = \<lparr>ch_day = isoformat d, ch_hotkey = hk, ch_missed = n\<rparr>"
    and "0 < n" and safe: "safe_hotkey hk" and "valid_day d"
    and none: "\<forall>c \<in> set (load_cancellations L). \<not> (cn_hotkey c = hk \<and> cn_day c = isoformat d)"
    and sig: "\<forall>lines. map_of (entry_files L) (hk @ ''.jsonl'') = Some lines \<longrightarrow> (\<forall>j \<in> set lines.
      \<not> (jget j ''day'' = JStr (isoformat d) \<and> line_score j = Inr scr \<and> line_weight j = Inr penalty_entry_weight))"
    and charge: "write_charge scr d (L, w0, cs0) p = Inr (L1, w1, cs1)"
    and cut: "cut_off_charges S L1 (isoformat d) = [\<lparr>pe_day = isoformat d, pe_hotkey = hk, pe_missed = n, pe_score = scr\<rparr>]"
  shows "\<exists>D'. load_entries (fst (cancel_cut_off_charges S L1 (isoformat d) True)) as_of w = Inr D' \<and> (\<forall>hk'. entries_of D' hk' = entries_of D hk')"
proof -
  define e where "e = \<lparr>we_miner = hk, we_score = scr, we_weight = penalty_entry_weight, we_entered_on = d, we_episode_id = [], we_horizon_days = 0\<rparr>"
  define c where "c = \<lparr>cn_day = isoformat d, cn_hotkey = hk, cn_missed = n, cn_score = scr, cn_weight = penalty_entry_weight, cn_reason = cut_off_reason\<rparr>"
  let ?old = "case map_of (entry_files L) (hk @ ''.jsonl'') of None \<Rightarrow> [] | Some ls \<Rightarrow> ls"
  let ?F = "AList.update (hk @ ''.jsonl'') (?old @ replicate (nat n) (entry_line e)) (entry_files L)"
  define L2 where "L2 = fst (cancel_cut_off_charges S L1 (isoformat d) True)"
  have "append_entries L (replicate (nat n) e) = Inr (L\<lparr>made := True, entry_files := ?F\<rparr>, nat n)"
    using append_one [of "nat n" e L] assms(4) safe by (simp add: e_def)
  then have L1: "entry_files L1 = ?F" "cancellation_log L1 = cancellation_log L" "made L1"
    using charge unfolding p write_charge_def by (auto simp: penalty_entries_def e_def)
  have "L2 = record_cancellation L1 (isoformat d) hk n scr penalty_entry_weight cut_off_reason"
    by (simp add: L2_def cancel_cut_off_charges_def cut Let_def)
  then have files: "entry_files L2 = ?F" "made L2" "cancels_of L2 hk' = cancels_of L hk' @ (if hk' = hk then [c] else [])" for hk'
    using L1 by (simp_all add: cancels_record c_def cancels_of_def load_cancellations_def) (simp_all add: record_cancellation_def)
  have ok2: "ledger_ok L2" using ok files(1,2) by (auto simp: ledger_ok_def)
  have read: "read_hotkey L2 (as_of - w) hk' = Inr (entries_of D hk')" for hk'
  proof (cases "hk' = hk \<and> is_entry_file (hk @ ''.jsonl'')")
    case False
    then have "read_hotkey L2 (as_of - w) hk' = read_hotkey L (as_of - w) hk'"
      by (auto simp: read_hotkey_def map_of_update files split: option.split)
    then show ?thesis using load_entries_iff(2) [OF ok old] by simp
  next
    case True
    have "read_file (as_of - w) (cancels_of L hk) ?old = Inr (entries_of D hk)"
      using load_entries_iff(2) [OF ok old, of hk] True by (auto simp: read_hotkey_def read_file_def split: option.splits)
    moreover have "isoformat d \<notin> set (map cn_day (cancels_of L hk))" using none by (auto simp: cancels_of_def)
    moreover have "\<forall>j \<in> set ?old. \<not> signature_of c j" using sig by (cases "map_of (entry_files L) (hk @ ''.jsonl'')") (auto simp: signature_of_def c_def)
    ultimately have "read_file (as_of - w) (cancels_of L hk @ [c]) (?old @ replicate (nat n) (entry_line e)) = Inr (entries_of D hk)"
      using assms(4,6) by (intro read_file_cancelled) (simp_all add: e_def c_def)
    then show ?thesis using True files by (simp add: read_hotkey_def map_of_update)
  qed
  then obtain D' where D': "load_entries L2 as_of w = Inr D'" using load_entries_iff(1) [OF ok2] by blast
  have "entries_of D' hk' = entries_of D hk'" for hk' using load_entries_iff(2) [OF ok2 D', of hk'] read [of hk'] by simp
  then show ?thesis using D' unfolding L2_def by blast
qed

definition cut_shadow :: shadow where
  "cut_shadow = [(''2026-09-02'', \<lparr>sd_marker = None, sd_plan = Some [''a'', ''b''], sd_files = [(''a'', [JDict [(''ok'', JBool True)]])]\<rparr>)]"

theorem ap_cancelled_charge_leaves_no_trace_witness:
  "\<exists>D'. load_entries (fst (cancel_cut_off_charges cut_shadow (newcomer_ledger [(''2026-09-02'', 1)]) ''2026-09-02'' True)) 739861 35 = Inr D' \<and>
    entries_of D' ''b'' = []"
proof -
  have e: "newcomer_ledger [] = empty_ledger" by (simp add: newcomer_ledger_def empty_ledger_def)
  have cut: "cut_off_charges cut_shadow (newcomer_ledger [(''2026-09-02'', 1)]) (isoformat 739861)
      = [\<lparr>pe_day = isoformat 739861, pe_hotkey = ''b'', pe_missed = 1, pe_score = 0\<rparr>]"
    by (simp add: newcomer_iso cut_off_charges_def cut_shadow_def run_complete_def day_of_def day_models_def day_plan_def
        newcomer_ledger_def penalty_log_def load_cancellations_def empty_ledger_def)
  have p: "newcomer_charge ''2026-09-02'' 1 = \<lparr>ch_day = isoformat 739861, ch_hotkey = ''b'', ch_missed = 1\<rparr>"
    by (simp add: newcomer_charge_def newcomer_iso)
  have safe: "safe_hotkey ''b''" by (simp add: safe_hotkey_def safe_char_def)
  from ap_cancelled_charge_leaves_no_trace [OF empty_ledger_ok p _ safe _ _ _ newcomer_writes(1) [unfolded e] cut, of 739861 35]
  have "\<exists>D'. load_entries (fst (cancel_cut_off_charges cut_shadow (newcomer_ledger [(''2026-09-02'', 1)]) (isoformat 739861) True)) 739861 35 = Inr D' \<and>
      (\<forall>hk'. entries_of D' hk' = entries_of [] hk')"
    by (simp add: valid_day_def load_cancellations_def empty_ledger_def)
  then show ?thesis by (auto simp: newcomer_iso entries_of_def)
qed

theorem ap_charge_is_own_absence_witness:
  "subnet_ran newcomer_shadow ''2026-09-02'' \<and> (''2026-09-02'', ''b'') \<notin> applied (newcomer_ledger []) \<and>
    (\<exists>cov. day_coverage newcomer_shadow ''2026-09-02'' = Inr cov)"
  using ap_charge_is_own_absence [OF newcomer_first(3), of "newcomer_charge ''2026-09-02'' 1"]
  by (auto simp: newcomer_iso newcomer_charge_def)

lemma cut_computed:
  "\<not> isl (compute_penalties (foldl (do_step ''2026-09-02'') [] (take 2 (run_steps [] [sample_model ''a'', sample_model ''b''] (\<lambda>_ _. sample_result))))
     (newcomer_ledger []) None 739861 (Some 900) (\<lambda>_. None))"
  by code_simp

theorem ap_cut_run_spares_the_unreached_witness:
  "\<exists>out. compute_penalties (foldl (do_step ''2026-09-02'') [] (take 2 (run_steps [] [sample_model ''a'', sample_model ''b''] (\<lambda>_ _. sample_result))))
     (newcomer_ledger []) None 739861 (Some 900) (\<lambda>_. None) = Inr out \<and> ''b'' \<notin> ch_hotkey ` set out"
proof -
  let ?S = "foldl (do_step ''2026-09-02'') [] (take 2 (run_steps [] [sample_model ''a'', sample_model ''b''] (\<lambda>_ _. sample_result)))"
  obtain out where out: "compute_penalties ?S (newcomer_ledger []) None 739861 (Some 900) (\<lambda>_. None) = Inr out"
    using cut_computed by (cases "compute_penalties ?S (newcomer_ledger []) None 739861 (Some 900) (\<lambda>_. None)") (simp_all only: sum.disc simp_thms)
  have e: "shadow_ok []" by (simp add: shadow_ok_def day_of_def empty_day_def)
  have d: "distinct (map sm_hotkey [sample_model ''a'', sample_model ''b''])" by (simp add: sample_model_def)
  have "sm_hotkey (sample_model ''b'') \<notin> ch_hotkey ` set out"
    by (rule ap_cut_run_spares_the_unreached [OF e d, of 2 739861 "sample_model ''b''" "[]" "\<lambda>_ _. sample_result" "newcomer_ledger []" None "Some 900" "\<lambda>_. None", unfolded newcomer_iso])
      (simp_all add: run_complete_def day_models_def day_of_def empty_day_def, simp only: out)
  then show ?thesis using out by (simp add: sample_model_def)
qed

end
