(* ===== verification/CollateralFloor.thy ===== *)
theory CollateralFloor
  imports Interfaces PyFloat
begin

text \<open>
  The collateral floor (\<open>hope/scoring/collateral_floor.py\<close>): the dated alpha and burn schedules, the
  capture path that escrows a miner's earnings until the floor is met, and the advisory compliance
  view. Log lines are left out; dates beyond the range of \<open>datetime.date\<close> are not modelled (the
  addition of the shift raises there). \<open>native\<close> stands for the chain reader.

  Shown: the schedules step on their dates and only one way, a moved launch moves every rung, the
  capture path never pays before the floor is met (to the rounding of three operations), never
  releases collateral, and its lifetime totals stay consistent (it is a \<open>monotone_machine\<close>).
\<close>

section \<open>Schedules\<close>

definition first_live_bundle_day :: date where "first_live_bundle_day = mk_date 2026 8 3"

definition alpha_schedule :: "(date \<times> float) list" where
  "alpha_schedule = [(mk_date 2026 8 3, 0), (mk_date 2026 8 10, 150), (mk_date 2026 8 18, 300),
     (mk_date 2026 8 25, 450), (mk_date 2026 9 8, 700), (mk_date 2026 9 15, 1000)]"

text \<open>The literals 0.45, 0.30 and 0.15 are the doubles nearest to them.\<close>

definition burn_schedule :: "(date \<times> float) list" where
  "burn_schedule = [(mk_date 2026 8 3, fl (45 / 100)), (mk_date 2026 8 10, fl (30 / 100)),
     (mk_date 2026 8 25, fl (15 / 100)), (mk_date 2026 9 15, 0)]"

definition launch_date_from :: "environ \<Rightarrow> date option" where
  "launch_date_from environ = (let raw = env_raw environ ''SN21_IM_LAUNCH_DATE''
     in if raw = [] then None else fromisoformat raw)"

definition ladder_anchor_from :: "environ \<Rightarrow> string" where
  "ladder_anchor_from environ = (let raw = lower (env_raw environ ''SN21_LADDER_ANCHOR'')
     in if raw \<in> {''launch'', ''first_settlement''} then raw else ''launch'')"

text \<open>The loop of \<open>_step_value\<close>: it breaks at the first step that has not arrived.\<close>

fun step_from :: "date \<Rightarrow> int \<Rightarrow> float \<Rightarrow> (date \<times> float) list \<Rightarrow> float" where
  "step_from day shift_days value [] = value"
| "step_from day shift_days value ((starts, v) # rest) =
     (if starts + shift_days \<le> day then step_from day shift_days v rest else value)"

definition step_value :: "date \<Rightarrow> (date \<times> float) list \<Rightarrow> int \<Rightarrow> py_error + float" where
  "step_value day schedule shift_days =
     (case schedule of [] \<Rightarrow> Inl IndexError | (_, v) # _ \<Rightarrow> Inr (step_from day shift_days v schedule))"

definition shift_of :: "date option \<Rightarrow> int" where
  "shift_of launch_day = (case launch_day of None \<Rightarrow> 0 | Some d \<Rightarrow> d - first_live_bundle_day)"

definition floor_for_day :: "date \<Rightarrow> date option \<Rightarrow> py_error + float" where
  "floor_for_day day launch_day = step_value day alpha_schedule (shift_of launch_day)"

definition burn_for_day :: "date \<Rightarrow> date option \<Rightarrow> py_error + float" where
  "burn_for_day day launch_day = step_value day burn_schedule (shift_of launch_day)"

text \<open>The first settlement is accepted and not consulted.\<close>

definition active_floor :: "date \<Rightarrow> environ \<Rightarrow> date option \<Rightarrow> py_error + float" where
  "active_floor day environ first_settlement = floor_for_day day (launch_date_from environ)"

datatype burn_source = FromEnv | FromSchedule

definition resolve_burn_fraction :: "environ \<Rightarrow> date \<Rightarrow> py_error + float \<times> burn_source" where
  "resolve_burn_fraction environ day =
     (case py_float (env_raw environ ''SN21_BURN_FRACTION'') of
        Some v \<Rightarrow> if 0 \<le> v \<and> v \<le> 1 then Inr (v, FromEnv)
                  else map_sum id (\<lambda>b. (b, FromSchedule)) (burn_for_day day (launch_date_from environ))
      | None \<Rightarrow> map_sum id (\<lambda>b. (b, FromSchedule)) (burn_for_day day (launch_date_from environ)))"

section \<open>The capture path\<close>

record capture_state =
  owner :: hotkey
  locked_alpha :: float
  voluntary_alpha :: float
  total_earned_alpha :: float
  total_paid_alpha :: float

definition new_capture :: "hotkey \<Rightarrow> capture_state" where
  "new_capture hk = \<lparr>owner = hk, locked_alpha = 0, voluntary_alpha = 0, total_earned_alpha = 0, total_paid_alpha = 0\<rparr>"

record day_fold =
  folded :: capture_state
  escrowed_alpha :: float
  paid_alpha :: float

definition fold_day :: "capture_state \<Rightarrow> float \<Rightarrow> float \<Rightarrow> py_error + day_fold" where
  "fold_day st earned_alpha floor_alpha =
     (if earned_alpha < 0 then Inl ValueError
      else
        let gap = max 0 (fsub floor_alpha (locked_alpha st));
            escrow = min gap earned_alpha;
            paid = fsub earned_alpha escrow
        in Inr \<lparr>folded = st\<lparr>locked_alpha := fadd (locked_alpha st) escrow,
                  total_earned_alpha := fadd (total_earned_alpha st) earned_alpha,
                  total_paid_alpha := fadd (total_paid_alpha st) paid\<rparr>,
                escrowed_alpha = escrow, paid_alpha = paid\<rparr>)"

definition add_voluntary :: "capture_state \<Rightarrow> float \<Rightarrow> py_error + capture_state" where
  "add_voluntary st alpha =
     (if alpha < 0 then Inl ValueError
      else Inr (st\<lparr>locked_alpha := fadd (locked_alpha st) alpha, voluntary_alpha := fadd (voluntary_alpha st) alpha\<rparr>))"

section \<open>The compliance view\<close>

datatype lock_source = CaptureBookkeeping | ChainNative

record compliance_row =
  row_locked :: float
  row_floor :: float
  floor_met :: bool
  capture_progress :: float
  row_voluntary :: float
  row_source :: lock_source

record compliance_report =
  chain_available :: bool
  miners :: "(hotkey, compliance_row) dict"
  floors_met :: nat
  floors_total :: nat

definition locked_for :: "(hotkey \<Rightarrow> float option) option \<Rightarrow> hotkey \<Rightarrow> capture_state \<Rightarrow> float \<times> lock_source" where
  "locked_for chain_reader hk st =
     (case chain_reader of
        None \<Rightarrow> (locked_alpha st, CaptureBookkeeping)
      | Some native \<Rightarrow> (case native hk of None \<Rightarrow> (locked_alpha st, CaptureBookkeeping) | Some v \<Rightarrow> (v, ChainNative)))"

definition compliance_row_of ::
    "(hotkey \<Rightarrow> float option) option \<Rightarrow> float \<Rightarrow> hotkey \<Rightarrow> capture_state \<Rightarrow> compliance_row" where
  "compliance_row_of chain_reader floor_alpha hk st =
     (case locked_for chain_reader hk st of (locked, source) \<Rightarrow>
        \<lparr>row_locked = fround 6 locked, row_floor = floor_alpha, floor_met = (floor_alpha \<le> locked),
         capture_progress = (if 0 < floor_alpha then fround 4 (min 1 (fdiv locked floor_alpha)) else 1),
         row_voluntary = fround 6 (voluntary_alpha st), row_source = source\<rparr>)"

definition compliance_view ::
    "(hotkey, capture_state) dict \<Rightarrow> float \<Rightarrow> (hotkey \<Rightarrow> float option) option \<Rightarrow> compliance_report" where
  "compliance_view states floor_alpha chain_reader =
     (let rows = map (\<lambda>(hk, st). (hk, compliance_row_of chain_reader floor_alpha hk st)) (sort_key fst states)
      in \<lparr>chain_available = (chain_reader \<noteq> None), miners = rows,
          floors_met = length (filter (\<lambda>(_, r). floor_met r) rows), floors_total = length rows\<rparr>)"

section \<open>Facts\<close>

definition steps_up :: "(date \<times> float) list \<Rightarrow> bool" where
  "steps_up sched \<longleftrightarrow> sorted_wrt (\<lambda>x y. fst x \<le> fst y \<and> snd x \<le> snd y) sched"

text \<open>The loop finds the last step that has arrived.\<close>

lemma step_from_arrived:
  "sorted_wrt (\<lambda>x y. fst x \<le> fst y) sched \<Longrightarrow>
    step_from day k acc sched = (case last_such (\<lambda>(d, _). d + k \<le> day) sched of None \<Rightarrow> acc | Some (_, v) \<Rightarrow> v)"
proof (induction sched arbitrary: acc)
  case (Cons x rest)
  obtain d v where x: "x = (d, v)" by fastforce
  show ?case
  proof (cases "d + k \<le> day")
    case True
    then show ?thesis using Cons last_such_append [of "\<lambda>(d, _). d + k \<le> day" "[x]" rest]
      by (auto simp: x split: option.splits)
  next
    case False
    then have "\<not> e + k \<le> day" if "(e, w) \<in> set rest" for e w using Cons.prems that by (fastforce simp: x)
    then have "last_such (\<lambda>(d, _). d + k \<le> day) (x # rest) = None"
      using False by (auto simp: last_such_None_iff x)
    then show ?thesis using False by (simp add: x)
  qed
qed simp

lemma step_from_shift: "step_from (day + j) (k + j) acc sched = step_from day k acc sched"
  by (induction day k acc sched rule: step_from.induct) (simp_all add: algebra_simps)

text \<open>A later day has passed at least the same steps, so a value that only climbs climbs.\<close>

lemma step_from_mono:
  assumes "sorted_wrt le (acc # map snd sched)" and "\<And>a. le a a" and "day \<le> later"
  shows "le (step_from day k acc sched) (step_from later k acc sched)"
  using assms(1,3)
proof (induction sched arbitrary: acc)
  case Nil
  then show ?case by (simp add: assms(2))
next
  case (Cons x rest)
  obtain d v where x: "x = (d, v)" by fastforce
  have above: "le u (step_from later k v sched')" if "le u v" "\<forall>w \<in> snd ` set sched'. le u w" for u v sched'
    using that by (induction sched' arbitrary: v) (auto split: prod.splits)
  show ?case
    using Cons above [of acc v rest] assms(2) by (auto simp: x)
qed

lemma step_from_in: "step_from day k acc sched \<in> insert acc (snd ` set sched)"
  by (induction day k acc sched rule: step_from.induct) auto

lemma alpha_climbs: "sorted_wrt (\<le>) (0 # map snd alpha_schedule)"
  by (simp add: alpha_schedule_def)

lemma alpha_dated: "sorted_wrt (\<lambda>x y. fst x \<le> fst y) alpha_schedule"
  by (simp add: alpha_schedule_def mk_date_def days_before_month_def days_in_month_def is_leap_def upto.simps)

lemma burn_values: "sorted_wrt (\<ge>) (fl (45 / 100) # map snd burn_schedule)"
  by (simp add: burn_schedule_def fl_mono fl.rnd_nonneg)

lemma floor_for_day_value: "floor_for_day day l = Inr (step_from day (shift_of l) 0 alpha_schedule)"
  by (simp add: floor_for_day_def step_value_def alpha_schedule_def)

lemma burn_for_day_value: "burn_for_day day l = Inr (step_from day (shift_of l) (fl (45 / 100)) burn_schedule)"
  by (simp add: burn_for_day_def step_value_def burn_schedule_def)

section \<open>Properties of the schedules\<close>

text \<open>The obligation only climbs and the burn only falls: the floor in force is the value of
  the last rung that has arrived, lies in [0, 1000] and is never lower on a later day; the burn fraction lies in
  [0, 0.45] and never rises on a later day. Moving the launch
  moves every rung by the same number of days.\<close>

theorem co_schedules_one_way:
  assumes "day \<le> later"
  shows "(\<exists>a b. active_floor day environ s = Inr a \<and> active_floor later environ s' = Inr b \<and> 0 \<le> a \<and> a \<le> b \<and> b \<le> 1000) \<and>
    (\<exists>a b. burn_for_day day l = Inr a \<and> burn_for_day later l = Inr b \<and> 0 \<le> b \<and> b \<le> a \<and> a \<le> fl (45 / 100)) \<and>
    floor_for_day (day + k) (Some (d + k)) = floor_for_day day (Some d) \<and>
    floor_for_day day l = Inr (case last_such (\<lambda>(t, _). t + shift_of l \<le> day) alpha_schedule of None \<Rightarrow> 0 | Some (_, v) \<Rightarrow> v)"
proof (intro conjI)
  have range: "0 \<le> a \<and> a \<le> 1000" if "a \<in> insert 0 (snd ` set alpha_schedule)" for a
    using that by (auto simp: alpha_schedule_def)
  show "\<exists>a b. active_floor day environ s = Inr a \<and> active_floor later environ s' = Inr b \<and> 0 \<le> a \<and> a \<le> b \<and> b \<le> 1000"
    using step_from_mono [OF alpha_climbs _ assms] range [OF step_from_in]
    by (simp add: active_floor_def floor_for_day_value)
  have "a \<le> fl (45 / 100) \<and> 0 \<le> a" if "a \<in> insert (fl (45 / 100)) (snd ` set burn_schedule)" for a
    using that by (auto simp: burn_schedule_def fl_mono fl.rnd_nonneg)
  then show "\<exists>a b. burn_for_day day l = Inr a \<and> burn_for_day later l = Inr b \<and> 0 \<le> b \<and> b \<le> a \<and> a \<le> fl (45 / 100)"
    using step_from_mono [OF burn_values _ assms] step_from_in [of _ "shift_of l" "fl (45 / 100)" burn_schedule]
    by (simp add: burn_for_day_value)
  show "floor_for_day (day + k) (Some (d + k)) = floor_for_day day (Some d)"
    using step_from_shift [of day k "d - first_live_bundle_day" 0 alpha_schedule]
    by (simp add: floor_for_day_value shift_of_def algebra_simps)
  show "floor_for_day day l = Inr (case last_such (\<lambda>(t, _). t + shift_of l \<le> day) alpha_schedule of None \<Rightarrow> 0 | Some (_, v) \<Rightarrow> v)"
    by (simp only: floor_for_day_value step_from_arrived [OF alpha_dated])
qed

lemma co_schedules_one_way_witness:
  "\<exists>a b. active_floor (mk_date 2026 8 12) (\<lambda>_. None) None = Inr a \<and> active_floor (mk_date 2026 8 20) (\<lambda>_. None) None = Inr b \<and> a \<le> b"
proof -
  have "mk_date 2026 8 12 \<le> mk_date 2026 8 20" by code_simp
  from co_schedules_one_way [OF this, of "\<lambda>_. None" None None None 0 0] show ?thesis by blast
qed

section \<open>Properties of the capture path\<close>

definition capture_ok :: "capture_state \<Rightarrow> bool" where
  "capture_ok st \<longleftrightarrow> is_float (locked_alpha st) \<and> is_float (voluntary_alpha st) \<and> is_float (total_earned_alpha st) \<and>
     is_float (total_paid_alpha st) \<and> 0 \<le> voluntary_alpha st \<and> voluntary_alpha st \<le> locked_alpha st \<and>
     0 \<le> total_paid_alpha st \<and> total_paid_alpha st \<le> total_earned_alpha st"

text \<open>What happens to a miner's capture state; a call that raises leaves it as it was.\<close>

datatype capture_event = Earned float float | Fronted float

definition capture_step :: "capture_state \<Rightarrow> capture_event \<Rightarrow> capture_state" where
  "capture_step st ev = (case ev of
     Earned earned floor_alpha \<Rightarrow> (case fold_day st earned floor_alpha of Inl _ \<Rightarrow> st | Inr r \<Rightarrow> folded r)
   | Fronted alpha \<Rightarrow> (case add_voluntary st alpha of Inl _ \<Rightarrow> st | Inr st' \<Rightarrow> st'))"

definition event_floats :: "capture_state \<Rightarrow> capture_event \<Rightarrow> bool" where
  "event_floats st ev = (case ev of Earned earned floor_alpha \<Rightarrow> is_float earned \<and> is_float floor_alpha | Fronted a \<Rightarrow> is_float a)"

definition capture_le :: "capture_state \<Rightarrow> capture_state \<Rightarrow> bool" where
  "capture_le s t \<longleftrightarrow> locked_alpha s \<le> locked_alpha t \<and> voluntary_alpha s \<le> voluntary_alpha t \<and>
     total_earned_alpha s \<le> total_earned_alpha t \<and> total_paid_alpha s \<le> total_paid_alpha t"

lemma fadd_mono: "a \<le> b \<Longrightarrow> c \<le> d \<Longrightarrow> fadd a c \<le> fadd b d"
  unfolding fadd_def by (intro fl_mono add_mono)

lemma fsub_nonneg: "b \<le> a \<Longrightarrow> 0 \<le> fsub a b"
  unfolding fsub_def by (intro fl.rnd_nonneg) simp

lemma fsub_le: "is_float a \<Longrightarrow> 0 \<le> b \<Longrightarrow> fsub a b \<le> a"
  using fl_mono [of "a - b" a] by (simp add: fsub_def is_float_def)

lemma capture_step_ok:
  assumes "capture_ok st" and "event_floats st ev"
  shows "capture_ok (capture_step st ev) \<and> capture_le st (capture_step st ev)"
proof (cases ev)
  case (Earned e f)
  show ?thesis
  proof (cases "e < 0")
    case False
    let ?x = "min (max 0 (fsub f (locked_alpha st))) e"
    have x: "0 \<le> ?x" "?x \<le> e" using False by auto
    have p: "0 \<le> fsub e ?x" "fsub e ?x \<le> e"
      using fsub_nonneg [OF x(2)] fsub_le [OF _ x(1)] assms Earned by (simp_all add: event_floats_def)
    have "locked_alpha st \<le> fadd (locked_alpha st) ?x" "total_earned_alpha st \<le> fadd (total_earned_alpha st) e"
      "total_paid_alpha st \<le> fadd (total_paid_alpha st) (fsub e ?x)"
      "fadd (total_paid_alpha st) (fsub e ?x) \<le> fadd (total_earned_alpha st) e"
      using assms(1) x p False by (auto simp: capture_ok_def intro: fadd_ge fadd_mono)
    then show ?thesis using assms(1) Earned False
      by (auto simp: capture_step_def fold_day_def Let_def capture_ok_def capture_le_def)
  qed (use assms Earned in \<open>simp add: capture_step_def fold_day_def capture_le_def\<close>)
next
  case (Fronted a)
  show ?thesis
  proof (cases "a < 0")
    case False
    have "voluntary_alpha st \<le> fadd (voluntary_alpha st) a" "locked_alpha st \<le> fadd (locked_alpha st) a"
      "fadd (voluntary_alpha st) a \<le> fadd (locked_alpha st) a"
      using assms(1) False by (auto simp: capture_ok_def intro: fadd_ge fadd_mono)
    then show ?thesis using assms(1) Fronted False
      by (auto simp: capture_step_def add_voluntary_def capture_ok_def capture_le_def)
  qed (use assms Fronted in \<open>simp add: capture_step_def add_voluntary_def capture_le_def\<close>)
qed

interpretation capture: monotone_machine capture_step event_floats capture_ok capture_le
  by unfold_locales (use capture_step_ok in \<open>auto simp: capture_le_def\<close>)

lemma zero_day: "capture_ok st \<Longrightarrow> capture_step st (Earned 0 f) = st"
proof -
  assume ok: "capture_ok st"
  have "min (max 0 (fsub f (locked_alpha st))) 0 = 0" by simp
  then show ?thesis using ok
    by (simp add: capture_step_def fold_day_def capture_ok_def Let_def fadd_def fsub_def is_float_def)
qed

text \<open>The soft phase never takes collateral back: over any history of earning days and voluntary
  deposits, the lock, the voluntary part and the lifetime totals only grow, the voluntary part
  never exceeds the lock, payouts never exceed earnings, and a day without earnings changes
  nothing (the frozen floor), whatever the floor is.\<close>

theorem co_capture_never_drains:
  assumes "admissible capture_step event_floats (new_capture hk) (evs @ evs2)"
  defines "st \<equiv> foldl capture_step (new_capture hk) evs"
  defines "st' \<equiv> foldl capture_step (new_capture hk) (evs @ evs2)"
  shows "locked_alpha st \<le> locked_alpha st' \<and> voluntary_alpha st' \<le> locked_alpha st' \<and>
    total_paid_alpha st \<le> total_paid_alpha st' \<and> total_paid_alpha st' \<le> total_earned_alpha st' \<and>
    capture_step st' (Earned 0 f) = st'"
proof -
  have new: "capture_ok (new_capture hk)" by (simp add: capture_ok_def new_capture_def)
  have split: "admissible step ok s (xs @ ys) \<Longrightarrow> admissible step ok s xs \<and> admissible step ok (foldl step s xs) ys"
    for step :: "capture_state \<Rightarrow> capture_event \<Rightarrow> capture_state" and ok s xs ys
    by (induction xs arbitrary: s) auto
  note parts = split [OF assms(1)]
  have "capture_ok st" using capture.run_inv [OF new] parts by (simp add: st_def)
  moreover have "st' = foldl capture_step st evs2" by (simp add: st_def st'_def)
  ultimately have "capture_ok st'" "capture_le st st'"
    using capture.run_inv [of st evs2] capture.run_le [of st evs2] parts by (simp_all add: st_def)
  then show ?thesis using zero_day by (simp add: capture_ok_def capture_le_def)
qed

lemma co_capture_never_drains_witness:
  "locked_alpha (foldl capture_step (new_capture ''m'') [Earned 100 150])
    \<le> locked_alpha (foldl capture_step (new_capture ''m'') ([Earned 100 150] @ [Fronted 20, Earned 7 300]))"
proof -
  have f: "is_float 100" "is_float 150" "is_float 20" "is_float 7" "is_float 300"
    using is_float_int [of 100] is_float_int [of 150] is_float_int [of 20] is_float_int [of 7] is_float_int [of 300] by simp_all
  then have "admissible capture_step event_floats (new_capture ''m'') ([Earned 100 150] @ [Fronted 20, Earned 7 300])"
    by (simp add: event_floats_def)
  from co_capture_never_drains [OF this, of 0] show ?thesis by blast
qed

text \<open>Filling the gap lands on the floor, up to the rounding of the subtraction and the addition.\<close>

lemma fill_gap:
  assumes "is_float l" "0 \<le> l" and "is_float fa" and le: "l \<le> fa"
  shows "\<bar>fadd l (max 0 (fsub fa l)) - fa\<bar> \<le> 4 * u53 * fa"
proof -
  have g0: "0 \<le> fsub fa l" using fsub_nonneg [OF le] .
  have ge: "\<bar>fsub fa l - (fa - l)\<bar> \<le> u53 * \<bar>fa - l\<bar>" using fsub_error [OF assms(3,1)] .
  moreover have small: "u53 * \<bar>fa - l\<bar> \<le> u53 * fa"
    using le assms(2) by (intro mult_left_mono) simp_all
  moreover have "u53 * fa \<le> fa"
    using mult_right_mono [of u53 1 fa] u53_small assms(2) le by simp
  ultimately have "l + fsub fa l \<le> 2 * fa" using abs_le_D1 [OF ge] by linarith
  then have "u53 * \<bar>l + fsub fa l\<bar> \<le> 2 * (u53 * fa)" using assms(2) g0 by (intro u_scale) simp
  moreover have "\<bar>fadd l (fsub fa l) - (l + fsub fa l)\<bar> \<le> u53 * \<bar>l + fsub fa l\<bar>"
    using assms(1) by (intro fadd_error) simp_all
  moreover have "0 \<le> u53 * fa" using assms(2) le by simp
  ultimately have "\<bar>fadd l (fsub fa l) - fa\<bar> \<le> 4 * (u53 * fa)"
    using ge small by linarith
  moreover have "max 0 (fsub fa l) = fsub fa l" using g0 by simp
  ultimately show ?thesis by (simp only: mult.assoc)
qed

text \<open>C11. Escrow first: of a day's earnings the lock takes what is missing to the floor and the miner
  the rest, nothing else. A miner is paid only once the lock has reached the floor, the lock does
  not overshoot it, and nothing is escrowed above it, up to the rounding of the three operations
  (a relative error of 2^-51).\<close>

theorem co_escrow_before_payout:
  assumes "capture_ok st" and "is_float earned" and "is_float floor_alpha" and "0 \<le> floor_alpha"
    and "fold_day st earned floor_alpha = Inr r"
  shows "0 \<le> escrowed_alpha r \<and> 0 \<le> paid_alpha r \<and>
    \<bar>escrowed_alpha r + paid_alpha r - earned\<bar> \<le> u53 * earned \<and>
    (0 < paid_alpha r \<longrightarrow> (1 - 4 * u53) * floor_alpha \<le> locked_alpha (folded r)) \<and>
    (locked_alpha st \<le> floor_alpha \<longrightarrow> locked_alpha (folded r) \<le> (1 + 4 * u53) * floor_alpha) \<and>
    (floor_alpha \<le> locked_alpha st \<longrightarrow> escrowed_alpha r = 0 \<and> paid_alpha r = earned \<and> locked_alpha (folded r) = locked_alpha st)"
proof -
  let ?l = "locked_alpha st" and ?g = "max 0 (fsub floor_alpha (locked_alpha st))"
  let ?x = "min ?g earned"
  have e: "0 \<le> earned" using assms(5) by (auto simp: fold_day_def split: if_splits)
  have r: "escrowed_alpha r = ?x" "paid_alpha r = fsub earned ?x" "locked_alpha (folded r) = fadd ?l ?x"
    using assms(5) by (auto simp: fold_day_def Let_def split: if_splits)
  have l: "is_float ?l" "0 \<le> ?l" using assms(1) by (simp_all add: capture_ok_def)
  have fx: "is_float ?x" using assms(2) by (simp add: min_def max_def)
  have x: "0 \<le> ?x" "?x \<le> earned" using e by simp_all
  have "\<bar>fsub earned ?x - (earned - ?x)\<bar> \<le> u53 * \<bar>earned - ?x\<bar>" using fsub_error [OF assms(2) fx] .
  moreover have "u53 * \<bar>earned - ?x\<bar> \<le> u53 * earned" using x by (intro mult_left_mono) simp_all
  ultimately have sum: "\<bar>?x + fsub earned ?x - earned\<bar> \<le> u53 * earned" by linarith
  have above: "?x = 0 \<and> fsub earned ?x = earned \<and> fadd ?l ?x = ?l" if "floor_alpha \<le> ?l"
  proof -
    have "fsub floor_alpha ?l \<le> 0" unfolding fsub_def using fl_mono [of "floor_alpha - ?l" 0] that by simp
    then have "?x = 0" using e by simp
    then show ?thesis using assms(2) l by (simp add: fsub_def fadd_def is_float_def)
  qed
  note near = fill_gap [OF l assms(3)]
  have paid: "(1 - 4 * u53) * floor_alpha \<le> fadd ?l ?x" if p: "0 < fsub earned ?x"
  proof (cases "?l \<le> floor_alpha")
    case True
    have "?x \<noteq> earned" using p by (auto simp: fsub_def)
    then have "?x = ?g" by (simp add: min_def split: if_splits)
    then show ?thesis using near [OF True] by (simp add: abs_le_iff left_diff_distrib)
  next
    case False
    then have le: "floor_alpha \<le> ?l" by simp
    have "fadd ?l ?x = ?l" using above [OF le] by (rule conjunct2 [THEN conjunct2])
    moreover have "(1 - 4 * u53) * floor_alpha \<le> floor_alpha" using assms(4) by (simp add: left_diff_distrib)
    ultimately show ?thesis using False by linarith
  qed
  have over: "fadd ?l ?x \<le> (1 + 4 * u53) * floor_alpha" if "?l \<le> floor_alpha"
    using fadd_mono [of ?l ?l ?x ?g] near [OF that] by (simp add: abs_le_iff distrib_right)
  have "0 \<le> fsub earned ?x" using x(2) by (rule fsub_nonneg)
  then show ?thesis unfolding r using sum above paid over x(1) by blast
qed

lemma co_escrow_before_payout_witness:
  "\<exists>r. fold_day (new_capture ''m'') 200 150 = Inr r \<and> paid_alpha r = 50 \<and>
    (1 - 4 * u53) * 150 \<le> locked_alpha (folded r)"
proof -
  let ?st = "new_capture ''m''"
  have f: "is_float 200" "is_float 150" "is_float 50"
    using is_float_int [of 200] is_float_int [of 150] is_float_int [of 50] by simp_all
  obtain r where r: "fold_day ?st 200 150 = Inr r" by (cases "fold_day ?st 200 150") (auto simp: fold_day_def Let_def)
  have "paid_alpha r = 50" using r f
    by (auto simp: fold_day_def new_capture_def fsub_def is_float_def Let_def)
  moreover have "capture_ok ?st" by (simp add: capture_ok_def new_capture_def)
  from co_escrow_before_payout [OF this f(1,2) _ r]
  have "0 < paid_alpha r \<longrightarrow> (1 - 4 * u53) * 150 \<le> locked_alpha (folded r)" by simp
  ultimately show ?thesis using r by auto
qed

end
