(* ===== verification/CollateralGate.thy ===== *)
theory CollateralGate
  imports CollateralFloor
begin

text \<open>
  The alpha-hold gate (\<open>hope/scoring/collateral_gate.py\<close>): it drops miners whose hold is below the floor
  from a weight vector and gives what they had to the survivors. \<open>reader\<close> stands for the metagraph
  (a read that raises is \<open>None\<close>, as the code makes it), \<open>locked\<close> for the capture bookkeeping with
  numeric values. The reason string of an excluded key is modelled by the hold and the floor it prints,
  the refusal strings by a datatype.

  Shown: who is kept and who is not, that protected destinations keep their exact weight, that ratios
  survive, that the total of the miners is preserved up to rounding, and that the gate never empties a
  vector.
\<close>

section \<open>The gate\<close>

definition enforcement_enabled :: "environ \<Rightarrow> bool" where
  "enforcement_enabled environ \<longleftrightarrow> flag_on environ ''SN21_COLLATERAL_ENFORCE''"

datatype floor_source = FloorEnv | FloorLadder

definition floor_in_force :: "environ \<Rightarrow> date \<Rightarrow> py_error + float \<times> floor_source" where
  "floor_in_force environ day =
     (case py_float (env_raw environ ''SN21_ALPHA_FLOOR'') of
        Some v \<Rightarrow> Inr (v, FloorEnv)
      | None \<Rightarrow> map_sum id (\<lambda>v. (v, FloorLadder)) (active_floor day environ None))"

definition mapping_alpha_reader :: "('k, float option) dict \<Rightarrow> 'k \<Rightarrow> float option" where
  "mapping_alpha_reader alpha_of key = (case map_of alpha_of key of None \<Rightarrow> None | Some v \<Rightarrow> v)"

datatype refusal = FlagOff | FloorZero | EmptyInput | WouldEmpty int | NoWeight

record 'k gate_result =
  weights :: "('k, float) dict"
  excluded :: "('k, float \<times> float) dict"
  unreadable :: "'k list"
  applied :: bool
  refused_reason :: "refusal option"
  floor_alpha :: float
  holds :: "('k, float) dict"

definition or_zero :: "float option \<Rightarrow> float" where
  "or_zero x = (case x of None \<Rightarrow> 0 | Some v \<Rightarrow> v)"

definition effective_hold :: "'k \<Rightarrow> ('k \<Rightarrow> float option) \<Rightarrow> ('k, float) dict option \<Rightarrow> float option" where
  "effective_hold key reader locked =
     (let on_chain = reader key;
          captured = (case locked of None \<Rightarrow> None | Some d \<Rightarrow> map_of d key)
      in if on_chain = None \<and> captured = None then None
         else Some (max (or_zero on_chain) (or_zero captured)))"

definition positive_sum :: "('k, float) dict \<Rightarrow> float" where
  "positive_sum w = fsum (filter (\<lambda>x. 0 < x) (map snd w))"

text \<open>The loop over the vector: \<open>kept\<close>, \<open>excluded\<close>, \<open>unreadable\<close> and \<open>holds\<close>.\<close>

record 'k gate_scan =
  sc_kept :: "('k, float) dict"
  sc_excluded :: "('k, float \<times> float) dict"
  sc_unreadable :: "'k list"
  sc_holds :: "('k, float) dict"

definition scan_key ::
    "('k \<Rightarrow> float option) \<Rightarrow> ('k, float) dict option \<Rightarrow> 'k list \<Rightarrow> float \<Rightarrow> 'k gate_scan \<Rightarrow> 'k \<times> float \<Rightarrow> 'k gate_scan" where
  "scan_key reader locked protected fl_a acc item = (case item of (key, weight) \<Rightarrow>
     if weight \<le> 0 \<or> key \<in> set protected then acc\<lparr>sc_kept := AList.update key weight (sc_kept acc)\<rparr>
     else case effective_hold key reader locked of
       None \<Rightarrow> acc\<lparr>sc_unreadable := sc_unreadable acc @ [key], sc_kept := AList.update key weight (sc_kept acc)\<rparr>
     | Some hold \<Rightarrow>
         (let acc' = acc\<lparr>sc_holds := AList.update key hold (sc_holds acc)\<rparr>
          in if hold < fl_a then acc'\<lparr>sc_excluded := AList.update key (hold, fl_a) (sc_excluded acc')\<rparr>
             else acc'\<lparr>sc_kept := AList.update key weight (sc_kept acc')\<rparr>))"

definition empty_scan :: "'k gate_scan" where
  "empty_scan = \<lparr>sc_kept = [], sc_excluded = [], sc_unreadable = [], sc_holds = []\<rparr>"

definition untouched :: "('k, float) dict \<Rightarrow> float \<Rightarrow> refusal \<Rightarrow> 'k gate_result" where
  "untouched w fl_a why = \<lparr>weights = w, excluded = [], unreadable = [], applied = False, refused_reason = Some why,
     floor_alpha = fl_a, holds = []\<rparr>"

definition refused :: "('k, float) dict \<Rightarrow> float \<Rightarrow> 'k gate_scan \<Rightarrow> refusal \<Rightarrow> 'k gate_result" where
  "refused w fl_a sc why = (untouched w fl_a why)\<lparr>excluded := sc_excluded sc, holds := sc_holds sc\<rparr>"

definition rescale :: "'k list \<Rightarrow> float \<Rightarrow> ('k, float) dict \<Rightarrow> ('k, float) dict" where
  "rescale protected scale kept = map (\<lambda>(k, w). (k, if k \<in> set protected \<or> w \<le> 0 then w else fmul w scale)) kept"

definition apply_hold ::
    "('k, float) dict \<Rightarrow> float \<Rightarrow> ('k \<Rightarrow> float option) \<Rightarrow> ('k, float) dict option \<Rightarrow> environ \<Rightarrow> bool \<Rightarrow> 'k list
      \<Rightarrow> 'k gate_result" where
  "apply_hold w fl_a reader locked environ force protected =
     (let denom = positive_sum w
      in if \<not> enforcement_enabled environ \<and> \<not> force then untouched w fl_a FlagOff
         else if fl_a \<le> 0 then untouched w fl_a FloorZero
         else if denom \<le> 0 then untouched w fl_a EmptyInput
         else
           let sc = foldl (scan_key reader locked protected fl_a) empty_scan w;
               protected_total = positive_sum (filter (\<lambda>(k, _). k \<in> set protected) w);
               miner_pool = fsub denom protected_total;
               survivors = map snd (filter (\<lambda>(k, v). 0 < v \<and> k \<notin> set protected) (sc_kept sc))
           in if survivors = [] then refused w fl_a sc (WouldEmpty 0)
              else let kept_total = fsum survivors
                in if kept_total \<le> 0 \<or> miner_pool \<le> 0 then refused w fl_a sc NoWeight
                   else \<lparr>weights = rescale protected (fdiv miner_pool kept_total) (sc_kept sc),
                         excluded = sc_excluded sc, unreadable = sc_unreadable sc, applied = True,
                         refused_reason = None, floor_alpha = fl_a, holds = sc_holds sc\<rparr>)"

text \<open>The parallel lists of the on-chain path; \<open>zip\<close> stops at the shorter one.\<close>

definition gate_uid_weight_vector ::
    "int list \<Rightarrow> float list \<Rightarrow> (int \<Rightarrow> float option) \<Rightarrow> float \<Rightarrow> environ \<Rightarrow> bool
      \<Rightarrow> int list \<times> float list \<times> int gate_result" where
  "gate_uid_weight_vector uids ws reader fl_a environ force =
     (let vec = foldl (\<lambda>d (u, x). AList.update u x d) [] (zip uids ws);
          res = apply_hold vec fl_a reader None environ force []
      in if \<not> applied res then (uids, ws, res) else (map fst (weights res), map snd (weights res), res))"

section \<open>What the scan keeps\<close>

definition gone :: "('k \<Rightarrow> float option) \<Rightarrow> ('k, float) dict option \<Rightarrow> 'k list \<Rightarrow> float \<Rightarrow> 'k \<times> float \<Rightarrow> bool" where
  "gone reader locked protected fl_a item \<longleftrightarrow> 0 < snd item \<and> fst item \<notin> set protected \<and>
     (case effective_hold (fst item) reader locked of None \<Rightarrow> False | Some hold \<Rightarrow> hold < fl_a)"

lemma update_new: "k \<notin> fst ` set d \<Longrightarrow> AList.update k v d = d @ [(k, v)]"
  by (induction d) auto

lemma still_new: "A \<subseteq> insert k B \<Longrightarrow> k \<notin> W \<Longrightarrow> W \<inter> B = {} \<Longrightarrow> W \<inter> A = {}"
  by blast

lemma scan_keeps:
  assumes "dict_ok w" and "fst ` set w \<inter> fst ` set (sc_kept acc) = {}" and "fst ` set w \<inter> fst ` set (sc_excluded acc) = {}"
  shows "sc_kept (foldl (scan_key reader locked protected fl_a) acc w)
      = sc_kept acc @ filter (\<lambda>p. \<not> gone reader locked protected fl_a p) w \<and>
    map fst (sc_excluded (foldl (scan_key reader locked protected fl_a) acc w))
      = map fst (sc_excluded acc) @ map fst (filter (gone reader locked protected fl_a) w)"
  using assms
proof (induction w arbitrary: acc)
  case (Cons p w)
  obtain k x where p: "p = (k, x)" by fastforce
  let ?acc = "scan_key reader locked protected fl_a acc p"
  have new: "k \<notin> fst ` set (sc_kept acc)" "k \<notin> fst ` set (sc_excluded acc)" using Cons.prems by (auto simp: p)
  have rest: "dict_ok w" "k \<notin> fst ` set w" "fst ` set w \<inter> fst ` set (sc_kept acc) = {}"
    "fst ` set w \<inter> fst ` set (sc_excluded acc) = {}" using Cons.prems by (auto simp: p)
  have step: "sc_kept ?acc = sc_kept acc @ (if gone reader locked protected fl_a p then [] else [p])"
    "map fst (sc_excluded ?acc) = map fst (sc_excluded acc) @ (if gone reader locked protected fl_a p then [k] else [])"
    using new by (auto simp: scan_key_def p gone_def update_new Let_def split: option.splits)
  have keys: "fst ` set (sc_kept ?acc) \<subseteq> insert k (fst ` set (sc_kept acc))"
    "fst ` set (sc_excluded ?acc) \<subseteq> insert k (fst ` set (sc_excluded acc))"
    using step(1) arg_cong [OF step(2), of set] by (auto simp: p split: if_splits)
  from Cons.IH [OF rest(1) still_new [OF keys(1) rest(2,3)] still_new [OF keys(2) rest(2,4)]] step
  show "sc_kept (foldl (scan_key reader locked protected fl_a) acc (p # w))
      = sc_kept acc @ filter (\<lambda>p. \<not> gone reader locked protected fl_a p) (p # w) \<and>
    map fst (sc_excluded (foldl (scan_key reader locked protected fl_a) acc (p # w)))
      = map fst (sc_excluded acc) @ map fst (filter (gone reader locked protected fl_a) (p # w))"
    by (simp_all add: p)
qed simp_all

definition survivors_of :: "('k \<Rightarrow> float option) \<Rightarrow> ('k, float) dict option \<Rightarrow> 'k list \<Rightarrow> float \<Rightarrow> ('k, float) dict \<Rightarrow> ('k, float) dict" where
  "survivors_of reader locked protected fl_a w =
     filter (\<lambda>(k, x). 0 < x \<and> k \<notin> set protected) (filter (\<lambda>p. \<not> gone reader locked protected fl_a p) w)"

definition pool_of :: "'k list \<Rightarrow> ('k, float) dict \<Rightarrow> float" where
  "pool_of protected w = fsub (positive_sum w) (positive_sum (filter (\<lambda>(k, _). k \<in> set protected) w))"

text \<open>The gate in closed form.\<close>

lemma apply_hold_cases:
  fixes protected :: "'k list" and reader :: "'k \<Rightarrow> float option" and locked :: "('k, float) dict option"
    and fl_a :: float and environ :: environ and force :: bool and w :: "('k, float) dict"
  assumes "dict_ok w"
  defines "kept \<equiv> filter (\<lambda>p. \<not> gone reader locked protected fl_a p) w"
    and "sv \<equiv> map snd (survivors_of reader locked protected fl_a w)"
    and "res \<equiv> apply_hold w fl_a reader locked environ force protected"
  shows "applied res \<longleftrightarrow> (enforcement_enabled environ \<or> force) \<and> 0 < fl_a \<and> 0 < positive_sum w \<and>
      sv \<noteq> [] \<and> 0 < fsum sv \<and> 0 < pool_of protected w"
    and "weights res = (if applied res then rescale protected (fdiv (pool_of protected w) (fsum sv)) kept else w)"
    and "applied res \<Longrightarrow> map fst (excluded res) = map fst (filter (gone reader locked protected fl_a) w)"
proof -
  have k: "sc_kept (foldl (scan_key reader locked protected fl_a) empty_scan w) = kept"
    "map fst (sc_excluded (foldl (scan_key reader locked protected fl_a) empty_scan w))
      = map fst (filter (gone reader locked protected fl_a) w)"
    using scan_keeps [of w empty_scan reader locked protected fl_a] assms(1) by (simp_all add: empty_scan_def kept_def)
  have sv: "map snd (filter (\<lambda>(k, v). 0 < v \<and> k \<notin> set protected) kept) = sv"
    by (simp add: sv_def survivors_of_def kept_def)
  show "applied res \<longleftrightarrow> (enforcement_enabled environ \<or> force) \<and> 0 < fl_a \<and> 0 < positive_sum w \<and>
      sv \<noteq> [] \<and> 0 < fsum sv \<and> 0 < pool_of protected w"
    "weights res = (if applied res then rescale protected (fdiv (pool_of protected w) (fsum sv)) kept else w)"
    "applied res \<Longrightarrow> map fst (excluded res) = map fst (filter (gone reader locked protected fl_a) w)"
    unfolding res_def apply_hold_def Let_def k(1) sv
    by (auto simp: untouched_def refused_def pool_of_def not_le not_less k(2))
qed

section \<open>The total of the survivors\<close>

abbreviation tiny :: rat where "tiny \<equiv> pow2 (- 1075)"

lemma scaled_sum:
  assumes "\<forall>x \<in> set xs. 0 \<le> x" and "0 \<le> s"
  shows "\<bar>sum_list (map (\<lambda>x. fmul x s) xs) - sum_list xs * s\<bar> \<le> u53 * (sum_list xs * s) + of_nat (length xs) * tiny"
  using assms(1)
proof (induction xs)
  case (Cons x xs)
  have "0 \<le> x * s" using Cons.prems assms(2) by simp
  then have "\<bar>fmul x s - x * s\<bar> \<le> u53 * (x * s) + tiny" unfolding fmul_def using fl_error [of "x * s"] by simp
  then show ?case using Cons by (simp add: algebra_simps)
qed simp

text \<open>Rescaling to a pool hits the pool: the sum \<open>K\<close> of the shares enters as its rounded value \<open>t\<close>.\<close>

lemma rescaled_sum:
  assumes "\<forall>x \<in> set xs. 0 \<le> x" and "0 \<le> pool" and "0 < sum_list xs"
    and t: "\<bar>t - sum_list xs\<bar> \<le> e * sum_list xs" and e: "0 \<le> e" "e \<le> 1 / 2"
  shows "\<bar>sum_list (map (\<lambda>x. fmul x (fdiv pool t)) xs) - pool\<bar>
    \<le> (2 * e + 5 * u53) * pool + (2 * sum_list xs + of_nat (length xs)) * tiny"
proof -
  let ?K = "sum_list xs" and ?s = "fdiv pool t"
  have "e * ?K \<le> 1 / 2 * ?K" using e assms(3) by (intro mult_right_mono) simp_all
  then have tK: "?K \<le> 2 * t" using abs_le_D2 [OF t] by simp
  then have t0: "0 < t" using assms(3) by linarith
  define q where "q = pool / t"
  have q0: "0 \<le> q" using assms(2) t0 by (simp add: q_def)
  have pq: "pool = q * t" using t0 by (simp add: q_def)
  have s: "\<bar>?s - q\<bar> \<le> u53 * q + tiny" unfolding fdiv_def q_def [symmetric] using fl_error [of q] q0 by simp
  have s0: "0 \<le> ?s" unfolding fdiv_def using assms(2) t0 by (intro fl.rnd_nonneg) simp
  have Kq: "?K * q \<le> 2 * pool" using mult_right_mono [OF tK q0] by (simp add: pq mult.commute mult.left_commute)
  have "\<bar>?K * ?s - ?K * q\<bar> = ?K * \<bar>?s - q\<bar>"
    using assms(3) by (simp add: abs_mult flip: right_diff_distrib)
  also have "\<dots> \<le> ?K * (u53 * q + tiny)" using s assms(3) by (intro mult_left_mono) simp_all
  also have "\<dots> = u53 * (?K * q) + ?K * tiny" by (simp add: algebra_simps)
  finally have 1: "\<bar>?K * ?s - ?K * q\<bar> \<le> u53 * (?K * q) + ?K * tiny" .
  have u: "u53 * (?K * q) \<le> 2 * (u53 * pool)" using Kq by (rule u_scale)
  have "\<bar>?K * q - pool\<bar> = \<bar>t - ?K\<bar> * q"
    using q0 by (simp add: pq abs_mult abs_minus_commute flip: left_diff_distrib) (simp add: mult.commute abs_mult flip: right_diff_distrib)
  also have "\<dots> \<le> (e * ?K) * q" using t q0 by (intro mult_right_mono)
  also have "\<dots> \<le> e * (2 * pool)" using mult_left_mono [OF Kq e(1)] by (simp add: mult.assoc)
  finally have 2: "\<bar>?K * q - pool\<bar> \<le> 2 * (e * pool)" by simp
  have 3: "\<bar>sum_list (map (\<lambda>x. fmul x ?s) xs) - ?K * ?s\<bar> \<le> u53 * (?K * ?s) + of_nat (length xs) * tiny"
    using assms(1) s0 by (rule scaled_sum)
  have uK: "u53 * (?K * tiny) \<le> ?K * tiny" "2 * (u53 * pool) \<le> pool"
    using mult_right_mono [of u53 1 "?K * tiny"] mult_right_mono [of u53 "1 / 2" pool] u53_small assms(2,3) by simp_all
  have "?K * ?s \<le> 3 * pool + ?K * tiny" using 1 u uK(2) Kq by linarith
  then have "u53 * (?K * ?s) \<le> 1 * (u53 * (3 * pool + ?K * tiny))" by (intro u_scale) simp
  then have "u53 * (?K * ?s) \<le> 3 * (u53 * pool) + u53 * (?K * tiny)" by (simp add: distrib_left)
  then have "\<bar>sum_list (map (\<lambda>x. fmul x ?s) xs) - pool\<bar>
      \<le> 2 * (e * pool) + 5 * (u53 * pool) + 2 * (?K * tiny) + of_nat (length xs) * tiny"
    using 1 2 3 u uK(1) by linarith
  then show ?thesis by (simp add: algebra_simps)
qed

definition miners_total :: "'k list \<Rightarrow> ('k, float) dict \<Rightarrow> float" where
  "miners_total protected w = sum_list (map snd (filter (\<lambda>(k, x). 0 < x \<and> k \<notin> set protected) w))"

definition positive_total :: "('k, float) dict \<Rightarrow> float" where
  "positive_total w = sum_list (filter (\<lambda>x. 0 < x) (map snd w))"

definition vector_ok :: "('k, float) dict \<Rightarrow> bool" where
  "vector_ok w \<longleftrightarrow> dict_ok w \<and> (\<forall>x \<in> snd ` set w. is_float x) \<and> length w \<le> 2 ^ 20"

lemma positive_total_split:
  "positive_total w = positive_total (filter (\<lambda>(k, _). k \<in> set protected) w) + miners_total protected w"
  by (induction w) (auto simp: positive_total_def miners_total_def)

lemma positive_total_nonneg: "0 \<le> positive_total w" and miners_total_nonneg: "0 \<le> miners_total protected w"
  by (auto simp: positive_total_def miners_total_def intro!: sum_list_nonneg)

lemma unit_bound: "n \<le> 2 ^ 20 \<Longrightarrow> 12 * u53 * of_nat n \<le> 1 / 1024"
proof -
  assume "n \<le> 2 ^ 20"
  then have "(of_nat n :: rat) \<le> 2 ^ 20" by (metis of_nat_le_iff of_nat_numeral of_nat_power)
  then show ?thesis by (simp add: u53_def)
qed

lemma fsum_error_in:
  assumes "\<forall>x \<in> set xs. is_float x \<and> 0 \<le> x" and "length xs \<le> n" and "n \<le> 2 ^ 20"
  shows "\<bar>fsum xs - sum_list xs\<bar> \<le> 12 * u53 * of_nat n * sum_list xs"
proof -
  have "0 \<le> sum_list xs" using assms(1) by (auto intro: sum_list_nonneg)
  then have "12 * u53 * of_nat (length xs) * sum_list xs \<le> 12 * u53 * of_nat n * sum_list xs"
    using assms(2) by (intro mult_right_mono mult_left_mono) simp_all
  moreover have "length xs \<le> 2 ^ 40" using assms(2,3) by simp
  ultimately show ?thesis using fsum_error [OF assms(1)] order_trans by blast
qed

lemma positive_sum_error:
  assumes "\<forall>x \<in> snd ` set w. is_float x" and "length w \<le> n" and "n \<le> 2 ^ 20"
  shows "\<bar>positive_sum w - positive_total w\<bar> \<le> 12 * u53 * of_nat n * positive_total w"
  unfolding positive_sum_def positive_total_def
proof (rule fsum_error_in [OF _ _ assms(3)])
  show "length (filter (\<lambda>x. 0 < x) (map snd w)) \<le> n" using assms(2) by (rule order_trans [rotated]) (simp add: le_trans [OF length_filter_le])
qed (use assms(1) in auto)

lemma pool_error:
  assumes "vector_ok w"
  shows "\<bar>pool_of protected w - miners_total protected w\<bar> \<le> (24 * u53 * of_nat (length w) + 3 * u53) * positive_total w"
proof -
  let ?n = "length w" and ?T = "positive_total w" and ?w = "filter (\<lambda>(k, _). k \<in> set protected) w"
  let ?P = "positive_total ?w" and ?e = "12 * u53 * of_nat (length w)"
  have n: "?n \<le> 2 ^ 20" and fl: "\<forall>x \<in> snd ` set w. is_float x" using assms by (simp_all add: vector_ok_def)
  have D: "\<bar>positive_sum w - ?T\<bar> \<le> ?e * ?T" using fl by (rule positive_sum_error) (use n in simp_all)
  have Q: "\<bar>positive_sum ?w - ?P\<bar> \<le> ?e * ?P" by (rule positive_sum_error) (use n fl in auto)
  have P: "0 \<le> ?P" "?P \<le> ?T" "?T = ?P + miners_total protected w"
    using positive_total_nonneg [of ?w] miners_total_nonneg [of protected w] positive_total_split [of w protected] by linarith+
  have eT: "?e * ?P \<le> ?e * ?T" "?e * ?T \<le> 1 / 1024 * ?T"
    using P unit_bound [OF n] by (intro mult_left_mono mult_right_mono; simp)+
  have "\<bar>positive_sum w - positive_sum ?w\<bar> \<le> 3 * ?T" using D Q P eT by linarith
  then have "u53 * \<bar>positive_sum w - positive_sum ?w\<bar> \<le> 3 * (u53 * ?T)" by (rule u_scale)
  moreover have "is_float (positive_sum w)" "is_float (positive_sum ?w)"
    unfolding positive_sum_def using fl by (auto intro!: is_float_fsum)
  then have "\<bar>pool_of protected w - (positive_sum w - positive_sum ?w)\<bar> \<le> u53 * \<bar>positive_sum w - positive_sum ?w\<bar>"
    unfolding pool_of_def by (rule fsub_error)
  ultimately have "\<bar>pool_of protected w - miners_total protected w\<bar> \<le> 2 * (?e * ?T) + 3 * (u53 * ?T)"
    using D Q P(3) eT(1) by linarith
  then show ?thesis by (simp add: algebra_simps)
qed

lemma miners_total_rescale:
  assumes "0 \<le> s"
  shows "miners_total protected (rescale protected s w) =
    sum_list (map (\<lambda>x. fmul x s) (map snd (filter (\<lambda>(k, x). 0 < x \<and> k \<notin> set protected) w)))"
proof (induction w)
  case (Cons p w)
  obtain k x where p: "p = (k, x)" by fastforce
  have "0 < x \<Longrightarrow> 0 \<le> fmul x s" unfolding fmul_def using assms by (intro fl.rnd_nonneg) simp
  then have "0 < x \<Longrightarrow> \<not> 0 < fmul x s \<Longrightarrow> fmul x s = 0" by linarith
  then show ?case using Cons by (auto simp: p miners_total_def rescale_def)
qed (simp add: miners_total_def rescale_def)

section \<open>Properties\<close>

text \<open>C22. What the gate does to every entry: a refused gate returns the vector as it was; an applied one
  drops exactly the miners whose hold is known and below the floor, keeps protected destinations and
  entries without weight at their exact value, and multiplies every other weight by one common
  factor. It is applied only where some miner with weight survives, so it never empties a vector.\<close>

theorem cg_gate_spec:
  assumes "dict_ok w" and "res = apply_hold w fl_a reader locked environ force protected"
  shows "(\<not> applied res \<longrightarrow> weights res = w) \<and>
    (applied res \<longrightarrow> (\<exists>scale. \<forall>k. map_of (weights res) k = (case map_of w k of
        None \<Rightarrow> None
      | Some x \<Rightarrow>
          if k \<in> set protected \<or> x \<le> 0 then Some x
          else case effective_hold k reader locked of
            None \<Rightarrow> Some (fmul x scale)
          | Some hold \<Rightarrow> if hold < fl_a then None else Some (fmul x scale)))) \<and>
    (applied res \<longrightarrow> (\<exists>k x. map_of w k = Some x \<and> 0 < x \<and> k \<notin> set protected \<and> map_of (weights res) k \<noteq> None))"
proof -
  note gate = apply_hold_cases [OF assms(1), of fl_a reader locked environ force protected, folded assms(2)]
  let ?kept = "filter (\<lambda>p. \<not> gone reader locked protected fl_a p) w"
  let ?s = "fdiv (pool_of protected w) (fsum (map snd (survivors_of reader locked protected fl_a w)))"
  have kept: "map_of ?kept k = (case map_of w k of None \<Rightarrow> None | Some x \<Rightarrow>
      if gone reader locked protected fl_a (k, x) then None else Some x)" for k
    using assms(1) by (induction w) (auto simp: map_of_keys_iff split: option.splits)
  have resc: "map_of (rescale protected ?s d) k =
      map_option (\<lambda>x. if k \<in> set protected \<or> x \<le> 0 then x else fmul x ?s) (map_of d k)" for d k
    by (simp add: rescale_def map_of_map_pair)
  have val: "map_of (weights res) k = (case map_of w k of None \<Rightarrow> None | Some x \<Rightarrow>
      if k \<in> set protected \<or> x \<le> 0 then Some x
      else case effective_hold k reader locked of None \<Rightarrow> Some (fmul x ?s)
           | Some hold \<Rightarrow> if hold < fl_a then None else Some (fmul x ?s))" if "applied res" for k
  proof -
    have "weights res = rescale protected ?s ?kept" using gate(2) that by simp
    then have "map_of (weights res) k = map_option (\<lambda>x. if k \<in> set protected \<or> x \<le> 0 then x else fmul x ?s)
        (case map_of w k of None \<Rightarrow> None | Some x \<Rightarrow> if gone reader locked protected fl_a (k, x) then None else Some x)"
      by (simp only: resc kept)
    then show ?thesis by (cases "map_of w k"; cases "effective_hold k reader locked") (simp_all add: gone_def)
  qed
  have "\<exists>k x. map_of w k = Some x \<and> 0 < x \<and> k \<notin> set protected \<and> map_of (weights res) k \<noteq> None" if "applied res"
  proof -
    have "survivors_of reader locked protected fl_a w \<noteq> []" using gate(1) that by auto
    then have "hd (survivors_of reader locked protected fl_a w) \<in> set (survivors_of reader locked protected fl_a w)" by simp
    then obtain k x where "(k, x) \<in> set (survivors_of reader locked protected fl_a w)" by (metis surj_pair)
    then have "map_of w k = Some x" "0 < x" "k \<notin> set protected" "\<not> gone reader locked protected fl_a (k, x)"
      using assms(1) by (auto simp: survivors_of_def)
    then have "map_of (weights res) k \<noteq> None"
      using val [OF that, of k] by (cases "effective_hold k reader locked") (simp_all add: gone_def)
    then show ?thesis using \<open>map_of w k = Some x\<close> \<open>0 < x\<close> \<open>k \<notin> set protected\<close> by blast
  qed
  then show ?thesis using gate(2) val by auto
qed

definition sample_reader :: "int \<Rightarrow> float option" where
  "sample_reader uid = (if uid = 1 then Some 200 else if uid = 2 then Some 3 else None)"

lemma sample_gate_applied:
  "applied (apply_hold [(1, 1/2), (2, 1/4), (3, 1/4)] 150 sample_reader None (\<lambda>_. None) True [])"
  by code_simp

lemma cg_gate_spec_witness:
  "\<exists>scale. map_of (weights (apply_hold [(1, 1/2), (2, 1/4), (3, 1/4)] 150 sample_reader None (\<lambda>_. None) True [])) 1
      = Some (fmul (1/2) scale) \<and>
    map_of (weights (apply_hold [(1, 1/2), (2, 1/4), (3, 1/4)] 150 sample_reader None (\<lambda>_. None) True [])) 2 = None"
proof -
  have "dict_ok [(1::int, 1/2 :: float), (2, 1/4), (3, 1/4)]" by simp
  from cg_gate_spec [OF this refl, of 150 sample_reader None "\<lambda>_. None" True "[]"] sample_gate_applied
  obtain scale where "\<forall>k. map_of (weights (apply_hold [(1, 1/2), (2, 1/4), (3, 1/4)] 150 sample_reader None (\<lambda>_. None) True [])) k
      = (case map_of [(1, 1/2), (2, 1/4), (3, 1/4)] k of None \<Rightarrow> None
         | Some x \<Rightarrow> if k \<in> set [] \<or> x \<le> 0 then Some x
            else case effective_hold k sample_reader None of None \<Rightarrow> Some (fmul x scale)
              | Some hold \<Rightarrow> if hold < 150 then None else Some (fmul x scale))" by blast
  then show ?thesis by (intro exI [of _ scale]) (simp add: effective_hold_def sample_reader_def or_zero_def)
qed

text \<open>The miners share what they shared before: when the gate is applied to a vector of at most 2^20
  non-negative entries, the exact total of the miners' weights (protected destinations aside)
  differs from the one before by at most rounding, 90 n u of the vector's total for \<open>n\<close> entries
  and unit roundoff u = 2^-53, plus an underflow term of a few 2^-1075.\<close>

theorem cg_total_preserved:
  assumes "vector_ok w" and "res = apply_hold w fl_a reader locked environ force protected" and "applied res"
  shows "\<bar>miners_total protected (weights res) - miners_total protected w\<bar>
    \<le> 90 * u53 * of_nat (length w) * positive_total w + (2 * positive_total w + of_nat (length w)) * tiny"
proof -
  have ok: "dict_ok w" using assms(1) by (simp add: vector_ok_def)
  note gate = apply_hold_cases [OF ok, of fl_a reader locked environ force protected, folded assms(2)]
  let ?sv = "map snd (survivors_of reader locked protected fl_a w)" and ?n = "length w" and ?T = "positive_total w"
  let ?e = "12 * u53 * of_nat (length w)" and ?pool = "pool_of protected w"
  have n: "?n \<le> 2 ^ 20" and w0: "?n \<noteq> 0" and fl: "\<forall>x \<in> set ?sv. is_float x \<and> 0 \<le> x" and len: "length ?sv \<le> ?n"
    using assms(1) gate(1) assms(3)
    by (auto simp: vector_ok_def survivors_of_def intro: le_trans [OF length_filter_le])
  have K: "0 < sum_list ?sv" "sum_list ?sv \<le> ?T"
  proof -
    have "?sv \<noteq> []" using gate(1) assms(3) by simp
    moreover have "\<forall>x \<in> set ?sv. 0 < x" by (auto simp: survivors_of_def)
    moreover have "xs \<noteq> [] \<Longrightarrow> \<forall>x \<in> set xs. 0 < x \<Longrightarrow> 0 < sum_list xs" for xs :: "float list"
      by (induction xs rule: list_nonempty_induct) (auto intro: add_pos_pos)
    ultimately show "0 < sum_list ?sv" by blast
    have "sum_list (map snd (survivors_of reader locked protected fl_a v)) \<le> positive_total v" for v
      by (induction v) (auto simp: survivors_of_def positive_total_def)
    then show "sum_list ?sv \<le> ?T" .
  qed
  have e: "0 \<le> ?e" "?e \<le> 1 / 2" using unit_bound [OF n] by simp_all
  have pool: "0 \<le> ?pool" using gate(1) assms(3) by simp
  have s0: "0 \<le> fdiv ?pool (fsum ?sv)" unfolding fdiv_def using gate(1) assms(3) by (intro fl.rnd_nonneg) simp
  have "weights res = rescale protected (fdiv ?pool (fsum ?sv)) (filter (\<lambda>p. \<not> gone reader locked protected fl_a p) w)"
    using gate(2) assms(3) by simp
  then have "miners_total protected (weights res) = sum_list (map (\<lambda>x. fmul x (fdiv ?pool (fsum ?sv))) ?sv)"
    by (simp only: miners_total_rescale [OF s0]) (simp only: survivors_of_def)
  then have 1: "\<bar>miners_total protected (weights res) - ?pool\<bar>
      \<le> (2 * ?e + 5 * u53) * ?pool + (2 * sum_list ?sv + of_nat (length ?sv)) * tiny"
    using rescaled_sum [OF _ pool K(1) fsum_error_in [OF fl len n] e] fl by simp
  have 2: "\<bar>?pool - miners_total protected w\<bar> \<le> (2 * ?e + 3 * u53) * ?T"
    using pool_error [OF assms(1), of protected] by (simp add: mult.assoc)
  have "miners_total protected w \<le> ?T"
    using positive_total_split [of w protected] positive_total_nonneg by (metis le_add_same_cancel2)
  moreover have "(2 * ?e + 3 * u53) * ?T \<le> 1 * ?T"
    using unit_bound [OF n] u53_small positive_total_nonneg [of w] by (intro mult_right_mono) simp_all
  ultimately have "?pool \<le> 2 * ?T" using 2 by linarith
  then have "(2 * ?e + 5 * u53) * ?pool \<le> (2 * ?e + 5 * u53) * (2 * ?T)" using e by (intro mult_left_mono) simp_all
  moreover have "(2 * sum_list ?sv + of_nat (length ?sv)) * tiny \<le> (2 * ?T + of_nat ?n) * tiny"
    using K(2) len by (intro mult_right_mono add_mono) simp_all
  moreover have "u53 * ?T \<le> u53 * of_nat ?n * ?T"
    using w0 positive_total_nonneg [of w] by (intro mult_right_mono) (simp_all add: Suc_le_eq)
  moreover have "(2 * ?e + 5 * u53) * (2 * ?T) = 48 * (u53 * of_nat ?n * ?T) + 10 * (u53 * ?T)"
    "(2 * ?e + 3 * u53) * ?T = 24 * (u53 * of_nat ?n * ?T) + 3 * (u53 * ?T)"
    "90 * u53 * of_nat ?n * ?T = 90 * (u53 * of_nat ?n * ?T)" by (simp_all add: algebra_simps)
  moreover have "0 \<le> u53 * of_nat ?n * ?T" using positive_total_nonneg [of w] by simp
  ultimately show ?thesis using 1 2 by linarith
qed

lemma cg_total_preserved_witness:
  "\<bar>miners_total [] (weights (apply_hold [(1, 1/2), (2, 1/4), (3, 1/4)] 150 sample_reader None (\<lambda>_. None) True []))
      - miners_total [] [(1 :: int, 1/2), (2, 1/4), (3, 1/4)]\<bar>
    \<le> 90 * u53 * of_nat (length [(1 :: int, 1/2 :: float), (2, 1/4), (3, 1/4)]) * positive_total [(1 :: int, 1/2), (2, 1/4), (3, 1/4)]
      + (2 * positive_total [(1 :: int, 1/2), (2, 1/4), (3, 1/4)] + of_nat (length [(1 :: int, 1/2 :: float), (2, 1/4), (3, 1/4)])) * tiny"
proof -
  have "is_float (1 / 2)" "is_float (1 / 4)" by (simp_all add: is_float_def, code_simp+)
  then have "vector_ok [(1 :: int, 1/2), (2, 1/4), (3, 1/4)]" by (simp add: vector_ok_def)
  from cg_total_preserved [OF this refl sample_gate_applied] show ?thesis .
qed

text \<open>An explicit floor is not range-checked: a negative one is a number, so it does not fall through to
  the ladder, and the gate then stands down.\<close>

lemma negative_floor_stands_down:
  "floor_in_force (\<lambda>n. if n = ''SN21_ALPHA_FLOOR'' then Some ''-150'' else None) day = Inr (- 150, FloorEnv)"
  "\<not> applied (apply_hold w (- 150) reader locked environ force protected)"
proof -
  have "py_float (env_raw (\<lambda>n. if n = ''SN21_ALPHA_FLOOR'' then Some ''-150'' else None) ''SN21_ALPHA_FLOOR'') = Some (- 150)"
    by code_simp
  then show "floor_in_force (\<lambda>n. if n = ''SN21_ALPHA_FLOOR'' then Some ''-150'' else None) day = Inr (- 150, FloorEnv)"
    by (simp add: floor_in_force_def)
  show "\<not> applied (apply_hold w (- 150) reader locked environ force protected)"
    by (simp add: apply_hold_def untouched_def Let_def)
qed

end
