(* ===== verification/DailyAllocation.thy ===== *)
theory DailyAllocation
  imports CopyReceipts AbsencePenalty CollateralGate
begin

text \<open>
  The daily allocation (\<open>hope/validator/daily_stream_weights.py\<close>): standings to weights, through the gates
  that decide who may be paid, and the promotion of the day; the audit it publishes; the entry point that
  reads the ledgers; the record the release ledger reads back.

  The audit is the document itself, a dict built key by key. A call may raise (\<open>Inl\<close>) and, because of the
  union-find of the copy sets, may a priori not return (\<open>None\<close>); it is shown to return. The coldkey map,
  the commit blocks and the alpha map come from the chain: they are arguments. A value of the alpha map
  that \<open>float\<close> refuses is \<open>None\<close>.
\<close>

section \<open>Switches\<close>

definition daily_stream_enabled :: "environ \<Rightarrow> bool" where
  "daily_stream_enabled environ \<longleftrightarrow> flag_on environ ''SN21_DAILY_STREAM_WEIGHTS''"

definition d3_min_daily_episodes :: "environ \<Rightarrow> int" where
  "d3_min_daily_episodes environ = (case environ ''SN21_D3_MIN_DAILY_EPISODES'' of
     None \<Rightarrow> 0 | Some raw \<Rightarrow> (case py_int (strip raw) of None \<Rightarrow> 0 | Some n \<Rightarrow> max 0 n))"

record daily_allocation =
  al_day :: date
  al_gated :: bool
  al_volume :: int
  al_standings :: "(hotkey, float) dict"
  al_weights :: "(hotkey, float) dict"
  al_earning_set_size :: nat
  al_promotion :: "promotion_decision option"
  al_evicted :: "hotkey list"
  al_enforcement_emptied :: bool
  al_audit :: "(string, json) dict"
  al_absolute :: "(hotkey, float) dict"

text \<open>The keyword arguments; an argument that is \<open>None\<close> or empty is the empty dict.\<close>

record alloc_settings =
  as_min_daily :: int
  as_curve :: curve_params
  as_promotion :: promotion_params
  as_evicted :: "hotkey set"
  as_suppressed :: "hotkey set"
  as_participation :: "(hotkey, float) dict"
  as_coldkeys :: "(hotkey, string) dict"
  as_groups :: "model_group list"
  as_lineage_audit :: "(string, json) dict"
  as_commit_block :: "(hotkey, int) dict"
  as_tenure_min :: int
  as_tenure_exempt :: "hotkey set"
  as_one_payer_on :: "bool option"
  as_stats :: one_payer_stats
  as_lineage_on :: "bool option"
  as_method :: "json option"
  as_alpha_of :: "(hotkey, float option) dict option"
  as_alpha_floor :: float
  as_alpha_enforced :: bool

type_synonym audit = "(string, json) dict"

definition put :: "string \<Rightarrow> json \<Rightarrow> audit \<Rightarrow> audit" where
  "put k v a = AList.update k v a"

definition put_if :: "bool \<Rightarrow> string \<Rightarrow> json \<Rightarrow> audit \<Rightarrow> audit" where
  "put_if c k v a = (if c then put k v a else a)"

section \<open>Placement\<close>

definition place_hotkey ::
    "(float \<Rightarrow> float \<Rightarrow> float) \<Rightarrow> environ \<Rightarrow> date \<Rightarrow> hotkey set \<Rightarrow> (hotkey, float) dict \<times> (hotkey, json) dict
      \<Rightarrow> hotkey \<times> scored_episode list \<Rightarrow> py_error + (hotkey, float) dict \<times> (hotkey, json) dict" where
  "place_hotkey powf environ day evicted acc item = (case acc of (placements, below) \<Rightarrow> case item of (hk, eps) \<Rightarrow>
     if hk \<in> evicted then Inr acc
     else map_sum id (\<lambda>st. case average st of
         None \<Rightarrow> acc
       | Some avg \<Rightarrow>
           if placement_eligible st then (AList.update hk avg placements, below)
           else (placements, AList.update hk (JDict [(''scored_predictions'', JNum (fround 2 (scored_predictions st)))]) below))
       (standing powf environ eps day None None None 0))"

definition place_all ::
    "(float \<Rightarrow> float \<Rightarrow> float) \<Rightarrow> environ \<Rightarrow> date \<Rightarrow> hotkey set \<Rightarrow> (hotkey, scored_episode list) dict
      \<Rightarrow> py_error + (hotkey, float) dict \<times> (hotkey, json) dict" where
  "place_all powf environ day evicted entries = fold_sum (place_hotkey powf environ day evicted) ([], []) entries"

section \<open>Identities\<close>

text \<open>\<open>{hk: s for hk, s in placements.items() if hk not in out}\<close>.\<close>

definition without :: "hotkey set \<Rightarrow> (hotkey, float) dict \<Rightarrow> (hotkey, float) dict" where
  "without out placements = filter (\<lambda>(hk, s). hk \<notin> out) placements"

definition deregistered :: "(hotkey, string) dict \<Rightarrow> (hotkey, float) dict \<Rightarrow> hotkey list" where
  "deregistered coldkeys placements =
     (if coldkeys = [] then [] else sort (filter (\<lambda>hk. map_of coldkeys hk = None) (keys placements)))"

definition cap_dict :: "coldkey_cap_result \<Rightarrow> json" where
  "cap_dict cap = JDict [(''dropped'', jstrs (dropped cap)),
     (''contested'', JDict (map (\<lambda>(ck, hks). (ck, jstrs hks)) (contested cap))), (''kept_count'', jnat (length (kept cap)))]"

record identity_step =
  id_placements :: "(hotkey, float) dict"
  id_deregistered :: "hotkey list"
  id_coldkey_state :: json
  id_audit :: audit

definition identity_layers :: "alloc_settings \<Rightarrow> (hotkey, float) dict \<Rightarrow> audit \<Rightarrow> identity_step" where
  "identity_layers st placements a =
     (let dereg = deregistered (as_coldkeys st) placements;
          registered = (if dereg = [] then placements else without (set dereg) placements);
          a1 = put_if (dereg \<noteq> []) ''deregistered'' (jstrs dereg) a
      in if as_coldkeys st \<noteq> [] then
           (let cap = apply_coldkey_cap registered (as_coldkeys st) 1 (as_commit_block st)
            in \<lparr>id_placements = kept cap, id_deregistered = dereg,
                id_coldkey_state = JDict [(''applied'', JBool True), (''identities'', jnat (length (as_coldkeys st))),
                  (''dropped'', jnat (length (dropped cap)))],
                id_audit = put_if (dropped cap \<noteq> []) ''coldkey_cap'' (cap_dict cap) a1\<rparr>)
         else \<lparr>id_placements = registered, id_deregistered = dereg,
                id_coldkey_state = JDict [(''applied'', JBool False), (''identities'', jnat 0), (''dropped'', jnat 0),
                  (''reason'', JStr ''no coldkey identities available'')],
                id_audit = a1\<rparr>)"

section \<open>Copies\<close>

definition eliminated_row :: "nat \<times> model_group \<Rightarrow> json" where
  "eliminated_row item = (case item of (i, g) \<Rightarrow> JDict [(''cluster'', jnat i), (''payee'', JStr (original g)),
     (''eliminated'', jstrs (copies g)), (''kind'', JStr (kind_text (group_kind g))), (''evidence'', JStr (evidence g))])"

definition detail_row :: "model_group \<Rightarrow> json" where
  "detail_row g = JDict [(''payee'', JStr (original g)), (''eliminated'', jstrs (copies g)),
     (''kind'', JStr (kind_text (group_kind g))), (''evidence'', JStr (evidence g))]"

definition named_copies :: "alloc_settings \<Rightarrow> hotkey set" where
  "named_copies st = as_suppressed st \<union> set (concat (map copies (as_groups st)))"

definition copy_sets_of :: "alloc_settings \<Rightarrow> copy_group list" where
  "copy_sets_of st = map (\<lambda>g. (Some (original g), copies g)) (op_group_detail (as_stats st) @ as_groups st)"

definition copy_layer ::
    "alloc_settings \<Rightarrow> (hotkey, float) dict \<Rightarrow> audit \<Rightarrow> (py_error + hotkey set \<times> (hotkey, float) dict \<times> audit) option" where
  "copy_layer st placements a =
     (let a1 = put_if (as_groups st \<noteq> []) ''lineage'' (JDict [(''groups'', JList (map eliminated_row (enumerate 0 (as_groups st))))]) a
      in andthen (orphaned_payees (copy_sets_of st) (named_copies st) (op_seniority (as_stats st)) (map original (as_groups st)))
        (\<lambda>restored.
           let suppressed = named_copies st - restored;
               a2 = put_if (restored \<noteq> {}) ''payee_restored'' (jstrs (sorted_list_of_set restored)) a1;
               a3 = put_if (suppressed \<noteq> {}) ''suppressed'' (jstrs (sorted_list_of_set suppressed)) a2;
               detail = op_group_detail (as_stats st);
               a4 = put_if (suppressed \<noteq> {} \<and> detail \<noteq> []) ''one_payer_groups'' (JList (map detail_row detail)) a3
           in Some (Inr (suppressed, if suppressed = {} then placements else without suppressed placements, a4))))"


section \<open>Tenure\<close>

definition scored_for :: "(hotkey, int) dict \<Rightarrow> hotkey set \<Rightarrow> json" where
  "scored_for scored_days short = JDict (map (\<lambda>hk. (hk, jint (scored scored_days hk))) (sorted_list_of_set short))"

definition tenure_layer ::
    "alloc_settings \<Rightarrow> (hotkey, int) dict \<Rightarrow> (hotkey, float) dict \<Rightarrow> audit \<Rightarrow> (hotkey, float) dict \<times> audit" where
  "tenure_layer st scored_days placements a =
     (if as_tenure_min st \<le> 0 then (placements, a)
      else
        let short = short_tenure_hotkeys scored_days (keys placements) (as_tenure_min st) (as_tenure_exempt st);
            hks = (''hotkeys'', jstrs (sorted_list_of_set short)); days = (''scored_days'', scored_for scored_days short)
        in if short \<noteq> {} \<and> card short < length placements then
             (without short placements, put ''tenure_gated'' (JDict [(''min_days'', jint (as_tenure_min st)), hks, days]) a)
           else if short \<noteq> {} then
             (placements, put ''tenure_gated'' (JDict [(''min_days'', jint (as_tenure_min st)), (''stood_down'', JBool True),
                (''reason'', JStr ''gating would empty the curve''), hks, days]) a)
           else (placements, a))"

section \<open>The alpha hold\<close>

definition held_alpha :: "(hotkey, float option) dict \<Rightarrow> hotkey \<Rightarrow> float option" where
  "held_alpha alpha_of hk = Option.bind (map_of alpha_of hk) id"

definition below_hold :: "(hotkey, float option) dict \<Rightarrow> float \<Rightarrow> (hotkey, float) dict \<Rightarrow> (hotkey, float) dict" where
  "below_hold alpha_of fl_a placements = concat (map (\<lambda>(hk, s). case held_alpha alpha_of hk of
     None \<Rightarrow> [] | Some h \<Rightarrow> if h < fl_a then [(hk, fround 4 h)] else []) placements)"

definition unreadable_alpha :: "(hotkey, float option) dict \<Rightarrow> (hotkey, float) dict \<Rightarrow> hotkey list" where
  "unreadable_alpha alpha_of placements = filter (\<lambda>hk. held_alpha alpha_of hk = None) (keys placements)"

definition hold_state :: "alloc_settings \<Rightarrow> bool \<Rightarrow> nat \<Rightarrow> nat \<Rightarrow> nat \<Rightarrow> string option \<Rightarrow> json" where
  "hold_state st hold_applied n_below n_excluded n_unreadable why = JDict
     [(''enforced'', JBool (as_alpha_enforced st)), (''floor_alpha'', JNum (as_alpha_floor st)),
      (''identities'', jnat (case as_alpha_of st of None \<Rightarrow> 0 | Some m \<Rightarrow> length m)), (''applied'', JBool hold_applied),
      (''below_floor'', jnat n_below), (''excluded'', jnat n_excluded), (''unreadable_kept'', jnat n_unreadable),
      (''reason'', jopt JStr why)]"

text \<open>The placements left, the state of the hold and the audit. A dash in the published reasons is a
  hyphen here.\<close>

definition alpha_layer ::
    "alloc_settings \<Rightarrow> (hotkey, float) dict \<Rightarrow> audit \<Rightarrow> (hotkey, float) dict \<times> json \<times> audit" where
  "alpha_layer st placements a =
     (case as_alpha_of st of
        None \<Rightarrow> (placements, hold_state st False 0 0 0 (Some ''no alpha identities read - hold not applied''), a)
      | Some alpha_of \<Rightarrow>
          if as_alpha_floor st \<le> 0 then (placements, hold_state st False 0 0 0 (Some ''floor is zero - nothing to enforce''), a)
          else
            let below = below_hold alpha_of (as_alpha_floor st) placements;
                unreadable = unreadable_alpha alpha_of placements;
                wanted = (as_alpha_enforced st \<and> below \<noteq> []);
                applies = (wanted \<and> length below < length placements);
                excluded = (if applies then sort (keys below) else []);
                why = (if wanted \<and> \<not> applies then Some ''gating would empty the curve'' else None)
            in (if applies then without (set (keys below)) placements else placements,
                hold_state st applies (length below) (length excluded) (length unreadable) why,
                put ''alpha_hold'' (JDict ([(''floor_alpha'', JNum (as_alpha_floor st)), (''enforced'', JBool (as_alpha_enforced st)),
                    (''below_floor'', JDict (map (\<lambda>(hk, h). (hk, JNum h)) below)), (''excluded'', jstrs excluded),
                    (''unreadable_kept'', jstrs (sort unreadable))]
                  @ (if why \<noteq> None then [(''stood_down'', JBool True)] else []))) a))"

section \<open>The status of every control\<close>

definition audit_get :: "audit \<Rightarrow> string \<Rightarrow> json" where
  "audit_get a k = (case map_of a k of None \<Rightarrow> JNull | Some v \<Rightarrow> v)"

definition one_payer_status :: "alloc_settings \<Rightarrow> hotkey set \<Rightarrow> json" where
  "one_payer_status st suppressed = (let s = as_stats st in JDict
     [(''enabled'', jopt JBool (as_one_payer_on st)), (''suppressed'', jnat (card suppressed)),
      (''fingerprints'', jopt jnat (op_fingerprints_today s)), (''days_indexed'', jopt jnat (op_days_indexed s)),
      (''groups'', jopt jnat (op_groups s)), (''reason'', jopt JStr (op_reason s)), (''receipt_day'', jopt JStr (op_receipt_day s)),
      (''point_estimates'', JDict [(''enabled'', jopt JBool (op_point_estimates_on s)),
         (''fingerprints'', jopt jnat (op_point_fingerprints_today s))])])"

definition lineage_status :: "alloc_settings \<Rightarrow> json" where
  "lineage_status st = (let la = as_lineage_audit st in JDict
     [(''configured'', jopt JBool (as_lineage_on st)), (''groups'', jnat (length (as_groups st))),
      (''pairs_examined'', jnat (length la)), (''params_version'', audit_get la ''params_version''),
      (''exemption_configured'', audit_get la ''exemption_configured''), (''receipt_day'', audit_get la ''receipt_day''),
      (''exempt_groups'', jnat (length (json_items (audit_get la ''exempt_groups'')))),
      (''rows'', audit_get la ''rows''), (''comparable_hotkeys'', audit_get la ''comparable_hotkeys''),
      (''current_model'', audit_get la ''current_model'')])"

definition tenure_status :: "alloc_settings \<Rightarrow> audit \<Rightarrow> json" where
  "tenure_status st a = JDict [(''enabled'', JBool (0 < as_tenure_min st)), (''min_days'', jint (as_tenure_min st)),
     (''gated'', jnat (length (json_items (jget (audit_get a ''tenure_gated'') ''hotkeys'')))),
     (''stood_down'', JBool (PyJson.truthy (jget (audit_get a ''tenure_gated'') ''stood_down'')))]"

definition policies_block ::
    "alloc_settings \<Rightarrow> environ \<Rightarrow> date \<Rightarrow> identity_step \<Rightarrow> hotkey set \<Rightarrow> json \<Rightarrow> nat \<Rightarrow> audit \<Rightarrow> json" where
  "policies_block st environ day ident suppressed hold n_below a = JDict
     [(''coldkey_cap'', id_coldkey_state ident), (''one_payer'', one_payer_status st suppressed), (''lineage'', lineage_status st),
      (''standing_method'', case as_method st of Some m \<Rightarrow> m | None \<Rightarrow> method_params environ day),
      (''tenure'', tenure_status st a),
      (''placement_floor'', JDict [(''floor'', jint (placement_floor_predictions environ)), (''below'', jnat n_below)]),
      (''alpha_hold'', hold),
      (''registration'', JDict [(''applied'', JBool (as_coldkeys st \<noteq> [])), (''excluded'', jnat (length (id_deregistered ident)))])]"

section \<open>Weights\<close>

definition some_standings :: "(hotkey, float) dict \<Rightarrow> (hotkey, float option) dict" where
  "some_standings placements = map (\<lambda>(hk, s). (hk, Some s)) placements"

definition participation_scaled :: "(hotkey, float) dict \<Rightarrow> (hotkey, float) dict \<Rightarrow> (hotkey, float) dict" where
  "participation_scaled participation w =
     (if w = [] \<or> participation = [] then w
      else let v = map (\<lambda>(hk, x). (hk, fmul x (case map_of participation hk of None \<Rightarrow> 1 | Some m \<Rightarrow> m))) w;
               total = fsum (map snd v)
           in if 0 < total then map (\<lambda>(hk, x). (hk, fdiv x total)) v else map (\<lambda>(hk, x). (hk, 0)) v)"

definition day_gated :: "alloc_settings \<Rightarrow> int \<Rightarrow> bool" where
  "day_gated st volume \<longleftrightarrow> as_min_daily st \<noteq> 0 \<and> volume < as_min_daily st"

definition weigh :: "alloc_settings \<Rightarrow> int \<Rightarrow> (hotkey, float) dict \<Rightarrow> py_error + (hotkey, float) dict" where
  "weigh st volume placements =
     (if day_gated st volume then Inr []
      else map_sum id (participation_scaled (as_participation st)) (curve_weights (some_standings placements) (as_curve st) []))"

section \<open>One day\<close>

definition first_audit :: "environ \<Rightarrow> (hotkey, json) dict \<Rightarrow> audit" where
  "first_audit environ below = [(''placement'', JDict [(''floor'', jint (placement_floor_predictions environ)), (''below'', JDict below)])]"

text \<open>The gates of payment, after promotion has seen the field.\<close>

definition payment_layers ::
    "alloc_settings \<Rightarrow> (hotkey, int) dict \<Rightarrow> (hotkey, float) dict \<Rightarrow> audit
      \<Rightarrow> (py_error + hotkey set \<times> (hotkey, float) dict \<times> json \<times> audit) option" where
  "payment_layers st scored_days placements a =
     andthen (copy_layer st placements a) (\<lambda>(suppressed, p1, a1).
       case tenure_layer st scored_days p1 a1 of (p2, a2) \<Rightarrow>
       case alpha_layer st p2 a2 of (p3, hold, a3) \<Rightarrow>
         Some (Inr (suppressed, p3, hold,
           if as_lineage_audit st = [] then a3
           else put ''lineage'' (JDict (AList.update ''pairwise'' (JDict (as_lineage_audit st)) (json_fields (audit_get a3 ''lineage'')))) a3)))"

definition compute_daily_allocation ::
    "(float \<Rightarrow> float \<Rightarrow> float) \<Rightarrow> environ \<Rightarrow> (hotkey, scored_episode list) dict \<Rightarrow> date \<Rightarrow> int \<Rightarrow> promotion_state \<Rightarrow> alloc_settings
      \<Rightarrow> (py_error + daily_allocation) option" where
  "compute_daily_allocation powf environ entries day volume state st =
     (case place_all powf environ day (as_evicted st) entries of
        Inl e \<Rightarrow> Some (Inl e)
      | Inr (placements, below) \<Rightarrow>
          let ident = identity_layers st placements (first_audit environ below);
              scored_days = scored_day_counts entries
          in case ChampionPromotion.observe_day state day (some_standings (id_placements ident)) scored_days (as_promotion st) of
               Inl e \<Rightarrow> Some (Inl e)
             | Inr promotion \<Rightarrow>
                 andthen (payment_layers st scored_days (id_placements ident) (id_audit ident)) (\<lambda>(suppressed, paid, hold, a).
                   Some (map_sum id (\<lambda>w.
                       \<lparr>al_day = day, al_gated = day_gated st volume, al_volume = volume, al_standings = placements,
                        al_weights = w, al_earning_set_size = length (filter (\<lambda>(hk, x). 0 < x) w),
                        al_promotion = Some promotion, al_evicted = sorted_list_of_set (as_evicted st), al_enforcement_emptied = False,
                        al_audit = put ''policies'' (policies_block st environ day ident suppressed hold (length below) a) a,
                        al_absolute = []\<rparr>)
                     (weigh st volume paid))))"

text \<open>The pairs for the chain.\<close>

definition pairs_for_uids :: "(hotkey, float) dict \<Rightarrow> (hotkey, int) dict \<Rightarrow> int set option \<Rightarrow> (int \<times> float) list" where
  "pairs_for_uids w uid_by_hotkey allowed_uids = concat (map (\<lambda>hk. case (map_of w hk, map_of uid_by_hotkey hk) of
     (Some x, Some uid) \<Rightarrow> if x \<le> 0 \<or> (case allowed_uids of None \<Rightarrow> False | Some ok \<Rightarrow> uid \<notin> ok) then [] else [(uid, x)]
   | _ \<Rightarrow> []) (sort (keys w)))"


section \<open>The published vector, read by the committer\<close>

definition held_allocation :: "date \<Rightarrow> daily_allocation" where
  "held_allocation today = \<lparr>al_day = today, al_gated = True, al_volume = 0, al_standings = [], al_weights = [],
     al_earning_set_size = 0, al_promotion = None, al_evicted = [], al_enforcement_emptied = False, al_audit = [], al_absolute = []\<rparr>"

text \<open>\<open>{str(hk): float(w) for hk, w in raw.items()}\<close>.\<close>

definition published_weights :: "(string \<times> json) list \<Rightarrow> py_error + (hotkey, float) dict" where
  "published_weights raw = fold_sum (\<lambda>out (hk, x). map_sum id (\<lambda>v. AList.update hk v out) (num_of x)) [] raw"

definition published_allocation :: "json \<Rightarrow> date \<Rightarrow> (hotkey, float) dict \<Rightarrow> py_error + daily_allocation" where
  "published_allocation payload today w =
     and_then (int_or_zero (jget payload ''day_episode_volume'')) (\<lambda>volume.
     and_then (int_or_zero (jget payload ''earning_set_size'')) (\<lambda>size.
       Inr ((held_allocation today)\<lparr>
         al_day := (case Option.bind (opt_string (jget payload ''day'')) (\<lambda>s. fromisoformat (take 10 s)) of None \<Rightarrow> today | Some d \<Rightarrow> d),
         al_gated := PyJson.truthy (jget payload ''gated''), al_volume := volume, al_weights := w, al_earning_set_size := nat size\<rparr>)))"

text \<open>What was fetched; \<open>None\<close> where the document could not be fetched or parsed. A document or a vector that
  is no object has no \<open>get\<close> or \<open>items\<close>. The day is a string in every document the executor writes; another
  value counts as no day. The size of the earning set is a natural number; a negative one, which no
  executor writes, counts as none.\<close>

definition allocation_from_api :: "json option \<Rightarrow> date \<Rightarrow> py_error + daily_allocation" where
  "allocation_from_api fetched today =
     (case fetched of
        None \<Rightarrow> Inr (held_allocation today)
      | Some payload \<Rightarrow>
          if \<not> is_object payload then Inl AttributeError
          else let raw = jget payload ''weights'' in
            if PyJson.truthy raw \<and> \<not> is_object raw then Inl AttributeError
            else case published_weights (json_fields raw) of
                   Inl e \<Rightarrow> Inr (held_allocation today)
                 | Inr w \<Rightarrow> published_allocation payload today w)"

section \<open>Accuracy beside the standing\<close>

definition standing_entries_with_stats ::
    "standing_store \<Rightarrow> ledger \<Rightarrow> date \<Rightarrow> environ \<Rightarrow> (hotkey, date) dict \<Rightarrow> hotkey set
      \<Rightarrow> py_error + (hotkey, scored_episode list) dict \<times> discount_stats option" where
  "standing_entries_with_stats R L day environ since exclude =
     (if relative_enabled environ day
      then map_sum id (\<lambda>(es, st). (es, ss_previous_model st))
             (load_relative_entries R L day (window_in_force environ day) environ since True None exclude)
      else map_sum id (\<lambda>es. (es, None)) (load_entries L day (window_in_force environ day)))"

definition epoch_rule :: "environ \<Rightarrow> date \<Rightarrow> bool" where
  "epoch_rule environ day \<longleftrightarrow> model_epoch_in_force environ day \<or> prediction_basis_in_force environ day"

definition since_in_force :: "standing_store \<Rightarrow> environ \<Rightarrow> date \<Rightarrow> (hotkey, date) dict" where
  "since_in_force R environ day = (if epoch_rule environ day then load_model_since (model_since_doc R) else [])"

definition absolute_step ::
    "(float \<Rightarrow> float \<Rightarrow> float) \<Rightarrow> environ \<Rightarrow> date \<Rightarrow> (hotkey, float) dict \<Rightarrow> hotkey \<times> scored_episode list \<Rightarrow> py_error + (hotkey, float) dict" where
  "absolute_step powf environ day out item = (case item of (hk, eps) \<Rightarrow>
     map_sum id (\<lambda>avg. case avg of None \<Rightarrow> out | Some x \<Rightarrow> AList.update hk x out)
       (episode_weighted_average powf environ eps day (Some (half_life_in_force environ day)) (Some (window_in_force environ day)) (Some 0) 0))"

definition absolute_standings ::
    "(float \<Rightarrow> float \<Rightarrow> float) \<Rightarrow> standing_store \<Rightarrow> ledger \<Rightarrow> date \<Rightarrow> environ \<Rightarrow> py_error + (hotkey, float) dict" where
  "absolute_standings powf R L day environ =
     and_then (if relative_enabled environ day
               then map_sum id fst (load_relative_entries R L day (window_in_force environ day) environ (since_in_force R environ day) False None {})
               else load_entries L day (window_in_force environ day))
       (fold_sum (absolute_step powf environ day) [])"

definition standings_block :: "(hotkey, float) dict \<Rightarrow> (hotkey, float) dict \<Rightarrow> json" where
  "standings_block relative absolute = JDict (map (\<lambda>(i, (hk, v)). (hk, JDict
     [(''relative'', JNum (fround 6 v)), (''absolute'', jopt (\<lambda>x. JNum (fround 6 x)) (map_of absolute hk)), (''rank'', jnat i)]))
     (enumerate 1 (sort_key (\<lambda>(hk, v). (- v, hk)) relative)))"

section \<open>From the ledgers\<close>

definition ramp_dict :: "ramp_row \<Rightarrow> json" where
  "ramp_dict r = JDict [(''current_mass'', JNum (rp_current_mass r)), (''threshold_mass'', JNum (rp_threshold_mass r)),
     (''remaining_mass'', JNum (rp_remaining_mass r)), (''factor'', JNum (rp_factor r)), (''previous_entries'', jnat (rp_previous_entries r))]"

definition discount_dict :: "bool \<Rightarrow> discount_stats \<Rightarrow> json" where
  "discount_dict real_entries_only s = JDict [(''weight'', JNum (dc_weight s)), (''threshold_mass'', JNum (dc_threshold_mass s)),
     (''shape'', JStr ''linear from 1.0 at zero current-model mass to `weight` at `threshold_mass`''),
     (''mass_counts'', JStr (if real_entries_only then ''real scored entries'' else ''every entry from the boundary on'')),
     (''hotkeys_discounted'', jstrs (dc_hotkeys_discounted s)), (''factor'', JDict (map (\<lambda>(hk, f). (hk, JNum f)) (dc_factor s))),
     (''entries_discounted'', jnat (dc_entries_discounted s)), (''ramp'', JDict (map (\<lambda>(hk, r). (hk, ramp_dict r)) (dc_ramp s)))]"

record day_world =
  dw_ledger :: ledger
  dw_shadow :: shadow
  dw_unchanged :: "unchanged_record option"
  dw_copies :: copy_store

record chain_reads =
  cr_coldkeys :: "(hotkey, string) dict"
  cr_commit_block :: "(hotkey, int) dict"
  cr_alpha_of :: "(hotkey, float option) dict option"
  cr_alpha_floor :: float

text \<open>Force-vacate: a champion that is gone leaves its seat; the event is logged unless the run is dry.\<close>

definition force_vacate :: "bool \<Rightarrow> date \<Rightarrow> string \<Rightarrow> hotkey set \<Rightarrow> ledger \<times> promotion_state \<Rightarrow> ledger \<times> promotion_state" where
  "force_vacate persist day why leavers acc = (case acc of (L, state) \<Rightarrow>
     (case champion state of
        None \<Rightarrow> acc
      | Some c \<Rightarrow> if c \<in> leavers then
          (let vac = vacate_seat state day why
           in ((case log_event vac of None \<Rightarrow> L | Some ev \<Rightarrow> if persist then append_promotion_event L ev else L), decided vac))
          else acc))"

definition method_block :: "environ \<Rightarrow> date \<Rightarrow> (hotkey, date) dict \<Rightarrow> discount_stats option \<Rightarrow> nat \<Rightarrow> json" where
  "method_block environ day since prev n_excluded =
     JDict (if epoch_rule environ day
       then dict_update (json_fields (method_params environ day))
         [(''model_since'', JDict (map (\<lambda>(hk, d). (hk, JStr (isoformat d))) (sort_key fst since))),
          (''previous_model'', jopt (discount_dict (ramp_counts_real_entries_only environ day)) prev),
          (''field_excluded_copies'', jnat n_excluded)]
       else json_fields (method_params environ day))"

definition curve_in_force :: "curve_params \<Rightarrow> environ \<Rightarrow> date \<Rightarrow> curve_params" where
  "curve_in_force p environ day = (if p = default_curve_params then curve_params_in_force environ day else p)"

definition promotion_in_force :: "promotion_params \<Rightarrow> environ \<Rightarrow> date \<Rightarrow> promotion_params" where
  "promotion_in_force p environ day = (case promotion_margin_abs environ day of
     None \<Rightarrow> p | Some m \<Rightarrow> if p = default_promotion_params then default_promotion_params\<lparr>margin_abs := Some m\<rparr> else p)"

definition tenure_in_force :: "environ \<Rightarrow> int" where
  "tenure_in_force environ = (if tenure_gate_enabled environ then tenure_min_days environ else 0)"

text \<open>Where everybody was evicted away: what the day would have paid with nobody evicted.\<close>

definition counterfactual_settings :: "alloc_settings \<Rightarrow> alloc_settings" where
  "counterfactual_settings st =
     \<lparr>as_min_daily = as_min_daily st, as_curve = as_curve st, as_promotion = as_promotion st, as_evicted = {}, as_suppressed = {},
      as_participation = [], as_coldkeys = [], as_groups = [], as_lineage_audit = [], as_commit_block = [], as_tenure_min = 0,
      as_tenure_exempt = {}, as_one_payer_on = None, as_stats = no_stats, as_lineage_on = None, as_method = None,
      as_alpha_of = None, as_alpha_floor = 0, as_alpha_enforced = False\<rparr>"

definition with_accuracy :: "(hotkey, float) dict \<Rightarrow> daily_allocation \<Rightarrow> daily_allocation" where
  "with_accuracy absolute al =
     (let placement = json_fields (audit_get (al_audit al) ''placement'');
          below = map (\<lambda>(hk, info). (hk, JDict (AList.update ''absolute'' (jopt JNum (map_of absolute hk)) (json_fields info))))
                    (json_fields (audit_get placement ''below''))
      in al\<lparr>al_absolute := concat (map (\<lambda>hk. case map_of absolute hk of None \<Rightarrow> [] | Some x \<Rightarrow> [(hk, x)]) (keys (al_standings al))),
            al_audit := put ''placement'' (JDict (put ''below'' (JDict below) placement))
              (put ''standings'' (standings_block (al_standings al) absolute) (al_audit al))\<rparr>)"

text \<open>A call made after the ledger and the indexes were already written to: what it raises, with them.\<close>

definition raising_at :: "'w \<Rightarrow> py_error + 'a \<Rightarrow> ('a \<Rightarrow> ((py_error \<times> 'w) + 'b) option) \<Rightarrow> ((py_error \<times> 'w) + 'b) option" where
  "raising_at w r f = (case r of Inl e \<Rightarrow> Some (Inl (e, w)) | Inr x \<Rightarrow> f x)"

text \<open>Who is out today, and the seat of a champion that is.\<close>

definition evicted_today :: "ledger \<Rightarrow> environ \<Rightarrow> date \<Rightarrow> py_error + hotkey set" where
  "evicted_today L environ day =
     (if chronic_failure_policy_enabled environ then map_sum id (\<lambda>states. set (evicted_hotkeys states day)) (load_eviction_states L)
      else Inr {})"

definition seat_in_force ::
    "ledger \<Rightarrow> promotion_state \<Rightarrow> date \<Rightarrow> bool \<Rightarrow> hotkey set \<Rightarrow> hotkey set \<Rightarrow> ledger \<times> promotion_state" where
  "seat_in_force L state day persist chronic removed_today =
     force_vacate persist day ''unchanged_model_removed'' removed_today
       (force_vacate persist day ''chronic_failure_eviction'' chronic (L, state))"

definition settings_in_force ::
    "environ \<Rightarrow> date \<Rightarrow> int option \<Rightarrow> curve_params \<Rightarrow> promotion_params \<Rightarrow> chain_reads \<Rightarrow> hotkey set \<Rightarrow> hotkey set \<Rightarrow> one_payer_stats
      \<Rightarrow> model_group list \<Rightarrow> (string, json) dict \<Rightarrow> (hotkey, float) dict \<Rightarrow> json \<Rightarrow> alloc_settings" where
  "settings_in_force environ day min_daily curve promo chain out_today suppressed stats groups la participation method =
     \<lparr>as_min_daily = (case min_daily of None \<Rightarrow> d3_min_daily_episodes environ | Some n \<Rightarrow> n),
      as_curve = curve_in_force curve environ day, as_promotion = promotion_in_force promo environ day, as_evicted = out_today,
      as_suppressed = suppressed, as_participation = participation, as_coldkeys = cr_coldkeys chain, as_groups = groups,
      as_lineage_audit = la, as_commit_block = cr_commit_block chain, as_tenure_min = tenure_in_force environ,
      as_tenure_exempt = (case house_hotkey_from environ of None \<Rightarrow> {} | Some h \<Rightarrow> {h}),
      as_one_payer_on = Some (one_payer_enabled environ), as_stats = stats,
      as_lineage_on = Some (configured (lineage_params_from_env environ)), as_method = Some method,
      as_alpha_of = cr_alpha_of chain, as_alpha_floor = cr_alpha_floor chain, as_alpha_enforced = enforcement_enabled environ\<rparr>"

text \<open>Everything that is read before the day is computed. \<open>inherited\<close> is the environment of the process, which
  the average of a standing and its floors read (and the child starts from), whatever \<open>environ\<close> the caller
  passed; \<open>failure\<close>: why the one-payer child gave no verdict.\<close>

definition copies_today ::
    "(bytes \<Rightarrow> 256 word) \<Rightarrow> (json \<Rightarrow> string) \<Rightarrow> environ \<Rightarrow> string option \<Rightarrow> copy_store \<Rightarrow> date \<Rightarrow> environ
      \<Rightarrow> copy_store \<times> hotkey set \<times> one_payer_stats" where
  "copies_today H dumps inherited failure S day environ =
     (if one_payer_enabled environ then one_payer_suppression_subprocess H dumps inherited failure S day environ else (S, {}, no_stats))"

definition field_copies :: "environ \<Rightarrow> date \<Rightarrow> hotkey set \<Rightarrow> model_group list \<Rightarrow> hotkey set" where
  "field_copies environ day suppressed groups = (if epoch_rule environ day then suppressed \<union> set (concat (map copies groups)) else {})"

definition participation_today ::
    "(float \<Rightarrow> float \<Rightarrow> float) \<Rightarrow> shadow \<Rightarrow> date \<Rightarrow> environ \<Rightarrow> py_error + (hotkey, float) dict" where
  "participation_today powf Sh day environ =
     (if participation_gate_enabled environ then participation_multipliers powf Sh day environ participation_window_days else Inr [])"

definition persist_promotion :: "bool \<Rightarrow> daily_allocation \<Rightarrow> ledger \<Rightarrow> ledger" where
  "persist_promotion persist al L = (case al_promotion al of
     Some d \<Rightarrow> if persist then
         (let L1 = save_promotion_state L (decided d) in case log_event d of None \<Rightarrow> L1 | Some ev \<Rightarrow> append_promotion_event L1 ev)
       else L
   | None \<Rightarrow> L)"

text \<open>The flag of an earning set that enforcement emptied.\<close>

definition flag_emptied ::
    "(float \<Rightarrow> float \<Rightarrow> float) \<Rightarrow> environ \<Rightarrow> (hotkey, scored_episode list) dict \<Rightarrow> date \<Rightarrow> int \<Rightarrow> promotion_state \<Rightarrow> alloc_settings
      \<Rightarrow> daily_allocation \<Rightarrow> (py_error + daily_allocation) option" where
  "flag_emptied powf environ entries day volume state st al =
     (if as_evicted st \<noteq> {} \<and> \<not> al_gated al \<and> al_earning_set_size al = 0
      then andthen (compute_daily_allocation powf environ entries day volume state (counterfactual_settings st))
             (\<lambda>cf. Some (Inr (if 0 < al_earning_set_size cf then al\<lparr>al_enforcement_emptied := True\<rparr> else al)))
      else Some (Inr al))"

definition allocation_from_ledger ::
    "(float \<Rightarrow> float \<Rightarrow> float) \<Rightarrow> (bytes \<Rightarrow> 256 word) \<Rightarrow> (json \<Rightarrow> string) \<Rightarrow> environ \<Rightarrow> string option \<Rightarrow> environ \<Rightarrow> day_world \<Rightarrow> date \<Rightarrow> int
      \<Rightarrow> int option \<Rightarrow> curve_params \<Rightarrow> promotion_params \<Rightarrow> chain_reads \<Rightarrow> bool
      \<Rightarrow> ((py_error \<times> ledger \<times> copy_store) + ledger \<times> copy_store \<times> daily_allocation) option" where
  "allocation_from_ledger powf H dumps inherited failure environ W day volume min_daily curve promo chain persist =
     (case copies_today H dumps inherited failure (dw_copies W) day environ of (S, suppressed, stats) \<Rightarrow>
      case lineage_from_receipts powf dumps S day environ of None \<Rightarrow> None | Some lin \<Rightarrow>
      raising_at (dw_ledger W, S) lin (\<lambda>(groups, la).
        let R = cst_standing S; L = dw_ledger W; since = since_in_force R environ day; exclude = field_copies environ day suppressed groups in
        raising_at (L, S) (standing_entries_with_stats R L day environ since exclude) (\<lambda>(entries, prev).
        raising_at (L, S) (load_promotion_state L) (\<lambda>state0.
        raising_at (L, S) (evicted_today L environ day) (\<lambda>chronic.
          let gone_today = removed_hotkeys (dw_unchanged W) (isoformat day);
              (L1, state) = seat_in_force L state0 day persist chronic gone_today in
          raising_at (L1, S) (participation_today powf (dw_shadow W) day environ) (\<lambda>participation.
            let st = settings_in_force environ day min_daily curve promo chain (chronic \<union> gone_today) suppressed stats groups la
                       participation (method_block environ day since prev (card exclude)) in
            case compute_daily_allocation powf inherited entries day volume state st of None \<Rightarrow> None | Some computed \<Rightarrow>
            raising_at (L1, S) computed (\<lambda>al.
            raising_at (L1, S) (absolute_standings powf R L1 day environ) (\<lambda>absolute.
            case flag_emptied powf inherited entries day volume state st (with_accuracy absolute al) of None \<Rightarrow> None | Some flagged \<Rightarrow>
            raising_at (L1, S) flagged (\<lambda>al'. Some (Inr (persist_promotion persist al' L1, S, al')))))))))))"

section \<open>The published document\<close>

definition seat_of :: "daily_allocation \<Rightarrow> hotkey option" where
  "seat_of al = (case al_promotion al of None \<Rightarrow> None | Some d \<Rightarrow> champion (decided d))"

definition float_dict :: "(hotkey, float) dict \<Rightarrow> json" where
  "float_dict d = JDict (map (\<lambda>(hk, x). (hk, JNum x)) d)"

text \<open>\<open>intended_weights_<day>.json\<close>.\<close>

definition intended_weights :: "date \<Rightarrow> daily_allocation \<Rightarrow> json" where
  "intended_weights day al = JDict [(''day'', JStr (isoformat day)), (''gated'', JBool (al_gated al)),
     (''day_episode_volume'', jint (al_volume al)), (''weights'', float_dict (al_weights al)),
     (''standings'', float_dict (al_standings al)), (''standings_absolute'', float_dict (al_absolute al)),
     (''earning_set_size'', jnat (al_earning_set_size al)), (''champion'', jopt JStr (seat_of al)),
     (''evicted'', jstrs (al_evicted al)), (''collapse_audit'', JDict (al_audit al))]"


section \<open>The pieces of a day\<close>

lemma fold_sum_invariant:
  "fold_sum f s xs = Inr s' \<Longrightarrow> I s \<Longrightarrow> (\<And>x t t'. x \<in> set xs \<Longrightarrow> I t \<Longrightarrow> f t x = Inr t' \<Longrightarrow> I t') \<Longrightarrow> I s'"
proof (induction xs arbitrary: s)
  case (Cons x xs)
  then obtain t where t: "f s x = Inr t" "fold_sum f t xs = Inr s'" by (auto split: sum.splits)
  then show ?case using Cons.IH [OF t(2)] Cons.prems by (meson list.set_intros)
qed simp

text \<open>Who holds a placement: a hotkey that is in, whose own entries give an average and enough evidence.\<close>

definition placed ::
    "(float \<Rightarrow> float \<Rightarrow> float) \<Rightarrow> environ \<Rightarrow> date \<Rightarrow> hotkey set \<Rightarrow> (hotkey, scored_episode list) dict \<Rightarrow> hotkey \<Rightarrow> float \<Rightarrow> bool" where
  "placed powf environ day evicted entries hk avg \<longleftrightarrow> hk \<notin> evicted \<and>
     (\<exists>eps st. (hk, eps) \<in> set entries \<and> standing powf environ eps day None None None 0 = Inr st \<and>
        average st = Some avg \<and> placement_eligible st)"

lemma place_all_placed:
  assumes "place_all powf environ day evicted entries = Inr (placements, below)"
  shows "dict_ok placements \<and> (\<forall>hk avg. map_of placements hk = Some avg \<longrightarrow> placed powf environ day evicted entries hk avg)"
proof -
  let ?I = "\<lambda>acc. dict_ok (fst acc) \<and> (\<forall>hk avg. map_of (fst acc) hk = Some avg \<longrightarrow> placed powf environ day evicted entries hk avg)"
  have "?I (placements, below)"
  proof (rule fold_sum_invariant [OF assms [unfolded place_all_def], where I = ?I])
    fix item acc acc' assume i: "item \<in> set entries" "?I acc" "place_hotkey powf environ day evicted acc item = Inr acc'"
    obtain p b hk eps where e: "acc = (p, b)" "item = (hk, eps)" by fastforce
    show "?I acc'"
    proof (cases "hk \<in> evicted")
      case False
      then obtain st where st: "standing powf environ eps day None None None 0 = Inr st"
        and acc': "acc' = (case average st of None \<Rightarrow> (p, b) | Some avg \<Rightarrow> if placement_eligible st then (AList.update hk avg p, b)
          else (p, AList.update hk (JDict [(''scored_predictions'', JNum (fround 2 (scored_predictions st)))]) b))"
        using i(3) by (auto simp: e place_hotkey_def map_sum_Inr_any)
      have new: "average st = Some avg \<Longrightarrow> placement_eligible st \<Longrightarrow> placed powf environ day evicted entries hk avg" for avg
        using False i(1) st by (auto simp: placed_def e)
      show ?thesis using i(2) new by (auto simp: acc' e map_of_update dict_ok_update simp del: map_of_eq_Some_iff split: option.splits if_splits)
    qed (use i in \<open>auto simp: e place_hotkey_def simp del: map_of_eq_Some_iff\<close>)
  qed simp
  then show ?thesis by simp
qed

lemma keys_without: "set (keys (without out d)) = set (keys d) - out"
  by (auto simp: without_def)

lemma dict_ok_without: "dict_ok d \<Longrightarrow> dict_ok (without out d)"
  unfolding without_def by (rule distinct_map_filter)

lemma cap_keys:
  assumes "dict_ok d" and "hk \<in> set (keys (kept (apply_coldkey_cap d coldkey_of 1 cb)))"
  shows "hk \<in> set (keys d)"
proof -
  obtain s where "map_of (kept (apply_coldkey_cap d coldkey_of 1 cb)) hk = Some s" using assms(2) map_of_keys_iff by (metis list.set_map)
  then have "map_of d hk = Some s"
    using cap_kept [OF assms(1), of 1 coldkey_of cb hk] ranked_group_in [of hk s cb coldkey_of d _] assms(1)
    by (auto split: option.splits dest!: map_of_SomeD in_set_takeD)
  then show ?thesis using map_of_in_keys by (metis list.set_map)
qed

lemma cap_one_seat:
  assumes "dict_ok d" and "a \<in> set (keys (kept (apply_coldkey_cap d coldkey_of 1 cb)))" and "b \<in> set (keys (kept (apply_coldkey_cap d coldkey_of 1 cb)))"
    and "known_coldkey coldkey_of a = Some ck" and "known_coldkey coldkey_of b = Some ck"
  shows "a = b"
proof -
  let ?t = "take (nat 1) (ranked_group cb coldkey_of d ck)"
  obtain s t where "map_of ?t a = Some s" "map_of ?t b = Some t"
    using assms cap_kept [OF assms(1), of 1 coldkey_of cb a] cap_kept [OF assms(1), of 1 coldkey_of cb b] map_of_keys_iff
    by (metis (no_types, lifting) list.set_map option.simps(5) zero_le_one)
  moreover have "length ?t \<le> 1" by simp
  ultimately show ?thesis using map_of_single [of ?t] by (metis list.inject prod.inject)
qed

lemma identity_layers_keys:
  assumes "dict_ok placements"
  shows "set (keys (id_placements (identity_layers st placements a))) \<subseteq> {hk \<in> set (keys placements). as_coldkeys st = [] \<or> map_of (as_coldkeys st) hk \<noteq> None}"
    (is ?sub)
    and "\<lbrakk>hk \<in> set (keys (id_placements (identity_layers st placements a))); hk' \<in> set (keys (id_placements (identity_layers st placements a)));
      known_coldkey (as_coldkeys st) hk = Some ck; known_coldkey (as_coldkeys st) hk' = Some ck\<rbrakk> \<Longrightarrow> hk = hk'"
proof -
  let ?d = "deregistered (as_coldkeys st) placements"
  let ?r = "if ?d = [] then placements else without (set ?d) placements"
  have ok: "dict_ok ?r" using assms dict_ok_without by simp
  have id: "id_placements (identity_layers st placements a)
      = (if as_coldkeys st \<noteq> [] then kept (apply_coldkey_cap ?r (as_coldkeys st) 1 (as_commit_block st)) else ?r)"
    by (simp add: identity_layers_def Let_def)
  have r: "set (keys ?r) = set (keys placements) - set ?d" using keys_without by auto
  have d: "set ?d = (if as_coldkeys st = [] then {} else {hk \<in> set (keys placements). map_of (as_coldkeys st) hk = None})"
    by (auto simp: deregistered_def)
  show ?sub
  proof
    fix hk assume "hk \<in> set (keys (id_placements (identity_layers st placements a)))"
    then have "hk \<in> set (keys ?r)" unfolding id using cap_keys [OF ok] by (auto split: if_splits)
    then have "hk \<in> set (keys placements)" "hk \<notin> set ?d" using r by blast+
    then show "hk \<in> {hk \<in> set (keys placements). as_coldkeys st = [] \<or> map_of (as_coldkeys st) hk \<noteq> None}"
      unfolding d by (cases "as_coldkeys st = []") simp_all
  qed
  show "\<lbrakk>hk \<in> set (keys (id_placements (identity_layers st placements a))); hk' \<in> set (keys (id_placements (identity_layers st placements a)));
      known_coldkey (as_coldkeys st) hk = Some ck; known_coldkey (as_coldkeys st) hk' = Some ck\<rbrakk> \<Longrightarrow> hk = hk'"
  proof -
    assume in_both: "hk \<in> set (keys (id_placements (identity_layers st placements a)))" "hk' \<in> set (keys (id_placements (identity_layers st placements a)))"
      and known: "known_coldkey (as_coldkeys st) hk = Some ck" "known_coldkey (as_coldkeys st) hk' = Some ck"
    have ne: "as_coldkeys st \<noteq> []" using known(1) by (auto simp: known_coldkey_def)
    show "hk = hk'" by (rule cap_one_seat [OF ok _ _ known]) (use in_both ne in \<open>simp_all only: id if_True not_False_eq_True\<close>)
  qed
qed


definition short_of_tenure :: "alloc_settings \<Rightarrow> (hotkey, int) dict \<Rightarrow> hotkey \<Rightarrow> bool" where
  "short_of_tenure st scored_days hk \<longleftrightarrow> hk \<notin> as_tenure_exempt st \<and> scored scored_days hk < as_tenure_min st"

definition under_hold :: "alloc_settings \<Rightarrow> hotkey \<Rightarrow> bool" where
  "under_hold st hk \<longleftrightarrow> (\<exists>m h. as_alpha_of st = Some m \<and> held_alpha m hk = Some h \<and> h < as_alpha_floor st)"

lemma copy_layer_result:
  "\<exists>suppressed a'. copy_layer st placements a = Some (Inr (suppressed, if suppressed = {} then placements else without suppressed placements, a')) \<and>
     suppressed \<subseteq> named_copies st \<and>
     (\<forall>hk \<in> named_copies st - suppressed. hk \<in> mentioned (copy_sets_of st) \<and>
        (\<forall>y. connected_copies (copy_sets_of st) hk y \<longrightarrow> y \<in> named_copies st))"
proof -
  obtain restored where r: "orphaned_payees (copy_sets_of st) (named_copies st) (op_seniority (as_stats st)) (map original (as_groups st)) = Some (Inr restored)"
    and "\<forall>x. x \<in> restored \<longleftrightarrow> x \<in> mentioned (copy_sets_of st) \<and> (\<forall>y. connected_copies (copy_sets_of st) x y \<longrightarrow>
      y \<in> named_copies st \<and> senior_key (op_seniority (as_stats st)) (map original (as_groups st)) x
        \<le> senior_key (op_seniority (as_stats st)) (map original (as_groups st)) y)"
    using restored_spec [of "copy_sets_of st" "named_copies st" "op_seniority (as_stats st)" "map original (as_groups st)"] by blast
  then show ?thesis by (intro exI [of _ "named_copies st - restored"]) (auto simp: copy_layer_def andthen_def r Let_def)
qed

lemma stand_down:
  assumes "dict_ok d" and "short \<subseteq> set (keys d)" and "\<not> card short < length d"
  shows "short = set (keys d)"
proof (rule card_subset_eq)
  show "card short = card (set (keys d))"
    using assms card_mono [of "set (keys d)" short] distinct_card [of "keys d"] by simp
qed (use assms in auto)

lemma tenure_layer_left:
  "fst (tenure_layer st scored_days placements a) =
     (let short = short_tenure_hotkeys scored_days (keys placements) (as_tenure_min st) (as_tenure_exempt st)
      in if 0 < as_tenure_min st \<and> short \<noteq> {} \<and> card short < length placements then without short placements else placements)"
  by (simp add: tenure_layer_def Let_def)

lemma tenure_layer_spec:
  assumes "dict_ok placements" and "tenure_layer st scored_days placements a = (p, a')"
  shows "dict_ok p" "set (keys p) \<subseteq> set (keys placements)" "(0 < as_tenure_min st \<longrightarrow> (\<forall>hk \<in> set (keys p). \<not> short_of_tenure st scored_days hk) \<or> (\<forall>hk \<in> set (keys p). short_of_tenure st scored_days hk))"
proof -
  let ?s = "short_tenure_hotkeys scored_days (keys placements) (as_tenure_min st) (as_tenure_exempt st)"
  have s: "?s = {hk \<in> set (keys placements). short_of_tenure st scored_days hk}"
    unfolding short_tenure_spec short_of_tenure_def scored_def by blast
  consider (off) "as_tenure_min st \<le> 0" "p = placements" | (cut) "0 < as_tenure_min st" "p = without ?s placements"
    | (none) "0 < as_tenure_min st" "?s = {}" "p = placements" | (down) "0 < as_tenure_min st" "\<not> card ?s < length placements" "p = placements"
  proof -
    have "p = (if 0 < as_tenure_min st \<and> ?s \<noteq> {} \<and> card ?s < length placements then without ?s placements else placements)"
      using tenure_layer_left [of st scored_days placements a] assms(2) by (simp only: Let_def fst_conv)
    then show thesis using that by (metis not_less)
  qed
  then have "dict_ok p \<and> set (keys p) \<subseteq> set (keys placements) \<and> (0 < as_tenure_min st \<longrightarrow>
      (\<forall>hk \<in> set (keys p). \<not> short_of_tenure st scored_days hk) \<or> (\<forall>hk \<in> set (keys p). short_of_tenure st scored_days hk))"
  proof cases
    case cut
    then show ?thesis using dict_ok_without [OF assms(1)] keys_without [of ?s placements] s by auto
  next
    case none
    then show ?thesis using s assms(1) by auto
  next
    case down
    have "?s = set (keys placements)" using s down(2) by (intro stand_down [OF assms(1)]) auto
    then show ?thesis using s assms(1) down by auto
  qed (use assms in auto)
  then show "dict_ok p" "set (keys p) \<subseteq> set (keys placements)" "(0 < as_tenure_min st \<longrightarrow> (\<forall>hk \<in> set (keys p). \<not> short_of_tenure st scored_days hk) \<or> (\<forall>hk \<in> set (keys p). short_of_tenure st scored_days hk))"
    by blast+
qed

lemma keys_below_hold: "set (keys (below_hold m f placements)) = {hk \<in> set (keys placements). \<exists>h. held_alpha m hk = Some h \<and> h < f}"
  unfolding below_hold_def by (force split: option.splits)

lemma below_hold_short: "dict_ok placements \<Longrightarrow> dict_ok (below_hold m f placements)"
proof (induction placements)
  case (Cons x xs)
  have sub: "set (keys (below_hold m f xs)) \<subseteq> set (keys xs)" unfolding keys_below_hold by blast
  have step: "below_hold m f (x # xs) = (case held_alpha m (fst x) of None \<Rightarrow> [] | Some h \<Rightarrow> if h < f then [(fst x, fround 4 h)] else []) @ below_hold m f xs"
    by (simp add: below_hold_def case_prod_unfold)
  have "dict_ok (below_hold m f xs)" "fst x \<notin> set (keys (below_hold m f xs))" using Cons sub by auto
  then show ?case unfolding step by (simp split: option.splits)
qed (simp add: below_hold_def)

lemma alpha_layer_left:
  "as_alpha_of st = Some m \<Longrightarrow> fst (alpha_layer st placements a) =
     (let below = below_hold m (as_alpha_floor st) placements
      in if 0 < as_alpha_floor st \<and> as_alpha_enforced st \<and> below \<noteq> [] \<and> length below < length placements
         then without (set (keys below)) placements else placements)"
  by (simp add: alpha_layer_def Let_def)

lemma alpha_layer_spec:
  assumes "dict_ok placements" and "alpha_layer st placements a = (p, hold, a')"
  shows "set (keys p) \<subseteq> set (keys placements) \<and> (as_alpha_enforced st \<and> 0 < as_alpha_floor st \<longrightarrow>
    (\<forall>hk \<in> set (keys p). \<not> under_hold st hk) \<or> (\<forall>hk \<in> set (keys p). under_hold st hk))"
proof (cases "as_alpha_of st")
  case None
  then show ?thesis using assms by (auto simp: alpha_layer_def under_hold_def)
next
  case (Some m)
  let ?b = "below_hold m (as_alpha_floor st) placements"
  have b: "set (keys ?b) = {hk \<in> set (keys placements). under_hold st hk}" unfolding keys_below_hold under_hold_def Some by simp
  have len: "length ?b = card (set (keys ?b))" using below_hold_short [OF assms(1)] distinct_card [of "keys ?b"] by simp
  consider (off) "as_alpha_floor st \<le> 0 \<or> \<not> as_alpha_enforced st" "p = placements" | (none) "?b = []" "p = placements"
    | (cut) "p = without (set (keys ?b)) placements" | (down) "\<not> length ?b < length placements" "p = placements"
    using alpha_layer_left [OF Some, of placements a] assms(2) by (auto simp: Let_def split: if_splits)
  then show ?thesis
  proof cases
    case none
    then show ?thesis using b by (metis (no_types, lifting) empty_iff list.set(1) list.simps(8) mem_Collect_eq subset_refl)
  next
    case cut
    then show ?thesis using b keys_without [of "set (keys ?b)" placements] by auto
  next
    case down
    then have "set (keys ?b) = set (keys placements)" using b len by (intro stand_down [OF assms(1)]) auto
    then show ?thesis using b down by (metis (no_types, lifting) mem_Collect_eq subset_refl)
  qed auto
qed

lemma alpha_layer_ok: "dict_ok placements \<Longrightarrow> dict_ok (fst (alpha_layer st placements a))"
proof (cases "as_alpha_of st")
  case (Some m)
  then show "dict_ok placements \<Longrightarrow> ?thesis" using dict_ok_without [of placements] by (simp add: alpha_layer_left Let_def)
qed (simp add: alpha_layer_def)

lemma curve_keys:
  assumes "curve_weights standings params precedence = Inr w"
  shows "keys w = keys standings"
proof -
  let ?el = "WeightCurve.eligible params standings precedence"
  have "fst ` set ?el \<subseteq> set (keys (zero_weights standings))"
  proof
    fix hk assume "hk \<in> fst ` set ?el"
    then obtain x where "(hk, x) \<in> set ?el" by force
    then have "(hk, Some x) \<in> set standings" using WeightCurve.eligible_in by blast
    then show "hk \<in> set (keys (zero_weights standings))" unfolding zero_weights_keys by force
  qed
  then have "keys (pay ?el (raw_shares params (length ?el)) (fsum (raw_shares params (length ?el))) (zero_weights standings)) = keys standings"
    using pay_keys [of ?el "zero_weights standings"] by (simp only: zero_weights_keys list.set_map [symmetric])
  then show ?thesis using assms by (auto simp: curve_weights_def Let_def pay_def zero_weights_def split: if_splits)
qed

lemma weigh_keys:
  assumes "weigh st volume placements = Inr w" and "hk \<in> set (keys w)"
  shows "hk \<in> set (keys placements) \<and> \<not> day_gated st volume"
proof (cases "day_gated st volume")
  case False
  then obtain v where v: "curve_weights (some_standings placements) (as_curve st) [] = Inr v" "w = participation_scaled (as_participation st) v"
    using assms(1) by (auto simp: weigh_def)
  have "keys w = keys v" unfolding v(2) participation_scaled_def Let_def by auto
  then show ?thesis using assms(2) False curve_keys [OF v(1)] by (force simp: some_standings_def)
qed (use assms in \<open>simp add: weigh_def\<close>)


lemma cap_ok:
  assumes "dict_ok d"
  shows "dict_ok (kept (apply_coldkey_cap d coldkey_of k cb))"
proof -
  have seat: "dict_ok e \<Longrightarrow> dict_ok (foldl (\<lambda>d (hk, s). AList.update hk s d) e seated)" for e :: "(hotkey, float) dict" and seated
    by (induction seated arbitrary: e) (auto simp: dict_ok_update)
  have "dict_ok (kept (foldl (seat_coldkey k cb) \<lparr>kept = filter (\<lambda>(hk, s). known_coldkey coldkey_of hk = None) d, dropped = [], contested = []\<rparr> items))" for items
    by (rule foldl_invariant [where Q = "\<lambda>r. dict_ok (kept r)"])
      (use distinct_map_filter [OF assms] in \<open>auto simp: seat_coldkey_def py_split_def Let_def intro!: seat\<close>)
  then show ?thesis by (simp add: apply_coldkey_cap_def Let_def)
qed

lemma identity_layers_ok: "dict_ok placements \<Longrightarrow> dict_ok (id_placements (identity_layers st placements a))"
  using dict_ok_without [of placements] cap_ok by (simp add: identity_layers_def Let_def)

lemma weigh_ok:
  assumes "weigh st volume placements = Inr w" and "dict_ok placements"
  shows "dict_ok w"
proof (cases "day_gated st volume")
  case False
  then obtain v where v: "curve_weights (some_standings placements) (as_curve st) [] = Inr v" "w = participation_scaled (as_participation st) v"
    using assms(1) by (auto simp: weigh_def)
  have "keys w = keys v" unfolding v(2) participation_scaled_def Let_def by auto
  then show ?thesis using assms(2) curve_keys [OF v(1)] by (simp add: some_standings_def comp_def case_prod_unfold)
qed (use assms in \<open>simp add: weigh_def\<close>)

section \<open>A day that was computed\<close>

lemma payment_layers_result:
  assumes "dict_ok placements"
  obtains suppressed p hold a' where "payment_layers st scored_days placements a = Some (Inr (suppressed, p, hold, a'))"
    and "dict_ok p" and "set (keys p) \<subseteq> set (keys placements) - suppressed" and "suppressed \<subseteq> named_copies st"
    and "\<forall>hk \<in> named_copies st - suppressed. hk \<in> mentioned (copy_sets_of st) \<and>
        (\<forall>y. connected_copies (copy_sets_of st) hk y \<longrightarrow> y \<in> named_copies st)"
    and "0 < as_tenure_min st \<longrightarrow> (\<forall>hk \<in> set (keys p). \<not> short_of_tenure st scored_days hk) \<or> (\<forall>hk \<in> set (keys p). short_of_tenure st scored_days hk)"
    and "as_alpha_enforced st \<and> 0 < as_alpha_floor st \<longrightarrow> (\<forall>hk \<in> set (keys p). \<not> under_hold st hk) \<or> (\<forall>hk \<in> set (keys p). under_hold st hk)"
proof -
  obtain suppressed a1 where c: "copy_layer st placements a = Some (Inr (suppressed, if suppressed = {} then placements else without suppressed placements, a1))"
    and named: "suppressed \<subseteq> named_copies st" "\<forall>hk \<in> named_copies st - suppressed. hk \<in> mentioned (copy_sets_of st) \<and>
        (\<forall>y. connected_copies (copy_sets_of st) hk y \<longrightarrow> y \<in> named_copies st)"
    using copy_layer_result [of st placements a] by blast
  let ?p1 = "if suppressed = {} then placements else without suppressed placements"
  have p1: "dict_ok ?p1" "set (keys ?p1) = set (keys placements) - suppressed"
    using assms dict_ok_without keys_without [of suppressed placements] by auto
  obtain p2 a2 where t: "tenure_layer st scored_days ?p1 a1 = (p2, a2)" by fastforce
  obtain p3 hold a3 where h: "alpha_layer st p2 a2 = (p3, hold, a3)" using prod_cases3 by blast
  note t' = tenure_layer_spec [OF p1(1) t]
  note h' = alpha_layer_spec [OF t'(1) h]
  have "dict_ok p3" using alpha_layer_ok [OF t'(1), of st a2] h by simp
  moreover have "payment_layers st scored_days placements a = Some (Inr (suppressed, p3, hold, if as_lineage_audit st = [] then a3
      else put ''lineage'' (JDict (AList.update ''pairwise'' (JDict (as_lineage_audit st)) (json_fields (audit_get a3 ''lineage'')))) a3))"
    by (simp only: payment_layers_def c andthen_def option.case sum.case prod.case t h)
  ultimately show thesis by (intro that) (use named t' h' p1(2) in blast)+
qed

lemma allocation_parts:
  assumes "compute_daily_allocation powf environ entries day volume state st = Some (Inr al)"
  obtains placements below promotion suppressed p hold a w
  where "place_all powf environ day (as_evicted st) entries = Inr (placements, below)"
    and "ChampionPromotion.observe_day state day (some_standings (id_placements (identity_layers st placements
        (first_audit environ below))))
        (scored_day_counts entries) (as_promotion st) = Inr promotion"
    and "payment_layers st (scored_day_counts entries) (id_placements (identity_layers st placements
        (first_audit environ below)))
        (id_audit (identity_layers st placements
        (first_audit environ below))) = Some (Inr (suppressed, p, hold, a))"
    and "weigh st volume p = Inr w"
    and "al = \<lparr>al_day = day, al_gated = day_gated st volume, al_volume = volume, al_standings = placements,
         al_weights = w, al_earning_set_size = length (filter (\<lambda>(hk, x). 0 < x) w),
         al_promotion = Some promotion, al_evicted = sorted_list_of_set (as_evicted st), al_enforcement_emptied = False,
         al_audit = put ''policies'' (policies_block st environ day (identity_layers st placements
          (first_audit environ below))
           suppressed hold (length below) a) a,
         al_absolute = []\<rparr>"
proof -
  obtain placements below where pl: "place_all powf environ day (as_evicted st) entries = Inr (placements, below)"
    using assms by (auto simp: compute_daily_allocation_def split: sum.splits)
  let ?i = "identity_layers st placements (first_audit environ below)"
  obtain promotion where ob: "ChampionPromotion.observe_day state day (some_standings (id_placements ?i)) (scored_day_counts entries) (as_promotion st) = Inr promotion"
    using assms by (auto simp: compute_daily_allocation_def pl Let_def split: sum.splits)
  obtain suppressed p hold a where pay: "payment_layers st (scored_day_counts entries) (id_placements ?i) (id_audit ?i) = Some (Inr (suppressed, p, hold, a))"
    using assms by (auto simp: compute_daily_allocation_def pl ob Let_def andthen_def split: option.splits sum.splits)
  obtain w where w: "weigh st volume p = Inr w"
    using assms by (auto simp: compute_daily_allocation_def pl ob pay Let_def andthen_def)
  show thesis by (rule that [OF pl ob pay w]) (use assms in \<open>simp add: compute_daily_allocation_def pl ob pay w Let_def andthen_def\<close>)
qed

text \<open>Where an allocation was computed, everything the gates say of a hotkey in the vector.\<close>

lemma in_vector:
  assumes "compute_daily_allocation powf environ entries day volume state st = Some (Inr al)"
  obtains placements below suppressed where "place_all powf environ day (as_evicted st) entries = Inr (placements, below)"
    and "al_standings al = placements" and "suppressed \<subseteq> named_copies st"
    and "\<forall>hk \<in> named_copies st - suppressed. hk \<in> mentioned (copy_sets_of st) \<and>
        (\<forall>y. connected_copies (copy_sets_of st) hk y \<longrightarrow> y \<in> named_copies st)"
    and "\<And>hk. hk \<in> set (keys (al_weights al)) \<Longrightarrow> \<not> day_gated st volume \<and> hk \<notin> suppressed \<and> hk \<in> set (keys placements) \<and>
        (as_coldkeys st = [] \<or> map_of (as_coldkeys st) hk \<noteq> None)"
    and "\<And>hk hk' ck. hk \<in> set (keys (al_weights al)) \<Longrightarrow> hk' \<in> set (keys (al_weights al)) \<Longrightarrow>
        known_coldkey (as_coldkeys st) hk = Some ck \<Longrightarrow> known_coldkey (as_coldkeys st) hk' = Some ck \<Longrightarrow> hk = hk'"
    and "0 < as_tenure_min st \<longrightarrow> (\<forall>hk \<in> set (keys (al_weights al)). \<not> short_of_tenure st (scored_day_counts entries) hk) \<or>
        (\<forall>hk \<in> set (keys (al_weights al)). short_of_tenure st (scored_day_counts entries) hk)"
    and "as_alpha_enforced st \<and> 0 < as_alpha_floor st \<longrightarrow> (\<forall>hk \<in> set (keys (al_weights al)). \<not> under_hold st hk) \<or>
        (\<forall>hk \<in> set (keys (al_weights al)). under_hold st hk)"
    and "dict_ok (al_weights al)"
proof -
  obtain placements below promotion suppressed p hold a w
  where pl: "place_all powf environ day (as_evicted st) entries = Inr (placements, below)"
    and pay: "payment_layers st (scored_day_counts entries) (id_placements (identity_layers st placements
        (first_audit environ below)))
        (id_audit (identity_layers st placements
        (first_audit environ below))) = Some (Inr (suppressed, p, hold, a))"
    and w: "weigh st volume p = Inr w" and al: "al_standings al = placements" "al_weights al = w"
    by (rule allocation_parts [OF assms]) simp
  have ok: "dict_ok placements" using place_all_placed [OF pl] by blast
  let ?i = "identity_layers st placements (first_audit environ below)"
  note i = identity_layers_keys [where st = st and a = "first_audit environ below", OF ok]
  have iok: "dict_ok (id_placements ?i)" by (rule identity_layers_ok [OF ok])
  obtain suppressed' p' hold' a' where pay': "payment_layers st (scored_day_counts entries) (id_placements ?i) (id_audit ?i) = Some (Inr (suppressed', p', hold', a'))"
    and pok: "dict_ok p'" and sub: "set (keys p') \<subseteq> set (keys (id_placements ?i)) - suppressed'" and named: "suppressed' \<subseteq> named_copies st"
    "\<forall>hk \<in> named_copies st - suppressed'. hk \<in> mentioned (copy_sets_of st) \<and> (\<forall>y. connected_copies (copy_sets_of st) hk y \<longrightarrow> y \<in> named_copies st)"
    and gates: "0 < as_tenure_min st \<longrightarrow> (\<forall>hk \<in> set (keys p'). \<not> short_of_tenure st (scored_day_counts entries) hk) \<or> (\<forall>hk \<in> set (keys p'). short_of_tenure st (scored_day_counts entries) hk)"
     "as_alpha_enforced st \<and> 0 < as_alpha_floor st \<longrightarrow> (\<forall>hk \<in> set (keys p'). \<not> under_hold st hk) \<or> (\<forall>hk \<in> set (keys p'). under_hold st hk)"
    by (rule payment_layers_result [OF iok])
  have same: "p' = p" "suppressed' = suppressed" using pay pay' by simp_all
  have keys: "\<And>hk. hk \<in> set (keys w) \<Longrightarrow> hk \<in> set (keys p) \<and> \<not> day_gated st volume" using weigh_keys [OF w] .
  show thesis
  proof (rule that [OF pl al(1)])
    show "suppressed \<subseteq> named_copies st" using named(1) unfolding same .
    show "\<forall>hk \<in> named_copies st - suppressed. hk \<in> mentioned (copy_sets_of st) \<and> (\<forall>y. connected_copies (copy_sets_of st) hk y \<longrightarrow> y \<in> named_copies st)"
      using named(2) unfolding same .
    show "\<not> day_gated st volume \<and> hk \<notin> suppressed \<and> hk \<in> set (keys placements) \<and> (as_coldkeys st = [] \<or> map_of (as_coldkeys st) hk \<noteq> None)"
      if "hk \<in> set (keys (al_weights al))" for hk
    proof -
      have "hk \<in> set (keys p)" "\<not> day_gated st volume" using keys that unfolding al by blast+
      moreover from this have "hk \<in> set (keys (id_placements ?i))" "hk \<notin> suppressed" using sub unfolding same by blast+
      ultimately show ?thesis using i(1) by blast
    qed
    show "hk = hk'" if "hk \<in> set (keys (al_weights al))" "hk' \<in> set (keys (al_weights al))"
      "known_coldkey (as_coldkeys st) hk = Some ck" "known_coldkey (as_coldkeys st) hk' = Some ck" for hk hk' ck
    proof (rule i(2) [OF _ _ that(3,4)])
      show "hk \<in> set (keys (id_placements ?i))" "hk' \<in> set (keys (id_placements ?i))" using that(1,2) keys sub unfolding same al by blast+
    qed
    show "0 < as_tenure_min st \<longrightarrow> (\<forall>hk \<in> set (keys (al_weights al)). \<not> short_of_tenure st (scored_day_counts entries) hk) \<or>
        (\<forall>hk \<in> set (keys (al_weights al)). short_of_tenure st (scored_day_counts entries) hk)"
      using gates(1) keys unfolding same al by blast
    show "as_alpha_enforced st \<and> 0 < as_alpha_floor st \<longrightarrow> (\<forall>hk \<in> set (keys (al_weights al)). \<not> under_hold st hk) \<or>
        (\<forall>hk \<in> set (keys (al_weights al)). under_hold st hk)"
      using gates(2) keys unfolding same al by blast
    show "dict_ok (al_weights al)" using weigh_ok [OF w] pok unfolding same al by blast
  qed
qed


section \<open>A small day\<close>

text \<open>Two hotkeys with the evidence of the floor; the first is evicted.\<close>

definition sample_episode :: scored_episode where
  "sample_episode = (plain_episode (1 / 2) 10)\<lparr>weight := 512\<rparr>"

definition sample_entries :: "(hotkey, scored_episode list) dict" where
  "sample_entries = [(''a'', [sample_episode]), (''b'', [sample_episode])]"

definition sample_settings :: alloc_settings where
  "sample_settings = \<lparr>as_min_daily = 0, as_curve = default_curve_params, as_promotion = default_promotion_params, as_evicted = {''a''}, as_suppressed = {},
      as_participation = [], as_coldkeys = [], as_groups = [], as_lineage_audit = [], as_commit_block = [], as_tenure_min = 0,
      as_tenure_exempt = {}, as_one_payer_on = None, as_stats = no_stats, as_lineage_on = None, as_method = None,
      as_alpha_of = None, as_alpha_floor = 0, as_alpha_enforced = False\<rparr>"

lemma unset: "window_in_force (\<lambda>_. None) 10 = default_window_days" "half_life_in_force (\<lambda>_. None) 10 = default_half_life_days"
  "prior_mass_in_force (\<lambda>_. None) 10 = 0" "placement_floor_predictions (\<lambda>_. None) = 250"
  by code_simp+

lemma sample_floats: "fl 512 = 512" "fl (1/2) = 1/2" "fl 256 = 256" "fl 0 = 0" "fl 1 = 1"
  by code_simp+

lemma sample_standing:
  "\<exists>st. standing (\<lambda>x y. 1) (\<lambda>_. None) [sample_episode] 10 None None None 0 = Inr st \<and> average st = Some (1 / 2) \<and> placement_eligible st"
  by (simp add: standing_def episode_weighted_average_def sample_episode_def plain_episode_def unset default_to_def age_day_def EpisodeAverage.episode_weight_def Let_def
   fdiv_checked_def fmul_def fadd_def fdiv_def sample_floats scored_prediction_count_def in_window_def default_window_days_def default_half_life_days_def fsum_def)

lemma sample_placed: "\<exists>below. place_all (\<lambda>x y. 1) (\<lambda>_. None) 10 {''a''} sample_entries = Inr ([(''b'', 1 / 2)], below)"
proof -
  obtain st where "standing (\<lambda>x y. 1) (\<lambda>_. None) [sample_episode] 10 None None None 0 = Inr st" "average st = Some (1 / 2)" "placement_eligible st"
    using sample_standing by blast
  then show ?thesis by (simp add: place_all_def place_hotkey_def sample_entries_def)
qed

lemma cold_observation:
  "champion state = None \<Longrightarrow> \<exists>promotion. ChampionPromotion.observe_day state day standings scored_days params = Inr promotion"
  by (simp add: ChampionPromotion.observe_day_def Let_def)

lemma compute_succeeds:
  assumes "place_all powf environ day (as_evicted st) entries = Inr (placements, below)" and "curve_ok (as_curve st)" and "champion state = None"
  shows "\<exists>al. compute_daily_allocation powf environ entries day volume state st = Some (Inr al)"
proof -
  let ?i = "identity_layers st placements (first_audit environ below)"
  have ok: "dict_ok (id_placements ?i)" using place_all_placed [OF assms(1)] identity_layers_ok by blast
  obtain suppressed p hold a' where pay: "payment_layers st (scored_day_counts entries) (id_placements ?i) (id_audit ?i) = Some (Inr (suppressed, p, hold, a'))"
    and p: "dict_ok p" by (rule payment_layers_result [OF ok])
  have "dict_ok (some_standings p)" using p by (simp add: some_standings_def comp_def case_prod_unfold)
  then obtain v where "curve_weights (some_standings p) (as_curve st) [] = Inr v" by (rule curve_weights_spec [OF _ assms(2)])
  then obtain w where "weigh st volume p = Inr w" by (cases "day_gated st volume") (auto simp: weigh_def)
  moreover obtain promotion where "ChampionPromotion.observe_day state day (some_standings (id_placements ?i)) (scored_day_counts entries) (as_promotion st) = Inr promotion"
    using cold_observation [OF assms(3)] by blast
  ultimately show ?thesis by (simp add: compute_daily_allocation_def assms(1) Let_def andthen_def pay)
qed

lemma nothing_to_restore: "orphaned_payees [] named seniority preferred = Some (Inr {})"
proof -
  obtain r where "orphaned_payees [] named seniority preferred = Some (Inr r)" "\<And>x. x \<in> r \<Longrightarrow> x \<in> mentioned []"
    using restored_spec [of "[]" named seniority preferred] by blast
  then show ?thesis by (auto simp: mentioned_def)
qed

lemma sample_computed:
  assumes "as_evicted st = {''a''}" and "as_curve st = default_curve_params"
  shows "\<exists>al. compute_daily_allocation (\<lambda>x y. 1) (\<lambda>_. None) sample_entries 10 volume cold_start st = Some (Inr al)"
proof -
  obtain below where "place_all (\<lambda>x y. 1) (\<lambda>_. None) 10 (as_evicted st) sample_entries = Inr ([(''b'', 1 / 2)], below)"
    using sample_placed assms(1) by auto
  then show ?thesis by (rule compute_succeeds) (simp_all add: assms(2) cold_start_def)
qed

lemma sample_vector:
  assumes "compute_daily_allocation (\<lambda>x y. 1) (\<lambda>_. None) sample_entries 10 0 cold_start sample_settings = Some (Inr al)"
  shows "keys (al_weights al) = [''b'']"
proof (rule allocation_parts [OF assms], goal_cases)
  case (1 placements below promotion suppressed p hold a w)
  have out: "as_evicted sample_settings = {''a''}" by (simp add: sample_settings_def)
  have pl: "placements = [(''b'', 1 / 2)]" using 1(1) sample_placed unfolding out by auto
  have "p = placements" using 1(3)
    by (simp add: pl payment_layers_def copy_layer_def copy_sets_of_def named_copies_def identity_layers_def deregistered_def
      sample_settings_def no_stats_def nothing_to_restore andthen_def tenure_layer_def alpha_layer_def Let_def)
  then have "weigh sample_settings 0 placements = Inr w" using 1(4) by simp
  then obtain v where "curve_weights (some_standings placements) (as_curve sample_settings) [] = Inr v" "w = participation_scaled [] v"
    by (auto simp: weigh_def day_gated_def sample_settings_def)
  then have "keys w = keys placements" using curve_keys by (auto simp: participation_scaled_def some_standings_def)
  then show ?case using 1(5) pl by simp
qed

section \<open>Properties\<close>

text \<open>C2. Nobody is paid past a gate. A hotkey that appears in the published vector, at whatever weight: the
  day had its published volume; the hotkey is not evicted and holds a standing from its own entries with
  the evidence of the placement floor; it is registered (if the coldkeys were read), and no other hotkey
  of its coldkey is in the vector; if a copy test named it a copy, every copy it is connected to was named too (it is the one that
  was restored); it has its tenure, or nobody in the vector has (the gate stood down); and while the alpha
  hold is enforced it is not under the floor, or everybody in the vector is.\<close>

theorem da_paid_passes_every_gate:
  assumes "compute_daily_allocation powf environ entries day volume state st = Some (Inr al)"
    and "hk \<in> set (keys (al_weights al))"
  shows "\<not> day_gated st volume \<and>
    (\<exists>avg. map_of (al_standings al) hk = Some avg \<and> placed powf environ day (as_evicted st) entries hk avg) \<and>
    (as_coldkeys st = [] \<or> map_of (as_coldkeys st) hk \<noteq> None) \<and>
    (\<forall>ck. known_coldkey (as_coldkeys st) hk = Some ck \<longrightarrow>
      (\<forall>hk' \<in> set (keys (al_weights al)). known_coldkey (as_coldkeys st) hk' = Some ck \<longrightarrow> hk' = hk)) \<and>
    (hk \<in> named_copies st \<longrightarrow> (\<forall>y. connected_copies (copy_sets_of st) hk y \<longrightarrow> y \<in> named_copies st)) \<and>
    (0 < as_tenure_min st \<and> short_of_tenure st (scored_day_counts entries) hk \<longrightarrow>
      (\<forall>hk' \<in> set (keys (al_weights al)). short_of_tenure st (scored_day_counts entries) hk')) \<and>
    (as_alpha_enforced st \<and> 0 < as_alpha_floor st \<and> under_hold st hk \<longrightarrow>
      (\<forall>hk' \<in> set (keys (al_weights al)). under_hold st hk'))"
proof (rule in_vector [OF assms(1)], goal_cases)
  case (1 placements below suppressed)
  note pl = 1(1) and al = 1(2) and restored = 1(4) and gates = 1(5) [OF assms(2)] and one_seat = 1(6) and tenure = 1(7) and hold = 1(8)
  obtain avg where avg: "map_of placements hk = Some avg" using gates map_of_keys_iff by (metis list.set_map)
  then have "placed powf environ day (as_evicted st) entries hk avg" using place_all_placed [OF pl] by blast
  then have "\<exists>avg. map_of (al_standings al) hk = Some avg \<and> placed powf environ day (as_evicted st) entries hk avg" using avg al by blast
  then show ?case using gates restored one_seat [OF assms(2)] tenure hold assms(2) by blast
qed

text \<open>The small day: the second hotkey is in the vector, the evicted one is not.\<close>

theorem da_paid_passes_every_gate_witness:
  "\<exists>al. compute_daily_allocation (\<lambda>x y. 1) (\<lambda>_. None) sample_entries 10 0 cold_start sample_settings = Some (Inr al) \<and>
    ''b'' \<in> set (keys (al_weights al)) \<and> map_of (al_standings al) ''b'' \<noteq> None"
proof -
  obtain al where al: "compute_daily_allocation (\<lambda>x y. 1) (\<lambda>_. None) sample_entries 10 0 cold_start sample_settings = Some (Inr al)"
    using sample_computed [of sample_settings 0] by (auto simp: sample_settings_def)
  have b: "''b'' \<in> set (keys (al_weights al))" using sample_vector [OF al] by simp
  show ?thesis using da_paid_passes_every_gate [OF al b] al b by auto
qed

lemma positive_entries: "dict_ok w \<Longrightarrow> length (filter (\<lambda>(hk, x). 0 < x) w) = card {hk. \<exists>x. (hk, x) \<in> set w \<and> (0::float) < x}"
proof -
  assume ok: "dict_ok w"
  let ?f = "filter (\<lambda>(hk, x). 0 < x) w"
  have "length ?f = length (map fst ?f)" by simp
  also have "\<dots> = card (set (map fst ?f))" using distinct_map_filter [OF ok] by (simp only: distinct_card)
  also have "set (map fst ?f) = {hk. \<exists>x. (hk, x) \<in> set w \<and> 0 < x}" by force
  finally show ?thesis .
qed

text \<open>C31. Every computed allocation is well formed: the standings and the vector are dicts, one entry per hotkey;
  the vector only has hotkeys with a standing, and none of an evicted hotkey is a standing; the published
  earning-set size is the number of hotkeys with a positive weight; and the day is gated exactly when its
  volume is under the published minimum, with an empty vector then.\<close>

theorem da_allocation_well_formed:
  assumes "compute_daily_allocation powf environ entries day volume state st = Some (Inr al)"
  shows "dict_ok (al_standings al) \<and> dict_ok (al_weights al) \<and> set (keys (al_weights al)) \<subseteq> set (keys (al_standings al)) \<and>
    set (keys (al_standings al)) \<inter> as_evicted st = {} \<and>
    al_earning_set_size al = card {hk. \<exists>x. (hk, x) \<in> set (al_weights al) \<and> 0 < x} \<and>
    al_gated al = day_gated st volume \<and> (if al_gated al then al_weights al = [] else True)"
proof (rule in_vector [OF assms], goal_cases)
  case (1 placements below suppressed)
  note pl = 1(1) and al = 1(2) and gates = 1(5) and ok = 1(9)
  have shape: "al_earning_set_size al = length (filter (\<lambda>(hk, x). 0 < x) (al_weights al))" "al_gated al = day_gated st volume"
    by (rule allocation_parts [OF assms]; simp)+
  have "al_weights al = []" if "day_gated st volume" using gates that by (cases "al_weights al") fastforce+
  moreover have "set (keys placements) \<inter> as_evicted st = {}"
    using place_all_placed [OF pl] map_of_keys_iff unfolding placed_def by (metis (no_types, lifting) disjoint_iff list.set_map)
  moreover have "set (keys (al_weights al)) \<subseteq> set (keys placements)" using gates by blast
  ultimately show ?case using place_all_placed [OF pl] al ok shape positive_entries [OF ok] by simp
qed

text \<open>The small day.\<close>

theorem da_allocation_well_formed_witness:
  "\<exists>al. compute_daily_allocation (\<lambda>x y. 1) (\<lambda>_. None) sample_entries 10 0 cold_start sample_settings = Some (Inr al) \<and>
    dict_ok (al_weights al) \<and> ''a'' \<notin> set (keys (al_standings al))"
proof -
  obtain al where al: "compute_daily_allocation (\<lambda>x y. 1) (\<lambda>_. None) sample_entries 10 0 cold_start sample_settings = Some (Inr al)"
    using sample_computed [of sample_settings 0] by (auto simp: sample_settings_def)
  from da_allocation_well_formed [OF al] have "dict_ok (al_weights al)" "set (keys (al_standings al)) \<inter> {''a''} = {}"
    by (simp_all add: sample_settings_def)
  then show ?thesis using al by blast
qed

text \<open>C3. What the gates of payment decide never moves a standing or the champion. Two runs of a day on the
  same entries, from the same state, with the same evictions, coldkeys and promotion parameters, publish
  the same standings and decide the same promotion, whatever they are given for copies, lineage, tenure,
  alpha, participation, the curve and the volume of the day.\<close>

theorem da_payment_moves_no_standing:
  assumes "compute_daily_allocation powf environ entries day volume state st = Some (Inr al)"
    and "compute_daily_allocation powf environ entries day volume' state st' = Some (Inr al')"
    and "as_evicted st = as_evicted st'" and "as_coldkeys st = as_coldkeys st'" and "as_commit_block st = as_commit_block st'"
    and "as_promotion st = as_promotion st'"
  shows "al_standings al = al_standings al' \<and> al_promotion al = al_promotion al' \<and> al_evicted al = al_evicted al'"
proof -
  have same: "identity_layers st = identity_layers st'" using assms(4,5) by (intro ext) (simp only: identity_layers_def)
  show ?thesis
  proof (rule allocation_parts [OF assms(1)], rule allocation_parts [OF assms(2)], goal_cases)
    case (1 placements below promotion suppressed p hold a w placements' below' promotion' suppressed' p' hold' a' w')
    have "placements = placements'" "below = below'" using 1(1,6) assms(3) by simp_all
    moreover from this have "promotion = promotion'" using 1(2,7) by (simp add: same assms(6))
    ultimately show ?case unfolding 1(5,10) by (simp add: assms(3))
  qed
qed

text \<open>The small day, once at its published volume and once below it.\<close>

theorem da_payment_moves_no_standing_witness:
  "\<exists>al al'. compute_daily_allocation (\<lambda>x y. 1) (\<lambda>_. None) sample_entries 10 0 cold_start sample_settings = Some (Inr al) \<and>
    compute_daily_allocation (\<lambda>x y. 1) (\<lambda>_. None) sample_entries 10 0 cold_start (sample_settings\<lparr>as_min_daily := 150\<rparr>) = Some (Inr al') \<and>
    al_standings al = al_standings al' \<and> al_promotion al = al_promotion al'"
proof -
  let ?st = "sample_settings\<lparr>as_min_daily := 150\<rparr>"
  obtain al where al: "compute_daily_allocation (\<lambda>x y. 1) (\<lambda>_. None) sample_entries 10 0 cold_start sample_settings = Some (Inr al)"
    using sample_computed [of sample_settings 0] by (auto simp: sample_settings_def)
  obtain al' where al': "compute_daily_allocation (\<lambda>x y. 1) (\<lambda>_. None) sample_entries 10 0 cold_start ?st = Some (Inr al')"
    using sample_computed [of ?st 0] by (auto simp: sample_settings_def)
  show ?thesis using da_payment_moves_no_standing [OF al al'] al al' by (simp add: sample_settings_def)
qed

lemma compute_returns: "compute_daily_allocation powf environ entries day volume state st \<noteq> None"
proof (cases "place_all powf environ day (as_evicted st) entries")
  case (Inr x)
  obtain placements below where x: "x = (placements, below)" by fastforce
  let ?i = "identity_layers st placements (first_audit environ below)"
  have "dict_ok (id_placements ?i)" using place_all_placed Inr x identity_layers_ok by blast
  then obtain suppressed p hold a' where "payment_layers st (scored_day_counts entries) (id_placements ?i) (id_audit ?i) = Some (Inr (suppressed, p, hold, a'))"
    by (rule payment_layers_result)
  then show ?thesis by (auto simp: compute_daily_allocation_def Inr x Let_def andthen_def split: sum.splits)
qed (simp add: compute_daily_allocation_def)

text \<open>C5. A copy set can be left with no earner at all. When the payee of a group is evicted, and nothing
  else names it a copy, every copy of the group is taken out on its account and the restoration does not
  see that the payee itself cannot be paid: nobody of the group is in the vector, although the rule is
  exactly one earner per model, never none.\<close>

theorem da_evicted_payee_leaves_no_earner:
  assumes "compute_daily_allocation powf environ entries day volume state st = Some (Inr al)"
    and "g \<in> set (as_groups st)" and "original g \<in> as_evicted st" and "original g \<noteq> []" and "original g \<notin> named_copies st"
  shows "set (group_all g) \<inter> set (keys (al_weights al)) = {}"
proof -
  have "hk \<notin> set (keys (al_weights al))" if hk: "hk \<in> set (group_all g)" for hk
  proof (rule in_vector [OF assms(1)], goal_cases)
    case (1 placements below suppressed)
    note pl = 1(1) and restored = 1(4) and gates = 1(5) [of hk]
    have "hk \<in> suppressed \<or> hk \<notin> set (keys placements)"
    proof (cases "hk = original g")
      case True
      then show ?thesis using place_all_placed [OF pl] assms(3) map_of_keys_iff unfolding placed_def by (metis list.set_map)
    next
      case False
      then have copy: "hk \<in> set (copies g)" using hk by (simp add: group_all_def)
      let ?c = "(Some (original g), copies g) :: copy_group"
      have c: "?c \<in> set (copy_sets_of st)" using assms(2) by (auto simp: copy_sets_of_def)
      have "hk \<in> named_copies st" using copy assms(2) by (auto simp: named_copies_def)
      moreover have "connected_copies (copy_sets_of st) hk (original g)" if "hk \<noteq> []"
        by (rule connected_group [OF c]) (use copy assms(4) that in \<open>simp_all add: group_members_def\<close>)
      moreover have "hk \<in> mentioned (copy_sets_of st) \<Longrightarrow> hk \<noteq> []" by (auto simp: mentioned_def group_members_def)
      ultimately show ?thesis using restored assms(5) by blast
    qed
    then show ?case using gates by blast
  qed
  then show ?thesis by blast
qed

text \<open>The small day with the second hotkey a copy of the evicted one: it holds a standing and is not paid.\<close>

theorem da_evicted_payee_leaves_no_earner_witness:
  "\<exists>al. compute_daily_allocation (\<lambda>x y. 1) (\<lambda>_. None) sample_entries 10 0 cold_start
      (sample_settings\<lparr>as_groups := [\<lparr>group_kind = SameLineage, original = ''a'', copies = [''b''], evidence = [], group_digest = None\<rparr>]\<rparr>) = Some (Inr al) \<and>
    ''b'' \<notin> set (keys (al_weights al))"
proof -
  let ?g = "\<lparr>group_kind = SameLineage, original = ''a'', copies = [''b''], evidence = [], group_digest = None\<rparr>"
  let ?st = "sample_settings\<lparr>as_groups := [?g]\<rparr>"
  obtain al where al: "compute_daily_allocation (\<lambda>x y. 1) (\<lambda>_. None) sample_entries 10 0 cold_start ?st = Some (Inr al)"
    using sample_computed [of ?st 0] by (auto simp: sample_settings_def)
  have "set (group_all ?g) \<inter> set (keys (al_weights al)) = {}"
    by (rule da_evicted_payee_leaves_no_earner [OF al]) (simp_all add: sample_settings_def named_copies_def)
  then show ?thesis using al by (auto simp: group_all_def)
qed


section \<open>Dry runs\<close>

text \<open>A ledger that only differs in the log of the promotion events.\<close>

definition logged_after :: "ledger \<Rightarrow> ledger \<Rightarrow> bool" where
  "logged_after L L' \<longleftrightarrow> L' = L \<or> (\<exists>evs. L' = L\<lparr>made := True, promotion_log := evs\<rparr>)"

lemma logged_after_append: "logged_after L L' \<Longrightarrow> logged_after L (append_promotion_event L' ev)"
  by (auto simp: logged_after_def append_promotion_event_def)

lemma force_vacate_logged: "logged_after L L' \<Longrightarrow> logged_after L (fst (force_vacate persist day why leavers (L', state)))"
  using logged_after_append by (auto simp: force_vacate_def Let_def split: option.splits)

lemma force_vacate_state: "snd (force_vacate persist day why leavers (L, state)) = snd (force_vacate persist' day why leavers (L', state))"
  by (simp add: force_vacate_def Let_def split: option.splits)

lemma force_vacate_dry: "fst (force_vacate False day why leavers (L, state)) = L"
  by (simp add: force_vacate_def Let_def split: option.splits)

lemma seat_in_force_logged: "logged_after L (fst (seat_in_force L state day persist chronic gone_today))"
proof -
  have "logged_after L (fst (force_vacate persist day ''chronic_failure_eviction'' chronic (L, state)))"
    by (rule force_vacate_logged) (simp add: logged_after_def)
  then show ?thesis unfolding seat_in_force_def
    by (cases "force_vacate persist day ''chronic_failure_eviction'' chronic (L, state)") (simp add: force_vacate_logged)
qed

lemma seat_in_force_dry: "seat_in_force L state day False chronic gone_today = (L, snd (seat_in_force L state day True chronic gone_today))"
proof -
  obtain L' s where f: "force_vacate True day ''chronic_failure_eviction'' chronic (L, state) = (L', s)" by fastforce
  have "force_vacate False day ''chronic_failure_eviction'' chronic (L, state) = (L, s)"
    using force_vacate_dry force_vacate_state [of False day "''chronic_failure_eviction''" chronic L state True L] f by (metis prod.collapse snd_conv)
  then show ?thesis unfolding seat_in_force_def f
    using force_vacate_dry force_vacate_state [of False day "''unchanged_model_removed''" gone_today L s True L'] by (metis prod.collapse)
qed

lemma absolute_logged:
  assumes "ledger_ok L" and "logged_after L L'"
  shows "absolute_standings powf R L' day environ = absolute_standings powf R L day environ"
proof -
  have "load_entries (L\<lparr>made := True, promotion_log := evs\<rparr>) d w = load_entries L d w" for evs d w
    using assms(1) by (auto simp: load_entries_def load_cancellations_def entry_listing_def ledger_ok_def)
  moreover have "net_penalties (L\<lparr>made := True, promotion_log := evs\<rparr>) d w = net_penalties L d w" for evs d w
    by (simp add: net_penalties_def load_cancellations_def)
  ultimately show ?thesis using assms(2) by (auto simp: logged_after_def absolute_standings_def load_relative_entries_def)
qed

text \<open>C6. A dry run computes exactly what the run would, and writes nothing to the ledger: same allocation
  (or the same error), same indexes of the receipts (a dry run builds them too), and the ledger as it was.\<close>

theorem da_dry_run_writes_nothing:
  assumes "ledger_ok (dw_ledger W)"
  shows "allocation_from_ledger powf H dumps inherited failure environ W day volume min_daily curve promo chain False =
    map_option (map_sum (\<lambda>(e, L, S). (e, dw_ledger W, S)) (\<lambda>(L, S, al). (dw_ledger W, S, al)))
      (allocation_from_ledger powf H dumps inherited failure environ W day volume min_daily curve promo chain True)"
proof -
  obtain S suppressed stats where c: "copies_today H dumps inherited failure (dw_copies W) day environ = (S, suppressed, stats)"
    using prod_cases3 by blast
  have abs: "absolute_standings powf R (fst (seat_in_force (dw_ledger W) state day True chronic gone_today)) day environ
      = absolute_standings powf R (dw_ledger W) day environ" for R state chronic gone_today
    by (rule absolute_logged [OF assms seat_in_force_logged])
  show ?thesis
    unfolding allocation_from_ledger_def c raising_at_def Let_def seat_in_force_dry
    by (simp add: case_prod_unfold abs persist_promotion_def split: option.splits sum.splits)
qed


text \<open>A day whose ledger is empty.\<close>

definition sample_world :: day_world where
  "sample_world = \<lparr>dw_ledger = empty_ledger, dw_shadow = [], dw_unchanged = None, dw_copies = sample_store\<rparr>"

definition no_chain :: chain_reads where
  "no_chain = \<lparr>cr_coldkeys = [], cr_commit_block = [], cr_alpha_of = None, cr_alpha_floor = 0\<rparr>"

theorem da_dry_run_writes_nothing_witness:
  "allocation_from_ledger (\<lambda>x y. 1) (\<lambda>_. 0) (\<lambda>_. []) (\<lambda>_. None) None (\<lambda>_. None) sample_world 10 0 None default_curve_params default_promotion_params no_chain False =
    map_option (map_sum (\<lambda>(e, L, S). (e, empty_ledger, S)) (\<lambda>(L, S, al). (empty_ledger, S, al)))
      (allocation_from_ledger (\<lambda>x y. 1) (\<lambda>_. 0) (\<lambda>_. []) (\<lambda>_. None) None (\<lambda>_. None) sample_world 10 0 None default_curve_params default_promotion_params no_chain True)"
  using da_dry_run_writes_nothing [of sample_world] by (simp add: sample_world_def ledger_ok_def empty_ledger_def)

section \<open>Every run returns\<close>

lemma andthen_None: "andthen m f = None \<longleftrightarrow> m = None \<or> (\<exists>x. m = Some (Inr x) \<and> f x = None)"
  by (auto simp: andthen_def split: option.splits sum.splits)

lemma lineage_collisions_return:
  assumes "dict_ok predictions"
  shows "lineage_collisions powf predictions actuals params precedence edge min_rows \<noteq> None"
proof -
  have d: "distinct (sort (keys predictions))" using assms by simp
  have c: "components (sort (keys predictions)) linked \<noteq> None" for linked using components_ok [OF d, of linked] by auto
  show ?thesis unfolding lineage_collisions_def Let_def using c by (simp add: andthen_None del: not_None_eq split: sum.splits)
qed

lemma lineage_returns: "lineage_from_receipts powf dumps S day environ \<noteq> None"
  unfolding lineage_from_receipts_def Let_def
  by (simp only: andthen_None lineage_collisions_return [OF conjunct1 [OF prediction_rows]] split: if_split prod.split) simp

lemma returning:
  "(\<And>x. f x \<noteq> None) \<Longrightarrow> raising_at w r f \<noteq> None"
  "m \<noteq> None \<Longrightarrow> (\<And>x. f x \<noteq> None) \<Longrightarrow> (case m of None \<Rightarrow> None | Some x \<Rightarrow> f x) \<noteq> None"
  by (auto simp: raising_at_def split: sum.splits option.splits)

text \<open>C32. The day's allocation always returns, with an allocation or with the error it raised: the union-finds
  of the lineage components and of the restored payees come to an end on every input.\<close>

theorem da_run_always_returns:
  "\<exists>r. allocation_from_ledger powf H dumps inherited failure environ W day volume min_daily curve promo chain persist = Some r"
proof -
  have f: "flag_emptied powf inherited entries day volume state st al \<noteq> None" for entries state st al
    by (simp add: flag_emptied_def andthen_None compute_returns del: not_None_eq)
  have "allocation_from_ledger powf H dumps inherited failure environ W day volume min_daily curve promo chain persist \<noteq> None"
    unfolding allocation_from_ledger_def Let_def case_prod_unfold
    by (intro returning lineage_returns compute_returns f option.distinct(2))
  then show ?thesis by blast
qed


section \<open>The committer reads\<close>

text \<open>What Python reads as a number, and \<open>int(x or 0)\<close> as a whole one.\<close>

definition reads_number :: "json \<Rightarrow> float \<Rightarrow> bool" where
  "reads_number j x \<longleftrightarrow> j = JNum x \<or> j = JBool True \<and> x = 1 \<or> j = JBool False \<and> x = 0 \<or> (\<exists>s. j = JStr s \<and> py_float s = Some x)"

definition reads_whole :: "json \<Rightarrow> int \<Rightarrow> bool" where
  "reads_whole j n \<longleftrightarrow> j \<in> {JNull, JBool False, JStr [], JList [], JDict []} \<and> n = 0 \<or>
     (\<exists>x. j = JNum x \<and> n = (if 0 \<le> x then \<lfloor>x\<rfloor> else \<lceil>x\<rceil>)) \<or> j = JBool True \<and> n = 1 \<or>
     (\<exists>s. j = JStr s \<and> s \<noteq> [] \<and> py_int s = Some n)"

lemma num_of_reads: "num_of j = Inr x \<longleftrightarrow> reads_number j x"
  by (cases j) (auto simp: num_of_def reads_number_def split: option.splits)

lemma int_or_zero_reads: "int_or_zero j = Inr n \<longleftrightarrow> reads_whole j n" "int_or_zero j = Inl e \<Longrightarrow> e = TypeError \<or> e = ValueError"
proof -
  show "int_or_zero j = Inr n \<longleftrightarrow> reads_whole j n"
    by (cases j) (auto simp: int_or_zero_def int_of_def PyJson.truthy_def reads_whole_def split: option.splits)
  show "int_or_zero j = Inl e \<Longrightarrow> e = TypeError \<or> e = ValueError"
    by (cases j) (auto simp: int_or_zero_def int_of_def split: option.splits if_splits)
qed

lemma published_fold:
  "case fold_sum (\<lambda>out (hk, x). map_sum id (\<lambda>v. AList.update hk v out) (num_of x)) out raw of
     Inl e \<Rightarrow> \<exists>(hk, v) \<in> set raw. \<forall>x. \<not> reads_number v x
   | Inr w \<Rightarrow> (\<forall>(hk, v) \<in> set raw. \<exists>x. reads_number v x) \<and>
       (\<forall>hk. case map_of (rev raw) hk of None \<Rightarrow> map_of w hk = map_of out hk | Some v \<Rightarrow> \<exists>x. reads_number v x \<and> map_of w hk = Some x)"
proof (induction raw arbitrary: out)
  case (Cons item raw)
  obtain k v where item: "item = (k, v)" by (cases item)
  show ?case
  proof (cases "num_of v")
    case (Inl e)
    then have "\<forall>x. \<not> reads_number v x" using num_of_reads [of v] by simp
    then show ?thesis using Inl by (auto simp: item)
  next
    case (Inr x)
    then have x: "reads_number v x" using num_of_reads by blast
    let ?f = "\<lambda>out (hk, x). map_sum id (\<lambda>v. AList.update hk v out) (num_of x)"
    have r: "fold_sum ?f out (item # raw) = fold_sum ?f (AList.update k x out) raw" using Inr by (simp add: item)
    show ?thesis
    proof (cases "fold_sum ?f (AList.update k x out) raw")
      case (Inl e)
      then show ?thesis using Cons.IH [of "AList.update k x out"] unfolding r Inl by auto
    next
      case (Inr w)
      note IH = Cons.IH [of "AList.update k x out", unfolded Inr sum.case]
      have "case map_of (rev (item # raw)) hk of None \<Rightarrow> map_of w hk = map_of out hk | Some v \<Rightarrow> \<exists>x. reads_number v x \<and> map_of w hk = Some x" for hk
        using IH [THEN conjunct2, rule_format, of hk] x by (cases "map_of (rev raw) hk") (auto simp: item map_add_def map_of_update)
      then show ?thesis using IH x unfolding r Inr by (auto simp: item)
    qed
  qed
qed simp

lemma published_allocation_spec:
  "let volume = jget payload ''day_episode_volume''; size = jget payload ''earning_set_size''; r = published_allocation payload today w in
   if (\<nexists>n. reads_whole volume n) \<or> (\<nexists>n. reads_whole size n) then r = Inl TypeError \<or> r = Inl ValueError
   else \<exists>al n. r = Inr al \<and> al_gated al = PyJson.truthy (jget payload ''gated'') \<and> reads_whole volume (al_volume al) \<and>
     reads_whole size n \<and> al_earning_set_size al = nat n \<and> al_weights al = w"
proof -
  let ?v = "jget payload ''day_episode_volume''" and ?s = "jget payload ''earning_set_size''" and ?r = "published_allocation payload today w"
  show ?thesis
  proof (cases "\<exists>n m. reads_whole ?v n \<and> reads_whole ?s m")
    case True
    then obtain n m where nm: "reads_whole ?v n" "reads_whole ?s m" by blast
    then have "int_or_zero ?v = Inr n" "int_or_zero ?s = Inr m" using int_or_zero_reads(1) by blast+
    then obtain al where al: "?r = Inr al" "al_gated al = PyJson.truthy (jget payload ''gated'')" "al_volume al = n" "al_earning_set_size al = nat m" "al_weights al = w"
      by (simp add: published_allocation_def and_then_def)
    have some: "\<not> ((\<nexists>n. reads_whole ?v n) \<or> (\<nexists>n. reads_whole ?s n))" using nm by blast
    show ?thesis unfolding Let_def if_not_P [OF some] using al nm by blast
  next
    case False
    have "\<not> (\<exists>n m. int_or_zero ?v = Inr n \<and> int_or_zero ?s = Inr m)" unfolding int_or_zero_reads(1) by (rule False)
    then obtain e where "?r = Inl e" "e = TypeError \<or> e = ValueError"
      using int_or_zero_reads(2) [of ?v] int_or_zero_reads(2) [of ?s]
      by (cases "int_or_zero ?v"; cases "int_or_zero ?s") (auto simp: published_allocation_def and_then_def)
    moreover have none: "(\<nexists>n. reads_whole ?v n) \<or> (\<nexists>n. reads_whole ?s n)" using False by blast
    ultimately show ?thesis unfolding Let_def if_P [OF none] by blast
  qed
qed

text \<open>C33. What the committer takes from the published document, completely. Nothing fetched: the previous vector
  is held (gated, no weights). A document that is no object, or whose weights are a non-empty value that
  is no object: AttributeError, which no handler catches. A weight that is not a number: the previous
  vector is held. Otherwise a volume or an earning-set size that is not a number raises TypeError or
  ValueError; and in every other case the allocation has exactly the published weights, each the number
  its text denotes, under the published gate, volume and size, and no weight for anybody else.\<close>

theorem da_committer_never_makes_up_weights:
  "allocation_from_api None today = Inr (held_allocation today) \<and>
   (let r = allocation_from_api (Some payload) today; raw = jget payload ''weights'';
        volume = jget payload ''day_episode_volume''; size = jget payload ''earning_set_size'' in
      if (\<nexists>d. payload = JDict d) \<or> raw \<notin> {JNull, JBool False, JNum 0, JStr [], JList []} \<and> (\<nexists>d. raw = JDict d) then r = Inl AttributeError
      else if \<exists>(hk, v) \<in> set (json_fields raw). \<forall>x. \<not> reads_number v x then r = Inr (held_allocation today)
      else if (\<nexists>n. reads_whole volume n) \<or> (\<nexists>n. reads_whole size n) then r = Inl TypeError \<or> r = Inl ValueError
      else \<exists>al n. r = Inr al \<and> al_gated al = PyJson.truthy (jget payload ''gated'') \<and> reads_whole volume (al_volume al) \<and>
        reads_whole size n \<and> al_earning_set_size al = nat n \<and>
        (\<forall>hk. case map_of (rev (json_fields raw)) hk of None \<Rightarrow> map_of (al_weights al) hk = None
           | Some v \<Rightarrow> \<exists>x. reads_number v x \<and> map_of (al_weights al) hk = Some x))"
proof -
  let ?r = "allocation_from_api (Some payload) today" and ?raw = "jget payload ''weights''"
  let ?v = "jget payload ''day_episode_volume''" and ?s = "jget payload ''earning_set_size''"
  have obj: "is_object j \<longleftrightarrow> (\<exists>d. j = JDict d)" for j by (cases j) (simp_all add: is_object_def)
  have odd: "PyJson.truthy j \<and> \<not> is_object j \<longleftrightarrow> j \<notin> {JNull, JBool False, JNum 0, JStr [], JList []} \<and> (\<nexists>d. j = JDict d)" for j
    by (cases j) (simp_all add: is_object_def PyJson.truthy_def)
  have c: "((\<nexists>d. payload = JDict d) \<or> ?raw \<notin> {JNull, JBool False, JNum 0, JStr [], JList []} \<and> (\<nexists>d. ?raw = JDict d)) =
      (\<not> is_object payload \<or> PyJson.truthy ?raw \<and> \<not> is_object ?raw)" unfolding odd unfolding obj ..
  have none: "allocation_from_api None today = Inr (held_allocation today)" by (simp add: allocation_from_api_def)
  consider (bad) "\<not> is_object payload \<or> PyJson.truthy ?raw \<and> \<not> is_object ?raw"
    | (ok) "is_object payload" "\<not> (PyJson.truthy ?raw \<and> \<not> is_object ?raw)" by blast
  then show ?thesis
  proof cases
    case bad
    then have "?r = Inl AttributeError" by (auto simp: allocation_from_api_def)
    then show ?thesis unfolding Let_def c if_P [OF bad] using none by blast
  next
    case ok
    have good: "\<not> (\<not> is_object payload \<or> PyJson.truthy ?raw \<and> \<not> is_object ?raw)" using ok by blast
    note w = published_fold [where out = "[]" and raw = "json_fields ?raw", folded published_weights_def]
    show ?thesis
    proof (cases "published_weights (json_fields ?raw)")
      case (Inl e)
      then have "?r = Inr (held_allocation today)" using ok by (simp add: allocation_from_api_def Let_def)
      moreover have "\<exists>(hk, v) \<in> set (json_fields ?raw). \<forall>x. \<not> reads_number v x" using w Inl by simp
      ultimately show ?thesis unfolding Let_def c if_not_P [OF good] using none by (simp only: if_True simp_thms)
    next
      case (Inr pw)
      have all: "\<not> (\<exists>(hk, v) \<in> set (json_fields ?raw). \<forall>x. \<not> reads_number v x)"
        and val: "\<forall>hk. case map_of (rev (json_fields ?raw)) hk of None \<Rightarrow> map_of pw hk = None | Some v \<Rightarrow> \<exists>x. reads_number v x \<and> map_of pw hk = Some x"
        using w unfolding Inr sum.case map_of.simps(1) by (fastforce, blast)
      have r: "?r = published_allocation payload today pw"
        unfolding allocation_from_api_def Let_def option.case if_not_P [OF ok(2)] Inr sum.case using ok(1) by simp
      note spec = published_allocation_spec [of payload today pw, unfolded Let_def]
      show ?thesis
      proof (cases "(\<nexists>n. reads_whole ?v n) \<or> (\<nexists>n. reads_whole ?s n)")
        case True
        show ?thesis unfolding Let_def c if_not_P [OF good] if_not_P [OF all] r if_P [OF True]
          using none spec unfolding if_P [OF True] by blast
      next
        case False
        show ?thesis unfolding Let_def c if_not_P [OF good] if_not_P [OF all] r if_not_P [OF False]
          using none spec val unfolding if_not_P [OF False] by blast
      qed
    qed
  qed
qed

definition published_document :: "json \<Rightarrow> json \<Rightarrow> json" where
  "published_document w v = JDict [(''weights'', JDict [(''a'', JNum 1), (''b'', w)]), (''gated'', JBool False), (''day_episode_volume'', v)]"

lemma published_document_reads:
  "jget (published_document w v) ''weights'' = JDict [(''a'', JNum 1), (''b'', w)]" "jget (published_document w v) ''day_episode_volume'' = v"
  "jget (published_document w v) ''earning_set_size'' = JNull" "jget (published_document w v) ''gated'' = JBool False"
  "\<exists>d. published_document w v = JDict d" "json_fields (JDict d) = d"
  by (simp_all add: published_document_def jget_JDict json_fields_def)

lemma sample_reads_values:
  "reads_number (JNum y) x \<longleftrightarrow> x = y" "reads_number (JBool False) x \<longleftrightarrow> x = 0" "\<not> reads_number (JList []) x"
  "Ex (reads_whole (JNum 3))" "Ex (reads_whole JNull)" "\<nexists>n. reads_whole (JList [JNull]) n" "reads_whole (JNum 3) n \<longleftrightarrow> n = 3" "reads_whole JNull n \<longleftrightarrow> n = 0" "\<not> reads_whole (JList [JNull]) n"
  by (auto simp: reads_number_def reads_whole_def)

text \<open>A good document, one with a weight that is not a number, and one with a volume that is not.\<close>

theorem da_committer_never_makes_up_weights_witness:
  "(\<exists>al. allocation_from_api (Some (published_document (JBool False) (JNum 3))) 7 = Inr al \<and> \<not> al_gated al \<and> al_volume al = 3 \<and>
      map_of (al_weights al) ''a'' = Some 1 \<and> map_of (al_weights al) ''b'' = Some 0 \<and> map_of (al_weights al) ''c'' = None) \<and>
   allocation_from_api (Some (published_document (JList []) (JNum 3))) 7 = Inr (held_allocation 7) \<and>
   isl (allocation_from_api (Some (published_document (JBool False) (JList [JNull]))) 7)"
proof (intro conjI, goal_cases)
  case 1
  obtain al n where al: "allocation_from_api (Some (published_document (JBool False) (JNum 3))) 7 = Inr al" "\<not> al_gated al" "al_volume al = 3"
    "\<forall>hk. case map_of (rev [(''a'', JNum 1), (''b'', JBool False)]) hk of None \<Rightarrow> map_of (al_weights al) hk = None
       | Some v \<Rightarrow> \<exists>x. reads_number v x \<and> map_of (al_weights al) hk = Some x"
    using da_committer_never_makes_up_weights [of 7 "published_document (JBool False) (JNum 3)"]
    unfolding Let_def published_document_reads by (auto simp: published_document_reads sample_reads_values PyJson.truthy_def)
  then show ?case using al(4) [rule_format, of "''a''"] al(4) [rule_format, of "''b''"] al(4) [rule_format, of "''c''"]
    by (auto simp: sample_reads_values)
next
  case 2
  then show ?case using da_committer_never_makes_up_weights [of 7 "published_document (JList []) (JNum 3)"]
    unfolding Let_def published_document_reads by (auto simp: published_document_reads sample_reads_values)
next
  case 3
  then show ?case using da_committer_never_makes_up_weights [of 7 "published_document (JBool False) (JList [JNull])"]
    unfolding Let_def published_document_reads by (auto simp: published_document_reads sample_reads_values)
qed


section \<open>What the audit does not say\<close>

text \<open>No layer writes a key \<open>groups\<close> at the top of the audit.\<close>

lemma put_other: "k \<noteq> j \<Longrightarrow> map_of (put k v a) j = map_of a j" "k \<noteq> j \<Longrightarrow> map_of (put_if c k v a) j = map_of a j"
  by (simp_all add: put_def put_if_def map_of_update)

lemma identity_no_groups: "map_of (id_audit (identity_layers st placements a)) ''groups'' = map_of a ''groups''"
  by (simp add: identity_layers_def Let_def put_other)

lemma copy_no_groups:
  "copy_layer st placements a = Some (Inr (suppressed, p, a')) \<Longrightarrow> map_of a' ''groups'' = map_of a ''groups''"
  by (auto simp: copy_layer_def andthen_def Let_def put_other split: option.splits sum.splits)

lemma tenure_no_groups: "map_of (snd (tenure_layer st scored_days placements a)) ''groups'' = map_of a ''groups''"
  by (simp add: tenure_layer_def Let_def put_other)

lemma alpha_no_groups: "map_of (snd (snd (alpha_layer st placements a))) ''groups'' = map_of a ''groups''"
  by (simp add: alpha_layer_def Let_def put_other split: option.splits)

lemma payment_no_groups:
  assumes "payment_layers st scored_days placements a = Some (Inr (suppressed, p, hold, a'))"
  shows "map_of a' ''groups'' = map_of a ''groups''"
proof -
  obtain s1 p1 a1 where c: "copy_layer st placements a = Some (Inr (s1, p1, a1))"
    using assms by (auto simp: payment_layers_def andthen_def split: option.splits sum.splits)
  obtain p2 a2 where t: "tenure_layer st scored_days p1 a1 = (p2, a2)" by fastforce
  obtain p3 hold' a3 where h: "alpha_layer st p2 a2 = (p3, hold', a3)" using prod_cases3 by blast
  have "a' = a3 \<or> (\<exists>v. a' = put ''lineage'' v a3)" using assms by (auto simp: payment_layers_def c andthen_def t h split: if_splits)
  then have "map_of a' ''groups'' = map_of a3 ''groups''" by (auto simp: put_other)
  then show ?thesis using copy_no_groups [OF c] tenure_no_groups [of st scored_days p1 a1] alpha_no_groups [of st p2 a2] by (simp add: t h)
qed

lemma allocation_no_groups:
  assumes "compute_daily_allocation powf environ entries day volume state st = Some (Inr al)"
  shows "map_of (al_audit al) ''groups'' = None"
proof (rule allocation_parts [OF assms], goal_cases)
  case (1 placements below promotion suppressed p hold a w)
  have "map_of a ''groups'' = None" using payment_no_groups [OF 1(3)] by (simp add: identity_no_groups first_audit_def)
  then show ?case using 1(5) by (simp add: put_other)
qed

lemma with_accuracy_no_groups: "map_of (al_audit (with_accuracy absolute al)) ''groups'' = map_of (al_audit al) ''groups''"
  by (simp add: with_accuracy_def Let_def put_other)

lemma run_no_groups:
  assumes "allocation_from_ledger powf H dumps inherited failure environ W day volume min_daily curve promo chain persist = Some (Inr (L, S, al))"
  shows "map_of (al_audit al) ''groups'' = None"
proof -
  obtain entries state st computed absolute where c: "compute_daily_allocation powf inherited entries day volume state st = Some (Inr computed)"
    and f: "flag_emptied powf inherited entries day volume state st (with_accuracy absolute computed) = Some (Inr al)"
    using assms
    by (auto simp: allocation_from_ledger_def raising_at_def Let_def case_prod_unfold split: option.splits sum.splits)
  have "al_audit al = al_audit (with_accuracy absolute computed)"
    using f by (auto simp: flag_emptied_def andthen_def split: if_splits option.splits sum.splits)
  then show ?thesis using allocation_no_groups [OF c] by (simp add: with_accuracy_no_groups)
qed

end
