(* ===== verification/Spec2Isabelle.thy ===== *)
theory Spec2Isabelle
  imports ReleaseLedger MerkleFeed IndexedMerkle UnchangedModels DailyAllocation
begin

text \<open>
  A verification library of the validator of the subnet: how forecasts that were scored become standings,
  how standings become the weights of a day, and what is published about both.

  \<^bold>\<open>The program.\<close> Miners commit container images. Every day each image runs on a basket of episodes
  (\<open>hope/backtest/shadow.py\<close> records the runs); outcomes that settle are scored and appended to the standing
  ledger (\<open>hope/scoring/daily_score_flow.py\<close>, \<open>standing_ledger.py\<close>), and a miner that missed its episodes is
  charged (\<open>absence_penalty.py\<close>). The standing of a miner is an age-weighted mean of its entries
  (\<open>episode_average.py\<close>), absolute or relative to the field (\<open>standing_method.py\<close>, \<open>model_epoch.py\<close>).
  \<open>hope/validator/daily_stream_weights.py\<close> puts the day together: it places the miners with enough evidence,
  removes the evicted (\<open>chronic_failure.py\<close>) and the removed (\<open>hope/backtest/unchanged_models.py\<close>), seats one
  hotkey per coldkey (\<open>coldkey_cap.py\<close>), observes the champion (\<open>champion_promotion.py\<close>), takes out copies
  (\<open>duplication.py\<close>), short tenure (\<open>tenure.py\<close>) and thin alpha holds, draws the reward curve
  (\<open>weight_curve.py\<close>), scales it by participation (\<open>participation.py\<close>), and publishes the vector with its audit.
  The alpha floor and the capture path (\<open>collateral_floor.py\<close>, \<open>collateral_gate.py\<close>) work on the chain side;
  the release ledger (\<open>hope/privacy/release_ledger.py\<close>) reads the published days and opens models that left
  the earning set; the feed and the commitments are Merkle trees (\<open>hope/publication/merkle.py\<close>,
  \<open>hope/commitment/imt.py\<close>). Files without a directory are under \<open>hope/scoring\<close>.

  \<^bold>\<open>The theories.\<close>
  \<^item> \<open>Prelude\<close>, \<open>PyFloat\<close>, \<open>PyJson\<close>, \<open>Hashing\<close>: dicts as association lists in insertion order, dates as day
    numbers, environments, sorting keys; binary64 arithmetic as exact rationals rounded by \<open>fl\<close>; loaded JSON
    documents; byte strings under a hash that is a parameter. \<open>Interfaces\<close>: the locales the components
    share, each interpreted in the theory of a component that provides it.
  \<^item> \<open>ShadowLedger\<close>, \<open>UnchangedModels\<close>, \<open>ModelEpoch\<close>: what ran on which day, the count of days a model ran
    unchanged and its removal, and the day a hotkey changed its model.
  \<^item> \<open>ScoreFlow\<close>, \<open>StandingLedger\<close>, \<open>AbsencePenalty\<close>: what is written for a scored day, the files and their
    compaction, the charges and their cancellation.
  \<^item> \<open>EpisodeAverage\<close>, \<open>StandingMethod\<close>: the mean and the dated amendments; receipts, their index, the field
    means and both loaders.
  \<^item> \<open>ChronicFailure\<close>, \<open>ChampionPromotion\<close>, \<open>EarningGates\<close> (participation, tenure, coldkey cap), \<open>WeightCurve\<close>:
    who is out, who holds the seat, who may be paid, and the shares.
  \<^item> \<open>CopySets\<close>, \<open>CopyDetection\<close>, \<open>CopyReceipts\<close>: the union-find that restores payees; the exact and the
    four-signal copy tests with the one-payer policy; the verdicts of a day read from the receipts.
  \<^item> \<open>DailyAllocation\<close>: one day from the ledgers to the published document, and the committer's reading of it.
  \<^item> \<open>CollateralFloor\<close>, \<open>CollateralGate\<close>: the floor schedule, the capture of alpha, the gate on the chain.
  \<^item> \<open>ReleaseLedger\<close>, \<open>MerkleFeed\<close>, \<open>IndexedMerkle\<close>: the release rule and its replay, the two trees.
  This theory imports them all and holds the property that joins the day's document to the release of models.

  \<^bold>\<open>State and operations.\<close> A class or a file of the program is a record named after it, a method or function a
  definition of the same name (with a prefix where a name clashes, as \<open>cf_observe_day\<close>); a part of a long
  function is a definition of its own, composed as the function composes it. Files are fields of the record
  of their directory: the ledger, the shadow days, the receipts with their indexes. A raise is the left
  injection of a sum (\<open>py_error\<close>); where the program writes before it raises, the error carries the state it
  leaves. The union-finds of \<open>CopySets\<close> and \<open>CopyDetection\<close> are partial functions with an optional result,
  and that they return is proved (\<open>restored_spec\<close>, \<open>components_ok\<close>, \<open>da_run_always_returns\<close>).

  \<^bold>\<open>What the lemmas show.\<close> For the day: nobody is paid past a gate, payment decisions move no standing and no
  champion, a dry run writes nothing and computes the same, every run returns, and every allocation is
  well formed. For copies: the first producer of a behaviour is the payee, a fingerprint is of exactly what
  its miner shows, lineage groups have a centre everybody is linked to and rest on running models only, and
  the payees restored are exactly the senior members of the sets left without one. For the ledgers: compaction and indexes are invisible to
  the readers, charges happen once, with exactly their entries, and can be cancelled without a trace. For the state machines:
  invariants of evictions, of the champion's seat, of releases and removals. For the curve and the
  averages: bounds with explicit rounding errors. For the trees: soundness and completeness of membership
  and absence proofs, with a collision of the hash as the only way out. Some theorems show that the code
  does not do what its documents say; the text before each of them says so.

  \<^bold>\<open>Bounds and fuel.\<close> The look-back of \<open>ref_back\<close> is the 45 days of the code; the depth of an indexed tree is a
  parameter. The bounds of the curve are for at most 1024 earners (the published number is 20).

  \<^bold>\<open>Parameters.\<close> \<open>powf\<close> stands for the floating-point power of the C library, \<open>H\<close> for SHA-256, \<open>dumps\<close> for the text
  \<open>json.dumps\<close> writes. Readings of the chain (coldkeys, commit blocks, alpha) are arguments. The outcome of the
  child process of the one-payer test is an argument: it failed with a reason, or it ran.

  \<^bold>\<open>Not modelled.\<close> NaN and infinities; I/O failures other than a missing file; logging; two processes on one
  ledger. The scorers of a forecast, the settlement that fetches outcomes (\<open>settle_day_flow.py\<close>), the
  orchestration of the loop (\<open>daily_loop.py\<close> beyond the document it writes, \<open>run_daily_pipeline.py\<close>), the runtime
  that talks to the chain, the servers, the container runner, the reports and the operator scripts: they
  are I/O around the functions above, or formulas that no decision modelled here rests on except through
  the score they write.
\<close>

section \<open>From the day's vector to the release of a model\<close>

text \<open>What the release ledger reads of \<open>intended_weights_<day>.json\<close> (\<open>day_inputs\<close> of
  \<open>release_ledger.py\<close>): a weight that is not a number is skipped, and so is a group that names no
  exclusions.\<close>

definition weight_read :: "json \<Rightarrow> rat option" where
  "weight_read x = (case num_of x of Inl e \<Rightarrow> None | Inr v \<Rightarrow> Some v)"

definition strings_of :: "json \<Rightarrow> string list" where
  "strings_of j = concat (map (\<lambda>x. case opt_string x of None \<Rightarrow> [] | Some s \<Rightarrow> [s]) (json_items j))"

definition weights_record_of :: "json \<Rightarrow> weights_record" where
  "weights_record_of doc =
     \<lparr>weights_record.weights = map (\<lambda>(hk, x). (hk, weight_read x)) (json_fields (jget doc ''weights'')),
      group_exclusions = map (\<lambda>g. strings_of (jget g ''excluded'')) (json_items (jget (jget doc ''collapse_audit'') ''groups'')),
      seat_holder = opt_string (jget doc ''champion'')\<rparr>"

lemma earner_step:
  "set (keys (fst (read_weight shadow_files day acc w))) \<subseteq> set (keys (fst acc)) \<union> {hk. \<exists>x. w = (hk, Some x) \<and> 0 < x}"
  by (cases acc; cases w) (auto simp: read_weight_def split: prod.splits option.splits if_splits)

lemma earners_paid:
  "set (keys (fst (foldl (read_weight shadow_files day) acc ws))) \<subseteq> set (keys (fst acc)) \<union> {hk. \<exists>x. (hk, Some x) \<in> set ws \<and> 0 < x}"
proof (induction ws arbitrary: acc)
  case (Cons w ws)
  from Cons [of "read_weight shadow_files day acc w"] earner_step [of shadow_files day acc w] show ?case
    unfolding foldl_Cons list.set(2) by blast
qed simp

lemma read_back: "map (\<lambda>(hk, x). (hk, weight_read x)) (json_fields (float_dict w)) = map (\<lambda>(hk, x). (hk, Some x)) w"
  by (simp add: float_dict_def weight_read_def num_of_def json_fields_def comp_def case_prod_unfold)

text \<open>C4. What the release of a model rests on. Read back by the release ledger, the document of any computed
  day gives earners that the day really paid and the champion it seated; but it gives no withheld copies
  at all, on any day, because the audit never has the key the reader looks for.\<close>

theorem release_sees_no_withheld_copies:
  assumes "allocation_from_ledger powf H dumps inherited failure environ W day volume min_daily curve promo chain persist = Some (Inr (L, S, al))"
  shows "\<exists>i. day_inputs (\<lambda>_. Some (weights_record_of (intended_weights day al))) shadow_files day = Some i \<and>
    (\<forall>hk \<in> set (keys (in_earning i)). \<exists>x. (hk, x) \<in> set (al_weights al) \<and> 0 < x) \<and>
    in_champion i = seat_of al \<and> in_withheld i = {}"
proof -
  let ?r = "weights_record_of (intended_weights day al)"
  have w: "weights_record.weights ?r = map (\<lambda>(hk, x). (hk, Some x)) (al_weights al)"
    by (simp add: weights_record_of_def intended_weights_def jget_JDict read_back)
  have g: "group_exclusions ?r = []" and c: "seat_holder ?r = seat_of al"
    using run_no_groups [OF assms]
    by (simp_all add: weights_record_of_def intended_weights_def jget_JDict json_items_def jopt_def opt_string_def split: option.splits)
  obtain earning refs where e: "foldl (read_weight shadow_files day) ([], []) (weights_record.weights ?r) = (earning, refs)" by fastforce
  have "\<exists>x. (hk, x) \<in> set (al_weights al) \<and> 0 < x" if "hk \<in> set (keys earning)" for hk
    using earners_paid [of shadow_files day "([], [])" "weights_record.weights ?r"] that unfolding e by (auto simp: w)
  then show ?thesis using e g c by (simp add: day_inputs_def)
qed

section \<open>The day of an empty ledger\<close>

lemma sample_reads_empty:
  "lineage_from_receipts (\<lambda>x y. 1) (\<lambda>_. []) sample_store 10 (\<lambda>_. None) = Some (Inr ([], []))"
  "one_payer_enabled (\<lambda>_. None) = False"
  "relative_enabled (\<lambda>_. None) 10 = False"
  "load_promotion_state empty_ledger = Inr cold_start"
  "chronic_failure_policy_enabled (\<lambda>_. None) = False"
  "participation_gate_enabled (\<lambda>_. None) = False"
  by code_simp+

lemma curve_default: "curve_in_force default_curve_params (\<lambda>_. None) 10 = default_curve_params"
  by code_simp

lemma sample_run:
  "\<exists>L S al. allocation_from_ledger (\<lambda>x y. 1) (\<lambda>_. 0) (\<lambda>_. []) (\<lambda>_. None) None (\<lambda>_. None) sample_world 10 0 None
     default_curve_params default_promotion_params no_chain True = Some (Inr (L, S, al))"
proof -
  have entries: "standing_entries_with_stats R empty_ledger 10 (\<lambda>_. None) since exclude = Inr ([], None)"
    "absolute_standings (\<lambda>x y. 1) R empty_ledger 10 (\<lambda>_. None) = Inr []" for R since exclude
    by (simp_all add: standing_entries_with_stats_def absolute_standings_def sample_reads_empty load_entries_def empty_ledger_def and_then_def)
  have nobody: "removed_hotkeys None d = {}" for d
    by (simp add: removed_hotkeys_def load_record_def empty_record_def Let_def)
  let ?st = "settings_in_force (\<lambda>_. None) 10 None default_curve_params default_promotion_params no_chain {} {} no_stats [] [] []"
  let ?m = "method_block (\<lambda>_. None) 10 (since_in_force (cst_standing sample_store) (\<lambda>_. None) 10) None (card (field_copies (\<lambda>_. None) 10 {} []))"
  have plain: "as_curve (?st ?m) = default_curve_params" "as_evicted (?st ?m) = {}" and cold: "champion cold_start = None"
    by (simp_all add: settings_in_force_def curve_default cold_start_def)
  have "\<exists>al. compute_daily_allocation (\<lambda>x y. 1) (\<lambda>_. None) [] 10 0 cold_start (?st ?m) = Some (Inr al)"
    by (rule compute_succeeds) (simp_all add: place_all_def plain cold)
  then obtain al where "compute_daily_allocation (\<lambda>x y. 1) (\<lambda>_. None) [] 10 0 cold_start (?st ?m) = Some (Inr al)" by blast
  then show ?thesis
    by (simp add: allocation_from_ledger_def sample_world_def copies_today_def sample_reads_empty raising_at_def entries Let_def
      evicted_today_def seat_in_force_def force_vacate_def participation_today_def nobody cold plain flag_emptied_def)
qed

text \<open>The day of an empty ledger.\<close>

theorem release_sees_no_withheld_copies_witness:
  "\<exists>L S al i. allocation_from_ledger (\<lambda>x y. 1) (\<lambda>_. 0) (\<lambda>_. []) (\<lambda>_. None) None (\<lambda>_. None) sample_world 10 0 None
       default_curve_params default_promotion_params no_chain True = Some (Inr (L, S, al)) \<and>
     day_inputs (\<lambda>_. Some (weights_record_of (intended_weights 10 al))) (\<lambda>_ _. None) 10 = Some i \<and> in_withheld i = {}"
proof -
  obtain L S al where r: "allocation_from_ledger (\<lambda>x y. 1) (\<lambda>_. 0) (\<lambda>_. []) (\<lambda>_. None) None (\<lambda>_. None) sample_world 10 0 None
       default_curve_params default_promotion_params no_chain True = Some (Inr (L, S, al))"
    using sample_run by blast
  from release_sees_no_withheld_copies [OF r, of "\<lambda>_ _. None"] r show ?thesis by blast
qed

end
